(* ===== verification/Prelude.thy ===== *)
theory Prelude
  imports Complex_Main "HOL-Library.AList" "HOL-Library.Sublist" "HOL-Library.Monad_Syntax"
    "HOL-Library.While_Combinator"
begin

text \<open>
  Shared vocabulary of the development: named collections of rewrite rules, decimal numerals as
  strings (\<^verbatim>\<open>`${i}`\<close> in the source), splitting a string at a separator
  (\<^verbatim>\<open>path.split("/")\<close>), insertion-ordered association lists, and the loop that follows
  parent links until it reaches a root.  Nothing here is specific to one component.
\<close>

named_theorems js_simps \<open>evaluation rules of the JavaScript value model\<close>
named_theorems path_simps \<open>evaluation rules of document paths\<close>
named_theorems patch_simps \<open>evaluation rules of patch application\<close>

section \<open>Decimal numerals\<close>

definition is_digit :: "char \<Rightarrow> bool" where
  "is_digit c \<longleftrightarrow> c \<in> set ''0123456789''"

definition digit_char :: "nat \<Rightarrow> char" where
  "digit_char n = ''0123456789'' ! (n mod 10)"

fun nat_str :: "nat \<Rightarrow> string" where
  "nat_str n = (if n < 10 then [digit_char n] else nat_str (n div 10) @ [digit_char (n mod 10)])"

declare nat_str.simps [simp del]

definition digit_val :: "char \<Rightarrow> nat" where
  "digit_val c = (if is_digit c then of_char c - 48 else 0)"

definition str_nat :: "string \<Rightarrow> nat" where
  "str_nat s = foldl (\<lambda>n c. 10 * n + digit_val c) 0 s"

text \<open>A fact about the digits is checked on the table of digits.\<close>

lemma below_ten: "(n::nat) < 10 \<Longrightarrow> n \<in> set (upt 0 10)"
  by simp

lemma digit_val_char [simp]: "n < 10 \<Longrightarrow> digit_val (digit_char n) = n"
  by (drule below_ten) (auto simp: digit_char_def digit_val_def is_digit_def upt_rec)

lemma is_digit_char [simp]: "is_digit (digit_char n)"
proof -
  have "n mod 10 < 10" by simp
  then show ?thesis
    by (drule_tac below_ten) (auto simp: digit_char_def is_digit_def upt_rec)
qed

lemma is_digit_not_special:
  "is_digit c \<Longrightarrow> c \<noteq> CHR ''/'' \<and> c \<noteq> CHR ''~'' \<and> c \<noteq> CHR ''-'' \<and> c \<noteq> CHR '' ''"
  by (auto simp: is_digit_def)

lemma nat_str_digits: "list_all is_digit (nat_str n)"
proof (induction n rule: nat_str.induct)
  case (1 n)
  then show ?case by (subst nat_str.simps) simp
qed

lemma nat_str_not_Nil [simp]: "nat_str n \<noteq> []"
  by (subst nat_str.simps) simp

lemma nat_str_chars: "c \<in> set (nat_str n) \<Longrightarrow> is_digit c"
  using nat_str_digits by (simp add: list_all_iff)

lemma nat_str_no_slash [simp]: "CHR ''/'' \<notin> set (nat_str n)"
  using nat_str_chars is_digit_not_special by blast

lemma nat_str_no_tilde [simp]: "CHR ''~'' \<notin> set (nat_str n)"
  using nat_str_chars is_digit_not_special by blast

lemma str_nat_snoc: "str_nat (s @ [c]) = 10 * str_nat s + digit_val c"
  by (simp add: str_nat_def)

lemma str_nat_nat_str [simp]: "str_nat (nat_str n) = n"
proof (induction n rule: nat_str.induct)
  case (1 n)
  show ?case
  proof (cases "n < 10")
    case True
    then show ?thesis by (subst nat_str.simps) (simp add: str_nat_def)
  next
    case False
    with "1.IH" have "str_nat (nat_str (n div 10)) = n div 10" by simp
    moreover from False have
      "str_nat (nat_str n) = 10 * str_nat (nat_str (n div 10)) + n mod 10"
      by (subst nat_str.simps) (simp add: str_nat_snoc)
    ultimately show ?thesis by simp
  qed
qed

lemma nat_str_inject [simp]: "nat_str m = nat_str n \<longleftrightarrow> m = n"
  using str_nat_nat_str by metis

section \<open>String prefixes\<close>

definition starts_with :: "string \<Rightarrow> string \<Rightarrow> bool" where
  "starts_with s p \<longleftrightarrow> take (length p) s = p"

lemma starts_with_append [simp]: "starts_with (p @ s) p"
  by (simp add: starts_with_def)

lemma starts_with_Nil [simp]: "starts_with s []"
  by (simp add: starts_with_def)

lemma starts_with_simps [simp]:
  "\<not> starts_with [] (c # p)" "starts_with (c # s) (d # p) \<longleftrightarrow> c = d \<and> starts_with s p"
  by (auto simp: starts_with_def)

section \<open>Splitting a string at a separator\<close>

fun split_on :: "char \<Rightarrow> string \<Rightarrow> string list" where
  "split_on c [] = [[]]"
| "split_on c (x # xs) =
     (if x = c then [] # split_on c xs
      else (case split_on c xs of [] \<Rightarrow> [[x]] | y # ys \<Rightarrow> (x # y) # ys))"

lemma split_on_not_Nil [simp]: "split_on c s \<noteq> []"
  by (induction s) (auto split: list.splits)

lemma split_on_plain [simp]: "c \<notin> set s \<Longrightarrow> split_on c s = [s]"
  by (induction s) auto

lemma split_on_append_sep: "split_on c (s @ c # t) = split_on c s @ split_on c t"
  by (induction s) (auto split: list.splits)

lemma split_on_last_plain: "c \<notin> set t \<Longrightarrow> split_on c (s @ c # t) = split_on c s @ [t]"
  by (simp add: split_on_append_sep)

lemma split_on_parts: "t \<in> set (split_on c s) \<Longrightarrow> c \<notin> set t"
  by (induction s arbitrary: t) (auto split: list.splits if_splits)

section \<open>Following links until there is none\<close>

text \<open>
  Several loops of the source follow one link per iteration and collect what they pass:
  \<^verbatim>\<open>while (cursor) { path.push(...); cursor = ...parentId }\<close>.  They do not return when the
  links form a cycle, which is \<^const>\<open>None\<close> here.
\<close>

partial_function (option) chain :: "('c \<Rightarrow> ('a \<times> 'c) option) \<Rightarrow> 'c \<Rightarrow> 'a list option" where
  "chain step c =
     (case step c of
        None \<Rightarrow> Some []
      | Some (x, c') \<Rightarrow> Option.bind (chain step c') (\<lambda>xs. Some (x # xs)))"

lemma chain_None [simp]: "step c = None \<Longrightarrow> chain step c = Some []"
  by (subst chain.simps) simp

lemma chain_Some: "step c = Some (x, c') \<Longrightarrow> chain step c = map_option (Cons x) (chain step c')"
  by (subst chain.simps) (simp add: map_conv_bind_option comp_def)

lemma chain_terminates:
  assumes "\<And>c x c'. step c = Some (x, c') \<Longrightarrow> rank c' < (rank c :: nat)"
  shows "\<exists>xs. chain step c = Some xs \<and> length xs \<le> rank c"
proof (induction "rank c" arbitrary: c rule: less_induct)
  case less
  show ?case
  proof (cases "step c")
    case None
    then show ?thesis by simp
  next
    case (Some p)
    obtain x c' where p: "p = (x, c')" by (cases p)
    with Some have lt: "rank c' < rank c" by (auto intro: assms)
    then obtain xs where "chain step c' = Some xs" "length xs \<le> rank c'"
      using less by blast
    with Some p lt show ?thesis by (simp add: chain_Some)
  qed
qed

text \<open>A link that stays inside a set of cursors never reaches a root.\<close>

lemma chain_diverges:
  assumes closed: "\<And>c. c \<in> S \<Longrightarrow> \<exists>x c'. step c = Some (x, c') \<and> c' \<in> S"
    and start: "c \<in> S"
  shows "chain step c = None"
proof (rule ccontr)
  assume "chain step c \<noteq> None"
  then obtain xs where "chain step c = Some xs" by blast
  then show False using start
  proof (induction xs arbitrary: c)
    case Nil
    with closed[of c] show ?case by (auto simp: chain_Some)
  next
    case (Cons y ys)
    from closed[OF Cons.prems(2)] obtain x c' where s: "step c = Some (x, c')" "c' \<in> S" by blast
    with Cons.prems(1) have "chain step c' = Some ys" by (auto simp: chain_Some)
    with s(2) show ?case using Cons.IH by blast
  qed
qed

lemma chain_cong_on:
  assumes "\<And>c. c \<in> S \<Longrightarrow> step c = step' c"
    and "\<And>c x c'. c \<in> S \<Longrightarrow> step c = Some (x, c') \<Longrightarrow> c' \<in> S"
    and "c \<in> S"
  shows "chain step c = Some xs \<Longrightarrow> chain step' c = Some xs"
  using assms(3)
proof (induction xs arbitrary: c)
  case Nil
  then have "step c = None"
    by (cases "step c") (auto simp: chain_Some)
  with assms(1)[OF Nil.prems(2)] show ?case by simp
next
  case (Cons y ys)
  then obtain c' where s: "step c = Some (y, c')" and r: "chain step c' = Some ys"
    by (cases "step c") (auto simp: chain_Some)
  from Cons.IH[OF r] assms(2)[OF Cons.prems(2) s] have "chain step' c' = Some ys" by blast
  moreover from s assms(1)[OF Cons.prems(2)] have "step' c = Some (y, c')" by simp
  ultimately show ?case by (simp add: chain_Some)
qed

section \<open>Insertion-ordered association lists\<close>

lemma map_of_AList_update [simp]:
  "map_of (AList.update k v al) k' = (if k' = k then Some v else map_of al k')"
  by (simp add: AList.update_conv')

lemma map_of_AList_delete [simp]:
  "map_of (AList.delete k al) k' = (if k' = k then None else map_of al k')"
  by (simp add: AList.delete_conv')

lemma keys_AList_update [simp]:
  "map fst (AList.update k v al) =
     (if k \<in> set (map fst al) then map fst al else map fst al @ [k])"
  by (induction al) auto

lemma keys_AList_delete [simp]: "map fst (AList.delete k al) = removeAll k (map fst al)"
  by (induction al) (auto simp: AList.delete_eq)

lemma AList_update_update [simp]:
  "AList.update k v (AList.update k w al) = AList.update k v al"
  by (induction al) auto

lemma AList_update_same: "map_of al k = Some v \<Longrightarrow> AList.update k v al = al"
  by (induction al) (auto split: if_splits)

lemma in_keys_map_of: "k \<in> set (map fst al) \<longleftrightarrow> map_of al k \<noteq> None"
  by (simp add: map_of_eq_None_iff)

end
