(* ===== verification/JsValue.thy ===== *)
theory JsValue
  imports Prelude
begin

text \<open>
  The JavaScript values the bridge manipulates.  The source works on plain objects through casts
  (\<^verbatim>\<open>AnyRecord\<close>, \<^verbatim>\<open>as unknown as JsonValue\<close>), so documents, entries, content blocks and messages
  are one datatype here, with \<^verbatim>\<open>undefined\<close> as a value of its own because the code distinguishes
  it from \<^verbatim>\<open>null\<close>.  Objects are insertion-ordered association lists of own properties; the order
  in which JavaScript enumerates them (integer-like keys first) is \<open>own_keys\<close>.  Numbers are
  exact rationals, strings are lists of characters.  The theory ends with the property reads and
  writes, \<^verbatim>\<open>JSON.parse(JSON.stringify(v))\<close>, and structural sameness up to key order.
\<close>

section \<open>Values\<close>

datatype jsv =
    JUndef
  | JNull
  | JBool bool
  | JNum rat
  | JStr string
  | JArr "jsv list"
  | JObj "(string \<times> jsv) list"

type_synonym props = "(string \<times> jsv) list"

lemma size_props_less [termination_simp]:
  "(k, v) \<in> set ps \<Longrightarrow> size (v::jsv) < Suc (size_list (size_prod (\<lambda>_. 0) size) ps)"
  by (induction ps) auto

lemma size_props_snd_less [termination_simp]:
  "p \<in> set ps \<Longrightarrow> size (snd p :: jsv) < Suc (size_list (size_prod (\<lambda>_. 0) size) ps)"
  using size_props_less[of "fst p" "snd p" ps] by simp

lemma size_map_of_less [termination_simp]:
  "map_of ps k = Some v \<Longrightarrow> size (v::jsv) < Suc (size_list (size_prod (\<lambda>_. 0) size) ps)"
  by (rule size_props_less[OF map_of_SomeD])

fun is_str :: "jsv \<Rightarrow> bool" where
  "is_str (JStr _) = True" | "is_str _ = False"

fun is_num :: "jsv \<Rightarrow> bool" where
  "is_num (JNum _) = True" | "is_num _ = False"

fun is_bool :: "jsv \<Rightarrow> bool" where
  "is_bool (JBool _) = True" | "is_bool _ = False"

fun is_arr :: "jsv \<Rightarrow> bool" where
  "is_arr (JArr _) = True" | "is_arr _ = False"

fun is_obj :: "jsv \<Rightarrow> bool" where
  "is_obj (JObj _) = True" | "is_obj _ = False"

text \<open>\<^verbatim>\<open>v == null\<close> and \<^verbatim>\<open>a ?? b\<close>.\<close>

definition nullish :: "jsv \<Rightarrow> bool" where
  "nullish v \<longleftrightarrow> v = JUndef \<or> v = JNull"

definition coalesce :: "jsv \<Rightarrow> jsv \<Rightarrow> jsv" where
  "coalesce a b = (if nullish a then b else a)"

lemma nullish_simps [simp]:
  "nullish JUndef" "nullish JNull" "\<not> nullish (JBool b)" "\<not> nullish (JNum n)"
  "\<not> nullish (JStr s)" "\<not> nullish (JArr vs)" "\<not> nullish (JObj ps)"
  by (auto simp: nullish_def)

lemma coalesce_simps [simp]:
  "coalesce JUndef b = b" "coalesce JNull b = b" "coalesce (JBool c) b = JBool c"
  "coalesce (JNum n) b = JNum n" "coalesce (JStr s) b = JStr s"
  "coalesce (JArr vs) b = JArr vs" "coalesce (JObj ps) b = JObj ps"
  by (auto simp: coalesce_def)

fun truthy :: "jsv \<Rightarrow> bool" where
  "truthy JUndef = False"
| "truthy JNull = False"
| "truthy (JBool b) = b"
| "truthy (JNum n) = (n \<noteq> 0)"
| "truthy (JStr s) = (s \<noteq> [])"
| "truthy (JArr _) = True"
| "truthy (JObj _) = True"

text \<open>The number a field holds; the code adds and compares such fields after a type-level check.\<close>

fun num_of :: "jsv \<Rightarrow> rat" where
  "num_of (JNum n) = n" | "num_of _ = 0"

fun str_of :: "jsv \<Rightarrow> string" where
  "str_of (JStr s) = s" | "str_of _ = []"

fun arr_of :: "jsv \<Rightarrow> jsv list" where
  "arr_of (JArr vs) = vs" | "arr_of _ = []"

fun props_of :: "jsv \<Rightarrow> props" where
  "props_of (JObj ps) = ps" | "props_of _ = []"

section \<open>Keys\<close>

text \<open>
  A canonical numeric string is the decimal spelling of a natural number; only such a string names
  an array element when it is used as a property key.  \<open>is_index\<close> adds the bound on the keys that
  JavaScript enumerates first.
\<close>

definition canon_nat :: "string \<Rightarrow> bool" where
  "canon_nat k \<longleftrightarrow> nat_str (str_nat k) = k"

lemma canon_nat_nat_str [simp]: "canon_nat (nat_str n)"
  by (simp add: canon_nat_def)

lemma canon_nat_digits: "canon_nat k \<Longrightarrow> list_all is_digit k"
  unfolding canon_nat_def by (metis nat_str_digits)

lemma not_canon_nat [js_simps]: "\<not> is_digit c \<Longrightarrow> \<not> canon_nat (c # cs)"
  using canon_nat_digits by fastforce

lemma not_canon_nat_Nil [simp]: "\<not> canon_nat []"
  by (simp add: canon_nat_def)

definition is_index :: "string \<Rightarrow> bool" where
  "is_index k \<longleftrightarrow> canon_nat k \<and> str_nat k < 4294967295"

lemma not_is_index [js_simps]: "\<not> is_digit c \<Longrightarrow> \<not> is_index (c # cs)"
  by (simp add: is_index_def not_canon_nat)

text \<open>Enumeration order of own properties: integer-like keys ascending, the rest as inserted.\<close>

definition own_keys :: "props \<Rightarrow> string list" where
  "own_keys ps = sort_key str_nat (filter is_index (map fst ps)) @
     filter (\<lambda>k. \<not> is_index k) (map fst ps)"

definition own_entries :: "props \<Rightarrow> props" where
  "own_entries ps = sort_key (str_nat \<circ> fst) (filter (is_index \<circ> fst) ps) @
     filter (\<lambda>p. \<not> is_index (fst p)) ps"

lemma set_own_keys [simp]: "set (own_keys ps) = fst ` set ps"
  by (auto simp: own_keys_def)

lemma set_own_entries [simp]: "set (own_entries ps) = set ps"
  by (auto simp: own_entries_def)

lemma distinct_own_keys: "distinct (map fst ps) \<Longrightarrow> distinct (own_keys ps)"
  by (auto simp: own_keys_def)

lemma own_keys_Nil [simp]: "own_keys [] = []"
  by (simp add: own_keys_def)

lemma own_entries_Nil [simp]: "own_entries [] = []"
  by (simp add: own_entries_def)

lemma own_entries_plain: "list_all (\<lambda>p. \<not> is_index (fst p)) ps \<Longrightarrow> own_entries ps = ps"
  by (simp add: own_entries_def list_all_iff)

lemma insort_key_map_fst:
  "map fst (insort_key (\<lambda>x. f (fst x)) y xs) = insort_key f (fst y) (map fst xs)"
  by (induction xs) auto

lemma map_fst_sort_key: "map fst (sort_key (\<lambda>x. f (fst x)) ps) = sort_key f (map fst ps)"
  by (induction ps) (simp_all add: insort_key_map_fst)

lemma map_fst_own_entries: "map fst (own_entries ps) = own_keys ps"
  by (simp add: own_entries_def own_keys_def map_fst_sort_key filter_map comp_def)

lemma distinct_own_entries:
  "distinct (map fst ps) \<Longrightarrow> distinct (map fst (own_entries ps))"
  by (simp add: map_fst_own_entries distinct_own_keys)

lemma map_of_own_entries:
  assumes "distinct (map fst ps)"
  shows "map_of (own_entries ps) = map_of ps"
  using assms by (intro map_of_inject_set[THEN iffD2]) (simp_all add: distinct_own_entries)

section \<open>Property reads and writes\<close>

text \<open>
  \<^verbatim>\<open>v[k]\<close> and \<^verbatim>\<open>v?.k\<close>: own properties of objects, elements and length of arrays and strings.  On
  \<^verbatim>\<open>null\<close> and \<^verbatim>\<open>undefined\<close> the optional read gives \<^verbatim>\<open>undefined\<close>; the source reads without
  \<^verbatim>\<open>?.\<close> only where its types exclude both.
\<close>

fun jget :: "jsv \<Rightarrow> string \<Rightarrow> jsv" where
  "jget (JObj ps) k = (case map_of ps k of None \<Rightarrow> JUndef | Some v \<Rightarrow> v)"
| "jget (JArr vs) k =
     (if canon_nat k \<and> str_nat k < length vs then vs ! str_nat k
      else if k = ''length'' then JNum (of_nat (length vs)) else JUndef)"
| "jget (JStr s) k =
     (if canon_nat k \<and> str_nat k < length s then JStr [s ! str_nat k]
      else if k = ''length'' then JNum (of_nat (length s)) else JUndef)"
| "jget _ k = JUndef"

fun jhas :: "jsv \<Rightarrow> string \<Rightarrow> bool" where
  "jhas (JObj ps) k = (map_of ps k \<noteq> None)"
| "jhas _ k = False"

text \<open>\<^verbatim>\<open>{ ...v, [k]: x }\<close> and \<^verbatim>\<open>delete\<close> on a copied object.\<close>

fun jset :: "string \<Rightarrow> jsv \<Rightarrow> jsv \<Rightarrow> jsv" where
  "jset k x (JObj ps) = JObj (AList.update k x ps)"
| "jset k x v = v"

fun jdel :: "string \<Rightarrow> jsv \<Rightarrow> jsv" where
  "jdel k (JObj ps) = JObj (AList.delete k ps)"
| "jdel k v = v"

lemma jget_jset [simp]:
  "is_obj v \<Longrightarrow> jget (jset k x v) k' = (if k' = k then x else jget v k')"
  by (cases v) auto

lemma jget_jdel [simp]:
  "is_obj v \<Longrightarrow> jget (jdel k v) k' = (if k' = k then JUndef else jget v k')"
  by (cases v) auto

lemma is_obj_jset [simp]: "is_obj (jset k x v) = is_obj v"
  by (cases v) auto

lemma is_obj_jdel [simp]: "is_obj (jdel k v) = is_obj v"
  by (cases v) auto

lemma jhas_jset [simp]: "is_obj v \<Longrightarrow> jhas (jset k x v) k' = (k' = k \<or> jhas v k')"
  by (cases v) auto

lemma jhas_jdel [simp]: "is_obj v \<Longrightarrow> jhas (jdel k v) k' = (k' \<noteq> k \<and> jhas v k')"
  by (cases v) auto

lemma jget_absent: "is_obj v \<Longrightarrow> \<not> jhas v k \<Longrightarrow> jget v k = JUndef"
  by (cases v) auto

lemma jset_jset [simp]: "jset k x (jset k y v) = jset k x v"
  by (cases v) auto

text \<open>\<^verbatim>\<open>Object.keys\<close>, \<^verbatim>\<open>Object.entries\<close> and \<^verbatim>\<open>Object.values\<close> of an object.\<close>

definition js_keys :: "jsv \<Rightarrow> string list" where
  "js_keys v = own_keys (props_of v)"

definition js_entries :: "jsv \<Rightarrow> props" where
  "js_entries v = own_entries (props_of v)"

definition js_values :: "jsv \<Rightarrow> jsv list" where
  "js_values v = map snd (js_entries v)"

subsection \<open>Array elements\<close>

text \<open>
  \<^verbatim>\<open>Number(s)\<close> on the keys that occur in paths: the empty string is zero, an optionally signed
  digit string is its value, anything else is \<^verbatim>\<open>NaN\<close> (\<^const>\<open>None\<close>).  Spellings with blanks,
  fractions, exponents or radix prefixes are not distinguished from \<^verbatim>\<open>NaN\<close>.
\<close>

definition js_Number :: "string \<Rightarrow> int option" where
  "js_Number s =
     (if s = [] then Some 0
      else if list_all is_digit s then Some (int (str_nat s))
      else if hd s = CHR ''-'' \<and> tl s \<noteq> [] \<and> list_all is_digit (tl s)
           then Some (- int (str_nat (tl s)))
      else None)"

lemma js_Number_nat_str [simp]: "js_Number (nat_str n) = Some (int n)"
  by (simp add: js_Number_def nat_str_digits)

text \<open>
  \<^verbatim>\<open>clone[idx] = v\<close>: past the end the array grows and the skipped positions read as
  \<^verbatim>\<open>undefined\<close>; an index that is not a natural number names a property outside the elements.
\<close>

definition array_put :: "jsv list \<Rightarrow> nat \<Rightarrow> jsv \<Rightarrow> jsv list" where
  "array_put vs i v =
     (if i < length vs then vs[i := v] else vs @ replicate (i - length vs) JUndef @ [v])"

definition array_assign :: "jsv list \<Rightarrow> int option \<Rightarrow> jsv \<Rightarrow> jsv list" where
  "array_assign vs idx v =
     (case idx of Some i \<Rightarrow> if 0 \<le> i then array_put vs (nat i) v else vs | None \<Rightarrow> vs)"

definition array_at :: "jsv list \<Rightarrow> int option \<Rightarrow> jsv" where
  "array_at vs idx =
     (case idx of Some i \<Rightarrow> if 0 \<le> i \<and> nat i < length vs then vs ! nat i else JUndef
      | None \<Rightarrow> JUndef)"

text \<open>\<^verbatim>\<open>splice(idx, 1)\<close>: \<^verbatim>\<open>NaN\<close> counts as 0, a negative start counts from the end.\<close>

definition array_splice1 :: "jsv list \<Rightarrow> int option \<Rightarrow> jsv list" where
  "array_splice1 vs idx =
     (let i = (case idx of None \<Rightarrow> 0 | Some i \<Rightarrow> i);
          n = (if i < 0 then nat (max 0 (int (length vs) + i)) else nat i)
      in take n vs @ drop (Suc n) vs)"

lemma array_put_inside [simp]: "i < length vs \<Longrightarrow> array_put vs i v = vs[i := v]"
  by (simp add: array_put_def)

lemma array_put_end [simp]: "array_put vs (length vs) v = vs @ [v]"
  by (simp add: array_put_def)

lemma nth_array_put: "array_put vs i v ! i = v"
  by (simp add: array_put_def nth_append)

lemma length_array_put: "length (array_put vs i v) = max (length vs) (Suc i)"
  by (auto simp: array_put_def)

section \<open>JSON\<close>

text \<open>The type \<^verbatim>\<open>JsonValue\<close>: no \<^verbatim>\<open>undefined\<close> anywhere.\<close>

fun is_JsonValue :: "jsv \<Rightarrow> bool" where
  "is_JsonValue JUndef = False"
| "is_JsonValue (JArr vs) = list_all is_JsonValue vs"
| "is_JsonValue (JObj ps) = list_all (\<lambda>p. is_JsonValue (snd p)) ps"
| "is_JsonValue _ = True"

text \<open>
  \<^verbatim>\<open>JSON.parse(JSON.stringify(v))\<close> of a value other than \<^verbatim>\<open>undefined\<close>: properties holding
  \<^verbatim>\<open>undefined\<close> disappear, \<^verbatim>\<open>undefined\<close> array elements become \<^verbatim>\<open>null\<close>, and keys come back in
  enumeration order.
\<close>

fun json_norm :: "jsv \<Rightarrow> jsv" where
  "json_norm JUndef = JNull"
| "json_norm (JArr vs) = JArr (map json_norm vs)"
| "json_norm (JObj ps) =
     JObj (own_entries (map (\<lambda>p. (fst p, json_norm (snd p))) (filter (\<lambda>p. snd p \<noteq> JUndef) ps)))"
| "json_norm v = v"

definition jsonValue :: "jsv \<Rightarrow> jsv" where
  "jsonValue v = (if v = JUndef then JNull else json_norm v)"

lemma is_JsonValue_json_norm [simp]: "is_JsonValue (json_norm v)"
  by (induction v rule: json_norm.induct) (auto simp: list_all_iff)

lemma is_JsonValue_jsonValue [simp]: "is_JsonValue (jsonValue v)"
  by (simp add: jsonValue_def)

section \<open>Well-formed values and sameness up to key order\<close>

fun wf_jsv :: "jsv \<Rightarrow> bool" where
  "wf_jsv (JArr vs) = list_all wf_jsv vs"
| "wf_jsv (JObj ps) = (distinct (map fst ps) \<and> list_all (\<lambda>p. wf_jsv (snd p)) ps)"
| "wf_jsv _ = True"

lemma size_zip_less [termination_simp]:
  "p \<in> set (zip xs ys) \<Longrightarrow> size (fst p :: jsv) < Suc (size_list size xs)"
  by (induction xs ys rule: list_induct2') auto

fun js_same :: "jsv \<Rightarrow> jsv \<Rightarrow> bool" where
  "js_same (JArr xs) (JArr ys) =
     (length xs = length ys \<and> (\<forall>p \<in> set (zip xs ys). js_same (fst p) (snd p)))"
| "js_same (JObj ps) (JObj qs) =
     (fst ` set ps = fst ` set qs \<and>
      (\<forall>p \<in> set ps. case map_of qs (fst p) of None \<Rightarrow> False | Some w \<Rightarrow> js_same (snd p) w))"
| "js_same v w = (v = w)"

lemma wf_jget: "wf_jsv v \<Longrightarrow> wf_jsv (jget v k)"
  by (cases v) (auto split: option.splits simp: list_all_iff dest: map_of_SomeD)

lemma set_zip_same: "p \<in> set (zip xs xs) \<Longrightarrow> fst p = snd p \<and> snd p \<in> set xs"
  by (induction xs) auto

lemma js_same_refl: "wf_jsv v \<Longrightarrow> js_same v v"
proof (induction v rule: wf_jsv.induct)
  case (1 vs)
  have "js_same (fst p) (snd p)" if "p \<in> set (zip vs vs)" for p
    using that 1 by (auto dest: set_zip_same simp: list_all_iff)
  then show ?case by simp
next
  case (2 ps)
  have "map_of ps (fst p) = Some (snd p) \<and> js_same (snd p) (snd p)" if "p \<in> set ps" for p
    using that 2 by (auto simp: list_all_iff)
  then show ?case by (simp add: Ball_def)
qed auto

end
