(* ===== verification/Types.thy ===== *)
theory Types
  imports JsValue
begin

text \<open>
  The wire types of \<^verbatim>\<open>packages/bridge/src/core/types.ts\<close>.  Values that the code builds and patches as
  plain objects keep that form (\<^typ>\<open>jsv\<close>), and each TypeScript interface becomes the executable
  predicate that says which values conform to it; the types of pi's session entries, which the
  bridge projects, are given the same way.  Patch operations, cursors, session references and
  frames, which the code only takes apart, are datatypes and records.  The lazy field paths close
  the theory: the loops that climb a path until no slash is left do not return on every path, so
  they are partial functions into \<^typ>\<open>'a option\<close>.
\<close>

section \<open>Shapes of optional and nullable fields\<close>

definition opt :: "(jsv \<Rightarrow> bool) \<Rightarrow> jsv \<Rightarrow> bool" where
  "opt P v \<longleftrightarrow> v = JUndef \<or> P v"

definition nullable :: "(jsv \<Rightarrow> bool) \<Rightarrow> jsv \<Rightarrow> bool" where
  "nullable P v \<longleftrightarrow> v = JNull \<or> P v"

definition arr_all :: "(jsv \<Rightarrow> bool) \<Rightarrow> jsv \<Rightarrow> bool" where
  "arr_all P v \<longleftrightarrow> is_arr v \<and> list_all P (arr_of v)"

lemma opt_simps [simp]: "opt P JUndef" "P v \<Longrightarrow> opt P v"
  by (auto simp: opt_def)

lemma nullable_simps [simp]: "nullable P JNull" "P v \<Longrightarrow> nullable P v"
  by (auto simp: nullable_def)

lemma arr_all_JArr [simp]: "arr_all P (JArr vs) = list_all P vs"
  by (simp add: arr_all_def)

section \<open>Content blocks\<close>

definition is_TextContent :: "jsv \<Rightarrow> bool" where
  "is_TextContent v \<longleftrightarrow> is_obj v \<and> jget v ''type'' = JStr ''text'' \<and> is_str (jget v ''text'') \<and>
     opt is_str (jget v ''textSignature'')"

definition is_ThinkingContent :: "jsv \<Rightarrow> bool" where
  "is_ThinkingContent v \<longleftrightarrow> is_obj v \<and> jget v ''type'' = JStr ''thinking'' \<and>
     nullable is_str (jget v ''thinking'') \<and> opt is_str (jget v ''thinkingSignature'') \<and>
     opt is_bool (jget v ''redacted'')"

definition is_ImageContent :: "jsv \<Rightarrow> bool" where
  "is_ImageContent v \<longleftrightarrow> is_obj v \<and> jget v ''type'' = JStr ''image'' \<and> is_str (jget v ''data'') \<and>
     is_str (jget v ''mimeType'')"

definition is_ToolCallBlock :: "jsv \<Rightarrow> bool" where
  "is_ToolCallBlock v \<longleftrightarrow> is_obj v \<and> jget v ''type'' = JStr ''toolCall'' \<and> is_str (jget v ''id'') \<and>
     is_str (jget v ''name'') \<and> nullable is_JsonValue (jget v ''arguments'') \<and>
     opt is_str (jget v ''thoughtSignature'')"

definition is_Content :: "jsv \<Rightarrow> bool" where
  "is_Content v \<longleftrightarrow> is_TextContent v \<or> is_ThinkingContent v \<or> is_ImageContent v \<or> is_ToolCallBlock v"

definition is_Usage :: "jsv \<Rightarrow> bool" where
  "is_Usage v \<longleftrightarrow> is_obj v \<and> is_num (jget v ''input'') \<and> is_num (jget v ''output'') \<and>
     is_num (jget v ''cacheRead'') \<and> is_num (jget v ''cacheWrite'') \<and>
     is_num (jget v ''totalTokens'') \<and>
     (let c = jget v ''cost'' in is_obj c \<and> is_num (jget c ''input'') \<and> is_num (jget c ''output'') \<and>
        is_num (jget c ''cacheRead'') \<and> is_num (jget c ''cacheWrite'') \<and> is_num (jget c ''total''))"

section \<open>Entries\<close>

definition is_EntryBase :: "jsv \<Rightarrow> bool" where
  "is_EntryBase v \<longleftrightarrow> is_obj v \<and> is_str (jget v ''id'') \<and> nullable is_str (jget v ''parentId'') \<and>
     is_str (jget v ''timestamp'') \<and> opt is_bool (jget v ''isSealed'') \<and> opt is_num (jget v ''ord'')"

text \<open>The one lifecycle predicate: absent means sealed.\<close>

definition isEntrySealed :: "jsv \<Rightarrow> bool" where
  "isEntrySealed v \<longleftrightarrow> jget v ''isSealed'' \<noteq> JBool False"

definition is_MessageEntry :: "jsv \<Rightarrow> bool" where
  "is_MessageEntry v \<longleftrightarrow> is_EntryBase v \<and> jget v ''kind'' = JStr ''message'' \<and>
     jget v ''role'' \<in> {JStr ''user'', JStr ''assistant'', JStr ''system''} \<and>
     arr_all is_Content (jget v ''content'') \<and>
     opt (arr_all is_str) (jget v ''sectionNames'') \<and>
     opt (arr_all is_str) (jget v ''removedSectionNames'') \<and>
     opt (nullable is_JsonValue) (jget v ''sections'') \<and>
     opt is_str (jget v ''api'') \<and> opt is_str (jget v ''provider'') \<and> opt is_str (jget v ''model'') \<and>
     opt (nullable is_str) (jget v ''responseModel'') \<and> opt (nullable is_str) (jget v ''responseId'') \<and>
     opt is_Usage (jget v ''usage'') \<and> opt is_str (jget v ''stopReason'') \<and>
     opt (nullable is_str) (jget v ''errorMessage'') \<and> opt (nullable is_num) (jget v ''durationMs'')"

definition is_ToolResultEntry :: "jsv \<Rightarrow> bool" where
  "is_ToolResultEntry v \<longleftrightarrow> is_EntryBase v \<and> jget v ''kind'' = JStr ''tool_result'' \<and>
     is_str (jget v ''toolCallId'') \<and> is_str (jget v ''toolName'') \<and>
     nullable (arr_all is_Content) (jget v ''content'') \<and>
     nullable is_JsonValue (jget v ''details'') \<and> is_bool (jget v ''isError'') \<and>
     opt (nullable is_num) (jget v ''durationMs'')"

definition is_CompactionEntry :: "jsv \<Rightarrow> bool" where
  "is_CompactionEntry v \<longleftrightarrow> is_EntryBase v \<and> jget v ''kind'' = JStr ''compaction'' \<and>
     is_str (jget v ''summary'') \<and> is_str (jget v ''firstKeptEntryId'') \<and>
     is_num (jget v ''tokensBefore'') \<and> nullable is_JsonValue (jget v ''details'') \<and>
     is_bool (jget v ''fromHook'')"

definition is_BranchSummaryEntry :: "jsv \<Rightarrow> bool" where
  "is_BranchSummaryEntry v \<longleftrightarrow> is_EntryBase v \<and> jget v ''kind'' = JStr ''branch_summary'' \<and>
     is_str (jget v ''fromId'') \<and> is_str (jget v ''summary'') \<and>
     nullable is_JsonValue (jget v ''details'') \<and> is_bool (jget v ''fromHook'')"

definition is_ModelChangeEntry :: "jsv \<Rightarrow> bool" where
  "is_ModelChangeEntry v \<longleftrightarrow> is_EntryBase v \<and> jget v ''kind'' = JStr ''model_change'' \<and>
     is_str (jget v ''provider'') \<and> is_str (jget v ''modelId'')"

definition is_ThinkingLevelChangeEntry :: "jsv \<Rightarrow> bool" where
  "is_ThinkingLevelChangeEntry v \<longleftrightarrow> is_EntryBase v \<and>
     jget v ''kind'' = JStr ''thinking_level_change'' \<and> is_str (jget v ''thinkingLevel'')"

definition is_LabelEntry :: "jsv \<Rightarrow> bool" where
  "is_LabelEntry v \<longleftrightarrow> is_EntryBase v \<and> jget v ''kind'' = JStr ''label'' \<and>
     is_str (jget v ''targetId'') \<and> opt is_str (jget v ''label'')"

definition is_SessionInfoEntry :: "jsv \<Rightarrow> bool" where
  "is_SessionInfoEntry v \<longleftrightarrow> is_EntryBase v \<and> jget v ''kind'' = JStr ''session_info'' \<and>
     opt is_str (jget v ''name'')"

definition is_CustomEntry :: "jsv \<Rightarrow> bool" where
  "is_CustomEntry v \<longleftrightarrow> is_EntryBase v \<and> jget v ''kind'' = JStr ''custom'' \<and>
     is_str (jget v ''customType'') \<and> nullable is_JsonValue (jget v ''data'')"

definition is_CustomMessageEntry :: "jsv \<Rightarrow> bool" where
  "is_CustomMessageEntry v \<longleftrightarrow> is_EntryBase v \<and> jget v ''kind'' = JStr ''custom_message'' \<and>
     is_str (jget v ''customType'') \<and> nullable (arr_all is_Content) (jget v ''content'') \<and>
     nullable is_JsonValue (jget v ''details'') \<and> is_bool (jget v ''display'')"

definition is_UnknownEntry :: "jsv \<Rightarrow> bool" where
  "is_UnknownEntry v \<longleftrightarrow> is_EntryBase v \<and> jget v ''kind'' = JStr ''unknown'' \<and>
     is_str (jget v ''sourceType'') \<and> is_JsonValue (jget v ''data'')"

definition is_InternalEntry :: "jsv \<Rightarrow> bool" where
  "is_InternalEntry v \<longleftrightarrow> is_EntryBase v \<and> jget v ''kind'' = JStr ''internal'' \<and>
     is_str (jget v ''sourceType'')"

definition is_BashExecutionEntry :: "jsv \<Rightarrow> bool" where
  "is_BashExecutionEntry v \<longleftrightarrow> is_EntryBase v \<and> jget v ''kind'' = JStr ''bash_execution'' \<and>
     is_str (jget v ''command'') \<and> is_str (jget v ''output'') \<and>
     nullable is_num (jget v ''exitCode'') \<and> is_bool (jget v ''cancelled'') \<and>
     is_bool (jget v ''truncated'') \<and> nullable is_str (jget v ''fullOutputPath'') \<and>
     is_bool (jget v ''excludeFromContext'')"

definition is_Entry :: "jsv \<Rightarrow> bool" where
  "is_Entry v \<longleftrightarrow> is_MessageEntry v \<or> is_ToolResultEntry v \<or> is_BashExecutionEntry v \<or>
     is_CompactionEntry v \<or> is_BranchSummaryEntry v \<or> is_ModelChangeEntry v \<or>
     is_ThinkingLevelChangeEntry v \<or> is_LabelEntry v \<or> is_SessionInfoEntry v \<or> is_CustomEntry v \<or>
     is_CustomMessageEntry v \<or> is_UnknownEntry v \<or> is_InternalEntry v"

section \<open>Status and Document\<close>

definition is_Stats :: "jsv \<Rightarrow> bool" where
  "is_Stats v \<longleftrightarrow> is_obj v \<and>
     (let t = jget v ''tokens'' in is_obj t \<and> is_num (jget t ''input'') \<and> is_num (jget t ''output'') \<and>
        is_num (jget t ''total'') \<and> opt is_num (jget t ''cacheRead'') \<and> opt is_num (jget t ''cacheWrite'')) \<and>
     (let c = jget v ''cost'' in is_obj c \<and> is_num (jget c ''total'')) \<and> is_num (jget v ''messages'')"

definition is_ContextUsage :: "jsv \<Rightarrow> bool" where
  "is_ContextUsage v \<longleftrightarrow> is_obj v \<and> nullable is_num (jget v ''tokens'') \<and>
     is_num (jget v ''contextWindow'') \<and> nullable is_num (jget v ''percent'')"

definition is_ModelRef :: "jsv \<Rightarrow> bool" where
  "is_ModelRef v \<longleftrightarrow> is_obj v \<and> is_str (jget v ''provider'') \<and> is_str (jget v ''modelId'')"

datatype RecoverableTurnKind = FailedTurn | InterruptedTools | UnfinishedTurn

fun recoverableTurnKind_name :: "RecoverableTurnKind \<Rightarrow> string" where
  "recoverableTurnKind_name FailedTurn = ''failedTurn''"
| "recoverableTurnKind_name InterruptedTools = ''interruptedTools''"
| "recoverableTurnKind_name UnfinishedTurn = ''unfinishedTurn''"

definition is_Status :: "jsv \<Rightarrow> bool" where
  "is_Status v \<longleftrightarrow> is_obj v \<and> nullable is_str (jget v ''leafId'') \<and> is_str (jget v ''name'') \<and>
     is_ModelRef (jget v ''model'') \<and> is_str (jget v ''thinkingLevel'') \<and>
     is_bool (jget v ''isStreaming'') \<and> is_bool (jget v ''isCompacting'') \<and>
     is_Stats (jget v ''stats'') \<and> nullable is_ContextUsage (jget v ''contextUsage'') \<and>
     arr_all is_str (jget v ''pendingSteer'') \<and>
     opt (\<lambda>m. is_obj m \<and> list_all (\<lambda>p. is_num (snd p)) (props_of m)) (jget v ''inFlightTools'') \<and>
     opt (nullable (\<lambda>k. k \<in> JStr ` recoverableTurnKind_name ` {FailedTurn, InterruptedTools, UnfinishedTurn}))
       (jget v ''recoverableTurn'')"

text \<open>
  A Document is the object \<^verbatim>\<open>{ status, entries }\<close>.  \<open>mk_doc\<close> builds one, and \<open>doc_status\<close> and
  \<open>doc_entries\<close> read its two fields.
\<close>

definition mk_doc :: "jsv \<Rightarrow> props \<Rightarrow> jsv" where
  "mk_doc st es = JObj [(''status'', st), (''entries'', JObj es)]"

definition doc_status :: "jsv \<Rightarrow> jsv" where
  "doc_status d = jget d ''status''"

definition doc_entries :: "jsv \<Rightarrow> jsv" where
  "doc_entries d = jget d ''entries''"

definition is_Document :: "jsv \<Rightarrow> bool" where
  "is_Document d \<longleftrightarrow> is_obj d \<and> is_Status (doc_status d) \<and> is_obj (doc_entries d) \<and>
     list_all (\<lambda>p. is_Entry (snd p)) (props_of (doc_entries d))"

lemma doc_status_mk [simp]: "doc_status (mk_doc st es) = st"
  by (simp add: doc_status_def mk_doc_def)

lemma doc_entries_mk [simp]: "doc_entries (mk_doc st es) = JObj es"
  by (simp add: doc_entries_def mk_doc_def)

lemma is_obj_mk_doc [simp]: "is_obj (mk_doc st es)"
  by (simp add: mk_doc_def)

section \<open>Session entries of pi\<close>

text \<open>
  What \<^verbatim>\<open>SessionManager.getEntries()\<close> returns: the interfaces of pi's session manager and of its
  messages, restricted to the fields the projection reads.  An entry type that none of them names
  is a parsed line of the session file, hence a JSON value.
\<close>

definition is_SessionEntryBase :: "jsv \<Rightarrow> bool" where
  "is_SessionEntryBase v \<longleftrightarrow> is_obj v \<and> is_str (jget v ''type'') \<and> is_str (jget v ''id'') \<and>
     nullable is_str (jget v ''parentId'') \<and> is_str (jget v ''timestamp'')"

definition is_pi_block :: "jsv \<Rightarrow> bool" where
  "is_pi_block b \<longleftrightarrow> is_obj b \<and>
     (jget b ''type'' = JStr ''text'' \<and> is_str (jget b ''text'') \<and> opt is_str (jget b ''textSignature'') \<or>
      jget b ''type'' = JStr ''thinking'' \<and> opt is_str (jget b ''thinking'') \<and>
        opt is_str (jget b ''thinkingSignature'') \<and> opt is_bool (jget b ''redacted'') \<or>
      jget b ''type'' = JStr ''image'' \<and> is_str (jget b ''data'') \<and> is_str (jget b ''mimeType'') \<or>
      jget b ''type'' = JStr ''toolCall'' \<and> is_str (jget b ''id'') \<and> is_str (jget b ''name'') \<and>
        is_JsonValue (jget b ''arguments'') \<and> opt is_str (jget b ''thoughtSignature'') \<or>
      is_str (jget b ''type'') \<and>
        str_of (jget b ''type'') \<notin> {''text'', ''thinking'', ''image'', ''toolCall''})"

definition is_pi_content :: "jsv \<Rightarrow> bool" where
  "is_pi_content c \<longleftrightarrow> is_str c \<or> arr_all is_pi_block c"

definition is_pi_UserMessage :: "jsv \<Rightarrow> bool" where
  "is_pi_UserMessage m \<longleftrightarrow> is_obj m \<and> jget m ''role'' = JStr ''user'' \<and> is_pi_content (jget m ''content'')"

definition is_pi_SystemMessage :: "jsv \<Rightarrow> bool" where
  "is_pi_SystemMessage m \<longleftrightarrow> is_obj m \<and> jget m ''role'' = JStr ''system'' \<and>
     is_pi_content (jget m ''content'') \<and>
     opt (\<lambda>s. is_obj s \<and> is_JsonValue s) (jget m ''sections'')"

definition is_pi_AssistantMessage :: "jsv \<Rightarrow> bool" where
  "is_pi_AssistantMessage m \<longleftrightarrow> is_obj m \<and> jget m ''role'' = JStr ''assistant'' \<and>
     arr_all is_pi_block (jget m ''content'') \<and> is_str (jget m ''api'') \<and> is_str (jget m ''provider'') \<and>
     is_str (jget m ''model'') \<and> opt is_str (jget m ''responseModel'') \<and> opt is_str (jget m ''responseId'') \<and>
     is_Usage (jget m ''usage'') \<and> is_str (jget m ''stopReason'') \<and> opt is_str (jget m ''errorMessage'') \<and>
     opt is_num (jget m ''durationMs'')"

definition is_pi_ToolResultMessage :: "jsv \<Rightarrow> bool" where
  "is_pi_ToolResultMessage m \<longleftrightarrow> is_obj m \<and> jget m ''role'' = JStr ''toolResult'' \<and>
     is_str (jget m ''toolCallId'') \<and> is_str (jget m ''toolName'') \<and>
     arr_all is_pi_block (jget m ''content'') \<and> is_bool (jget m ''isError'') \<and>
     opt is_num (jget m ''durationMs'')"

definition is_pi_BashExecutionMessage :: "jsv \<Rightarrow> bool" where
  "is_pi_BashExecutionMessage m \<longleftrightarrow> is_obj m \<and> jget m ''role'' = JStr ''bashExecution'' \<and>
     is_str (jget m ''command'') \<and> is_str (jget m ''output'') \<and> opt is_num (jget m ''exitCode'') \<and>
     is_bool (jget m ''cancelled'') \<and> is_bool (jget m ''truncated'') \<and>
     opt is_str (jget m ''fullOutputPath'') \<and> opt is_bool (jget m ''excludeFromContext'')"

definition is_SessionMessageEntry :: "jsv \<Rightarrow> bool" where
  "is_SessionMessageEntry e \<longleftrightarrow> is_SessionEntryBase e \<and> jget e ''type'' = JStr ''message'' \<and>
     (let m = jget e ''message'' in is_pi_UserMessage m \<or> is_pi_SystemMessage m \<or>
        is_pi_AssistantMessage m \<or> is_pi_ToolResultMessage m \<or> is_pi_BashExecutionMessage m)"

definition is_SessionEntry :: "jsv \<Rightarrow> bool" where
  "is_SessionEntry e \<longleftrightarrow> is_SessionEntryBase e \<and>
     (let t = jget e ''type'' in
        (t = JStr ''message'' \<longrightarrow> is_SessionMessageEntry e) \<and>
        (t = JStr ''thinking_level_change'' \<longrightarrow> is_str (jget e ''thinkingLevel'')) \<and>
        (t = JStr ''model_change'' \<longrightarrow> is_str (jget e ''provider'') \<and> is_str (jget e ''modelId'')) \<and>
        (t = JStr ''compaction'' \<longrightarrow> is_str (jget e ''summary'') \<and>
           is_str (jget e ''firstKeptEntryId'') \<and> is_num (jget e ''tokensBefore'') \<and>
           opt is_bool (jget e ''fromHook'')) \<and>
        (t = JStr ''branch_summary'' \<longrightarrow> is_str (jget e ''fromId'') \<and> is_str (jget e ''summary'') \<and>
           opt is_bool (jget e ''fromHook'')) \<and>
        (t = JStr ''custom'' \<longrightarrow> is_str (jget e ''customType'')) \<and>
        (t = JStr ''custom_message'' \<longrightarrow> is_str (jget e ''customType'') \<and>
           is_pi_content (jget e ''content'') \<and> is_bool (jget e ''display'')) \<and>
        (t = JStr ''label'' \<longrightarrow> is_str (jget e ''targetId'') \<and> opt is_str (jget e ''label'')) \<and>
        (t = JStr ''session_info'' \<longrightarrow> opt is_str (jget e ''name'')) \<and>
        (t \<notin> JStr ` {''message'', ''thinking_level_change'', ''model_change'', ''compaction'',
             ''branch_summary'', ''custom'', ''custom_message'', ''label'', ''session_info'',
             ''context_edit'', ''usage''} \<longrightarrow> is_JsonValue e))"

section \<open>Patches, cursors and frames\<close>

datatype PatchOp =
    AddOp string jsv
  | RemoveOp string
  | ReplaceOp string jsv
  | MoveOp string string
  | AppendOp string string bool

text \<open>The path an op is filtered by: \<^verbatim>\<open>op.op === "move" ? op.from : op.path\<close>.\<close>

fun op_source_path :: "PatchOp \<Rightarrow> string" where
  "op_source_path (AddOp p _) = p"
| "op_source_path (RemoveOp p) = p"
| "op_source_path (ReplaceOp p _) = p"
| "op_source_path (MoveOp f _) = f"
| "op_source_path (AppendOp p _ _) = p"

record SessionRef =
  projectId :: string
  sessionId :: string
  stem :: string

record PrefixCursor =
  cursor_sessionId :: string
  lastKnownId :: string
  entryCount :: rat

datatype InitialSyncFrame =
    ReplaceFrame SessionRef jsv
  | PatchFrame SessionRef "PatchOp list"

section \<open>Lazy field paths\<close>

text \<open>A path as the segments between its slashes; a leading slash gives an empty first segment.\<close>

definition segments :: "string \<Rightarrow> string list" where
  "segments p = split_on CHR ''/'' p"

definition digits1 :: "string \<Rightarrow> bool" where
  "digits1 s \<longleftrightarrow> s \<noteq> [] \<and> list_all is_digit s"

text \<open>\<^verbatim>\<open>LAZY_FIELD_PATTERNS\<close> and \<^verbatim>\<open>LAZY_OBJECT_PATTERNS\<close>.\<close>

definition lazy_field_pattern :: "string \<Rightarrow> bool" where
  "lazy_field_pattern p =
     (case segments p of
        [r, es, i, f] \<Rightarrow> r = [] \<and> es = ''entries'' \<and> i \<noteq> [] \<and>
           (f = ''content'' \<or> f = ''details'' \<or> f = ''sections'')
      | [r, es, i, c, n, f] \<Rightarrow> r = [] \<and> es = ''entries'' \<and> i \<noteq> [] \<and> c = ''content'' \<and> digits1 n \<and>
           (f = ''thinking'' \<or> f = ''arguments'')
      | _ \<Rightarrow> False)"

definition lazy_object_pattern :: "string \<Rightarrow> bool" where
  "lazy_object_pattern p =
     (case segments p of
        [r, es, i, f] \<Rightarrow> r = [] \<and> es = ''entries'' \<and> i \<noteq> [] \<and> (f = ''details'' \<or> f = ''sections'')
      | [r, es, i, c, n, f] \<Rightarrow> r = [] \<and> es = ''entries'' \<and> i \<noteq> [] \<and> c = ''content'' \<and> digits1 n \<and>
           f = ''arguments''
      | _ \<Rightarrow> False)"

text \<open>
  \<^verbatim>\<open>parent.replace(/\/[^/]+$/, "")\<close>: drop the last segment and its slash; a path whose last
  segment is empty does not match and stays as it is.
\<close>

definition parent_path :: "string \<Rightarrow> string" where
  "parent_path p =
     (let tail = takeWhile (\<lambda>c. c \<noteq> CHR ''/'') (rev p)
      in if tail = [] \<or> length tail = length p then p else take (length p - length tail - 1) p)"

text \<open>
  The loop shared by \<^verbatim>\<open>isLazyFieldPath\<close> and \<^verbatim>\<open>isSubscribedPath\<close>: climb while a slash is left and
  answer true at the first parent that is accepted.
\<close>

partial_function (option) climb :: "(string \<Rightarrow> bool) \<Rightarrow> string \<Rightarrow> bool option" where
  "climb ok p =
     (if CHR ''/'' \<in> set p
      then (if ok (parent_path p) then Some True else climb ok (parent_path p))
      else Some False)"

definition isLazyFieldPath :: "string \<Rightarrow> bool option" where
  "isLazyFieldPath p = (if lazy_field_pattern p then Some True else climb lazy_object_pattern p)"

text \<open>\<^verbatim>\<open>isSubscribedPath\<close> of the document module, over the same loop.\<close>

definition isSubscribedPath :: "string \<Rightarrow> string set \<Rightarrow> bool option" where
  "isSubscribedPath p subs = (if p \<in> subs then Some True else climb (\<lambda>q. q \<in> subs) p)"

end
