(* ===== verification/Patch.thy ===== *)
theory Patch
  imports Types
begin

text \<open>
  Patch application, the middle part of \<^verbatim>\<open>packages/bridge/src/core/document.ts\<close>: \<^verbatim>\<open>parsePath\<close>,
  \<^verbatim>\<open>getAtPath\<close>, \<^verbatim>\<open>setAtPath\<close>, \<^verbatim>\<open>removeAtPath\<close>, \<^verbatim>\<open>moveAtPath\<close>, \<^verbatim>\<open>appendAtPath\<close> and \<^verbatim>\<open>applyPatch\<close>.
  The lemmas work on key lists.  A location that exists (\<open>present\<close>) behaves as a lens: what is
  written is read back, and a sequence of updates below it is one write of the updated value.
  That contract is the locale \<open>location\<close>, interpreted on the document operations.
\<close>

section \<open>Paths\<close>

text \<open>\<^verbatim>\<open>s.replace(/~1/g, "/")\<close> and \<^verbatim>\<open>s.replace(/~0/g, "~")\<close>.\<close>

fun replace_tilde1 :: "string \<Rightarrow> string" where
  "replace_tilde1 (c # d # s) =
     (if c = CHR ''~'' \<and> d = CHR ''1'' then CHR ''/'' # replace_tilde1 s
      else c # replace_tilde1 (d # s))"
| "replace_tilde1 s = s"

fun replace_tilde0 :: "string \<Rightarrow> string" where
  "replace_tilde0 (c # d # s) =
     (if c = CHR ''~'' \<and> d = CHR ''0'' then CHR ''~'' # replace_tilde0 s
      else c # replace_tilde0 (d # s))"
| "replace_tilde0 s = s"

definition parsePath :: "string \<Rightarrow> string list" where
  "parsePath path =
     (if path = '''' \<or> path = ''/'' then []
      else map (\<lambda>s. replace_tilde0 (replace_tilde1 s))
        (split_on CHR ''/'' (if hd path = CHR ''/'' then tl path else path)))"

section \<open>Reading\<close>

fun getKeys :: "jsv \<Rightarrow> string list \<Rightarrow> jsv" where
  "getKeys cur [] = cur"
| "getKeys cur (k # ks) = (if nullish cur then JUndef else getKeys (jget cur k) ks)"

definition getAtPath :: "jsv \<Rightarrow> string \<Rightarrow> jsv" where
  "getAtPath v path = getKeys v (parsePath path)"

section \<open>Writing\<close>

definition autoCreate :: "string list \<Rightarrow> jsv" where
  "autoCreate keys = (case keys of [] \<Rightarrow> JObj [] | k # _ \<Rightarrow> if digits1 k then JArr [] else JObj [])"

text \<open>\<open>cloneSet v head tail value\<close>: the key list of the source, already taken apart.\<close>

fun cloneSet :: "jsv \<Rightarrow> string \<Rightarrow> string list \<Rightarrow> jsv \<Rightarrow> jsv" where
  "cloneSet (JArr vs) head [] value = JArr (array_assign vs (js_Number head) value)"
| "cloneSet (JArr vs) head (k # ks) value =
     JArr (array_assign vs (js_Number head) (cloneSet (array_at vs (js_Number head)) k ks value))"
| "cloneSet (JObj ps) head [] value = jset head value (JObj ps)"
| "cloneSet (JObj ps) head (k # ks) value =
     jset head (cloneSet (coalesce (jget (JObj ps) head) (autoCreate (k # ks))) k ks value) (JObj ps)"
| "cloneSet v head [] value = JObj [(head, value)]"
| "cloneSet v head (k # ks) value = JObj [(head, cloneSet (autoCreate (k # ks)) k ks value)]"

definition setKeys :: "jsv \<Rightarrow> string list \<Rightarrow> jsv \<Rightarrow> jsv" where
  "setKeys doc keys value = (case keys of [] \<Rightarrow> value | h # t \<Rightarrow> cloneSet doc h t value)"

definition setAtPath :: "jsv \<Rightarrow> string \<Rightarrow> jsv \<Rightarrow> jsv" where
  "setAtPath doc path value = setKeys doc (parsePath path) value"

section \<open>Removing\<close>

fun cloneRemove :: "jsv \<Rightarrow> string \<Rightarrow> string list \<Rightarrow> jsv" where
  "cloneRemove (JArr vs) key [] = JArr (array_splice1 vs (js_Number key))"
| "cloneRemove (JObj ps) key [] = jdel key (JObj ps)"
| "cloneRemove (JArr vs) head (k # ks) =
     JArr (array_assign vs (js_Number head) (cloneRemove (array_at vs (js_Number head)) k ks))"
| "cloneRemove (JObj ps) head (k # ks) =
     (if \<not> jhas (JObj ps) head then JObj ps
      else jset head (cloneRemove (jget (JObj ps) head) k ks) (JObj ps))"
| "cloneRemove v head keys = v"

definition removeKeys :: "jsv \<Rightarrow> string list \<Rightarrow> jsv" where
  "removeKeys doc keys = (case keys of [] \<Rightarrow> doc | h # t \<Rightarrow> cloneRemove doc h t)"

definition removeAtPath :: "jsv \<Rightarrow> string \<Rightarrow> jsv" where
  "removeAtPath doc path = removeKeys doc (parsePath path)"

section \<open>Operations and patches\<close>

definition moveAtPath :: "jsv \<Rightarrow> string \<Rightarrow> string \<Rightarrow> jsv" where
  "moveAtPath doc from to =
     (let value = getAtPath doc from; afterRemove = removeAtPath doc from
      in setAtPath afterRemove to value)"

definition appendAtPath :: "jsv \<Rightarrow> string \<Rightarrow> string \<Rightarrow> jsv" where
  "appendAtPath doc path value =
     (case getAtPath doc path of
        JStr existing \<Rightarrow> setAtPath doc path (JStr (existing @ value))
      | _ \<Rightarrow> setAtPath doc path (JStr value))"

fun applyOp :: "jsv \<Rightarrow> PatchOp \<Rightarrow> jsv" where
  "applyOp doc (AddOp path value) = setAtPath doc path value"
| "applyOp doc (ReplaceOp path value) = setAtPath doc path value"
| "applyOp doc (RemoveOp path) = removeAtPath doc path"
| "applyOp doc (MoveOp from path) = moveAtPath doc from path"
| "applyOp doc (AppendOp path value lazy) = appendAtPath doc path value"

declare applyOp.simps [simp del]

text \<open>
  Whether an op returns the very root object it was given.  Writing below the root always copies
  it; only a removal that finds no copy to make, and moving the root onto itself, do not.
\<close>

fun keeps_root :: "jsv \<Rightarrow> PatchOp \<Rightarrow> bool" where
  "keeps_root doc (RemoveOp path) =
     (case parsePath path of
        [] \<Rightarrow> True
      | [k] \<Rightarrow> \<not> (is_obj doc \<or> is_arr doc)
      | k # _ \<Rightarrow> \<not> is_arr doc \<and> \<not> jhas doc k)"
| "keeps_root doc (MoveOp from path) = (parsePath from = [] \<and> parsePath path = [])"
| "keeps_root doc _ = False"

datatype patch_error = InvariantViolation

definition applyOps :: "jsv \<Rightarrow> PatchOp list \<Rightarrow> jsv" where
  "applyOps doc ops = foldl applyOp doc ops"

definition applyPatch :: "jsv \<Rightarrow> PatchOp list \<Rightarrow> patch_error + jsv" where
  "applyPatch doc ops =
     (if ops \<noteq> [] \<and> list_all (keeps_root doc) ops then Inl InvariantViolation
      else Inr (applyOps doc ops))"

text \<open>\<^verbatim>\<open>resolveFieldPath\<close>: the field below the entry, with array bounds checked.\<close>

fun resolveKeys :: "jsv \<Rightarrow> string list \<Rightarrow> jsv" where
  "resolveKeys cur [] = cur"
| "resolveKeys cur (k # ks) =
     (if nullish cur then JUndef
      else (case cur of
              JArr vs \<Rightarrow>
                (case js_Number k of
                   None \<Rightarrow> JUndef
                 | Some i \<Rightarrow> if i < 0 \<or> int (length vs) \<le> i then JUndef
                             else resolveKeys (vs ! nat i) ks)
            | JObj ps \<Rightarrow> resolveKeys (jget cur k) ks
            | _ \<Rightarrow> JUndef))"

definition resolveFieldPath :: "jsv \<Rightarrow> string \<Rightarrow> jsv" where
  "resolveFieldPath entry fieldPath =
     (let parts = segments fieldPath
      in if length parts < 4 then JUndef else resolveKeys entry (drop 3 parts))"

section \<open>Path lemmas\<close>

text \<open>\<open>pathstr ks\<close> is the path the code builds from keys: \<^verbatim>\<open>`/${k1}/${k2}...`\<close>.\<close>

definition pathstr :: "string list \<Rightarrow> string" where
  "pathstr ks = concat (map (\<lambda>k. CHR ''/'' # k) ks)"

definition plain_key :: "string \<Rightarrow> bool" where
  "plain_key k \<longleftrightarrow> CHR ''/'' \<notin> set k \<and> CHR ''~'' \<notin> set k"

lemma pathstr_simps [simp]:
  "pathstr [] = []" "pathstr (k # ks) = CHR ''/'' # k @ pathstr ks"
  "pathstr (ks @ ls) = pathstr ks @ pathstr ls"
  by (simp_all add: pathstr_def)

lemma plain_key_nat_str [simp]: "plain_key (nat_str n)"
  by (simp add: plain_key_def)

lemma replace_tilde1_plain: "CHR ''~'' \<notin> set s \<Longrightarrow> replace_tilde1 s = s"
  by (induction s rule: replace_tilde1.induct) auto

lemma replace_tilde0_plain: "CHR ''~'' \<notin> set s \<Longrightarrow> replace_tilde0 s = s"
  by (induction s rule: replace_tilde0.induct) auto

lemma split_on_pathstr:
  "list_all plain_key (k # ks) \<Longrightarrow> split_on CHR ''/'' (k @ pathstr ks) = k # ks"
proof (induction ks arbitrary: k)
  case Nil
  then show ?case by (simp add: plain_key_def)
next
  case (Cons j ks)
  then have "split_on CHR ''/'' (j @ pathstr ks) = j # ks" by simp
  with Cons.prems show ?case by (simp add: split_on_append_sep plain_key_def)
qed

lemma parsePath_pathstr [path_simps]:
  assumes "list_all plain_key ks" "ks \<noteq> []" "ks \<noteq> [[]]"
  shows "parsePath (pathstr ks) = ks"
proof -
  obtain k r where ks: "ks = k # r" using assms(2) by (cases ks) auto
  have "pathstr ks \<noteq> ''/''" using assms(3) ks by (cases r) auto
  moreover have "map (\<lambda>s. replace_tilde0 (replace_tilde1 s)) ks = ks"
    using assms(1) by (induction ks) (auto simp: plain_key_def replace_tilde1_plain replace_tilde0_plain)
  ultimately show ?thesis
    using split_on_pathstr[of k r] assms(1) ks by (simp add: parsePath_def)
qed

lemma segments_pathstr: "list_all plain_key ks \<Longrightarrow> segments (pathstr ks) = [] # ks"
proof (cases ks)
  case Nil
  then show ?thesis by (simp add: segments_def)
next
  case (Cons k r)
  assume "list_all plain_key ks"
  with Cons show ?thesis using split_on_pathstr[of k r] by (simp add: segments_def)
qed

section \<open>Locations\<close>

fun present :: "jsv \<Rightarrow> string list \<Rightarrow> bool" where
  "present v [] = True"
| "present (JObj ps) (k # ks) = (case map_of ps k of None \<Rightarrow> False | Some w \<Rightarrow> present w ks)"
| "present (JArr vs) (k # ks) =
     (canon_nat k \<and> str_nat k < length vs \<and> present (vs ! str_nat k) ks)"
| "present _ (k # ks) = False"

lemma present_step:
  "present v (k # ks) \<Longrightarrow> \<not> nullish v \<and> present (jget v k) ks"
  by (cases v) (auto split: option.splits)

lemma canon_nat_Number: "canon_nat k \<Longrightarrow> js_Number k = Some (int (str_nat k))"
  by (auto simp: js_Number_def canon_nat_digits)

lemma array_at_canon [simp]:
  "canon_nat k \<Longrightarrow> str_nat k < length vs \<Longrightarrow> array_at vs (js_Number k) = vs ! str_nat k"
  by (simp add: array_at_def canon_nat_Number)

lemma array_assign_canon [simp]:
  "canon_nat k \<Longrightarrow> array_assign vs (js_Number k) v = array_put vs (str_nat k) v"
  by (simp add: array_assign_def canon_nat_Number)

lemma setKeys_Nil [simp]: "setKeys v [] w = w"
  by (simp add: setKeys_def)

lemma getKeys_append: "getKeys v (ks @ ls) = getKeys (getKeys v ks) ls"
proof (induction ks arbitrary: v)
  case (Cons k ks)
  then show ?case by (cases ls) auto
qed simp

text \<open>One step of a write through an existing container.\<close>

lemma setKeys_obj:
  "map_of ps k = Some v \<Longrightarrow> \<not> nullish v \<or> ks = [] \<Longrightarrow>
   setKeys (JObj ps) (k # ks) w = JObj (AList.update k (setKeys v ks w) ps)"
  by (cases ks) (auto simp: setKeys_def coalesce_def)

lemma setKeys_arr:
  "canon_nat k \<Longrightarrow> str_nat k < length vs \<Longrightarrow>
   setKeys (JArr vs) (k # ks) w = JArr (vs[str_nat k := setKeys (vs ! str_nat k) ks w])"
  by (cases ks) (auto simp: setKeys_def)

lemma present_not_nullish: "present v (k # ks) \<Longrightarrow> \<not> nullish v"
  by (cases v) auto

lemma present_cases [consumes 1, case_names Obj Arr]:
  assumes "present v (k # ks)"
  obtains ps w where "v = JObj ps" "map_of ps k = Some w" "present w ks"
  | vs where "v = JArr vs" "canon_nat k" "str_nat k < length vs" "present (vs ! str_nat k) ks"
  using assms by (cases v) (auto split: option.splits)

lemma setKeys_step:
  assumes "present v (k # ks)"
  shows "setKeys v (k # ks) w = setKeys v [k] (setKeys (jget v k) ks w)"
  using assms
proof (cases rule: present_cases)
  case (Obj ps u)
  then have "\<not> nullish u \<or> ks = []" by (cases ks) (auto dest: present_not_nullish)
  with Obj show ?thesis by (simp add: setKeys_obj)
next
  case (Arr vs)
  then show ?thesis by (simp add: setKeys_arr)
qed

lemma jget_setKeys_one: "present v [k] \<Longrightarrow> jget (setKeys v [k] w) k = w"
  by (erule present_cases) (simp_all add: setKeys_obj setKeys_arr)

lemma present_setKeys_one: "present v [k] \<Longrightarrow> present (setKeys v [k] w) (k # ks) = present w ks"
  by (erule present_cases) (simp_all add: setKeys_obj setKeys_arr)

lemma setKeys_one_twice: "present v [k] \<Longrightarrow> setKeys (setKeys v [k] u) [k] w = setKeys v [k] w"
  by (erule present_cases) (simp_all add: setKeys_obj setKeys_arr)

lemma setKeys_one_same: "present v [k] \<Longrightarrow> setKeys v [k] (jget v k) = v"
  by (erule present_cases) (simp_all add: setKeys_obj setKeys_arr AList_update_same)

lemma present_one: "present v (k # ks) \<Longrightarrow> present v [k]"
  by (erule present_cases) simp_all

lemma present_setKeys: "present v ks \<Longrightarrow> present (setKeys v ks w) ks"
proof (induction ks arbitrary: v)
  case (Cons k ks)
  from Cons.prems have "present (jget v k) ks" by (auto dest: present_step)
  with Cons show ?case
    by (simp add: setKeys_step[OF Cons.prems] present_setKeys_one[OF present_one[OF Cons.prems]])
qed simp

lemma nullish_setKeys_one: "present v [k] \<Longrightarrow> \<not> nullish (setKeys v [k] w)"
  by (erule present_cases) (simp_all add: setKeys_obj setKeys_arr)

lemma getKeys_setKeys: "present v ks \<Longrightarrow> getKeys (setKeys v ks w) ks = w"
proof (induction ks arbitrary: v)
  case (Cons k ks)
  from Cons.prems have "present (jget v k) ks" by (auto dest: present_step)
  with Cons show ?case
    by (simp add: setKeys_step[OF Cons.prems] jget_setKeys_one[OF present_one[OF Cons.prems]]
        nullish_setKeys_one[OF present_one[OF Cons.prems]])
qed simp

lemma setKeys_setKeys: "present v ks \<Longrightarrow> setKeys (setKeys v ks u) ks w = setKeys v ks w"
proof (induction ks arbitrary: v)
  case (Cons k ks)
  let ?u = "setKeys v [k] (setKeys (jget v k) ks u)"
  from Cons.prems have sub: "present (jget v k) ks" by (auto dest: present_step)
  have one: "present v [k]" using Cons.prems by (rule present_one)
  have "present ?u (k # ks)" using one sub by (simp add: present_setKeys_one present_setKeys)
  then have "setKeys ?u (k # ks) w = setKeys ?u [k] (setKeys (jget ?u k) ks w)" by (rule setKeys_step)
  also have "\<dots> = setKeys v [k] (setKeys (jget v k) ks w)"
    using one sub Cons.IH by (simp add: jget_setKeys_one setKeys_one_twice)
  finally show ?case by (simp add: setKeys_step[OF Cons.prems])
qed simp

lemma setKeys_getKeys: "present v ks \<Longrightarrow> setKeys v ks (getKeys v ks) = v"
proof (induction ks arbitrary: v)
  case (Cons k ks)
  from Cons.prems have "present (jget v k) ks" "\<not> nullish v" by (auto dest: present_step)
  with Cons show ?case
    by (simp add: setKeys_step[OF Cons.prems] setKeys_one_same[OF present_one[OF Cons.prems]])
qed simp

text \<open>Writes and removals below an existing location are writes of the location's value.\<close>

lemma setKeys_below:
  "present v ks \<Longrightarrow> \<not> nullish (getKeys v ks) \<Longrightarrow> setKeys v (ks @ ls) w = setKeys v ks (setKeys (getKeys v ks) ls w)"
proof (induction ks arbitrary: v)
  case (Cons k ks)
  from Cons.prems(1) have sub: "present (jget v k) ks" and nn: "\<not> nullish v" by (auto dest: present_step)
  have one: "present v [k]" using Cons.prems(1) by (rule present_one)
  have nk: "ks @ ls = [] \<or> \<not> nullish (jget v k)"
    using sub Cons.prems(2) nn by (cases ks) (auto dest: present_not_nullish)
  from one have "setKeys v (k # ks @ ls) w = setKeys v [k] (setKeys (jget v k) (ks @ ls) w)"
    by (cases rule: present_cases) (use nk in \<open>auto simp: setKeys_obj setKeys_arr\<close>)
  with Cons sub nn show ?case by (simp add: setKeys_step[OF Cons.prems(1)])
qed simp

lemma removeKeys_below:
  assumes "present v ks" "ls \<noteq> []"
  shows "removeKeys v (ks @ ls) = setKeys v ks (removeKeys (getKeys v ks) ls)"
  using assms(1)
proof (induction ks arbitrary: v)
  case (Cons k ks)
  from Cons.prems have sub: "present (jget v k) ks" and nn: "\<not> nullish v" by (auto dest: present_step)
  obtain j js where kl: "ks @ ls = j # js" using assms(2) by (cases "ks @ ls") auto
  from Cons.prems have "removeKeys v (k # ks @ ls) = setKeys v [k] (removeKeys (jget v k) (ks @ ls))"
    by (cases rule: present_cases) (auto simp: kl removeKeys_def setKeys_obj setKeys_arr)
  with Cons sub nn show ?case by (simp add: setKeys_step[OF Cons.prems])
qed simp

section \<open>The location contract\<close>

text \<open>
  A location of a state type: reading, writing and when it exists.  The client lemma is the one
  the patch proofs use: a run of updates of the location's value is a single write.
\<close>

locale location =
  fixes here :: "'s \<Rightarrow> bool"
    and get_loc :: "'s \<Rightarrow> 'a"
    and put_loc :: "'s \<Rightarrow> 'a \<Rightarrow> 's"
  assumes put_here: "here s \<Longrightarrow> here (put_loc s x)"
    and get_put: "here s \<Longrightarrow> get_loc (put_loc s x) = x"
    and put_put: "here s \<Longrightarrow> put_loc (put_loc s x) y = put_loc s y"
    and put_get: "here s \<Longrightarrow> put_loc s (get_loc s) = s"
begin

lemma fold_updates:
  assumes local: "\<And>s f. here s \<Longrightarrow> Q (get_loc s) \<Longrightarrow> f \<in> set fs \<Longrightarrow> act s f = put_loc s (upd (get_loc s) f)"
    and keeps: "\<And>x f. Q x \<Longrightarrow> f \<in> set fs \<Longrightarrow> Q (upd x f)"
    and "here s" "Q (get_loc s)"
  shows "foldl act s fs = put_loc s (foldl upd (get_loc s) fs) \<and> Q (foldl upd (get_loc s) fs)"
  using assms
proof (induction fs arbitrary: s)
  case Nil
  then show ?case by (simp add: put_get)
next
  case (Cons f fs)
  let ?t = "put_loc s (upd (get_loc s) f)"
  have step: "act s f = ?t" and t: "here ?t" "get_loc ?t = upd (get_loc s) f"
    using Cons.prems by (simp_all add: put_here get_put)
  have "foldl act ?t fs = put_loc ?t (foldl upd (get_loc ?t) fs) \<and> Q (foldl upd (get_loc ?t) fs)"
    using Cons.prems t by (intro Cons.IH) auto
  with step t show ?case using Cons.prems(3) by (simp add: put_put)
qed

end

interpretation at_keys: location
  "\<lambda>v. present v ks" "\<lambda>v. getKeys v ks" "\<lambda>v w. setKeys v ks w" for ks
  by unfold_locales (simp_all add: present_setKeys getKeys_setKeys setKeys_setKeys setKeys_getKeys)

section \<open>Ops addressed by key lists\<close>

text \<open>The effect of an op at a path, stated over its keys.\<close>

lemma applyOp_pathstr [patch_simps]:
  assumes "list_all plain_key ks" "ks \<noteq> []" "ks \<noteq> [[]]"
  shows "applyOp r (AddOp (pathstr ks) v) = setKeys r ks v"
    and "applyOp r (ReplaceOp (pathstr ks) v) = setKeys r ks v"
    and "applyOp r (RemoveOp (pathstr ks)) = removeKeys r ks"
    and "applyOp r (AppendOp (pathstr ks) s l) =
      setKeys r ks (JStr (case getKeys r ks of JStr t \<Rightarrow> t @ s | _ \<Rightarrow> s))"
  using parsePath_pathstr[OF assms]
  by (simp_all add: applyOp.simps setAtPath_def removeAtPath_def appendAtPath_def getAtPath_def
      split: jsv.split)

lemma applyOps_simps [simp]:
  "applyOps r [] = r" "applyOps r (x # xs) = applyOps (applyOp r x) xs"
  "applyOps r (xs @ ys) = applyOps (applyOps r xs) ys"
  by (simp_all add: applyOps_def)

lemma applyPatch_Inr: "applyPatch r ops = Inr d \<Longrightarrow> d = applyOps r ops"
  by (simp add: applyPatch_def split: if_splits)

text \<open>A patch with one op that writes below the root never trips the new-root check.\<close>

lemma applyPatch_writes:
  "\<not> keeps_root r op \<Longrightarrow> op \<in> set ops \<Longrightarrow> applyPatch r ops = Inr (applyOps r ops)"
  by (auto simp: applyPatch_def list_all_iff)

end
