(* ===== verification/Diff.thy ===== *)
theory Diff
  imports Patch
begin

text \<open>
  The object diff of \<^verbatim>\<open>packages/bridge/src/core/document.ts\<close> (\<^verbatim>\<open>computeObjectDiff\<close>, \<^verbatim>\<open>diffValue\<close>,
  \<^verbatim>\<open>diffArray\<close>), which turns two partial tool-argument objects into the ops a mirror applies.  The
  main result is the round trip: applied at the place the old value stands, the ops of a diff
  leave the new value, up to key order, provided no key contains the characters the path syntax
  reserves.  The code does not escape keys, and a key with a slash does break the round trip.
\<close>

section \<open>Definitions\<close>

definition union_keys :: "props \<Rightarrow> props \<Rightarrow> string list" where
  "union_keys ps qs = own_keys ps @ filter (\<lambda>k. k \<notin> set (own_keys ps)) (own_keys qs)"

definition sub_path :: "string \<Rightarrow> string \<Rightarrow> string" where
  "sub_path base key = base @ CHR ''/'' # key"

lemma size_nth_less [termination_simp]:
  "i < length xs \<Longrightarrow> size (xs ! i :: jsv) < Suc (size_list size xs)"
  by (metis le_imp_less_Suc less_imp_le nth_mem size_list_estimation order_refl not_less_eq)

function (sequential) computeObjectDiff :: "props \<Rightarrow> props \<Rightarrow> string \<Rightarrow> PatchOp list"
  and diffValue :: "jsv \<Rightarrow> jsv \<Rightarrow> string \<Rightarrow> PatchOp list"
  and diffArray :: "jsv list \<Rightarrow> jsv list \<Rightarrow> string \<Rightarrow> PatchOp list" where
  "computeObjectDiff oldObj newObj basePath =
     concat (map (\<lambda>key.
       (case map_of newObj key of
          None \<Rightarrow> [RemoveOp (sub_path basePath key)]
        | Some newVal \<Rightarrow>
            (case map_of oldObj key of
               None \<Rightarrow> [AddOp (sub_path basePath key) newVal]
             | Some oldVal \<Rightarrow>
                 if oldVal \<noteq> newVal then diffValue oldVal newVal (sub_path basePath key) else [])))
       (union_keys oldObj newObj))"
| "diffValue oldVal newVal path =
     (if oldVal = newVal then []
      else (case (oldVal, newVal) of
              (JArr xs, JArr ys) \<Rightarrow> diffArray xs ys path
            | (JObj ps, JObj qs) \<Rightarrow> computeObjectDiff ps qs path
            | (JStr s, JStr t) \<Rightarrow>
                if prefix s t \<and> length s < length t then [AppendOp path (drop (length s) t) False]
                else [ReplaceOp path (JStr t)]
            | _ \<Rightarrow> [ReplaceOp path newVal]))"
| "diffArray oldArr newArr basePath =
     concat (map (\<lambda>i. diffValue (oldArr ! i) (newArr ! i) (sub_path basePath (nat_str i)))
       [0 ..< min (length oldArr) (length newArr)]) @
     map (\<lambda>i. RemoveOp (sub_path basePath (nat_str i))) (rev [length newArr ..< length oldArr]) @
     map (\<lambda>i. AddOp (sub_path basePath (nat_str i)) (newArr ! i)) [length oldArr ..< length newArr]"
  by pat_completeness auto
termination
  by (relation "measure (\<lambda>x. case x of
        Inl (ps, qs, b) \<Rightarrow> 2 * size (JObj ps)
      | Inr (Inl (v, w, b)) \<Rightarrow> 2 * size v + 1
      | Inr (Inr (xs, ys, b)) \<Rightarrow> 2 * size (JArr xs))")
    (auto dest: size_map_of_less size_nth_less)

declare computeObjectDiff.simps [simp del] diffValue.simps [simp del] diffArray.simps [simp del]

text \<open>
  \<^verbatim>\<open>oldVal !== newVal\<close> compares references on objects.  Comparing values instead changes nothing:
  the recursion over two equal objects or arrays emits no op.
\<close>

lemma union_keys_same: "union_keys ps ps = own_keys ps"
  by (auto simp: union_keys_def filter_empty_conv)

lemma diff_same_object: "computeObjectDiff ps ps base = []"
  by (auto simp: computeObjectDiff.simps union_keys_same concat_eq_Nil_conv split: option.split
      dest: weak_map_of_SomeI)

lemma diff_same_array: "diffArray xs xs base = []"
  by (simp add: diffArray.simps diffValue.simps)

section \<open>Keys that survive in a path\<close>

fun plain_keys :: "jsv \<Rightarrow> bool" where
  "plain_keys (JArr vs) = list_all plain_keys vs"
| "plain_keys (JObj ps) = list_all (\<lambda>p. plain_key (fst p) \<and> plain_keys (snd p)) ps"
| "plain_keys _ = True"

lemma plain_keys_map_of:
  "plain_keys (JObj ps) \<Longrightarrow> map_of ps k = Some v \<Longrightarrow> plain_key k \<and> plain_keys v"
  by (fastforce simp: list_all_iff dest!: map_of_SomeD)

lemma wf_jsv_map_of: "wf_jsv (JObj ps) \<Longrightarrow> map_of ps k = Some v \<Longrightarrow> wf_jsv v"
  by (fastforce simp: list_all_iff dest!: map_of_SomeD)

text \<open>A base the code can extend: non-empty, plain, and not the bare root spelling.\<close>

definition good_base :: "string list \<Rightarrow> bool" where
  "good_base b \<longleftrightarrow> b \<noteq> [] \<and> hd b \<noteq> [] \<and> list_all plain_key b"

lemma good_base_snoc: "good_base b \<Longrightarrow> plain_key k \<Longrightarrow> good_base (b @ [k])"
  by (simp add: good_base_def hd_append)

lemma sub_path_pathstr: "sub_path (pathstr b) k = pathstr (b @ [k])"
  by (simp add: sub_path_def)

lemma good_base_ops:
  assumes "good_base b"
  shows "applyOp r (AddOp (pathstr b) v) = setKeys r b v"
    and "applyOp r (ReplaceOp (pathstr b) v) = setKeys r b v"
    and "applyOp r (RemoveOp (pathstr b)) = removeKeys r b"
    and "applyOp r (AppendOp (pathstr b) s l) =
      setKeys r b (JStr (case getKeys r b of JStr t \<Rightarrow> t @ s | _ \<Rightarrow> s))"
proof -
  have b: "list_all plain_key b" "b \<noteq> []" "b \<noteq> [[]]" using assms by (auto simp: good_base_def)
  show "applyOp r (AddOp (pathstr b) v) = setKeys r b v" by (rule applyOp_pathstr(1)[OF b])
  show "applyOp r (ReplaceOp (pathstr b) v) = setKeys r b v" by (rule applyOp_pathstr(2)[OF b])
  show "applyOp r (RemoveOp (pathstr b)) = removeKeys r b" by (rule applyOp_pathstr(3)[OF b])
  show "applyOp r (AppendOp (pathstr b) s l) =
      setKeys r b (JStr (case getKeys r b of JStr t \<Rightarrow> t @ s | _ \<Rightarrow> s))"
    by (rule applyOp_pathstr(4)[OF b])
qed

section \<open>Ops on one property or element\<close>

lemma set_prop:
  "present r b \<Longrightarrow> getKeys r b = JObj ps \<Longrightarrow> setKeys r (b @ [k]) v = setKeys r b (JObj (AList.update k v ps))"
  by (subst setKeys_below) (simp_all add: setKeys_def)

lemma remove_prop:
  "present r b \<Longrightarrow> getKeys r b = JObj ps \<Longrightarrow> removeKeys r (b @ [k]) = setKeys r b (JObj (AList.delete k ps))"
  by (subst removeKeys_below) (simp_all add: removeKeys_def)

lemma set_elem:
  "present r b \<Longrightarrow> getKeys r b = JArr vs \<Longrightarrow>
   setKeys r (b @ [nat_str i]) v = setKeys r b (JArr (array_put vs i v))"
  by (subst setKeys_below) (simp_all add: setKeys_def array_assign_def)

lemma array_splice1_last: "array_splice1 (vs @ [v]) (Some (int (length vs))) = vs"
  by (simp add: array_splice1_def)

lemma remove_last:
  "present r b \<Longrightarrow> getKeys r b = JArr (vs @ [v]) \<Longrightarrow>
   removeKeys r (b @ [nat_str (length vs)]) = setKeys r b (JArr vs)"
  by (subst removeKeys_below) (simp_all add: removeKeys_def array_splice1_last)

lemma present_prop:
  "present r b \<Longrightarrow> getKeys r b = JObj ps \<Longrightarrow> map_of ps k = Some v \<Longrightarrow>
   present r (b @ [k]) \<and> getKeys r (b @ [k]) = v"
proof (induction b arbitrary: r)
  case (Cons c b)
  then show ?case
    by (auto elim!: present_cases simp: nullish_def split: if_splits)
qed simp

lemma present_elem:
  "present r b \<Longrightarrow> getKeys r b = JArr vs \<Longrightarrow> i < length vs \<Longrightarrow>
   present r (b @ [nat_str i]) \<and> getKeys r (b @ [nat_str i]) = vs ! i"
proof (induction b arbitrary: r)
  case (Cons c b)
  then show ?case
    by (auto elim!: present_cases simp: nullish_def split: if_splits)
qed simp

section \<open>The round trip\<close>

text \<open>\<open>reaches r b ops w\<close>: running the ops from \<open>r\<close> amounts to writing \<open>w\<close> at \<open>b\<close>.\<close>

definition reaches :: "jsv \<Rightarrow> string list \<Rightarrow> PatchOp list \<Rightarrow> jsv \<Rightarrow> bool" where
  "reaches r b ops w \<longleftrightarrow> applyOps r ops = setKeys r b w"

lemma reaches_Nil: "present r b \<Longrightarrow> reaches r b [] (getKeys r b)"
  by (simp add: reaches_def setKeys_getKeys)

lemma reaches_append:
  "present r b \<Longrightarrow> reaches r b xs u \<Longrightarrow> reaches (setKeys r b u) b ys w \<Longrightarrow> reaches r b (xs @ ys) w"
  by (simp add: reaches_def setKeys_setKeys)

definition matches :: "props \<Rightarrow> props \<Rightarrow> string \<Rightarrow> bool" where
  "matches cur qs k = (case map_of qs k of
      None \<Rightarrow> map_of cur k = None
    | Some nv \<Rightarrow> (case map_of cur k of None \<Rightarrow> False | Some w \<Rightarrow> js_same w nv))"

text \<open>
  The key loop: if the ops of each key turn that key of the current object into its new value and
  leave the others, then all of them together give an object that matches the new one.
\<close>

lemma key_loop:
  assumes "\<And>r cur k. k \<in> set ks \<Longrightarrow> present r b \<Longrightarrow> getKeys r b = JObj cur \<Longrightarrow> distinct (map fst cur) \<Longrightarrow>
       map_of cur k = map_of ps k \<Longrightarrow>
       \<exists>cur'. reaches r b (f k) (JObj cur') \<and> distinct (map fst cur') \<and> matches cur' qs k \<and>
         (\<forall>j. j \<noteq> k \<longrightarrow> map_of cur' j = map_of cur j)"
    and "distinct ks" "present r b" "getKeys r b = JObj cur" "distinct (map fst cur)"
    and "\<forall>k \<in> set ks. map_of cur k = map_of ps k"
  shows "\<exists>cur'. reaches r b (concat (map f ks)) (JObj cur') \<and> distinct (map fst cur') \<and>
     (\<forall>k \<in> set ks. matches cur' qs k) \<and> (\<forall>j. j \<notin> set ks \<longrightarrow> map_of cur' j = map_of cur j)"
  using assms
proof (induction ks arbitrary: r cur)
  case Nil
  then show ?case using reaches_Nil by fastforce
next
  case (Cons k ks)
  from Cons.prems(1)[of k r cur] Cons.prems(3-6) obtain c1 where
    c1: "reaches r b (f k) (JObj c1)" "distinct (map fst c1)" "matches c1 qs k"
      "\<forall>j. j \<noteq> k \<longrightarrow> map_of c1 j = map_of cur j" by auto
  let ?r = "setKeys r b (JObj c1)"
  have "present ?r b" "getKeys ?r b = JObj c1"
    using Cons.prems(3) by (simp_all add: present_setKeys getKeys_setKeys)
  moreover have "\<forall>j \<in> set ks. map_of c1 j = map_of ps j" using c1(4) Cons.prems(2,6) by auto
  ultimately obtain c2 where
    c2: "reaches ?r b (concat (map f ks)) (JObj c2)" "distinct (map fst c2)"
      "\<forall>j \<in> set ks. matches c2 qs j" "\<forall>j. j \<notin> set ks \<longrightarrow> map_of c2 j = map_of c1 j"
    using Cons.IH[of ?r c1] Cons.prems(1,2) c1(2) by auto
  have "map_of c2 k = map_of c1 k" using c2(4) Cons.prems(2) by simp
  with c1(3) have "matches c2 qs k" by (simp add: matches_def split: option.splits)
  then show ?case
    using reaches_append[OF Cons.prems(3) c1(1) c2(1)] c2(2,3,4) c1(4) by auto
qed

lemma matches_js_same:
  assumes "distinct (map fst cur)" "\<forall>k. matches cur qs k"
  shows "js_same (JObj cur) (JObj qs)"
proof -
  have "k \<in> fst ` set cur \<longleftrightarrow> k \<in> fst ` set qs" for k
  proof -
    have "map_of cur k = None \<longleftrightarrow> map_of qs k = None"
      using assms(2)[rule_format, of k] by (auto simp: matches_def split: option.splits)
    then show ?thesis by (simp add: map_of_eq_None_iff)
  qed
  moreover have "case map_of qs (fst p) of None \<Rightarrow> False | Some w \<Rightarrow> js_same (snd p) w" if "p \<in> set cur" for p
  proof -
    have "map_of cur (fst p) = Some (snd p)" using that assms(1) by simp
    then show ?thesis
      using assms(2)[rule_format, of "fst p"] by (simp add: matches_def split: option.splits)
  qed
  ultimately show ?thesis by auto
qed

text \<open>The element loops of an array diff: in place, then removals from the end, then additions.\<close>

lemma element_loop:
  assumes "\<And>r cur i. i < n \<Longrightarrow> present r b \<Longrightarrow> getKeys r b = JArr cur \<Longrightarrow> length cur = length xs \<Longrightarrow>
       cur ! i = xs ! i \<Longrightarrow> \<exists>w. reaches r b (f i) (JArr (cur[i := w])) \<and> js_same w (ys ! i)"
    and "n \<le> length xs" "present r b" "getKeys r b = JArr xs"
  shows "\<exists>cur. reaches r b (concat (map f [0 ..< n])) (JArr cur) \<and> length cur = length xs \<and>
     (\<forall>i < n. js_same (cur ! i) (ys ! i)) \<and> (\<forall>i. n \<le> i \<and> i < length xs \<longrightarrow> cur ! i = xs ! i)"
  using assms(1,2)
proof (induction n)
  case 0
  then show ?case using reaches_Nil[OF assms(3)] assms(4) by fastforce
next
  case (Suc n)
  then obtain c1 where c1: "reaches r b (concat (map f [0 ..< n])) (JArr c1)" "length c1 = length xs"
      "\<forall>i < n. js_same (c1 ! i) (ys ! i)" "\<forall>i. n \<le> i \<and> i < length xs \<longrightarrow> c1 ! i = xs ! i"
    by fastforce
  let ?r = "setKeys r b (JArr c1)"
  have "present ?r b" "getKeys ?r b = JArr c1"
    using assms(3) by (simp_all add: present_setKeys getKeys_setKeys)
  with Suc.prems(1)[of n ?r c1] Suc.prems(2) c1(2,4) obtain w where
    w: "reaches ?r b (f n) (JArr (c1[n := w]))" "js_same w (ys ! n)" by auto
  have "reaches r b (concat (map f [0 ..< Suc n])) (JArr (c1[n := w]))"
    using reaches_append[OF assms(3) c1(1) w(1)] by simp
  moreover have "js_same (c1[n := w] ! i) (ys ! i)" if "i < Suc n" for i
    using that c1(2,3) w(2) Suc.prems(2) by (cases "i = n") (auto simp: less_Suc_eq)
  ultimately show ?case using c1(2,4) by (auto intro!: exI[of _ "c1[n := w]"])
qed

lemma remove_tail:
  assumes "good_base b" "present r b" "getKeys r b = JArr (xs @ zs)"
  shows "reaches r b (map (\<lambda>i. RemoveOp (sub_path (pathstr b) (nat_str i)))
     (rev [length xs ..< length (xs @ zs)])) (JArr xs)"
  using assms(2,3)
proof (induction zs arbitrary: r rule: rev_induct)
  case Nil
  then show ?case using reaches_Nil[of r b] by simp
next
  case (snoc z zs)
  have step: "applyOp r (RemoveOp (sub_path (pathstr b) (nat_str (length (xs @ zs))))) =
      setKeys r b (JArr (xs @ zs))"
    using remove_last[of r b "xs @ zs" z] snoc.prems good_base_snoc[OF assms(1)]
    by (simp add: sub_path_pathstr good_base_ops del: pathstr_simps)
  have "reaches (setKeys r b (JArr (xs @ zs))) b
      (map (\<lambda>i. RemoveOp (sub_path (pathstr b) (nat_str i))) (rev [length xs ..< length (xs @ zs)])) (JArr xs)"
    using snoc.prems by (intro snoc.IH) (simp_all add: present_setKeys getKeys_setKeys)
  then show ?case using step snoc.prems(1) by (simp add: reaches_def setKeys_setKeys)
qed

lemma add_tail:
  assumes "good_base b" "present r b" "getKeys r b = JArr xs" "n = length xs"
  shows "reaches r b (map (\<lambda>i. AddOp (sub_path (pathstr b) (nat_str i)) (ys ! i)) [n ..< n + m])
     (JArr (xs @ map (\<lambda>i. ys ! i) [n ..< n + m]))"
  using assms(2-)
proof (induction m)
  case 0
  then show ?case using reaches_Nil[of r b] by simp
next
  case (Suc m)
  let ?v = "JArr (xs @ map (\<lambda>i. ys ! i) [n ..< n + m])"
  let ?add = "\<lambda>i. AddOp (sub_path (pathstr b) (nat_str i)) (ys ! i)"
  have "reaches (setKeys r b ?v) b [?add (n + m)] (JArr (xs @ map (\<lambda>i. ys ! i) [n ..< n + Suc m]))"
  proof -
    have p: "present (setKeys r b ?v) b" "getKeys (setKeys r b ?v) b = ?v"
      using Suc.prems by (simp_all add: present_setKeys getKeys_setKeys)
    have "array_put (xs @ map (\<lambda>i. ys ! i) [n ..< n + m]) (n + m) (ys ! (n + m)) =
        xs @ map (\<lambda>i. ys ! i) [n ..< n + m] @ [ys ! (n + m)]"
      using array_put_end[of "xs @ map (\<lambda>i. ys ! i) [n ..< n + m]" "ys ! (n + m)"] Suc.prems(3) by simp
    then show ?thesis
      using set_elem[OF p] good_base_snoc[OF assms(1)]
      by (simp add: reaches_def sub_path_pathstr good_base_ops del: pathstr_simps)
  qed
  with Suc.IH[OF Suc.prems] show ?case
    using reaches_append[OF Suc.prems(1)] by simp
qed

text \<open>A value that can be diffed: distinct keys in every object, and no reserved characters.\<close>

definition diffable :: "jsv \<Rightarrow> bool" where
  "diffable v \<longleftrightarrow> wf_jsv v \<and> plain_keys v"

lemma diffable_map_of: "diffable (JObj ps) \<Longrightarrow> map_of ps k = Some v \<Longrightarrow> plain_key k \<and> diffable v"
  unfolding diffable_def using plain_keys_map_of wf_jsv_map_of by metis

lemma diffable_nth: "diffable (JArr vs) \<Longrightarrow> i < length vs \<Longrightarrow> diffable (vs ! i)"
  by (auto simp: diffable_def list_all_length)

lemma union_keys_set: "set (union_keys ps qs) = fst ` set ps \<union> fst ` set qs"
  by (auto simp: union_keys_def)

lemma union_keys_distinct:
  "diffable (JObj ps) \<Longrightarrow> diffable (JObj qs) \<Longrightarrow> distinct (union_keys ps qs)"
  by (auto simp: union_keys_def diffable_def distinct_own_keys)

lemma union_keys_plain:
  "diffable (JObj ps) \<Longrightarrow> diffable (JObj qs) \<Longrightarrow> k \<in> set (union_keys ps qs) \<Longrightarrow> plain_key k"
  by (auto simp: union_keys_set diffable_def list_all_iff)

lemma js_same_diffable: "diffable v \<Longrightarrow> js_same v v"
  by (simp add: diffable_def js_same_refl)

text \<open>One key of an object diff, given that diffs of the values below it reach them.\<close>

lemma diff_one_key:
  assumes IH: "\<And>ov nv r. map_of ps k = Some ov \<Longrightarrow> map_of qs k = Some nv \<Longrightarrow> present r (b @ [k]) \<Longrightarrow>
        getKeys r (b @ [k]) = ov \<Longrightarrow>
        \<exists>w. reaches r (b @ [k]) (diffValue ov nv (pathstr (b @ [k]))) w \<and> js_same w nv"
    and d: "diffable (JObj qs)" and gb: "good_base (b @ [k])"
    and r: "present r b" "getKeys r b = JObj cur" "distinct (map fst cur)" "map_of cur k = map_of ps k"
  shows "\<exists>cur'. reaches r b
       (case map_of qs k of
          None \<Rightarrow> [RemoveOp (pathstr (b @ [k]))]
        | Some nv \<Rightarrow> (case map_of ps k of
              None \<Rightarrow> [AddOp (pathstr (b @ [k])) nv]
            | Some ov \<Rightarrow> if ov \<noteq> nv then diffValue ov nv (pathstr (b @ [k])) else []))
       (JObj cur') \<and> distinct (map fst cur') \<and> matches cur' qs k \<and>
     (\<forall>j. j \<noteq> k \<longrightarrow> map_of cur' j = map_of cur j)"
proof (cases "map_of qs k")
  case None
  have "reaches r b [RemoveOp (pathstr (b @ [k]))] (JObj (AList.delete k cur))"
    using remove_prop[OF r(1,2)] by (simp add: reaches_def good_base_ops[OF gb] del: pathstr_simps)
  then show ?thesis using None r(3)
    by (intro exI[of _ "AList.delete k cur"])
      (simp add: matches_def distinct_removeAll del: pathstr_simps)
next
  case (Some nv)
  show ?thesis
  proof (cases "map_of ps k")
    case None
    have "reaches r b [AddOp (pathstr (b @ [k])) nv] (JObj (AList.update k nv cur))"
      using set_prop[OF r(1,2)] by (simp add: reaches_def good_base_ops[OF gb] del: pathstr_simps)
    with None Some r(3) d show ?thesis
      by (intro exI[of _ "AList.update k nv cur"])
        (auto simp: matches_def distinct_update dest: diffable_map_of intro: js_same_diffable
          simp del: pathstr_simps)
  next
    case ov: (Some ov)
    have loc: "present r (b @ [k])" "getKeys r (b @ [k]) = ov"
      using present_prop[OF r(1,2)] r(4) ov by auto
    show ?thesis
    proof (cases "ov = nv")
      case True
      with ov Some r d show ?thesis using reaches_Nil[OF r(1)]
        by (intro exI[of _ cur])
          (auto simp: matches_def dest: diffable_map_of intro: js_same_diffable simp del: pathstr_simps)
    next
      case False
      from IH[OF ov Some loc] obtain w where
        w: "reaches r (b @ [k]) (diffValue ov nv (pathstr (b @ [k]))) w" "js_same w nv" by blast
      from w(1) have "reaches r b (diffValue ov nv (pathstr (b @ [k]))) (JObj (AList.update k w cur))"
        using set_prop[OF r(1,2)] by (simp add: reaches_def del: pathstr_simps)
      with False ov Some r(3) w(2) show ?thesis
        by (intro exI[of _ "AList.update k w cur"])
          (simp add: matches_def distinct_update del: pathstr_simps)
    qed
  qed
qed

lemma diffValue_shape:
  "old \<noteq> new \<Longrightarrow> (\<exists>xs ys. old = JArr xs \<and> new = JArr ys) \<or> (\<exists>ps qs. old = JObj ps \<and> new = JObj qs) \<or>
     (\<exists>s t. old = JStr s \<and> new = JStr t \<and> prefix s t \<and> length s < length t) \<or>
     diffValue old new path = [ReplaceOp path new]"
  by (cases old; cases new) (simp_all add: diffValue.simps)

text \<open>All keys of an object diff, and all elements of an array diff, under the same hypothesis.\<close>

definition diff_ok :: "string list \<Rightarrow> jsv \<Rightarrow> jsv \<Rightarrow> bool" where
  "diff_ok b ov nv \<longleftrightarrow> (\<forall>r. present r b \<longrightarrow> getKeys r b = ov \<longrightarrow>
     (\<exists>w. reaches r b (diffValue ov nv (pathstr b)) w \<and> js_same w nv))"

lemma diff_ok_same: "diffable v \<Longrightarrow> diff_ok b v v"
  unfolding diff_ok_def using reaches_Nil js_same_diffable by (fastforce simp: diffValue.simps)

lemma object_diff_reaches:
  assumes IH: "\<And>k ov nv. map_of ps k = Some ov \<Longrightarrow> map_of qs k = Some nv \<Longrightarrow> diff_ok (b @ [k]) ov nv"
    and gb: "good_base b" and r: "present r b" "getKeys r b = JObj ps"
    and d: "diffable (JObj ps)" "diffable (JObj qs)"
  shows "\<exists>w. reaches r b (computeObjectDiff ps qs (pathstr b)) w \<and> js_same w (JObj qs)"
proof -
  let ?f = "\<lambda>k. case map_of qs k of
          None \<Rightarrow> [RemoveOp (pathstr (b @ [k]))]
        | Some nv \<Rightarrow> (case map_of ps k of
              None \<Rightarrow> [AddOp (pathstr (b @ [k])) nv]
            | Some ov \<Rightarrow> if ov \<noteq> nv then diffValue ov nv (pathstr (b @ [k])) else [])"
  have "\<exists>cur'. reaches r b (concat (map ?f (union_keys ps qs))) (JObj cur') \<and> distinct (map fst cur') \<and>
     (\<forall>k \<in> set (union_keys ps qs). matches cur' qs k) \<and>
     (\<forall>j. j \<notin> set (union_keys ps qs) \<longrightarrow> map_of cur' j = map_of ps j)"
    using r d IH gb
    by (intro key_loop[where ps = ps] diff_one_key union_keys_distinct good_base_snoc)
      (auto simp: diffable_def[of "JObj ps"] diff_ok_def intro: union_keys_plain[OF d] simp del: pathstr_simps)
  then obtain cur' where c: "reaches r b (concat (map ?f (union_keys ps qs))) (JObj cur')"
      "distinct (map fst cur')" "\<forall>k \<in> set (union_keys ps qs). matches cur' qs k"
      "\<forall>j. j \<notin> set (union_keys ps qs) \<longrightarrow> map_of cur' j = map_of ps j" by blast
  have "matches cur' qs k" for k
  proof (cases "k \<in> set (union_keys ps qs)")
    case False
    then have "map_of ps k = None" "map_of qs k = None"
      by (auto simp: union_keys_set map_of_eq_None_iff)
    with c(4) False show ?thesis by (simp add: matches_def)
  qed (use c(3) in simp)
  then have "js_same (JObj cur') (JObj qs)" by (intro matches_js_same[OF c(2)]) simp
  moreover have "reaches r b (computeObjectDiff ps qs (pathstr b)) (JObj cur')"
    using c(1) unfolding computeObjectDiff.simps sub_path_pathstr .
  ultimately show ?thesis by blast
qed

lemma array_grow_same:
  assumes "length cur = length xs" "\<forall>i < length xs. js_same (cur ! i) (ys ! i)"
    and "length xs < length ys" "diffable (JArr ys)"
  shows "js_same (JArr (cur @ map (\<lambda>i. ys ! i) [length xs ..< length ys])) (JArr ys)"
proof -
  have "js_same ((cur @ map (\<lambda>i. ys ! i) [length xs ..< length ys]) ! i) (ys ! i)" if "i < length ys" for i
    using assms that by (cases "i < length xs") (auto simp: nth_append diffable_nth js_same_diffable)
  with assms(1,3) show ?thesis by (auto simp: set_zip)
qed

lemma array_diff_reaches:
  assumes IH: "\<And>i. i < min (length xs) (length ys) \<Longrightarrow> diff_ok (b @ [nat_str i]) (xs ! i) (ys ! i)"
    and gb: "good_base b" and rb: "present r b" "getKeys r b = JArr xs" and d: "diffable (JArr ys)"
  shows "\<exists>w. reaches r b (diffArray xs ys (pathstr b)) w \<and> js_same w (JArr ys)"
proof -
  let ?n = "min (length xs) (length ys)"
  let ?f = "\<lambda>i. diffValue (xs ! i) (ys ! i) (pathstr (b @ [nat_str i]))"
  have step: "\<exists>w. reaches r b (?f i) (JArr (cur[i := w])) \<and> js_same w (ys ! i)"
    if "i < ?n" "present r b" "getKeys r b = JArr cur" "length cur = length xs" "cur ! i = xs ! i" for r cur i
    using IH[OF that(1)] present_elem[OF that(2,3), of i] set_elem[OF that(2,3)] that
    by (fastforce simp: diff_ok_def reaches_def simp del: pathstr_simps)
  obtain cur where c: "reaches r b (concat (map ?f [0 ..< ?n])) (JArr cur)" "length cur = length xs"
      "\<forall>i < ?n. js_same (cur ! i) (ys ! i)"
    using element_loop[of ?n b xs ?f ys r] step rb by auto
  let ?r = "setKeys r b (JArr cur)"
  have r: "present ?r b" "getKeys ?r b = JArr cur"
    using rb by (simp_all add: present_setKeys getKeys_setKeys)
  show ?thesis
  proof (cases "length ys \<le> length xs")
    case True
    have "reaches ?r b (map (\<lambda>i. RemoveOp (sub_path (pathstr b) (nat_str i))) (rev [length ys ..< length xs]))
        (JArr (take (length ys) cur))"
      using remove_tail[OF gb r(1), of "take (length ys) cur" "drop (length ys) cur"] r(2) c(2) True
      by (simp add: min_absorb2)
    then have "reaches r b (diffArray xs ys (pathstr b)) (JArr (take (length ys) cur))"
      using reaches_append[OF rb(1) c(1)] True
      by (simp add: diffArray.simps sub_path_pathstr del: pathstr_simps)
    moreover have "js_same (JArr (take (length ys) cur)) (JArr ys)"
      using c(2,3) True by (auto simp: set_zip)
    ultimately show ?thesis by blast
  next
    case False
    then have "reaches ?r b (map (\<lambda>i. AddOp (sub_path (pathstr b) (nat_str i)) (ys ! i)) [length xs ..< length ys])
        (JArr (cur @ map (\<lambda>i. ys ! i) [length xs ..< length ys]))"
      using add_tail[OF gb r, of "length xs" ys "length ys - length xs"] c(2) by simp
    then have "reaches r b (diffArray xs ys (pathstr b)) (JArr (cur @ map (\<lambda>i. ys ! i) [length xs ..< length ys]))"
      using reaches_append[OF rb(1) c(1)] False
      by (simp add: diffArray.simps sub_path_pathstr del: pathstr_simps)
    then show ?thesis using array_grow_same[of cur xs ys] c(2,3) False d by auto
  qed
qed

lemma diff_reaches:
  "good_base b \<Longrightarrow> diffable (JObj ps) \<Longrightarrow> diffable (JObj qs) \<Longrightarrow> present r b \<Longrightarrow> getKeys r b = JObj ps \<Longrightarrow>
     \<exists>w. reaches r b (computeObjectDiff ps qs (pathstr b)) w \<and> js_same w (JObj qs)"
  "good_base b \<Longrightarrow> diffable old \<Longrightarrow> diffable new \<Longrightarrow> diff_ok b old new"
  "good_base b \<Longrightarrow> diffable (JArr xs) \<Longrightarrow> diffable (JArr ys) \<Longrightarrow> present r b \<Longrightarrow> getKeys r b = JArr xs \<Longrightarrow>
     \<exists>w. reaches r b (diffArray xs ys (pathstr b)) w \<and> js_same w (JArr ys)"
proof (induction ps qs "pathstr b" and old new "pathstr b" and xs ys "pathstr b"
    arbitrary: b r and b and b r rule: computeObjectDiff_diffValue_diffArray.induct)
  case (1 ps qs)
  have "diff_ok (b @ [k]) ov nv" if "map_of ps k = Some ov" "map_of qs k = Some nv" for k ov nv
  proof (cases "ov = nv")
    case False
    have "k \<in> set (union_keys ps qs)" using that by (force simp: union_keys_set dest: map_of_SomeD)
    then show ?thesis
      using "1.hyps"[OF _ that(2,1) False sub_path_pathstr] "1.prems" that
        good_base_snoc diffable_map_of by blast
  qed (use "1.prems"(2) that in \<open>auto dest: diffable_map_of intro: diff_ok_same\<close>)
  then show ?case using "1.prems" by (intro object_diff_reaches)
next
  case (2 old new)
  show ?case
  proof (cases "old = new")
    case False
    show ?thesis unfolding diff_ok_def
    proof (intro allI impI)
      fix r assume r: "present r b" "getKeys r b = old"
      consider (arr) xs ys where "old = JArr xs" "new = JArr ys"
        | (obj) ps qs where "old = JObj ps" "new = JObj qs"
        | (grow) s t where "old = JStr s" "new = JStr t" "prefix s t" "length s < length t"
        | (other) "diffValue old new (pathstr b) = [ReplaceOp (pathstr b) new]"
        using diffValue_shape[OF False, of "pathstr b"] by blast
      then show "\<exists>w. reaches r b (diffValue old new (pathstr b)) w \<and> js_same w new"
      proof cases
        case arr
        with "2.hyps"(1)[OF False _ arr] "2.prems" r False show ?thesis by (simp add: diffValue.simps)
      next
        case obj
        with "2.hyps"(2)[OF False _ obj] "2.prems" r False show ?thesis by (simp add: diffValue.simps)
      next
        case grow
        then have "s @ drop (length s) t = t" by (auto elim: prefixE)
        with grow "2.prems" r False show ?thesis
          by (intro exI[of _ new]) (simp add: diffValue.simps reaches_def good_base_ops js_same_diffable)
      next
        case other
        then show ?thesis using "2.prems" r
          by (intro exI[of _ new]) (simp add: reaches_def good_base_ops js_same_diffable)
      qed
    qed
  qed (use "2.prems" in \<open>simp add: diff_ok_same\<close>)
next
  case (3 xs ys)
  have "diff_ok (b @ [nat_str i]) (xs ! i) (ys ! i)" if "i < min (length xs) (length ys)" for i
    using "3.hyps"[of i "b @ [nat_str i]"] "3.prems"(1-3) that
    by (simp add: sub_path_pathstr good_base_snoc diffable_nth del: pathstr_simps)
  then show ?case using "3.prems" by (intro array_diff_reaches)
qed

section \<open>Properties\<close>



text \<open>
  \<^bold>\<open>Lemma.\<close>  The code does not escape keys, and the round trip fails for a key with a slash: the op
  for the new property \<^verbatim>\<open>a/b\<close> is read as a path of two keys and creates a nested object.
\<close>

theorem computeObjectDiff_unescaped:
  "applyOps (JObj [(''args'', JObj [])]) (computeObjectDiff [] [(''a/b'', JNum 1)] ''/args'') =
     JObj [(''args'', JObj [(''a'', JObj [(''b'', JNum 1)])])]"
proof -
  have k: "own_keys [(''a/b'', JNum 1)] = [''a/b'']"
    by (simp add: own_keys_def not_is_index is_digit_def)
  have d: "\<not> digits1 ''b''" by (simp add: digits1_def is_digit_def)
  show ?thesis
    using d by (simp add: computeObjectDiff.simps union_keys_def k sub_path_def applyOp.simps setAtPath_def
        parsePath_def setKeys_def autoCreate_def)
qed

end
