(* ===== verification/Entries.thy ===== *)
theory Entries
  imports Types
begin

text \<open>
  Projection of pi's persisted entries to bridge entries, the first part of
  \<^verbatim>\<open>packages/bridge/src/core/document.ts\<close> (\<^verbatim>\<open>toContent\<close> to \<^verbatim>\<open>toEntry\<close> and \<^verbatim>\<open>projectEntry\<close>).  The code
  casts at every step; the theorems say that the casts are sound: a conforming session entry is
  projected to a conforming, sealed entry that keeps its id, parent and file position.
\<close>

section \<open>Text of a value\<close>

text \<open>
  A number in a template string: sign, integer part, and up to twenty decimals.  Exponent
  notation (from 1e21 on, and below 1e-6) is not modelled.
\<close>

fun frac_digits :: "nat \<Rightarrow> rat \<Rightarrow> string" where
  "frac_digits 0 f = []"
| "frac_digits (Suc n) f =
     (if f = 0 then [] else digit_char (nat \<lfloor>f * 10\<rfloor>) # frac_digits n (f * 10 - of_int \<lfloor>f * 10\<rfloor>))"

definition num_str :: "rat \<Rightarrow> string" where
  "num_str r =
     (let a = \<bar>r\<bar>; i = nat \<lfloor>a\<rfloor>; f = a - of_nat i
      in (if r < 0 then ''-'' else []) @ nat_str i @ (if f = 0 then [] else CHR ''.'' # frac_digits 20 f))"

fun js_text :: "jsv \<Rightarrow> string" where
  "js_text JUndef = ''undefined''"
| "js_text JNull = ''null''"
| "js_text (JBool b) = (if b then ''true'' else ''false'')"
| "js_text (JNum n) = num_str n"
| "js_text (JStr s) = s"
| "js_text (JArr vs) =
     (case map (\<lambda>v. if nullish v then [] else js_text v) vs of
        [] \<Rightarrow> []
      | t # ts \<Rightarrow> t @ concat (map (\<lambda>u. CHR '','' # u) ts))"
| "js_text (JObj _) = ''[object Object]''"

section \<open>Content blocks\<close>

definition toContent :: "jsv \<Rightarrow> jsv" where
  "toContent b =
     (if jget b ''type'' = JStr ''text'' then
        JObj [(''type'', JStr ''text''), (''text'', jget b ''text''),
              (''textSignature'', jget b ''textSignature'')]
      else if jget b ''type'' = JStr ''thinking'' then
        JObj [(''type'', JStr ''thinking''),
              (''thinking'', coalesce (jget b ''thinking'') (JStr '''')),
              (''thinkingSignature'', jget b ''thinkingSignature''),
              (''redacted'', jget b ''redacted'')]
      else if jget b ''type'' = JStr ''image'' then
        JObj [(''type'', JStr ''image''), (''data'', jget b ''data''),
              (''mimeType'', jget b ''mimeType'')]
      else if jget b ''type'' = JStr ''toolCall'' then
        JObj [(''type'', JStr ''toolCall''), (''id'', jget b ''id''), (''name'', jget b ''name''),
              (''arguments'', jget b ''arguments''),
              (''thoughtSignature'', jget b ''thoughtSignature'')]
      else
        JObj [(''type'', JStr ''text''),
              (''text'', JStr (''[unsupported '' @ js_text (coalesce (jget b ''type'') (JStr ''content''))
                 @ '' block]''))])"

text \<open>\<^verbatim>\<open>typeof c === "string" ? [{ type: "text", text: c }] : c.map(toContent)\<close>.\<close>

definition contentBlocks :: "jsv \<Rightarrow> jsv" where
  "contentBlocks c =
     (case c of
        JStr s \<Rightarrow> JArr [JObj [(''type'', JStr ''text''), (''text'', JStr s)]]
      | _ \<Rightarrow> JArr (map toContent (arr_of c)))"

definition splitSectionNames :: "jsv \<Rightarrow> string list \<times> string list" where
  "splitSectionNames sections =
     (let es = (if is_obj sections then js_entries sections else [])
      in (map fst (filter (\<lambda>p. snd p \<noteq> JNull) es), map fst (filter (\<lambda>p. snd p = JNull) es)))"

section \<open>Entries by kind\<close>

definition toMessageEntry :: "jsv \<Rightarrow> jsv" where
  "toMessageEntry entry =
     (let msg = jget entry ''message'';
          role = jget msg ''role'';
          base = [(''id'', jget entry ''id''), (''parentId'', jget entry ''parentId''),
                  (''timestamp'', jget entry ''timestamp''), (''kind'', JStr ''message''),
                  (''role'', role), (''content'', contentBlocks (jget msg ''content''))]
      in if role = JStr ''assistant'' then
           JObj (base @
             [(''api'', jget msg ''api''), (''provider'', jget msg ''provider''),
              (''model'', jget msg ''model''),
              (''responseModel'', coalesce (jget msg ''responseModel'') JNull),
              (''responseId'', coalesce (jget msg ''responseId'') JNull),
              (''usage'', jget msg ''usage''), (''stopReason'', jget msg ''stopReason''),
              (''errorMessage'', coalesce (jget msg ''errorMessage'') JNull),
              (''durationMs'', if is_num (jget msg ''durationMs'') then jget msg ''durationMs'' else JNull)])
         else if role = JStr ''system'' then
           (let sections = coalesce (jget msg ''sections'') JNull;
                names = splitSectionNames sections
            in JObj (base @
                 [(''sectionNames'', JArr (map JStr (fst names))),
                  (''removedSectionNames'', JArr (map JStr (snd names))),
                  (''sections'', sections)]))
         else JObj base)"

definition toToolResultEntry :: "jsv \<Rightarrow> jsv \<Rightarrow> jsv" where
  "toToolResultEntry m entry =
     JObj [(''kind'', JStr ''tool_result''), (''id'', jget entry ''id''),
           (''parentId'', jget entry ''parentId''), (''timestamp'', jget entry ''timestamp''),
           (''toolCallId'', jget m ''toolCallId''), (''toolName'', jget m ''toolName''),
           (''content'', JArr (map toContent (arr_of (coalesce (jget m ''content'') (JArr []))))),
           (''details'', coalesce (jsonValue (jget m ''details'')) (JObj [])),
           (''isError'', coalesce (jget m ''isError'') (JBool False)),
           (''durationMs'', if is_num (jget m ''durationMs'') then jget m ''durationMs'' else JNull)]"

definition toBashExecutionEntry :: "jsv \<Rightarrow> jsv \<Rightarrow> jsv" where
  "toBashExecutionEntry m entry =
     JObj [(''kind'', JStr ''bash_execution''), (''id'', jget entry ''id''),
           (''parentId'', jget entry ''parentId''), (''timestamp'', jget entry ''timestamp''),
           (''command'', coalesce (jget m ''command'') (JStr '''')),
           (''output'', coalesce (jget m ''output'') (JStr '''')),
           (''exitCode'', if is_num (jget m ''exitCode'') then jget m ''exitCode'' else JNull),
           (''cancelled'', coalesce (jget m ''cancelled'') (JBool False)),
           (''truncated'', coalesce (jget m ''truncated'') (JBool False)),
           (''fullOutputPath'', coalesce (jget m ''fullOutputPath'') JNull),
           (''excludeFromContext'', coalesce (jget m ''excludeFromContext'') (JBool False))]"

definition toCompactionEntry :: "jsv \<Rightarrow> jsv" where
  "toCompactionEntry entry =
     JObj [(''kind'', JStr ''compaction''), (''id'', jget entry ''id''),
           (''parentId'', jget entry ''parentId''), (''timestamp'', jget entry ''timestamp''),
           (''summary'', jget entry ''summary''),
           (''firstKeptEntryId'', jget entry ''firstKeptEntryId''),
           (''tokensBefore'', jget entry ''tokensBefore''),
           (''details'', jsonValue (jget entry ''details'')),
           (''fromHook'', coalesce (jget entry ''fromHook'') (JBool False))]"

definition toBranchSummaryEntry :: "jsv \<Rightarrow> jsv" where
  "toBranchSummaryEntry entry =
     JObj [(''kind'', JStr ''branch_summary''), (''id'', jget entry ''id''),
           (''parentId'', jget entry ''parentId''), (''timestamp'', jget entry ''timestamp''),
           (''fromId'', jget entry ''fromId''), (''summary'', jget entry ''summary''),
           (''details'', jsonValue (jget entry ''details'')),
           (''fromHook'', coalesce (jget entry ''fromHook'') (JBool False))]"

definition toModelChangeEntry :: "jsv \<Rightarrow> jsv" where
  "toModelChangeEntry entry =
     JObj [(''kind'', JStr ''model_change''), (''id'', jget entry ''id''),
           (''parentId'', jget entry ''parentId''), (''timestamp'', jget entry ''timestamp''),
           (''provider'', jget entry ''provider''), (''modelId'', jget entry ''modelId'')]"

definition toThinkingLevelChangeEntry :: "jsv \<Rightarrow> jsv" where
  "toThinkingLevelChangeEntry entry =
     JObj [(''kind'', JStr ''thinking_level_change''), (''id'', jget entry ''id''),
           (''parentId'', jget entry ''parentId''), (''timestamp'', jget entry ''timestamp''),
           (''thinkingLevel'', jget entry ''thinkingLevel'')]"

definition toLabelEntry :: "jsv \<Rightarrow> jsv" where
  "toLabelEntry entry =
     JObj [(''kind'', JStr ''label''), (''id'', jget entry ''id''),
           (''parentId'', jget entry ''parentId''), (''timestamp'', jget entry ''timestamp''),
           (''targetId'', jget entry ''targetId''), (''label'', jget entry ''label'')]"

definition toSessionInfoEntry :: "jsv \<Rightarrow> jsv" where
  "toSessionInfoEntry entry =
     JObj [(''kind'', JStr ''session_info''), (''id'', jget entry ''id''),
           (''parentId'', jget entry ''parentId''), (''timestamp'', jget entry ''timestamp''),
           (''name'', jget entry ''name'')]"

definition toCustomEntry :: "jsv \<Rightarrow> jsv" where
  "toCustomEntry entry =
     JObj [(''kind'', JStr ''custom''), (''id'', jget entry ''id''),
           (''parentId'', jget entry ''parentId''), (''timestamp'', jget entry ''timestamp''),
           (''customType'', jget entry ''customType''), (''data'', jsonValue (jget entry ''data''))]"

definition toCustomMessageEntry :: "jsv \<Rightarrow> jsv" where
  "toCustomMessageEntry entry =
     JObj [(''kind'', JStr ''custom_message''), (''id'', jget entry ''id''),
           (''parentId'', jget entry ''parentId''), (''timestamp'', jget entry ''timestamp''),
           (''customType'', jget entry ''customType''),
           (''content'', contentBlocks (jget entry ''content'')),
           (''details'', jsonValue (jget entry ''details'')), (''display'', jget entry ''display'')]"

definition toInternalEntry :: "jsv \<Rightarrow> jsv" where
  "toInternalEntry entry =
     JObj [(''kind'', JStr ''internal''), (''id'', jget entry ''id''),
           (''parentId'', jget entry ''parentId''), (''timestamp'', jget entry ''timestamp''),
           (''sourceType'', jget entry ''type'')]"

definition toEntry :: "jsv \<Rightarrow> jsv" where
  "toEntry entry =
     (let t = jget entry ''type'' in
      if t = JStr ''message'' then
        (let msg = jget entry ''message'' in
         if jget msg ''role'' = JStr ''toolResult'' then toToolResultEntry msg entry
         else if jget msg ''role'' = JStr ''bashExecution'' then toBashExecutionEntry msg entry
         else toMessageEntry entry)
      else if t = JStr ''compaction'' then toCompactionEntry entry
      else if t = JStr ''branch_summary'' then toBranchSummaryEntry entry
      else if t = JStr ''model_change'' then toModelChangeEntry entry
      else if t = JStr ''thinking_level_change'' then toThinkingLevelChangeEntry entry
      else if t = JStr ''label'' then toLabelEntry entry
      else if t = JStr ''session_info'' then toSessionInfoEntry entry
      else if t = JStr ''custom'' then toCustomEntry entry
      else if t = JStr ''custom_message'' then toCustomMessageEntry entry
      else if t = JStr ''context_edit'' \<or> t = JStr ''usage'' then toInternalEntry entry
      else JObj [(''kind'', JStr ''unknown''), (''id'', jget entry ''id''),
             (''parentId'', jget entry ''parentId''), (''timestamp'', jget entry ''timestamp''),
             (''sourceType'', t), (''data'', entry)])"

definition projectEntry :: "jsv \<Rightarrow> rat \<Rightarrow> jsv" where
  "projectEntry entry ord = jset ''ord'' (JNum ord) (jset ''isSealed'' (JBool True) (toEntry entry))"

section \<open>The projection of a conforming entry conforms\<close>

lemmas entry_shapes =
  is_EntryBase_def is_MessageEntry_def is_ToolResultEntry_def is_CompactionEntry_def
  is_BranchSummaryEntry_def is_ModelChangeEntry_def is_ThinkingLevelChangeEntry_def
  is_LabelEntry_def is_SessionInfoEntry_def is_CustomEntry_def is_CustomMessageEntry_def
  is_UnknownEntry_def is_InternalEntry_def is_BashExecutionEntry_def

lemmas to_entry_defs =
  toMessageEntry_def toToolResultEntry_def toBashExecutionEntry_def toCompactionEntry_def
  toBranchSummaryEntry_def toModelChangeEntry_def toThinkingLevelChangeEntry_def
  toLabelEntry_def toSessionInfoEntry_def toCustomEntry_def toCustomMessageEntry_def
  toInternalEntry_def

lemma coalesce_opt: "opt P v \<Longrightarrow> nullish v \<or> P v \<Longrightarrow> P w \<Longrightarrow> P (coalesce v w)"
  by (auto simp: coalesce_def)

lemma opt_coalesce_null: "opt P v \<Longrightarrow> nullable P (coalesce v JNull)"
  by (auto simp: opt_def nullable_def coalesce_def)

lemma opt_str_coalesce: "opt is_str v \<Longrightarrow> is_str (coalesce v (JStr s))"
  by (cases v) (auto simp: opt_def)

lemma opt_bool_coalesce: "opt is_bool v \<Longrightarrow> is_bool (coalesce v (JBool b))"
  by (cases v) (auto simp: opt_def)

lemma is_str_coalesce [simp]: "is_str v \<Longrightarrow> coalesce v w = v"
  by (cases v) auto

lemma is_bool_coalesce [simp]: "is_bool v \<Longrightarrow> coalesce v w = v"
  by (cases v) auto

lemma is_arr_coalesce [simp]: "is_arr v \<Longrightarrow> coalesce v w = v"
  by (cases v) auto

lemma JsonValue_coalesce_null: "opt (\<lambda>s. is_obj s \<and> is_JsonValue s) v \<Longrightarrow> is_JsonValue (coalesce v JNull)"
  by (auto simp: opt_def coalesce_def)

lemma JsonValue_coalesce: "is_JsonValue v \<Longrightarrow> is_JsonValue w \<Longrightarrow> is_JsonValue (coalesce v w)"
  by (auto simp: coalesce_def)

lemma toContent_Content: "is_pi_block b \<Longrightarrow> is_Content (toContent b)"
  by (auto simp: is_pi_block_def toContent_def is_Content_def is_TextContent_def
      is_ThinkingContent_def is_ImageContent_def is_ToolCallBlock_def opt_str_coalesce)

lemma contentBlocks_Content: "is_pi_content c \<Longrightarrow> arr_all is_Content (contentBlocks c)"
  by (cases c) (auto simp: is_pi_content_def contentBlocks_def arr_all_def list_all_iff is_Content_def
      is_TextContent_def toContent_Content[unfolded is_Content_def is_TextContent_def])

lemma map_toContent_Content: "arr_all is_pi_block c \<Longrightarrow> list_all is_Content (map toContent (arr_of c))"
  by (auto simp: arr_all_def list_all_iff toContent_Content)

lemma is_Entry_intros:
  "is_MessageEntry v \<Longrightarrow> is_Entry v" "is_ToolResultEntry v \<Longrightarrow> is_Entry v"
  "is_BashExecutionEntry v \<Longrightarrow> is_Entry v" "is_CompactionEntry v \<Longrightarrow> is_Entry v"
  "is_BranchSummaryEntry v \<Longrightarrow> is_Entry v" "is_ModelChangeEntry v \<Longrightarrow> is_Entry v"
  "is_ThinkingLevelChangeEntry v \<Longrightarrow> is_Entry v" "is_LabelEntry v \<Longrightarrow> is_Entry v"
  "is_SessionInfoEntry v \<Longrightarrow> is_Entry v" "is_CustomEntry v \<Longrightarrow> is_Entry v"
  "is_CustomMessageEntry v \<Longrightarrow> is_Entry v" "is_UnknownEntry v \<Longrightarrow> is_Entry v"
  "is_InternalEntry v \<Longrightarrow> is_Entry v"
  by (simp_all add: is_Entry_def)

text \<open>Sealing a projected value: every field but the two that are set is read through.\<close>

definition seal :: "jsv \<Rightarrow> rat \<Rightarrow> jsv" where
  "seal v ord = jset ''ord'' (JNum ord) (jset ''isSealed'' (JBool True) v)"

lemma projectEntry_seal: "projectEntry e ord = seal (toEntry e) ord"
  by (simp add: projectEntry_def seal_def)

lemma jget_seal [simp]:
  "is_obj v \<Longrightarrow> jget (seal v n) k =
     (if k = ''ord'' then JNum n else if k = ''isSealed'' then JBool True else jget v k)"
  by (simp add: seal_def)

lemma is_obj_seal [simp]: "is_obj (seal v n) = is_obj v"
  by (simp add: seal_def)

lemma is_obj_toEntry [simp]: "is_obj (toEntry e)"
  by (simp add: toEntry_def to_entry_defs Let_def)

lemma seal_message:
  assumes "is_SessionMessageEntry e"
  shows "is_Entry (seal (toEntry e) n)"
proof -
  let ?m = "jget e ''message''"
  from assms have b: "is_SessionEntryBase e" "jget e ''type'' = JStr ''message''"
    by (simp_all add: is_SessionMessageEntry_def)
  from assms consider "is_pi_UserMessage ?m" | "is_pi_SystemMessage ?m" | "is_pi_AssistantMessage ?m"
    | "is_pi_ToolResultMessage ?m" | "is_pi_BashExecutionMessage ?m"
    by (auto simp: is_SessionMessageEntry_def Let_def)
  then show ?thesis
  proof cases
    case 1
    then have "is_MessageEntry (seal (toEntry e) n)" using b
      by (simp add: toEntry_def toMessageEntry_def Let_def entry_shapes is_SessionEntryBase_def
          is_pi_UserMessage_def contentBlocks_Content)
    then show ?thesis by (rule is_Entry_intros)
  next
    case 2
    then have "is_MessageEntry (seal (toEntry e) n)" using b
      by (simp add: toEntry_def toMessageEntry_def Let_def entry_shapes is_SessionEntryBase_def
          is_pi_SystemMessage_def contentBlocks_Content list_all_iff JsonValue_coalesce_null)
    then show ?thesis by (rule is_Entry_intros)
  next
    case 3
    then have "is_MessageEntry (seal (toEntry e) n)" using b
      by (simp add: toEntry_def toMessageEntry_def Let_def entry_shapes is_SessionEntryBase_def
          is_pi_AssistantMessage_def contentBlocks_Content is_pi_content_def opt_coalesce_null)
    then show ?thesis by (rule is_Entry_intros)
  next
    case 4
    then have "is_ToolResultEntry (seal (toEntry e) n)" using b
      by (auto simp: toEntry_def toToolResultEntry_def Let_def entry_shapes is_SessionEntryBase_def
          is_pi_ToolResultMessage_def arr_all_def map_toContent_Content[unfolded arr_all_def]
          JsonValue_coalesce)
    then show ?thesis by (rule is_Entry_intros)
  next
    case 5
    then have "is_BashExecutionEntry (seal (toEntry e) n)" using b
      by (simp add: toEntry_def toBashExecutionEntry_def Let_def entry_shapes is_SessionEntryBase_def
          is_pi_BashExecutionMessage_def opt_coalesce_null opt_bool_coalesce)
    then show ?thesis by (rule is_Entry_intros)
  qed
qed

text \<open>The other entry types, one conformance fact each.\<close>

lemma seal_kinds:
  assumes "is_SessionEntryBase e"
  shows "is_str (jget e ''summary'') \<Longrightarrow> is_str (jget e ''firstKeptEntryId'') \<Longrightarrow>
      is_num (jget e ''tokensBefore'') \<Longrightarrow> opt is_bool (jget e ''fromHook'') \<Longrightarrow>
      is_CompactionEntry (seal (toCompactionEntry e) n)"
    and "is_str (jget e ''summary'') \<Longrightarrow> is_str (jget e ''fromId'') \<Longrightarrow>
      opt is_bool (jget e ''fromHook'') \<Longrightarrow> is_BranchSummaryEntry (seal (toBranchSummaryEntry e) n)"
    and "is_str (jget e ''provider'') \<Longrightarrow> is_str (jget e ''modelId'') \<Longrightarrow>
      is_ModelChangeEntry (seal (toModelChangeEntry e) n)"
    and "is_str (jget e ''thinkingLevel'') \<Longrightarrow>
      is_ThinkingLevelChangeEntry (seal (toThinkingLevelChangeEntry e) n)"
    and "is_str (jget e ''targetId'') \<Longrightarrow> opt is_str (jget e ''label'') \<Longrightarrow>
      is_LabelEntry (seal (toLabelEntry e) n)"
    and "opt is_str (jget e ''name'') \<Longrightarrow> is_SessionInfoEntry (seal (toSessionInfoEntry e) n)"
    and "is_str (jget e ''customType'') \<Longrightarrow> is_CustomEntry (seal (toCustomEntry e) n)"
    and "is_str (jget e ''customType'') \<Longrightarrow> is_pi_content (jget e ''content'') \<Longrightarrow>
      is_bool (jget e ''display'') \<Longrightarrow> is_CustomMessageEntry (seal (toCustomMessageEntry e) n)"
    and "is_InternalEntry (seal (toInternalEntry e) n)"
  using assms
  by (simp_all add: entry_shapes to_entry_defs is_SessionEntryBase_def contentBlocks_Content opt_bool_coalesce)

lemma seal_unknown:
  assumes "is_SessionEntryBase e" "is_JsonValue e"
    "jget e ''type'' \<notin> JStr ` {''message'', ''thinking_level_change'', ''model_change'', ''compaction'',
       ''branch_summary'', ''custom'', ''custom_message'', ''label'', ''session_info'',
       ''context_edit'', ''usage''}"
  shows "is_UnknownEntry (seal (toEntry e) n)"
  using assms by (simp add: toEntry_def is_UnknownEntry_def is_EntryBase_def is_SessionEntryBase_def Let_def)

lemma seal_other:
  assumes "is_SessionEntry e" "jget e ''type'' \<noteq> JStr ''message''"
  shows "is_Entry (seal (toEntry e) n)"
proof -
  let ?t = "jget e ''type''"
  have b: "is_SessionEntryBase e" using assms(1) by (simp add: is_SessionEntry_def)
  note shape = assms(1)[unfolded is_SessionEntry_def Let_def] and kinds = seal_kinds[OF b, of n]
  consider "?t = JStr ''compaction''" | "?t = JStr ''branch_summary''" | "?t = JStr ''model_change''"
    | "?t = JStr ''thinking_level_change''" | "?t = JStr ''label''" | "?t = JStr ''session_info''"
    | "?t = JStr ''custom''" | "?t = JStr ''custom_message''" | "?t = JStr ''context_edit'' \<or> ?t = JStr ''usage''"
    | "?t \<notin> JStr ` {''message'', ''thinking_level_change'', ''model_change'', ''compaction'',
             ''branch_summary'', ''custom'', ''custom_message'', ''label'', ''session_info'',
             ''context_edit'', ''usage''}"
    using assms(2) by blast
  then show ?thesis
  proof cases
    case 1
    with shape have "is_CompactionEntry (seal (toEntry e) n)" by (simp add: toEntry_def kinds)
    then show ?thesis by (rule is_Entry_intros)
  next
    case 2
    with shape have "is_BranchSummaryEntry (seal (toEntry e) n)" by (simp add: toEntry_def kinds)
    then show ?thesis by (rule is_Entry_intros)
  next
    case 3
    with shape have "is_ModelChangeEntry (seal (toEntry e) n)" by (simp add: toEntry_def kinds)
    then show ?thesis by (rule is_Entry_intros)
  next
    case 4
    with shape have "is_ThinkingLevelChangeEntry (seal (toEntry e) n)" by (simp add: toEntry_def kinds)
    then show ?thesis by (rule is_Entry_intros)
  next
    case 5
    with shape have "is_LabelEntry (seal (toEntry e) n)" by (simp add: toEntry_def kinds)
    then show ?thesis by (rule is_Entry_intros)
  next
    case 6
    with shape have "is_SessionInfoEntry (seal (toEntry e) n)" by (simp add: toEntry_def kinds)
    then show ?thesis by (rule is_Entry_intros)
  next
    case 7
    with shape have "is_CustomEntry (seal (toEntry e) n)" by (simp add: toEntry_def kinds)
    then show ?thesis by (rule is_Entry_intros)
  next
    case 8
    with shape have "is_CustomMessageEntry (seal (toEntry e) n)" by (simp add: toEntry_def kinds)
    then show ?thesis by (rule is_Entry_intros)
  next
    case 9
    then have "is_InternalEntry (seal (toEntry e) n)" by (auto simp: toEntry_def kinds)
    then show ?thesis by (rule is_Entry_intros)
  next
    case 10
    with shape have "is_UnknownEntry (seal (toEntry e) n)" by (intro seal_unknown b) blast+
    then show ?thesis by (rule is_Entry_intros)
  qed
qed

text \<open>The identity of an entry goes through the projection unchanged.\<close>

lemma toEntry_identity:
  "jget (toEntry e) ''id'' = jget e ''id''" "jget (toEntry e) ''parentId'' = jget e ''parentId''"
  "jget (toEntry e) ''timestamp'' = jget e ''timestamp''"
  by (simp_all add: toEntry_def to_entry_defs Let_def)

lemma projectEntry_simps [simp]:
  "jget (projectEntry e n) ''id'' = jget e ''id''"
  "jget (projectEntry e n) ''parentId'' = jget e ''parentId''"
  "jget (projectEntry e n) ''ord'' = JNum n" "isEntrySealed (projectEntry e n)"
  "is_obj (projectEntry e n)"
  by (simp_all add: projectEntry_seal toEntry_identity isEntrySealed_def)

lemma projectEntry_Entry: "is_SessionEntry e \<Longrightarrow> is_Entry (projectEntry e n)"
proof (cases "jget e ''type'' = JStr ''message''")
  case True
  assume "is_SessionEntry e"
  with True have "is_SessionMessageEntry e" by (simp add: is_SessionEntry_def Let_def)
  then show ?thesis by (simp add: projectEntry_seal seal_message)
qed (simp add: projectEntry_seal seal_other)

section \<open>Properties\<close>



end
