(* ===== verification/Status.thy ===== *)
theory Status
  imports Entries
begin

text \<open>
  Status derivation and bootstrap, from \<^verbatim>\<open>packages/bridge/src/core/document.ts\<close>: \<^verbatim>\<open>latestByOrd\<close> and
  the fields selected by it, \<^verbatim>\<open>deriveStats\<close> over the branch path, \<^verbatim>\<open>deriveStatus\<close> and
  \<^verbatim>\<open>initFromEntries\<close>.  The branch walk follows parent links and does not return on a cycle, so
  everything that contains it has an option type; on an append-only log it always returns.
\<close>

section \<open>The latest entry by file position\<close>

definition pickLatest :: "(jsv \<Rightarrow> bool) \<Rightarrow> jsv option \<Rightarrow> jsv \<Rightarrow> jsv option" where
  "pickLatest matches latest entry =
     (if \<not> isEntrySealed entry \<or> jget entry ''ord'' = JUndef then latest
      else if \<not> matches entry then latest
      else (case latest of
              None \<Rightarrow> Some entry
            | Some l \<Rightarrow> if num_of (jget l ''ord'') < num_of (jget entry ''ord'') then Some entry else Some l))"

definition latestByOrd :: "jsv \<Rightarrow> (jsv \<Rightarrow> bool) \<Rightarrow> jsv option" where
  "latestByOrd entries matches = foldl (pickLatest matches) None (js_values entries)"

definition kind_is :: "string \<Rightarrow> jsv \<Rightarrow> bool" where
  "kind_is k e \<longleftrightarrow> jget e ''kind'' = JStr k"

definition deriveLeafId :: "jsv \<Rightarrow> jsv" where
  "deriveLeafId entries =
     (case latestByOrd entries (\<lambda>_. True) of None \<Rightarrow> JNull | Some e \<Rightarrow> coalesce (jget e ''id'') JNull)"

definition deriveModel :: "jsv \<Rightarrow> jsv" where
  "deriveModel entries =
     (case latestByOrd entries (kind_is ''model_change'') of
        Some e \<Rightarrow> JObj [(''provider'', jget e ''provider''), (''modelId'', jget e ''modelId'')]
      | None \<Rightarrow> JObj [(''provider'', JStr ''''), (''modelId'', JStr '''')])"

definition deriveThinkingLevel :: "jsv \<Rightarrow> jsv" where
  "deriveThinkingLevel entries =
     (case latestByOrd entries (kind_is ''thinking_level_change'') of
        Some e \<Rightarrow> jget e ''thinkingLevel''
      | None \<Rightarrow> JStr ''off'')"

definition deriveName :: "jsv \<Rightarrow> jsv" where
  "deriveName entries =
     (case latestByOrd entries (\<lambda>e. kind_is ''session_info'' e \<and> jget e ''name'' \<noteq> JUndef) of
        Some e \<Rightarrow> coalesce (jget e ''name'') (JStr '''')
      | None \<Rightarrow> JStr '''')"

definition deriveSessionName :: "jsv \<Rightarrow> jsv" where
  "deriveSessionName entries = deriveName entries"

section \<open>Stats of the selected branch\<close>

text \<open>\<^verbatim>\<open>while (cursor && entries[cursor])\<close>, collecting entries from the leaf towards the root.\<close>

definition branch_step :: "jsv \<Rightarrow> jsv \<Rightarrow> (jsv \<times> jsv) option" where
  "branch_step entries cursor =
     (let e = jget entries (js_text cursor)
      in if truthy cursor \<and> truthy e then Some (e, jget e ''parentId'') else None)"

definition branchPath :: "jsv \<Rightarrow> jsv \<Rightarrow> jsv list option" where
  "branchPath entries leafId = map_option rev (chain (branch_step entries) leafId)"

text \<open>
  The ids that still contribute to the context.  The compaction that counts is the last one on
  the path; everything before its \<^verbatim>\<open>firstKeptEntryId\<close> is gone, the compaction itself and what
  follows it stay.
\<close>

fun split_last :: "('a \<Rightarrow> bool) \<Rightarrow> 'a list \<Rightarrow> ('a list \<times> 'a \<times> 'a list) option" where
  "split_last P [] = None"
| "split_last P (x # xs) =
     (case split_last P xs of
        Some (ys, y, zs) \<Rightarrow> Some (x # ys, y, zs)
      | None \<Rightarrow> if P x then Some ([], x, xs) else None)"

definition contextEntryIds :: "jsv list \<Rightarrow> jsv set" where
  "contextEntryIds path =
     (case split_last (kind_is ''compaction'') path of
        Some (before, compaction, behind) \<Rightarrow>
          insert (jget compaction ''id'')
            ((\<lambda>e. jget e ''id'') ` set (dropWhile (\<lambda>e. jget e ''id'' \<noteq> jget compaction ''firstKeptEntryId'') before)
             \<union> (\<lambda>e. jget e ''id'') ` set behind)
      | None \<Rightarrow> (\<lambda>e. jget e ''id'') ` set path)"

definition counted :: "jsv list \<Rightarrow> jsv list" where
  "counted path =
     filter (\<lambda>e. jget e ''id'' \<in> contextEntryIds path \<and> kind_is ''message'' e \<and> truthy (jget e ''usage'')) path"

text \<open>The accumulation loop over the counted messages: last usage, output, cost and count.\<close>

definition accumulate :: "jsv list \<Rightarrow> jsv \<times> rat \<times> rat \<times> rat" where
  "accumulate path =
     foldl (\<lambda>(lastUsage, output, costTotal, msgs) e.
        (jget e ''usage'', output + num_of (jget (jget e ''usage'') ''output''),
         costTotal + num_of (jget (jget (jget e ''usage'') ''cost'') ''total''), msgs + 1))
     (JUndef, 0, 0, 0) (counted path)"

definition statsOfPath :: "jsv list \<Rightarrow> jsv" where
  "statsOfPath path =
     (case accumulate path of (lastUsage, output, costTotal, msgs) \<Rightarrow>
       let fld = (\<lambda>k. if truthy lastUsage then num_of (jget lastUsage k) else 0);
           cacheRead = fld ''cacheRead''; cacheWrite = fld ''cacheWrite'';
           tokens = [(''input'', JNum (fld ''input'')), (''output'', JNum output),
                     (''total'', JNum (fld ''totalTokens''))]
             @ (if cacheRead \<noteq> 0 then [(''cacheRead'', JNum cacheRead)] else [])
             @ (if cacheWrite \<noteq> 0 then [(''cacheWrite'', JNum cacheWrite)] else [])
       in JObj [(''tokens'', JObj tokens), (''cost'', JObj [(''total'', JNum costTotal)]),
                (''messages'', JNum msgs)])"

definition deriveStats :: "jsv \<Rightarrow> jsv \<Rightarrow> jsv option" where
  "deriveStats entries leafId = map_option statsOfPath (branchPath entries leafId)"

definition deriveStatsForEntries :: "jsv \<Rightarrow> jsv \<Rightarrow> jsv option" where
  "deriveStatsForEntries entries leafId = deriveStats entries leafId"

section \<open>Status and bootstrap\<close>

definition deriveStatus :: "jsv \<Rightarrow> jsv \<Rightarrow> jsv option" where
  "deriveStatus entries overrides =
     (let leafId = coalesce (jget overrides ''leafId'') (deriveLeafId entries)
      in map_option (\<lambda>stats.
           JObj [(''leafId'', leafId),
                 (''name'', coalesce (jget overrides ''name'') (deriveName entries)),
                 (''model'', coalesce (jget overrides ''model'') (deriveModel entries)),
                 (''thinkingLevel'', coalesce (jget overrides ''thinkingLevel'') (deriveThinkingLevel entries)),
                 (''isStreaming'', coalesce (jget overrides ''isStreaming'') (JBool False)),
                 (''isCompacting'', coalesce (jget overrides ''isCompacting'') (JBool False)),
                 (''stats'', stats),
                 (''contextUsage'', coalesce (jget overrides ''contextUsage'') JNull),
                 (''pendingSteer'', JArr []),
                 (''inFlightTools'', JObj []),
                 (''recoverableTurn'', JNull)])
         (deriveStats entries leafId))"

text \<open>\<^verbatim>\<open>entryMap[entries[i].id] = projectEntry(entries[i], i)\<close> for each \<open>i\<close> in turn.\<close>

fun initEntryMap :: "nat \<Rightarrow> jsv list \<Rightarrow> props \<Rightarrow> props" where
  "initEntryMap i [] m = m"
| "initEntryMap i (e # es) m =
     initEntryMap (Suc i) es (AList.update (str_of (jget e ''id'')) (projectEntry e (of_nat i)) m)"

definition initFromEntries :: "jsv list \<Rightarrow> jsv option" where
  "initFromEntries entries =
     (let entryMap = initEntryMap 0 entries []
      in map_option (\<lambda>st. mk_doc st entryMap) (deriveStatus (JObj entryMap) JUndef))"

section \<open>Latest by position\<close>

definition positioned :: "(jsv \<Rightarrow> bool) \<Rightarrow> jsv \<Rightarrow> bool" where
  "positioned P e \<longleftrightarrow> isEntrySealed e \<and> jget e ''ord'' \<noteq> JUndef \<and> P e"

abbreviation ord_of :: "jsv \<Rightarrow> rat" where
  "ord_of e \<equiv> num_of (jget e ''ord'')"

lemma pickLatest_skip: "\<not> positioned P e \<Longrightarrow> pickLatest P acc e = acc"
  by (auto simp: pickLatest_def positioned_def)

lemma pickLatest_None: "positioned P e \<Longrightarrow> pickLatest P None e = Some e"
  by (auto simp: pickLatest_def positioned_def)

lemma pickLatest_Some:
  "positioned P e \<Longrightarrow> pickLatest P (Some l) e = Some (if ord_of l < ord_of e then e else l)"
  by (auto simp: pickLatest_def positioned_def)

lemma pickLatest_fold_Some:
  "positioned P l \<Longrightarrow> \<exists>l'. foldl (pickLatest P) (Some l) es = Some l' \<and> positioned P l' \<and>
     l' \<in> insert l (set es) \<and> ord_of l \<le> ord_of l' \<and> (\<forall>e \<in> set es. positioned P e \<longrightarrow> ord_of e \<le> ord_of l')"
proof (induction es arbitrary: l)
  case (Cons e es)
  show ?case
  proof (cases "positioned P e")
    case False
    with Cons show ?thesis by (fastforce simp: pickLatest_skip)
  next
    case True
    let ?m = "if ord_of l < ord_of e then e else l"
    have "positioned P ?m" using True Cons.prems by simp
    from Cons.IH[OF this] obtain l' where
      "foldl (pickLatest P) (Some ?m) es = Some l'" "positioned P l'" "l' \<in> insert ?m (set es)"
      "ord_of ?m \<le> ord_of l'" "\<forall>e \<in> set es. positioned P e \<longrightarrow> ord_of e \<le> ord_of l'" by blast
    then show ?thesis using True
      by (intro exI[of _ l']) (auto simp: pickLatest_Some split: if_splits)
  qed
qed simp

lemma pickLatest_fold_None:
  "case foldl (pickLatest P) None es of
      None \<Rightarrow> \<forall>e \<in> set es. \<not> positioned P e
    | Some l \<Rightarrow> positioned P l \<and> l \<in> set es \<and> (\<forall>e \<in> set es. positioned P e \<longrightarrow> ord_of e \<le> ord_of l)"
proof (induction es)
  case (Cons e es)
  show ?case
  proof (cases "positioned P e")
    case True
    then show ?thesis using pickLatest_fold_Some[of P e es] by (auto simp: pickLatest_None)
  next
    case False
    with Cons show ?thesis by (simp add: pickLatest_skip split: option.splits)
  qed
qed simp

lemma latestByOrd_cases:
  "case latestByOrd entries P of
      None \<Rightarrow> \<forall>e \<in> set (js_values entries). \<not> positioned P e
    | Some l \<Rightarrow> positioned P l \<and> l \<in> set (js_values entries) \<and>
        (\<forall>e \<in> set (js_values entries). positioned P e \<longrightarrow> ord_of e \<le> ord_of l)"
  unfolding latestByOrd_def by (rule pickLatest_fold_None)

lemma latestByOrd_SomeD:
  "latestByOrd entries P = Some l \<Longrightarrow> positioned P l \<and> l \<in> set (js_values entries) \<and>
     (\<forall>e \<in> set (js_values entries). positioned P e \<longrightarrow> ord_of e \<le> ord_of l)"
  using latestByOrd_cases[of entries P] by simp

lemma latestByOrd_ex:
  "e \<in> set (js_values entries) \<Longrightarrow> positioned P e \<Longrightarrow> \<exists>l. latestByOrd entries P = Some l"
  using latestByOrd_cases[of entries P] by (cases "latestByOrd entries P") auto

section \<open>The branch walk\<close>

lemma nullable_str: "nullable is_str v \<Longrightarrow> v = JNull \<or> (\<exists>s. v = JStr s)"
  by (cases v) (auto simp: nullable_def)

text \<open>
  Parents decrease a rank: the shape of every entry map read from an append-only log, since an
  entry names as its parent an entry written before it.
\<close>

definition ranked_parents :: "(string \<Rightarrow> nat) \<Rightarrow> props \<Rightarrow> bool" where
  "ranked_parents rank es \<longleftrightarrow>
     (\<forall>k e p. map_of es k = Some e \<longrightarrow> jget e ''parentId'' = JStr p \<longrightarrow> rank p < rank k)"

definition nullable_parents :: "props \<Rightarrow> bool" where
  "nullable_parents es \<longleftrightarrow> list_all (\<lambda>p. nullable is_str (jget (snd p) ''parentId'')) es"

lemma branch_step_Some:
  "branch_step (JObj es) c = Some (e, c') \<Longrightarrow>
     map_of es (js_text c) = Some e \<and> truthy c \<and> c' = jget e ''parentId''"
  by (auto simp: branch_step_def Let_def split: option.splits if_splits)

lemma branchPath_returns:
  assumes "ranked_parents rank es" "nullable_parents es" "nullable is_str leaf"
  shows "\<exists>path. branchPath (JObj es) leaf = Some path"
proof -
  let ?S = "Collect (nullable is_str)"
  let ?rank = "\<lambda>c. case c of JStr s \<Rightarrow> Suc (rank s) | _ \<Rightarrow> 0"
  let ?step = "\<lambda>c. if c \<in> ?S then branch_step (JObj es) c else None"
  have dec: "?rank c' < ?rank c" if s: "?step c = Some (x, c')" for c x c'
  proof -
    have c: "nullable is_str c" and bs: "branch_step (JObj es) c = Some (x, c')"
      using s by (auto split: if_splits)
    from branch_step_Some[OF bs] obtain k where
      k: "c = JStr k" "map_of es k = Some x" "c' = jget x ''parentId''"
      using c by (cases c) (auto simp: nullable_def)
    then have "nullable is_str c'"
      using assms(2) by (fastforce simp: nullable_parents_def list_all_iff dest: map_of_SomeD)
    then consider "c' = JNull" | p where "c' = JStr p" by (auto dest: nullable_str)
    then show ?thesis
    proof cases
      case (2 p)
      then have "rank p < rank k" using k(2,3) assms(1) by (simp add: ranked_parents_def)
      with 2 k(1) show ?thesis by simp
    qed (use k(1) in simp)
  qed
  obtain xs where xs: "chain ?step leaf = Some xs"
    using chain_terminates[of ?step ?rank leaf] dec by blast
  have "chain (branch_step (JObj es)) leaf = Some xs"
  proof (rule chain_cong_on[where S = ?S and step = ?step, OF _ _ _ xs])
    fix c x c' assume "c \<in> ?S" and s: "?step c = Some (x, c')"
    then have "map_of es (js_text c) = Some x" "c' = jget x ''parentId''"
      by (auto dest: branch_step_Some split: if_splits)
    then show "c' \<in> ?S"
      using assms(2) by (fastforce simp: nullable_parents_def list_all_iff dest: map_of_SomeD)
  qed (use assms(3) in auto)
  then show ?thesis by (simp add: branchPath_def)
qed

lemma branchPath_cycle:
  assumes "map_of es k = Some e" "jget e ''parentId'' = JStr k" "k \<noteq> []" "is_obj e"
  shows "branchPath (JObj es) (JStr k) = None"
proof -
  have "branch_step (JObj es) (JStr k) = Some (e, JStr k)"
    using assms by (cases e) (auto simp: branch_step_def)
  then have "chain (branch_step (JObj es)) (JStr k) = None"
    by (intro chain_diverges[where S = "{JStr k}"]) auto
  then show ?thesis by (simp add: branchPath_def)
qed

section \<open>Bootstrap from a log\<close>

text \<open>
  A session log: conforming entries with distinct non-empty ids, each naming as its parent nothing
  or an entry written before it.
\<close>

definition entry_id :: "jsv \<Rightarrow> string" where
  "entry_id e = str_of (jget e ''id'')"

definition wf_log :: "jsv list \<Rightarrow> bool" where
  "wf_log es \<longleftrightarrow> list_all is_SessionEntry es \<and> distinct (map entry_id es) \<and>
     list_all (\<lambda>e. entry_id e \<noteq> []) es \<and>
     (\<forall>i < length es. jget (es ! i) ''parentId'' \<in> insert JNull (JStr ` entry_id ` set (take i es)))"

lemma SessionEntry_id: "is_SessionEntry e \<Longrightarrow> jget e ''id'' = JStr (entry_id e)"
  by (cases "jget e ''id''") (auto simp: is_SessionEntry_def is_SessionEntryBase_def entry_id_def)

definition log_entries :: "nat \<Rightarrow> jsv list \<Rightarrow> props" where
  "log_entries i es = map (\<lambda>(j, e). (entry_id e, projectEntry e (of_nat j))) (enumerate i es)"

lemma map_fst_log_entries: "map fst (log_entries i es) = map entry_id es"
  by (simp add: log_entries_def comp_def case_prod_beta flip: map_map[of entry_id snd, unfolded comp_def])

lemma AList_update_new: "k \<notin> set (map fst m) \<Longrightarrow> AList.update k v m = m @ [(k, v)]"
  by (induction m) auto

lemma initEntryMap_log:
  "distinct (map fst m @ map entry_id es) \<Longrightarrow> initEntryMap i es m = m @ log_entries i es"
proof (induction es arbitrary: i m)
  case (Cons e es)
  then show ?case by (simp add: AList_update_new log_entries_def flip: entry_id_def)
qed (simp add: log_entries_def)

lemma length_log_entries [simp]: "length (log_entries i es) = length es"
  by (simp add: log_entries_def)

lemma nth_log_entries:
  "i < length es \<Longrightarrow> log_entries 0 es ! i = (entry_id (es ! i), projectEntry (es ! i) (of_nat i))"
  by (simp add: log_entries_def nth_enumerate_eq)

lemma map_of_log_entries:
  assumes "distinct (map entry_id es)" "i < length es"
  shows "map_of (log_entries 0 es) (entry_id (es ! i)) = Some (projectEntry (es ! i) (of_nat i))"
proof -
  have "(entry_id (es ! i), projectEntry (es ! i) (of_nat i)) \<in> set (log_entries 0 es)"
    using nth_mem[of i "log_entries 0 es"] assms(2) by (simp add: nth_log_entries)
  then show ?thesis using assms(1) by (simp add: map_fst_log_entries)
qed

lemma log_entries_elim:
  assumes "p \<in> set (log_entries 0 es)"
  obtains i where "i < length es" "p = (entry_id (es ! i), projectEntry (es ! i) (of_nat i))"
  using assms by (auto simp: log_entries_def in_set_enumerate_eq)

text \<open>The entry map of a log, as a ranked and conforming map.\<close>

lemma wf_logD:
  assumes "wf_log es"
  shows "distinct (map entry_id es)"
    and "i < length es \<Longrightarrow> is_SessionEntry (es ! i) \<and> entry_id (es ! i) \<noteq> []"
    and "i < length es \<Longrightarrow> jget (es ! i) ''parentId'' = JNull \<or>
      (\<exists>j < i. jget (es ! i) ''parentId'' = JStr (entry_id (es ! j)))"
proof -
  show "distinct (map entry_id es)" using assms by (simp add: wf_log_def)
  show "i < length es \<Longrightarrow> is_SessionEntry (es ! i) \<and> entry_id (es ! i) \<noteq> []"
    using assms by (simp add: wf_log_def list_all_length)
  assume i: "i < length es"
  with assms have "jget (es ! i) ''parentId'' \<in> insert JNull (JStr ` entry_id ` set (take i es))"
    by (simp add: wf_log_def)
  then show "jget (es ! i) ''parentId'' = JNull \<or>
      (\<exists>j < i. jget (es ! i) ''parentId'' = JStr (entry_id (es ! j)))"
    using i by (force simp: in_set_conv_nth)
qed

lemma log_ranked:
  assumes "wf_log es"
  shows "ranked_parents (\<lambda>k. case map_of (log_entries 0 es) k of None \<Rightarrow> 0 | Some e \<Rightarrow> nat \<lfloor>ord_of e\<rfloor>)
    (log_entries 0 es)"
  unfolding ranked_parents_def
proof (intro allI impI)
  fix k e p
  assume k: "map_of (log_entries 0 es) k = Some e" and p: "jget e ''parentId'' = JStr p"
  from map_of_SomeD[OF k] obtain i where i: "i < length es" "k = entry_id (es ! i)"
      "e = projectEntry (es ! i) (of_nat i)"
    by (elim log_entries_elim) auto
  with p wf_logD(3)[OF assms i(1)] obtain j where j: "j < i" "p = entry_id (es ! j)" by auto
  show "(case map_of (log_entries 0 es) p of None \<Rightarrow> 0 | Some e \<Rightarrow> nat \<lfloor>ord_of e\<rfloor>) <
      (case map_of (log_entries 0 es) k of None \<Rightarrow> 0 | Some e \<Rightarrow> nat \<lfloor>ord_of e\<rfloor>)"
    using i j wf_logD(1)[OF assms] by (simp add: map_of_log_entries)
qed

lemma log_nullable: "wf_log es \<Longrightarrow> nullable_parents (log_entries 0 es)"
  by (auto simp: nullable_parents_def list_all_iff nullable_def elim!: log_entries_elim dest: wf_logD(3))

lemma js_values_JObj: "set (js_values (JObj ps)) = snd ` set ps"
  by (simp add: js_values_def js_entries_def)

lemma log_positioned: "e \<in> snd ` set (log_entries 0 es) \<Longrightarrow> positioned P e = P e"
  by (auto simp: positioned_def elim!: log_entries_elim)

lemma log_Entry:
  "wf_log es \<Longrightarrow> e \<in> snd ` set (log_entries 0 es) \<Longrightarrow> is_Entry e \<and> (\<exists>i < length es. e = projectEntry (es ! i) (of_nat i))"
  by (auto elim!: log_entries_elim simp: projectEntry_Entry wf_logD(2))

lemma log_leaf:
  assumes "wf_log es"
  shows "deriveLeafId (JObj (log_entries 0 es)) = (if es = [] then JNull else JStr (entry_id (last es)))"
proof (cases "es = []")
  case True
  then show ?thesis by (simp add: deriveLeafId_def latestByOrd_def js_values_def js_entries_def log_entries_def)
next
  case False
  let ?E = "JObj (log_entries 0 es)" and ?n = "length es - 1"
  have last: "projectEntry (last es) (of_nat ?n) \<in> snd ` set (log_entries 0 es)"
    using False nth_mem[of ?n "log_entries 0 es"] by (force simp: nth_log_entries last_conv_nth)
  then obtain l where l: "latestByOrd ?E (\<lambda>_. True) = Some l"
    using latestByOrd_ex[of _ ?E "\<lambda>_. True"] by (auto simp: js_values_JObj log_positioned)
  from latestByOrd_SomeD[OF l] obtain i where
    i: "i < length es" "l = projectEntry (es ! i) (of_nat i)"
    using log_Entry[OF assms] by (auto simp: js_values_JObj)
  moreover have "ord_of (projectEntry (last es) (of_nat ?n)) \<le> ord_of l"
    using latestByOrd_SomeD[OF l] last log_positioned[OF last, of "\<lambda>_. True"] by (simp only: js_values_JObj)
  ultimately have "i = ?n" by simp
  moreover have "jget (es ! i) ''id'' = JStr (entry_id (es ! i))"
    using i(1) wf_logD(2)[OF assms] by (simp add: SessionEntry_id)
  ultimately show ?thesis using i(2) False by (simp add: deriveLeafId_def l last_conv_nth)
qed

lemma is_Stats_statsOfPath: "is_Stats (statsOfPath path)"
  by (cases "accumulate path") (auto simp: statsOfPath_def is_Stats_def Let_def)

text \<open>What the other status fields select conforms, because the entries do.\<close>

lemma Entry_of_kind:
  assumes "is_Entry e"
  shows "kind_is ''model_change'' e \<Longrightarrow> is_ModelChangeEntry e"
    and "kind_is ''thinking_level_change'' e \<Longrightarrow> is_ThinkingLevelChangeEntry e"
    and "kind_is ''session_info'' e \<Longrightarrow> is_SessionInfoEntry e"
  using assms by (auto simp: is_Entry_def entry_shapes kind_is_def)

lemma derived_fields_conform:
  assumes "\<And>e. e \<in> set (js_values E) \<Longrightarrow> is_Entry e"
  shows "is_ModelRef (deriveModel E)" "is_str (deriveThinkingLevel E)" "is_str (deriveName E)"
proof -
  note entry = Entry_of_kind[OF assms] and sel = latestByOrd_SomeD
  show "is_ModelRef (deriveModel E)"
    using entry(1) by (auto simp: deriveModel_def is_ModelRef_def positioned_def is_ModelChangeEntry_def
        split: option.split dest!: sel)
  show "is_str (deriveThinkingLevel E)"
    using entry(2) by (auto simp: deriveThinkingLevel_def positioned_def is_ThinkingLevelChangeEntry_def
        split: option.split dest!: sel)
  show "is_str (deriveName E)"
    using entry(3) by (auto simp: deriveName_def positioned_def is_SessionInfoEntry_def opt_str_coalesce
        split: option.split dest!: sel)
qed

section \<open>Properties\<close>

text \<open>
  \<^bold>\<open>Lemma.\<close>  Bootstrapping from a session log returns a Document: every stored entry is found
  under its id as the sealed projection at its file position, no other entry is there, and the
  selected leaf is the last entry of the log.
\<close>

theorem initFromEntries_bootstraps:
  assumes "wf_log es"
  shows "\<exists>doc. initFromEntries es = Some doc \<and> is_Document doc \<and>
     map fst (props_of (doc_entries doc)) = map entry_id es \<and>
     (\<forall>i < length es. jget (doc_entries doc) (entry_id (es ! i)) = projectEntry (es ! i) (of_nat i)) \<and>
     jget (doc_status doc) ''leafId'' = (if es = [] then JNull else JStr (entry_id (last es)))"
proof -
  let ?m = "log_entries 0 es" and ?leaf = "if es = [] then JNull else JStr (entry_id (last es))"
  have m: "initEntryMap 0 es [] = ?m" using wf_logD(1)[OF assms] by (simp add: initEntryMap_log)
  have "nullable is_str ?leaf" by simp
  then obtain path where "branchPath (JObj ?m) ?leaf = Some path"
    using branchPath_returns[OF log_ranked log_nullable] assms by blast
  then have stats: "deriveStats (JObj ?m) ?leaf = Some (statsOfPath path)" by (simp add: deriveStats_def)
  have ent: "is_Entry e" if "e \<in> set (js_values (JObj ?m))" for e
    using that log_Entry[OF assms] by (auto simp: js_values_JObj)
  obtain st where st: "deriveStatus (JObj ?m) JUndef = Some st" "is_Status st" "jget st ''leafId'' = ?leaf"
    using stats derived_fields_conform[OF ent]
    by (simp add: deriveStatus_def log_leaf[OF assms] is_Status_def is_Stats_statsOfPath)
  have "list_all (\<lambda>p. is_Entry (snd p)) ?m" using log_Entry[OF assms] by (auto simp: list_all_iff)
  with st have "is_Document (mk_doc st ?m)" by (simp add: is_Document_def)
  moreover have "initFromEntries es = Some (mk_doc st ?m)" using m st by (simp add: initFromEntries_def)
  ultimately show ?thesis using st(3)
    by (intro exI[of _ "mk_doc st ?m"])
      (simp add: map_fst_log_entries map_of_log_entries wf_logD(1)[OF assms])
qed

theorem initFromEntries_bootstraps_witness:
  "\<exists>doc. initFromEntries [JObj [(''type'', JStr ''label''), (''id'', JStr ''a''), (''parentId'', JNull),
       (''timestamp'', JStr ''t''), (''targetId'', JStr ''x'')]] = Some doc \<and> is_Document doc"
proof -
  let ?e = "JObj [(''type'', JStr ''label''), (''id'', JStr ''a''), (''parentId'', JNull),
       (''timestamp'', JStr ''t''), (''targetId'', JStr ''x'')]"
  have "wf_log [?e]"
    by (simp add: wf_log_def is_SessionEntry_def is_SessionEntryBase_def entry_id_def Let_def)
  then show ?thesis using initFromEntries_bootstraps[of "[?e]"] by blast
qed

text \<open>
  \<^bold>\<open>Lemma.\<close>  The entry a status field is read from is selected by file position: it is a sealed
  entry with a position that is accepted, and no other such entry of the map has a later position,
  whatever order JavaScript enumerates the keys in; when some entry qualifies, one is selected.
\<close>

theorem latestByOrd_is_latest:
  "(case latestByOrd (JObj ps) P of
      None \<Rightarrow> \<not> (\<exists>k e. (k, e) \<in> set ps \<and> positioned P e)
    | Some l \<Rightarrow> (\<exists>k. (k, l) \<in> set ps) \<and> positioned P l \<and>
        \<not> (\<exists>k e. (k, e) \<in> set ps \<and> positioned P e \<and> ord_of l < ord_of e))"
  using latestByOrd_cases[of "JObj ps" P] by (fastforce simp: js_values_JObj split: option.splits)

text \<open>
  \<^bold>\<open>Lemma.\<close>  The branch walk ends: whenever parent links strictly descend in some rank (an
  append-only log, whose parents precede their children), the statistics of every leaf are computed
  and have the shape of \<^verbatim>\<open>Stats\<close>.
\<close>

theorem deriveStats_returns:
  assumes "ranked_parents rank es" "nullable_parents es" "nullable is_str leaf"
  shows "\<exists>stats. deriveStats (JObj es) leaf = Some stats \<and> is_Stats stats"
  using branchPath_returns[OF assms] by (auto simp: deriveStats_def is_Stats_statsOfPath)

theorem deriveStats_returns_witness:
  "\<exists>stats. deriveStats (JObj [(''a'', JObj [(''parentId'', JNull)]), (''b'', JObj [(''parentId'', JStr ''a'')])])
     (JStr ''b'') = Some stats \<and> is_Stats stats"
proof -
  let ?es = "[(''a'', JObj [(''parentId'', JNull)]), (''b'', JObj [(''parentId'', JStr ''a'')])]"
  have "ranked_parents (\<lambda>k. if k = ''b'' then 1 else 0) ?es"
    by (auto simp: ranked_parents_def split: if_splits)
  moreover have "nullable_parents ?es" by (simp add: nullable_parents_def)
  ultimately show ?thesis using deriveStats_returns[of _ ?es "JStr ''b''"] by simp
qed

end
