(* ===== verification/Events.thy ===== *)
theory Events
  imports Status Diff
begin

text \<open>
  The live half of \<^verbatim>\<open>packages/bridge/src/core/document.ts\<close>: \<^verbatim>\<open>applyEvent\<close> turns a session lifecycle
  event into a patch against the current document.  Events are a datatype with the fields the
  function reads; each case of its switch is one equation.  The lemmas say what a patch does to
  the document when it is applied: an event only writes its own entry and the status, streamed
  deltas accumulate to the final text, and the bounded encoding of a tool body is the full one.
\<close>

section \<open>Events\<close>

datatype AssistantMessageEvent =
    TextStart nat
  | TextDelta nat string
  | TextEnd nat string
  | ThinkingStart nat
  | ThinkingDelta nat string
  | ThinkingEnd nat string
  | ToolcallStart nat jsv
  | ToolcallDelta nat jsv
  | ToolcallEnd nat jsv
  | AmeStart
  | AmeDone
  | AmeError

text \<open>
  The entry id and the parent tool call id are optional on the events that carry them; messages,
  tool results and partial results stay values.  Events without a document effect are one case.
\<close>

datatype SessionLifecycleEvent =
    AgentStart
  | AgentSettled
  | MessageStart "string option" jsv
  | MessageUpdate "string option" AssistantMessageEvent
  | MessageEnd "string option" jsv
  | ToolExecutionStart "string option" "string option" string string
  | ToolExecutionUpdate "string option" "string option" jsv
  | ToolExecutionEnd "string option" "string option" jsv bool jsv
  | CompactionStart
  | CompactionEnd
  | ThinkingLevelChanged string
  | EntryAppended jsv
  | SessionInfoChanged "string option"
  | QueueUpdate "string list"
  | OtherEvent string

section \<open>Skeletons\<close>

definition assistantMessageSkeleton :: "string \<Rightarrow> jsv \<Rightarrow> jsv \<Rightarrow> jsv" where
  "assistantMessageSkeleton i parentId msg =
     JObj [(''kind'', JStr ''message''), (''id'', JStr i), (''parentId'', parentId),
           (''timestamp'', JStr ''''), (''isSealed'', JBool False), (''role'', JStr ''assistant''),
           (''content'', JArr []), (''api'', jget msg ''api''), (''provider'', jget msg ''provider''),
           (''model'', jget msg ''model''), (''responseModel'', coalesce (jget msg ''responseModel'') JNull),
           (''responseId'', JNull), (''usage'', JNull), (''stopReason'', JNull),
           (''errorMessage'', JNull), (''durationMs'', JNull)]"

definition userMessageSkeleton :: "string \<Rightarrow> jsv \<Rightarrow> jsv \<Rightarrow> jsv" where
  "userMessageSkeleton i parentId msg =
     JObj [(''kind'', JStr ''message''), (''id'', JStr i), (''parentId'', parentId),
           (''timestamp'', JStr ''''), (''isSealed'', JBool False), (''role'', JStr ''user''),
           (''content'', contentBlocks (jget msg ''content''))]"

definition toolResultSkeleton :: "string \<Rightarrow> jsv \<Rightarrow> string \<Rightarrow> string \<Rightarrow> jsv" where
  "toolResultSkeleton i parentId toolCallId toolName =
     JObj [(''kind'', JStr ''tool_result''), (''id'', JStr i), (''parentId'', parentId),
           (''timestamp'', JStr ''''), (''isSealed'', JBool False), (''toolCallId'', JStr toolCallId),
           (''toolName'', JStr toolName), (''content'', JNull), (''details'', JNull),
           (''isError'', JBool False), (''durationMs'', JNull)]"

definition toolCallBlockToJson :: "jsv \<Rightarrow> jsv" where
  "toolCallBlockToJson tc =
     JObj [(''type'', JStr ''toolCall''), (''id'', jget tc ''id''), (''name'', jget tc ''name''),
           (''arguments'', jget tc ''arguments''),
           (''thoughtSignature'', coalesce (jget tc ''thoughtSignature'') JNull)]"

section \<open>The bounded encoding of a streamed tool body\<close>

definition single_text :: "jsv \<Rightarrow> string option" where
  "single_text content =
     (case content of
        JArr [b] \<Rightarrow> if jget b ''type'' = JStr ''text'' \<and> is_str (jget b ''text'')
                    then Some (str_of (jget b ''text'')) else None
      | _ \<Rightarrow> None)"

definition streamedToolContentOp :: "jsv \<Rightarrow> string \<Rightarrow> jsv \<Rightarrow> PatchOp option" where
  "streamedToolContentOp doc i content =
     (let entry = jget (doc_entries doc) i
      in if entry = JUndef \<or> jget entry ''kind'' \<noteq> JStr ''tool_result'' then None
         else (case (single_text (jget entry ''content''), single_text content) of
                 (Some existing, Some nxt) \<Rightarrow>
                   if (if existing = [] then nxt \<noteq> [] else \<not> prefix existing nxt) then None
                   else Some (AppendOp (pathstr [''entries'', i, ''content'', ''0'', ''text''])
                          (drop (length existing) nxt) True)
               | _ \<Rightarrow> None))"

section \<open>Applying an event\<close>

text \<open>The paths: \<^verbatim>\<open>`/entries/${id}`\<close>, its fields, and content blocks by index.\<close>

definition entry_path :: "string \<Rightarrow> string" where
  "entry_path i = ''/entries/'' @ i"

definition field_path :: "string \<Rightarrow> string \<Rightarrow> string" where
  "field_path i f = entry_path i @ CHR ''/'' # f"

definition block_path :: "string \<Rightarrow> nat \<Rightarrow> string" where
  "block_path i n = entry_path i @ ''/content/'' @ nat_str n"

definition partial_block :: "jsv \<Rightarrow> nat \<Rightarrow> jsv" where
  "partial_block partial n = jget (jget partial ''content'') (nat_str n)"

fun applyAssistantEvent :: "jsv \<Rightarrow> string \<Rightarrow> AssistantMessageEvent \<Rightarrow> PatchOp list" where
  "applyAssistantEvent doc i (TextStart n) =
     [AddOp (block_path i n) (JObj [(''type'', JStr ''text''), (''text'', JStr '''')])]"
| "applyAssistantEvent doc i (TextDelta n delta) = [AppendOp (block_path i n @ ''/text'') delta False]"
| "applyAssistantEvent doc i (TextEnd n content) = [ReplaceOp (block_path i n @ ''/text'') (JStr content)]"
| "applyAssistantEvent doc i (ThinkingStart n) =
     [AddOp (block_path i n) (JObj [(''type'', JStr ''thinking''), (''thinking'', JNull)])]"
| "applyAssistantEvent doc i (ThinkingDelta n delta) = [AppendOp (block_path i n @ ''/thinking'') delta False]"
| "applyAssistantEvent doc i (ThinkingEnd n content) =
     [ReplaceOp (block_path i n @ ''/thinking'') (JStr content)]"
| "applyAssistantEvent doc i (ToolcallStart n partial) =
     (let block = partial_block partial n; tool = (jget block ''type'' = JStr ''toolCall'')
      in [AddOp (block_path i n)
            (JObj [(''type'', JStr ''toolCall''), (''id'', if tool then jget block ''id'' else JStr ''''),
                   (''name'', if tool then jget block ''name'' else JStr ''''),
                   (''arguments'', if tool then jget block ''arguments'' else JNull)])])"
| "applyAssistantEvent doc i (ToolcallDelta n partial) =
     (let block = partial_block partial n; argsPath = block_path i n @ ''/arguments''
      in if jget block ''type'' = JStr ''toolCall''
         then computeObjectDiff (props_of (coalesce (getAtPath doc argsPath) (JObj [])))
                (props_of (jget block ''arguments'')) argsPath
         else [])"
| "applyAssistantEvent doc i (ToolcallEnd n toolCall) =
     [ReplaceOp (block_path i n) (toolCallBlockToJson toolCall)]"
| "applyAssistantEvent doc i AmeStart = []"
| "applyAssistantEvent doc i AmeDone = []"
| "applyAssistantEvent doc i AmeError = []"

definition when_ops :: "bool \<Rightarrow> PatchOp \<Rightarrow> PatchOp list" where
  "when_ops b op = (if b then [op] else [])"

definition messageEndOps :: "string \<Rightarrow> jsv \<Rightarrow> PatchOp list" where
  "messageEndOps i am =
     [ReplaceOp (field_path i ''api'') (jget am ''api''),
      ReplaceOp (field_path i ''provider'') (jget am ''provider''),
      ReplaceOp (field_path i ''model'') (jget am ''model'')] @
     when_ops (truthy (jget am ''responseModel'')) (ReplaceOp (field_path i ''responseModel'') (jget am ''responseModel'')) @
     when_ops (truthy (jget am ''responseId'')) (ReplaceOp (field_path i ''responseId'') (jget am ''responseId'')) @
     [ReplaceOp (field_path i ''stopReason'') (jget am ''stopReason'')] @
     when_ops (truthy (jget am ''errorMessage'')) (ReplaceOp (field_path i ''errorMessage'') (jget am ''errorMessage'')) @
     when_ops (truthy (jget am ''usage'')) (ReplaceOp (field_path i ''usage'') (jget am ''usage'')) @
     when_ops (is_num (jget am ''durationMs'')) (ReplaceOp (field_path i ''durationMs'') (jget am ''durationMs'')) @
     [ReplaceOp ''/status/leafId'' (JStr i)]"

definition toolUpdateOps :: "jsv \<Rightarrow> string \<Rightarrow> jsv \<Rightarrow> PatchOp list" where
  "toolUpdateOps doc i partialResult =
     (let content = jget partialResult ''content''; details = jget partialResult ''details''
      in (if content = JUndef then []
          else (case streamedToolContentOp doc i content of
                  Some op \<Rightarrow> [op]
                | None \<Rightarrow> [ReplaceOp (field_path i ''content'') (jsonValue content)])) @
         when_ops (details \<noteq> JUndef) (ReplaceOp (field_path i ''details'') (jsonValue details)))"

definition toolEndOps :: "string \<Rightarrow> jsv \<Rightarrow> bool \<Rightarrow> jsv \<Rightarrow> PatchOp list" where
  "toolEndOps i result isError durationMs =
     (let content = jget result ''content''; details = jget result ''details''
      in when_ops (content \<noteq> JUndef)
           (ReplaceOp (field_path i ''content'')
             (case content of JArr bs \<Rightarrow> JArr (map toContent bs) | _ \<Rightarrow> jsonValue content)) @
         when_ops (details \<noteq> JUndef) (ReplaceOp (field_path i ''details'') (jsonValue details)) @
         [ReplaceOp (field_path i ''isError'') (JBool isError)] @
         when_ops (is_num durationMs) (ReplaceOp (field_path i ''durationMs'') durationMs))"

fun eventOps :: "jsv \<Rightarrow> SessionLifecycleEvent \<Rightarrow> PatchOp list" where
  "eventOps doc AgentStart = [ReplaceOp ''/status/isStreaming'' (JBool True)]"
| "eventOps doc AgentSettled = [ReplaceOp ''/status/isStreaming'' (JBool False)]"
| "eventOps doc (MessageStart None msg) = []"
| "eventOps doc (MessageStart (Some i) msg) =
     (let leafId = jget (doc_status doc) ''leafId''
      in if jget msg ''role'' = JStr ''user''
         then [AddOp (entry_path i) (userMessageSkeleton i leafId msg)]
         else if jget msg ''role'' = JStr ''assistant''
         then [AddOp (entry_path i) (assistantMessageSkeleton i leafId msg),
               ReplaceOp ''/status/leafId'' (JStr i)]
         else [])"
| "eventOps doc (MessageUpdate None ame) = []"
| "eventOps doc (MessageUpdate (Some i) ame) = applyAssistantEvent doc i ame"
| "eventOps doc (MessageEnd entryId msg) =
     (case entryId of
        None \<Rightarrow> []
      | Some i \<Rightarrow>
          if jget msg ''role'' = JStr ''assistant'' then messageEndOps i msg
          else when_ops (truthy (jget (doc_entries doc) i)) (ReplaceOp ''/status/leafId'' (JStr i)))"
| "eventOps doc (ToolExecutionStart parentToolCallId entryId toolCallId toolName) =
     (case (parentToolCallId, entryId) of
        (None, Some i) \<Rightarrow>
          [AddOp (entry_path i) (toolResultSkeleton i (jget (doc_status doc) ''leafId'') toolCallId toolName)]
      | _ \<Rightarrow> [])"
| "eventOps doc (ToolExecutionUpdate parentToolCallId entryId partialResult) =
     (case (parentToolCallId, entryId) of (None, Some i) \<Rightarrow> toolUpdateOps doc i partialResult | _ \<Rightarrow> [])"
| "eventOps doc (ToolExecutionEnd parentToolCallId entryId result isError durationMs) =
     (case (parentToolCallId, entryId) of (None, Some i) \<Rightarrow> toolEndOps i result isError durationMs | _ \<Rightarrow> [])"
| "eventOps doc CompactionStart = [ReplaceOp ''/status/isCompacting'' (JBool True)]"
| "eventOps doc CompactionEnd = [ReplaceOp ''/status/isCompacting'' (JBool False)]"
| "eventOps doc (ThinkingLevelChanged level) = [ReplaceOp ''/status/thinkingLevel'' (JStr level)]"
| "eventOps doc (EntryAppended entry) = []"
| "eventOps doc (SessionInfoChanged name) =
     (case name of None \<Rightarrow> [] | Some n \<Rightarrow> [ReplaceOp ''/status/name'' (JStr n)])"
| "eventOps doc (QueueUpdate steering) = [ReplaceOp ''/status/pendingSteer'' (JArr (map JStr steering))]"
| "eventOps doc (OtherEvent name) = []"

text \<open>\<^verbatim>\<open>return ops.length > 0 ? { ops } : null\<close>.\<close>

definition applyEvent :: "jsv \<Rightarrow> SessionLifecycleEvent \<Rightarrow> PatchOp list option" where
  "applyEvent doc event = (let ops = eventOps doc event in if ops \<noteq> [] then Some ops else None)"

section \<open>Where an op writes\<close>

lemma parsePath_below [path_simps]:
  assumes "list_all plain_key b" "b \<noteq> []"
  shows "parsePath (pathstr b @ CHR ''/'' # s) =
    b @ map (\<lambda>t. replace_tilde0 (replace_tilde1 t)) (split_on CHR ''/'' s)"
proof -
  obtain k r where b: "b = k # r" using assms(2) by (cases b) auto
  have "map (\<lambda>t. replace_tilde0 (replace_tilde1 t)) b = b"
    using assms(1) by (induction b) (auto simp: plain_key_def replace_tilde1_plain replace_tilde0_plain)
  moreover have "split_on CHR ''/'' (k @ pathstr r @ CHR ''/'' # s) = b @ split_on CHR ''/'' s"
    using split_on_pathstr[of k r] assms(1) b by (simp add: split_on_append_sep flip: append_assoc)
  ultimately show ?thesis by (simp add: parsePath_def b)
qed

definition touches :: "string option \<Rightarrow> PatchOp \<Rightarrow> bool" where
  "touches i op \<longleftrightarrow> (case op of MoveOp _ _ \<Rightarrow> False | _ \<Rightarrow>
     (\<exists>j r. parsePath (op_source_path op) = ''entries'' # j # r \<and> i = Some j) \<or>
     (\<exists>k r. parsePath (op_source_path op) = ''status'' # k # r))"

text \<open>The document object with its two fields, the only shape the projection builds.\<close>

lemma mk_doc_inject [simp]: "mk_doc st es = mk_doc st' es' \<longleftrightarrow> st = st' \<and> es = es'"
  by (simp add: mk_doc_def)

lemma set_mk_doc:
  "setKeys (mk_doc st es) (''entries'' # j # r) v = mk_doc st (props_of (setKeys (JObj es) (j # r) v))"
  "is_obj st \<Longrightarrow> setKeys (mk_doc st es) (''status'' # k # r) v = mk_doc (setKeys st (k # r) v) es"
  by (cases r; cases st; simp add: setKeys_def mk_doc_def)+

lemma remove_mk_doc:
  "removeKeys (mk_doc st es) (''entries'' # j # r) = mk_doc st (props_of (removeKeys (JObj es) (j # r)))"
  "removeKeys (mk_doc st es) (''status'' # k # r) = mk_doc (removeKeys st (k # r)) es"
  by (cases r; simp add: removeKeys_def mk_doc_def)+

lemma set_obj_other:
  "is_obj (setKeys (JObj es) (j # r) v)"
  "k \<noteq> j \<Longrightarrow> map_of (props_of (setKeys (JObj es) (j # r) v)) k = map_of es k"
  by (cases r; simp add: setKeys_def)+

lemma remove_obj_other:
  "is_obj (removeKeys (JObj es) (j # r))"
  "k \<noteq> j \<Longrightarrow> map_of (props_of (removeKeys (JObj es) (j # r))) k = map_of es k"
  by (cases r; simp add: removeKeys_def)+

lemma is_obj_write: "is_obj st \<Longrightarrow> is_obj (setKeys st (k # r) v)" "is_obj st \<Longrightarrow> is_obj (removeKeys st (k # r))"
  by (cases st; simp add: set_obj_other remove_obj_other)+

definition framed :: "string option \<Rightarrow> props \<Rightarrow> jsv \<Rightarrow> bool" where
  "framed i es d \<longleftrightarrow> (\<exists>st' es'. d = mk_doc st' es' \<and> is_obj st' \<and>
     (\<forall>j. i \<noteq> Some j \<longrightarrow> map_of es' j = map_of es j))"

lemma framed_set:
  assumes "framed i es d" "(\<exists>j r. ks = ''entries'' # j # r \<and> i = Some j) \<or> (\<exists>k r. ks = ''status'' # k # r)"
  shows "framed i es (setKeys d ks v)" "framed i es (removeKeys d ks)"
  using assms unfolding framed_def
  by (auto simp: set_mk_doc remove_mk_doc set_obj_other remove_obj_other is_obj_write)

lemma framed_applyOp: "framed i es d \<Longrightarrow> touches i op \<Longrightarrow> framed i es (applyOp d op)"
  by (cases op)
    (auto simp: touches_def applyOp.simps setAtPath_def removeAtPath_def appendAtPath_def framed_set
      split: jsv.split)

lemma framed_applyOps: "framed i es d \<Longrightarrow> list_all (touches i) ops \<Longrightarrow> framed i es (applyOps d ops)"
  by (induction ops arbitrary: d) (simp_all add: framed_applyOp)

section \<open>Every op of an event stays in its place\<close>

fun event_id :: "SessionLifecycleEvent \<Rightarrow> string option" where
  "event_id (MessageStart i _) = i"
| "event_id (MessageUpdate i _) = i"
| "event_id (MessageEnd i _) = i"
| "event_id (ToolExecutionStart _ i _ _) = i"
| "event_id (ToolExecutionUpdate _ i _) = i"
| "event_id (ToolExecutionEnd _ i _ _ _) = i"
| "event_id _ = None"

lemma entry_path_pathstr:
  "entry_path i = pathstr [''entries'', i]" "field_path i f = pathstr [''entries'', i] @ CHR ''/'' # f"
  "block_path i n = pathstr [''entries'', i, ''content'', nat_str n]"
  by (simp_all add: entry_path_def field_path_def block_path_def)

definition at_or_below :: "string \<Rightarrow> PatchOp \<Rightarrow> bool" where
  "at_or_below base op \<longleftrightarrow> (case op of MoveOp _ _ \<Rightarrow> False | _ \<Rightarrow> True) \<and>
     (op_source_path op = base \<or> (\<exists>s. op_source_path op = base @ CHR ''/'' # s))"

lemma at_or_below_sub: "at_or_below (sub_path base k) op \<Longrightarrow> at_or_below base op"
  by (auto simp: at_or_below_def sub_path_def)

lemma diff_below:
  "op \<in> set (computeObjectDiff ps qs base) \<Longrightarrow> at_or_below base op"
  "op \<in> set (diffValue v w base) \<Longrightarrow> at_or_below base op"
  "op \<in> set (diffArray xs ys base) \<Longrightarrow> at_or_below base op"
proof (induction ps qs base and v w base and xs ys base rule: computeObjectDiff_diffValue_diffArray.induct)
  case (1 ps qs base)
  then obtain k where k: "k \<in> set (union_keys ps qs)"
    "op \<in> set (case map_of qs k of None \<Rightarrow> [RemoveOp (sub_path base k)]
       | Some nv \<Rightarrow> (case map_of ps k of None \<Rightarrow> [AddOp (sub_path base k) nv]
         | Some ov \<Rightarrow> if ov \<noteq> nv then diffValue ov nv (sub_path base k) else []))"
    by (auto simp: computeObjectDiff.simps)
  then have "at_or_below (sub_path base k) op"
    using "1.IH"[OF k(1)] by (auto simp: at_or_below_def split: option.splits if_splits)
  then show ?case by (rule at_or_below_sub)
next
  case (2 v w base)
  then show ?case
    by (auto simp: diffValue.simps at_or_below_def split: if_splits jsv.splits)
next
  case (3 xs ys base)
  from "3.prems" consider i where "i \<in> set [0 ..< min (length xs) (length ys)]"
      "op \<in> set (diffValue (xs ! i) (ys ! i) (sub_path base (nat_str i)))"
    | i where "op = RemoveOp (sub_path base (nat_str i))"
    | i where "op = AddOp (sub_path base (nat_str i)) (ys ! i)"
    unfolding diffArray.simps by auto
  then show ?case
  proof cases
    case 1
    show ?thesis by (rule at_or_below_sub[OF "3.IH"[OF 1]])
  qed (auto simp: at_or_below_def sub_path_def)
qed

lemma touches_at_or_below:
  assumes "at_or_below (pathstr (''entries'' # i # r)) op" "list_all plain_key (i # r)"
  shows "touches (Some i) op"
proof -
  let ?b = "''entries'' # i # r"
  have b: "list_all plain_key ?b" "?b \<noteq> []" "?b \<noteq> [[]]" using assms(2) by (auto simp: plain_key_def)
  have "\<exists>t. parsePath (op_source_path op) = ''entries'' # i # t"
    using assms(1) parsePath_pathstr[OF b] parsePath_below[OF b(1,2)]
    by (auto simp: at_or_below_def simp del: pathstr_simps)
  then show ?thesis using assms(1) by (auto simp: touches_def at_or_below_def split: PatchOp.splits)
qed

lemma touches_entry:
  assumes "plain_key i"
  shows "touches (Some i) (AddOp (entry_path i) v)" "touches (Some i) (ReplaceOp (field_path i f) v)"
    and "touches (Some i) (AddOp (block_path i n) v)" "touches (Some i) (ReplaceOp (block_path i n) v)"
    and "touches (Some i) (AppendOp (block_path i n @ CHR ''/'' # f) t l)"
    and "touches (Some i) (ReplaceOp (block_path i n @ CHR ''/'' # f) v)"
  using assms touches_at_or_below[of i "[]"] touches_at_or_below[of i "[''content'', nat_str n]"]
  by (simp_all add: entry_path_pathstr at_or_below_def plain_key_def del: pathstr_simps)

lemma touches_status: "plain_key k \<Longrightarrow> touches i (ReplaceOp (''/status/'' @ k) v)"
  using parsePath_pathstr[of "[''status'', k]"] by (simp add: touches_def plain_key_def)

lemma touches_status_fields [simp]:
  "touches i (ReplaceOp ''/status/isStreaming'' v)" "touches i (ReplaceOp ''/status/leafId'' v)"
  "touches i (ReplaceOp ''/status/isCompacting'' v)" "touches i (ReplaceOp ''/status/thinkingLevel'' v)"
  "touches i (ReplaceOp ''/status/name'' v)" "touches i (ReplaceOp ''/status/pendingSteer'' v)"
  using touches_status[of "''isStreaming''" i v] touches_status[of "''leafId''" i v]
    touches_status[of "''isCompacting''" i v] touches_status[of "''thinkingLevel''" i v]
    touches_status[of "''name''" i v] touches_status[of "''pendingSteer''" i v]
  by (simp_all add: plain_key_def)

lemma touches_assistant:
  assumes "plain_key i"
  shows "list_all (touches (Some i)) (applyAssistantEvent doc i ame)"
proof (cases ame)
  case (ToolcallDelta n p)
  have "touches (Some i) op"
    if "op \<in> set (computeObjectDiff ps qs (block_path i n @ ''/arguments''))" for op ps qs
    using diff_below(1)[OF that] assms touches_at_or_below[of i "[''content'', nat_str n, ''arguments'']" op]
    by (simp add: entry_path_pathstr plain_key_def)
  then show ?thesis using ToolcallDelta by (auto simp: list_all_iff Let_def)
qed (simp_all add: Let_def touches_entry[OF assms])

lemma touches_tool_update:
  assumes "plain_key i"
  shows "list_all (touches (Some i)) (toolUpdateOps doc i pr)"
proof -
  have "touches (Some i) op" if "streamedToolContentOp doc i c = Some op" for op c
  proof -
    from that obtain t where "op = AppendOp (pathstr [''entries'', i, ''content'', ''0'', ''text'']) t True"
      by (auto simp: streamedToolContentOp_def Let_def split: if_splits option.splits)
    then show ?thesis
      using assms touches_at_or_below[of i "[''content'', ''0'', ''text'']" op]
      by (simp add: at_or_below_def plain_key_def)
  qed
  then show ?thesis
    by (simp add: toolUpdateOps_def when_ops_def Let_def touches_entry[OF assms] split: option.split)
qed

lemma touches_event:
  "(\<And>i. event_id ev = Some i \<Longrightarrow> plain_key i) \<Longrightarrow> list_all (touches (event_id ev)) (eventOps doc ev)"
  by (cases "(doc, ev)" rule: eventOps.cases)
    (auto simp: Let_def when_ops_def messageEndOps_def toolEndOps_def touches_entry touches_assistant
      touches_tool_update split: option.split)

section \<open>Streams of events\<close>

definition apply_event :: "jsv \<Rightarrow> SessionLifecycleEvent \<Rightarrow> jsv" where
  "apply_event doc ev = applyOps doc (eventOps doc ev)"

definition run_events :: "jsv \<Rightarrow> SessionLifecycleEvent list \<Rightarrow> jsv" where
  "run_events doc evs = foldl apply_event doc evs"

abbreviation block_keys :: "string \<Rightarrow> nat \<Rightarrow> string list" where
  "block_keys i n \<equiv> [''entries'', i, ''content'', nat_str n]"

lemma good_base_entry:
  "plain_key i \<Longrightarrow> list_all plain_key r \<Longrightarrow> good_base (''entries'' # i # r)"
  by (simp add: good_base_def plain_key_def)

lemma good_base_block:
  "plain_key i \<Longrightarrow> good_base (block_keys i n)"
  "plain_key i \<Longrightarrow> good_base (block_keys i n @ [''text''])"
  "plain_key i \<Longrightarrow> good_base (block_keys i n @ [''arguments''])"
  by (simp_all add: good_base_def plain_key_def)

lemma text_delta:
  assumes "plain_key i" "present doc (block_keys i n)"
    and "getKeys doc (block_keys i n) = JObj [(''type'', JStr ''text''), (''text'', JStr t)]"
  shows "apply_event doc (MessageUpdate (Some i) (TextDelta n d)) =
    setKeys doc (block_keys i n) (JObj [(''type'', JStr ''text''), (''text'', JStr (t @ d))])"
proof -
  let ?b = "block_keys i n"
  have p: "block_path i n @ ''/text'' = pathstr (?b @ [''text''])" by (simp add: entry_path_pathstr)
  have "getKeys doc (?b @ [''text'']) = JStr t"
    using present_prop[OF assms(2,3), of "''text''"] by simp
  then show ?thesis
    using good_base_ops(4)[OF good_base_block(2)[OF assms(1)], of doc n d False] set_prop[OF assms(2,3)]
    by (simp add: apply_event_def p del: pathstr_simps append.simps)
qed

lemma text_deltas:
  assumes "plain_key i"
  shows "present doc (block_keys i n) \<Longrightarrow>
    getKeys doc (block_keys i n) = JObj [(''type'', JStr ''text''), (''text'', JStr t)] \<Longrightarrow>
    run_events doc (map (\<lambda>d. MessageUpdate (Some i) (TextDelta n d)) ds) =
      setKeys doc (block_keys i n) (JObj [(''type'', JStr ''text''), (''text'', JStr (t @ concat ds))])"
proof (induction ds arbitrary: doc t)
  case Nil
  then show ?case using setKeys_getKeys[OF Nil(1)] by (simp add: run_events_def)
next
  case (Cons d ds)
  let ?doc = "setKeys doc (block_keys i n) (JObj [(''type'', JStr ''text''), (''text'', JStr (t @ d))])"
  have "present ?doc (block_keys i n)"
    "getKeys ?doc (block_keys i n) = JObj [(''type'', JStr ''text''), (''text'', JStr (t @ d))]"
    using Cons.prems(1) by (simp_all add: present_setKeys getKeys_setKeys del: getKeys.simps present.simps)
  from Cons.IH[OF this] show ?case
    using text_delta[OF assms Cons.prems, of d] setKeys_setKeys[OF Cons.prems(1)]
    by (simp add: run_events_def del: getKeys.simps present.simps)
qed

section \<open>Properties\<close>

text \<open>
  \<^bold>\<open>Lemma.\<close>  An event writes nothing but the status and the entry whose id it carries: every other
  entry of the document is the same after its patch, and the document keeps its shape.
\<close>

theorem applyEvent_frame:
  assumes "applyEvent (mk_doc st es) ev = Some ops" "is_obj st" "\<forall>i. event_id ev = Some i \<longrightarrow> plain_key i"
  shows "\<exists>st' es'. applyOps (mk_doc st es) ops = mk_doc st' es' \<and> is_obj st' \<and>
     (\<forall>j. event_id ev \<noteq> Some j \<longrightarrow> map_of es' j = map_of es j)"
proof -
  have ops: "ops = eventOps (mk_doc st es) ev"
    using assms(1) by (auto simp: applyEvent_def Let_def split: if_splits)
  have "framed (event_id ev) es (mk_doc st es)" using assms(2) by (auto simp: framed_def)
  then have "framed (event_id ev) es (applyOps (mk_doc st es) ops)"
    using assms(3) by (auto intro: framed_applyOps touches_event simp: ops)
  then show ?thesis by (simp add: framed_def)
qed

theorem applyEvent_frame_witness:
  "\<exists>st' es'. applyOps (mk_doc (JObj []) [(''b'', JNull)])
       [AddOp (entry_path ''a'') (toolResultSkeleton ''a'' JUndef ''c'' ''bash'')] = mk_doc st' es' \<and> is_obj st' \<and>
     map_of es' ''b'' = Some JNull"
proof -
  have "\<exists>st' es'. applyOps (mk_doc (JObj []) [(''b'', JNull)])
       [AddOp (entry_path ''a'') (toolResultSkeleton ''a'' JUndef ''c'' ''bash'')] = mk_doc st' es' \<and> is_obj st' \<and>
     (\<forall>j. Some ''a'' \<noteq> Some j \<longrightarrow> map_of es' j = map_of [(''b'', JNull)] j)"
    using applyEvent_frame[of "JObj []" "[(''b'', JNull)]" "ToolExecutionStart None (Some ''a'') ''c'' ''bash''"]
    by (simp add: applyEvent_def plain_key_def)
  then obtain st' es' where r: "applyOps (mk_doc (JObj []) [(''b'', JNull)])
       [AddOp (entry_path ''a'') (toolResultSkeleton ''a'' JUndef ''c'' ''bash'')] = mk_doc st' es'" "is_obj st'"
    and same: "\<And>j. Some ''a'' \<noteq> Some j \<Longrightarrow> map_of es' j = map_of [(''b'', JNull)] j" by blast
  from same[of "''b''"] have "map_of es' ''b'' = Some JNull" by simp
  with r show ?thesis by blast
qed

text \<open>
  \<^bold>\<open>Lemma.\<close>  Streaming a text block: after \<^verbatim>\<open>text_start\<close> at the next content index, any sequence of
  \<^verbatim>\<open>text_delta\<close> events leaves the concatenation of the deltas as the block's text, and the other
  blocks as they were.
\<close>

theorem text_stream_accumulates:
  assumes "plain_key i" "present doc [''entries'', i, ''content'']"
    and "getKeys doc [''entries'', i, ''content''] = JArr bs"
  shows "run_events doc (MessageUpdate (Some i) (TextStart (length bs)) #
       map (\<lambda>d. MessageUpdate (Some i) (TextDelta (length bs) d)) ds) =
     setKeys doc [''entries'', i, ''content'']
       (JArr (bs @ [JObj [(''type'', JStr ''text''), (''text'', JStr (concat ds))]]))"
proof -
  let ?c = "[''entries'', i, ''content'']" and ?n = "length bs"
  let ?blk = "\<lambda>t. JObj [(''type'', JStr ''text''), (''text'', JStr t)]"
  let ?doc = "setKeys doc ?c (JArr (bs @ [?blk []]))"
  have bk: "block_keys i ?n = ?c @ [nat_str ?n]" by simp
  have start: "apply_event doc (MessageUpdate (Some i) (TextStart ?n)) = ?doc"
    using good_base_ops(1)[OF good_base_block(1)[OF assms(1)], of doc ?n "?blk []"]
      set_elem[OF assms(2,3), of ?n "?blk []"]
    by (simp add: apply_event_def entry_path_pathstr del: pathstr_simps)
  have c: "present ?doc ?c" "getKeys ?doc ?c = JArr (bs @ [?blk []])"
    using assms(2) by (simp_all add: present_setKeys getKeys_setKeys del: present.simps getKeys.simps)
  have "present ?doc (block_keys i ?n)" "getKeys ?doc (block_keys i ?n) = ?blk []"
    using present_elem[OF c, of ?n] by simp_all
  from text_deltas[OF assms(1) this, of ds] start
  have "run_events doc (MessageUpdate (Some i) (TextStart ?n) #
       map (\<lambda>d. MessageUpdate (Some i) (TextDelta ?n d)) ds) = setKeys ?doc (block_keys i ?n) (?blk (concat ds))"
    by (simp add: run_events_def del: present.simps getKeys.simps)
  also have "\<dots> = setKeys ?doc ?c (JArr (bs @ [?blk (concat ds)]))"
    using set_elem[OF c, of ?n "?blk (concat ds)"] by simp
  also have "\<dots> = setKeys doc ?c (JArr (bs @ [?blk (concat ds)]))" by (rule setKeys_setKeys[OF assms(2)])
  finally show ?thesis .
qed

theorem text_stream_accumulates_witness:
  "run_events (mk_doc (JObj []) [(''a'', JObj [(''content'', JArr [])])])
     [MessageUpdate (Some ''a'') (TextStart 0), MessageUpdate (Some ''a'') (TextDelta 0 ''he''),
      MessageUpdate (Some ''a'') (TextDelta 0 ''llo'')] =
   setKeys (mk_doc (JObj []) [(''a'', JObj [(''content'', JArr [])])]) [''entries'', ''a'', ''content'']
     (JArr [JObj [(''type'', JStr ''text''), (''text'', JStr ''hello'')]])"
  using text_stream_accumulates[of "''a''" "mk_doc (JObj []) [(''a'', JObj [(''content'', JArr [])])]" "[]" "[''he'', ''llo'']"]
  by (simp add: plain_key_def mk_doc_def)

text \<open>
  \<^bold>\<open>Lemma.\<close>  Streaming tool arguments: when the tool call block holds an arguments object, a
  \<^verbatim>\<open>toolcall_delta\<close> event turns it into the partial message's arguments, up to key order, and
  changes nothing else; nothing is sent when the arguments did not change.
\<close>

theorem toolcall_delta_updates_arguments:
  assumes "plain_key i" "present doc (block_keys i n @ [''arguments''])"
    and "getKeys doc (block_keys i n @ [''arguments'']) = JObj old"
    and "jget (partial_block p n) ''type'' = JStr ''toolCall''"
    and "jget (partial_block p n) ''arguments'' = JObj new"
    and "diffable (JObj old)" "diffable (JObj new)"
  shows "\<exists>w. apply_event doc (MessageUpdate (Some i) (ToolcallDelta n p)) =
      setKeys doc (block_keys i n @ [''arguments'']) w \<and> js_same w (JObj new) \<and>
     (old = new \<longrightarrow> applyEvent doc (MessageUpdate (Some i) (ToolcallDelta n p)) = None)"
proof -
  let ?b = "block_keys i n @ [''arguments'']"
  have gb: "good_base ?b" using good_base_block(3)[OF assms(1)] .
  then have "parsePath (pathstr ?b) = ?b" by (intro parsePath_pathstr) (auto simp: good_base_def)
  then have g: "getAtPath doc (block_path i n @ ''/arguments'') = JObj old"
    using assms(3) by (simp add: getAtPath_def entry_path_pathstr)
  have p: "block_path i n @ ''/arguments'' = pathstr ?b" by (simp add: entry_path_pathstr)
  have ops: "eventOps doc (MessageUpdate (Some i) (ToolcallDelta n p)) = computeObjectDiff old new (pathstr ?b)"
    using g assms(4,5) by (simp only: eventOps.simps applyAssistantEvent.simps Let_def p) simp
  with diff_reaches(1)[OF gb assms(6,7,2,3)] show ?thesis
    by (auto simp: apply_event_def reaches_def applyEvent_def diff_same_object simp del: eventOps.simps)
qed

theorem toolcall_delta_updates_arguments_witness:
  "\<exists>w. apply_event (mk_doc (JObj []) [(''a'', JObj [(''content'', JArr [JObj [(''arguments'', JObj [])]])])])
        (MessageUpdate (Some ''a'') (ToolcallDelta 0 (JObj [(''content'',
           JArr [JObj [(''type'', JStr ''toolCall''), (''arguments'', JObj [(''path'', JStr ''x'')])]])]))) =
      setKeys (mk_doc (JObj []) [(''a'', JObj [(''content'', JArr [JObj [(''arguments'', JObj [])]])])])
        (block_keys ''a'' 0 @ [''arguments'']) w \<and> js_same w (JObj [(''path'', JStr ''x'')])"
proof -
  let ?doc = "mk_doc (JObj []) [(''a'', JObj [(''content'', JArr [JObj [(''arguments'', JObj [])]])])]"
  let ?p = "JObj [(''content'', JArr [JObj [(''type'', JStr ''toolCall''), (''arguments'', JObj [(''path'', JStr ''x'')])]])]"
  have "plain_key ''a''" by (simp add: plain_key_def)
  moreover have "present ?doc (block_keys ''a'' 0 @ [''arguments''])" by (simp add: mk_doc_def)
  moreover have "getKeys ?doc (block_keys ''a'' 0 @ [''arguments'']) = JObj []" by (simp add: mk_doc_def)
  moreover have "jget (partial_block ?p 0) ''type'' = JStr ''toolCall''"
    "jget (partial_block ?p 0) ''arguments'' = JObj [(''path'', JStr ''x'')]" by (simp_all add: partial_block_def)
  moreover have "diffable (JObj [])" "diffable (JObj [(''path'', JStr ''x'')])"
    by (simp_all add: diffable_def plain_key_def)
  ultimately show ?thesis using toolcall_delta_updates_arguments[of "''a''" ?doc 0 "[]" ?p] by blast
qed

text \<open>
  \<^bold>\<open>Lemma.\<close>  The bounded encoding of a streamed tool body is the full one: when the update is encoded
  as an append, applying it writes the update's whole text as the text of the live body's single
  block, and nothing else; the appended part is the text with the old text removed.
\<close>

theorem streamedToolContentOp_equiv:
  assumes "streamedToolContentOp (mk_doc st es) i content = Some op" "plain_key i"
  shows "\<exists>old nxt. single_text (getKeys (mk_doc st es) [''entries'', i, ''content'']) = Some old \<and>
     single_text content = Some (old @ nxt) \<and>
     op = AppendOp (pathstr (block_keys i 0 @ [''text''])) nxt True \<and>
     applyOp (mk_doc st es) op = setKeys (mk_doc st es) (block_keys i 0 @ [''text'']) (JStr (old @ nxt)) \<and>
     single_text (getKeys (applyOp (mk_doc st es) op) [''entries'', i, ''content'']) = single_text content"
proof -
  let ?d = "mk_doc st es" and ?c = "[''entries'', i, ''content'']"
  let ?t = "block_keys i 0 @ [''text'']"
  let ?e = "jget (JObj es) i"
  have zero: "''0'' = nat_str 0" by (simp add: nat_str.simps digit_char_def)
  obtain old new where e: "?e \<noteq> JUndef" "single_text (jget ?e ''content'') = Some old"
      "single_text content = Some new" "prefix old new"
      and op: "op = AppendOp (pathstr ?t) (drop (length old) new) True"
    using assms(1) by (auto simp: streamedToolContentOp_def Let_def zero split: if_splits option.splits)
  then obtain b where b: "jget ?e ''content'' = JArr [b]" "jget b ''type'' = JStr ''text''" "jget b ''text'' = JStr old"
    by (auto simp: single_text_def split: jsv.splits list.splits if_splits elim: is_str.elims)
  obtain ep where ep: "?e = JObj ep" using b(1) by (cases ?e) (auto simp: not_canon_nat is_digit_def)
  obtain bp where bp: "b = JObj bp" using b(2) by (cases b) (auto simp: not_canon_nat is_digit_def)
  have "present ?d ?c" "getKeys ?d ?c = JArr [b]"
    using ep b(1) by (auto simp: mk_doc_def split: option.splits)
  from present_elem[OF this, of 0] have blk: "present ?d (block_keys i 0)" "getKeys ?d (block_keys i 0) = JObj bp"
    using bp by simp_all
  have tv: "map_of bp ''text'' = Some (JStr old)" using b(3) bp by (auto split: option.splits)
  from present_prop[OF blk tv] have t: "present ?d ?t" "getKeys ?d ?t = JStr old" by simp_all
  obtain nxt where nxt: "new = old @ nxt" using e(4) by (auto elim: prefixE)
  have app: "applyOp ?d op = setKeys ?d ?t (JStr (old @ nxt))"
    using good_base_ops(4)[OF good_base_block(2)[OF assms(2)], of ?d 0 nxt True] t op nxt
    by (simp del: pathstr_simps getKeys.simps present.simps)
  also have "\<dots> = setKeys ?d (block_keys i 0) (JObj (AList.update ''text'' (JStr (old @ nxt)) bp))"
    by (rule set_prop[OF blk])
  also have "\<dots> = setKeys ?d ?c (JArr [JObj (AList.update ''text'' (JStr (old @ nxt)) bp)])"
    using set_elem[OF \<open>present ?d ?c\<close> \<open>getKeys ?d ?c = JArr [b]\<close>, of 0] by simp
  finally have "getKeys (applyOp ?d op) ?c = JArr [JObj (AList.update ''text'' (JStr (old @ nxt)) bp)]"
    using getKeys_setKeys[OF \<open>present ?d ?c\<close>] by simp
  moreover have "jget (JObj bp) ''type'' = JStr ''text''" using b(2) bp by simp
  ultimately have "single_text (getKeys (applyOp ?d op) ?c) = Some (old @ nxt)" by (simp add: single_text_def)
  moreover have "single_text (getKeys ?d ?c) = Some old"
    using e(2) b(1) \<open>getKeys ?d ?c = JArr [b]\<close> by simp
  moreover have "op = AppendOp (pathstr ?t) nxt True" using op nxt by (simp del: pathstr_simps)
  ultimately show ?thesis using app nxt e(3) by metis
qed

theorem streamedToolContentOp_equiv_witness:
  "\<exists>old nxt. single_text (JArr [JObj [(''type'', JStr ''text''), (''text'', JStr ''abc'')]]) = Some (old @ nxt) \<and>
     old = ''ab''"
proof -
  let ?e = "JObj [(''kind'', JStr ''tool_result''), (''content'', JArr [JObj [(''type'', JStr ''text''), (''text'', JStr ''ab'')]])]"
  let ?c = "JArr [JObj [(''type'', JStr ''text''), (''text'', JStr ''abc'')]]"
  have "streamedToolContentOp (mk_doc JNull [(''e'', ?e)]) ''e'' ?c =
      Some (AppendOp (pathstr [''entries'', ''e'', ''content'', ''0'', ''text'']) ''c'' True)"
    by (simp add: streamedToolContentOp_def single_text_def)
  from streamedToolContentOp_equiv[OF this] show ?thesis
    by (auto simp: plain_key_def single_text_def mk_doc_def)
qed

end
