(* ===== verification/GitStamp.thy ===== *)
theory GitStamp
  imports JsValue
begin

text \<open>
  Git identity stamps, \<^verbatim>\<open>packages/bridge/src/core/git-stamp.ts\<close>: validation of raw git output and of
  persisted stamp payloads.  Session files outlive the code that wrote them, so a payload is an
  arbitrary value and parsing decides; the properties say that what is accepted is well formed and
  that what was written is accepted again, in both payload versions.
\<close>

section \<open>Payloads\<close>

datatype GitStampAnchor = Prompt | ToolEnd | TurnEnd | UserBashEnd

fun anchor_name :: "GitStampAnchor \<Rightarrow> string" where
  "anchor_name Prompt = ''prompt''"
| "anchor_name ToolEnd = ''tool_end''"
| "anchor_name TurnEnd = ''turn_end''"
| "anchor_name UserBashEnd = ''user_bash_end''"

record GitIdentity =
  commit :: "string option"
  branch :: "string option"

datatype GitStampData =
    StampV1 GitStampAnchor GitIdentity
  | StampV2 GitStampAnchor GitIdentity "string option"

definition GIT_STAMP_CUSTOM_TYPE :: string where
  "GIT_STAMP_CUSTOM_TYPE = ''pi-bridge.git-stamp''"

section \<open>Validation\<close>

definition hex_digit :: "char \<Rightarrow> bool" where
  "hex_digit c \<longleftrightarrow> c \<in> set ''0123456789abcdef''"

definition isValidCommitId :: "string \<Rightarrow> bool" where
  "isValidCommitId v \<longleftrightarrow> (length v = 40 \<or> length v = 64) \<and> list_all hex_digit v"

definition control_char :: "char \<Rightarrow> bool" where
  "control_char c \<longleftrightarrow> (of_char c :: nat) \<le> 31 \<or> (of_char c :: nat) = 127"

text \<open>\<^verbatim>\<open>BRANCH_NAME_RE\<close>: a non-empty line without control characters.\<close>

definition BRANCH_NAME_RE :: "string \<Rightarrow> bool" where
  "BRANCH_NAME_RE v \<longleftrightarrow> v \<noteq> [] \<and> list_all (\<lambda>c. \<not> control_char c) v"

definition isValidBranchName :: "string \<Rightarrow> bool" where
  "isValidBranchName v \<longleftrightarrow> 0 < length v \<and> CHR 0x0A \<notin> set v \<and> BRANCH_NAME_RE v"

definition parseGitIdentity :: "string option \<Rightarrow> string option \<Rightarrow> GitIdentity option" where
  "parseGitIdentity commitRaw branchRaw =
     (if (case commitRaw of None \<Rightarrow> False | Some c \<Rightarrow> \<not> isValidCommitId c) then None
      else if (case branchRaw of None \<Rightarrow> False | Some b \<Rightarrow> \<not> isValidBranchName b) then None
      else Some \<lparr>commit = commitRaw, branch = branchRaw\<rparr>)"

definition parseCommitSubject :: "string \<Rightarrow> string option" where
  "parseCommitSubject v =
     (if v = [] \<or> CHR 0x0A \<in> set v \<or> CHR 0x0D \<in> set v \<or> \<not> BRANCH_NAME_RE v then None else Some v)"

text \<open>A field of type \<^verbatim>\<open>string | null\<close>: \<^const>\<open>None\<close> when it is anything else.\<close>

fun string_or_null :: "jsv \<Rightarrow> string option option" where
  "string_or_null JNull = Some None"
| "string_or_null (JStr s) = Some (Some s)"
| "string_or_null _ = None"

definition anchor_of :: "jsv \<Rightarrow> GitStampAnchor list \<Rightarrow> GitStampAnchor option" where
  "anchor_of v allowed = find (\<lambda>a. v = JStr (anchor_name a)) allowed"

definition V2_ANCHORS :: "GitStampAnchor list" where
  "V2_ANCHORS = [Prompt, ToolEnd, TurnEnd, UserBashEnd]"

definition parseGitStampData :: "jsv \<Rightarrow> GitStampData option" where
  "parseGitStampData d =
     (if \<not> is_obj d then None
      else do {
        c \<leftarrow> string_or_null (jget d ''commit'');
        b \<leftarrow> string_or_null (jget d ''branch'');
        ident \<leftarrow> parseGitIdentity c b;
        if jget d ''v'' = JNum 1
        then map_option (\<lambda>a. StampV1 a ident) (anchor_of (jget d ''anchor'') [Prompt, TurnEnd])
        else if jget d ''v'' = JNum 2
        then map_option (\<lambda>a. StampV2 a ident
               (case jget d ''commitSubject'' of JStr s \<Rightarrow> parseCommitSubject s | _ \<Rightarrow> None))
               (anchor_of (jget d ''anchor'') V2_ANCHORS)
        else None
      })"

definition parseGitStampEntry :: "jsv \<Rightarrow> GitStampData option" where
  "parseGitStampEntry entry =
     (if jget entry ''type'' \<noteq> JStr ''custom'' \<and> jget entry ''kind'' \<noteq> JStr ''custom'' then None
      else if jget entry ''customType'' \<noteq> JStr GIT_STAMP_CUSTOM_TYPE then None
      else parseGitStampData (jget entry ''data''))"

definition sameGitIdentity :: "GitIdentity \<Rightarrow> GitIdentity \<Rightarrow> bool" where
  "sameGitIdentity a b \<longleftrightarrow> commit a = commit b \<and> branch a = branch b"

section \<open>Well-formed stamps and their payloads\<close>

definition wf_identity :: "GitIdentity \<Rightarrow> bool" where
  "wf_identity g \<longleftrightarrow> pred_option isValidCommitId (commit g) \<and> pred_option isValidBranchName (branch g)"

fun wf_stamp :: "GitStampData \<Rightarrow> bool" where
  "wf_stamp (StampV1 a g) = (a \<in> {Prompt, TurnEnd} \<and> wf_identity g)"
| "wf_stamp (StampV2 a g s) = (wf_identity g \<and> pred_option (\<lambda>t. parseCommitSubject t = Some t) s)"

definition nullable_string :: "string option \<Rightarrow> jsv" where
  "nullable_string s = (case s of None \<Rightarrow> JNull | Some t \<Rightarrow> JStr t)"

text \<open>The payload object of a stamp, as the interfaces \<^verbatim>\<open>GitStampDataV1\<close> and \<^verbatim>\<open>GitStampDataV2\<close> give it.\<close>

fun stamp_payload :: "GitStampData \<Rightarrow> jsv" where
  "stamp_payload (StampV1 a g) =
     JObj [(''v'', JNum 1), (''anchor'', JStr (anchor_name a)), (''commit'', nullable_string (commit g)),
           (''branch'', nullable_string (branch g))]"
| "stamp_payload (StampV2 a g s) =
     JObj [(''v'', JNum 2), (''anchor'', JStr (anchor_name a)), (''commit'', nullable_string (commit g)),
           (''branch'', nullable_string (branch g)), (''commitSubject'', nullable_string s)]"

lemma parseGitIdentity_Some:
  "parseGitIdentity c b = Some g \<longleftrightarrow> g = \<lparr>commit = c, branch = b\<rparr> \<and> wf_identity g"
  by (auto simp: parseGitIdentity_def wf_identity_def split: option.splits if_splits)

lemma string_or_null_nullable [simp]: "string_or_null (nullable_string s) = Some s"
  by (simp add: nullable_string_def split: option.split)

lemma anchor_of_name:
  "anchor_of (JStr (anchor_name a)) allowed = (if a \<in> set allowed then Some a else None)"
proof -
  have "anchor_name a = anchor_name b \<longleftrightarrow> a = b" for b by (cases a; cases b) simp_all
  then show ?thesis by (induction allowed) (auto simp: anchor_of_def)
qed

lemma anchor_of_Some: "anchor_of v allowed = Some a \<Longrightarrow> a \<in> set allowed \<and> v = JStr (anchor_name a)"
  by (auto simp: anchor_of_def find_Some_iff)

lemma subject_of_nullable:
  "pred_option (\<lambda>t. parseCommitSubject t = Some t) s \<Longrightarrow>
   (case nullable_string s of JStr t \<Rightarrow> parseCommitSubject t | _ \<Rightarrow> None) = s"
  by (cases s) (simp_all add: nullable_string_def)

section \<open>Properties\<close>

text \<open>
  \<^bold>\<open>Lemma.\<close>  Stamps survive storage: the payload of every well-formed stamp, version 1 or 2, parses
  back to that stamp, from a pi entry as well as from a bridge entry.
\<close>

theorem parseGitStamp_roundtrip:
  assumes "wf_stamp s"
  shows "parseGitStampData (stamp_payload s) = Some s \<and>
     parseGitStampEntry (JObj [(''type'', JStr ''custom''), (''customType'', JStr GIT_STAMP_CUSTOM_TYPE),
       (''data'', stamp_payload s)]) = Some s \<and>
     parseGitStampEntry (JObj [(''kind'', JStr ''custom''), (''customType'', JStr GIT_STAMP_CUSTOM_TYPE),
       (''data'', stamp_payload s)]) = Some s"
proof -
  have "parseGitStampData (stamp_payload s) = Some s"
  proof (cases s)
    case (StampV1 a g)
    moreover have "parseGitIdentity (commit g) (branch g) = Some g"
      using assms StampV1 by (simp add: parseGitIdentity_Some)
    ultimately show ?thesis using assms by (auto simp: parseGitStampData_def anchor_of_name)
  next
    case (StampV2 a g t)
    moreover have "parseGitIdentity (commit g) (branch g) = Some g"
      using assms StampV2 by (simp add: parseGitIdentity_Some)
    moreover have "a \<in> set V2_ANCHORS" by (cases a) (simp_all add: V2_ANCHORS_def)
    ultimately show ?thesis using assms
      by (simp add: parseGitStampData_def anchor_of_name subject_of_nullable)
  qed
  then show ?thesis by (simp add: parseGitStampEntry_def)
qed

theorem parseGitStamp_roundtrip_witness:
  "parseGitStampData (stamp_payload (StampV2 ToolEnd \<lparr>commit = None, branch = Some ''main''\<rparr> (Some ''fix''))) =
     Some (StampV2 ToolEnd \<lparr>commit = None, branch = Some ''main''\<rparr> (Some ''fix''))"
  using parseGitStamp_roundtrip[of "StampV2 ToolEnd \<lparr>commit = None, branch = Some ''main''\<rparr> (Some ''fix'')"]
  by (simp add: wf_identity_def isValidBranchName_def BRANCH_NAME_RE_def control_char_def parseCommitSubject_def)

text \<open>
  \<^bold>\<open>Lemma.\<close>  Parsing is sound on arbitrary payloads: whatever value is read, an accepted stamp is
  well formed, with a 40 or 64 digit commit, a control-free branch and an anchor its version knows;
  an invalid subject clears only the subject.
\<close>

theorem parseGitStampData_sound:
  "case parseGitStampData d of
     None \<Rightarrow> True
   | Some s \<Rightarrow> wf_stamp s \<and> is_obj d \<and>
       (case s of
          StampV1 a g \<Rightarrow> jget d ''v'' = JNum 1 \<and> jget d ''commit'' = nullable_string (commit g)
        | StampV2 a g t \<Rightarrow> jget d ''v'' = JNum 2 \<and> jget d ''commit'' = nullable_string (commit g) \<and>
            (t = None \<or> jget d ''commitSubject'' = nullable_string t))"
proof (cases "parseGitStampData d")
  case (Some s)
  then obtain c b g where o: "is_obj d" "string_or_null (jget d ''commit'') = Some c"
      "string_or_null (jget d ''branch'') = Some b" "parseGitIdentity c b = Some g"
    by (auto simp: parseGitStampData_def bind_eq_Some_conv split: if_splits)
  have c: "jget d ''commit'' = nullable_string c"
    using o(2) by (cases "jget d ''commit''") (auto simp: nullable_string_def)
  have g: "wf_identity g" "commit g = c" using o(4) by (auto simp: parseGitIdentity_Some)
  have sub: "case u of JStr t \<Rightarrow> parseCommitSubject t = Some t \<or> parseCommitSubject t = None | _ \<Rightarrow> True" for u
    by (cases u) (auto simp: parseCommitSubject_def)
  from Some o show ?thesis using c g sub[of "jget d ''commitSubject''"]
    by (auto simp: parseGitStampData_def nullable_string_def dest!: anchor_of_Some split: if_splits jsv.splits)
qed simp

end
