(* ===== verification/Reactor.thy ===== *)
theory Reactor
  imports Prelude
begin

text \<open>
  The serialized state machine of \<^verbatim>\<open>packages/bridge/src/core/reactor.ts\<close>.  The closure variables of
  \<^verbatim>\<open>createReactor\<close> form a record; \<^verbatim>\<open>options.step\<close> is a parameter, a function from state, message and
  epoch to the messages it sends reentrantly and its result, which may be an exception.  Promises
  are tickets, numbered as they are created, with a log of how each settled.  Effects are values of
  any type: what \<^verbatim>\<open>run\<close> gives and when is chosen by the environment, so a completion or a rejection
  is a step of its own; a second parameter says which effects throw synchronously.  The apply loop
  may not end (a step can send forever) and has an option type.  The properties: messages apply one
  at a time in arrival order, each ticket settles once, a drain is never stuck, closed is final.
\<close>

section \<open>State and operations\<close>

datatype ReactorPhase = Open | Closing | Closed

datatype outcome = Applied | Failed | RefusedClosed

record ('s, 'm, 'e) Reactor =
  rstate :: 's
  phase :: ReactorPhase
  epoch :: nat
  effectsInFlight :: "'e list"
  drainPending :: bool
  hasDrain :: bool
  queue :: "(nat \<times> 'm) list"
  nextTicket :: nat
  tickets :: "(nat \<times> outcome) list"
  appliedLog :: "(nat \<times> 'm) list"
  drainResolved :: nat
  reportedErrors :: nat

type_synonym ('s, 'm, 'e) step_fun = "'s \<Rightarrow> 'm \<Rightarrow> nat \<Rightarrow> 'm list \<times> ('s \<times> 'e list) option"

definition createReactor :: "'s \<Rightarrow> ('s, 'm, 'e) Reactor" where
  "createReactor initial =
     \<lparr>rstate = initial, phase = Open, epoch = 0, effectsInFlight = [], drainPending = False, hasDrain = False,
      queue = [], nextTicket = 0, tickets = [], appliedLog = [], drainResolved = 0, reportedErrors = 0\<rparr>"

text \<open>Called with \<^verbatim>\<open>applying\<close> false; inside the apply loop it has no effect.\<close>

definition settleIfQuiet :: "('s, 'm, 'e) Reactor \<Rightarrow> ('s, 'm, 'e) Reactor" where
  "settleIfQuiet r =
     (if drainPending r \<and> queue r = [] \<and> effectsInFlight r = []
      then r\<lparr>phase := Closed, drainPending := False, drainResolved := Suc (drainResolved r)\<rparr>
      else r)"

definition push :: "('s, 'm, 'e) Reactor \<Rightarrow> 'm \<Rightarrow> ('s, 'm, 'e) Reactor" where
  "push r m = r\<lparr>queue := queue r @ [(nextTicket r, m)], nextTicket := Suc (nextTicket r)\<rparr>"

text \<open>
  The body of the apply loop for the first queued message: its reentrant sends queue behind the
  others, also those made before a throw; an admitted effect counts as in flight unless its \<^verbatim>\<open>run\<close>
  throws at once, which is reported.
\<close>

definition apply_one :: "('s, 'm, 'e) step_fun \<Rightarrow> ('e \<Rightarrow> bool) \<Rightarrow> ('s, 'm, 'e) Reactor \<Rightarrow> ('s, 'm, 'e) Reactor" where
  "apply_one stp throws r =
     (case queue r of
        [] \<Rightarrow> r
      | (t, m) # q \<Rightarrow>
          let ep = Suc (epoch r); (sends, res) = stp (rstate r) m ep;
              r1 = foldl push (r\<lparr>queue := q, epoch := ep, appliedLog := appliedLog r @ [(t, m)]\<rparr>) sends
          in case res of
               None \<Rightarrow> r1\<lparr>tickets := tickets r1 @ [(t, Failed)]\<rparr>
             | Some (s, es) \<Rightarrow>
                 r1\<lparr>rstate := s, tickets := tickets r1 @ [(t, Applied)],
                    effectsInFlight := effectsInFlight r1 @ filter (\<lambda>e. \<not> throws e) es,
                    reportedErrors := reportedErrors r1 + length (filter throws es)\<rparr>)"

partial_function (option) apply_loop ::
  "('s, 'm, 'e) step_fun \<Rightarrow> ('e \<Rightarrow> bool) \<Rightarrow> ('s, 'm, 'e) Reactor \<Rightarrow> ('s, 'm, 'e) Reactor option" where
  "apply_loop stp throws r = (if queue r = [] then Some r else apply_loop stp throws (apply_one stp throws r))"

definition apply_queue :: "('s, 'm, 'e) step_fun \<Rightarrow> ('e \<Rightarrow> bool) \<Rightarrow> ('s, 'm, 'e) Reactor \<Rightarrow> ('s, 'm, 'e) Reactor option" where
  "apply_queue stp throws r = map_option settleIfQuiet (apply_loop stp throws r)"

definition enqueue :: "('s, 'm, 'e) step_fun \<Rightarrow> ('e \<Rightarrow> bool) \<Rightarrow> ('s, 'm, 'e) Reactor \<Rightarrow> 'm \<Rightarrow> bool \<Rightarrow> ('s, 'm, 'e) Reactor option" where
  "enqueue stp throws r m internal =
     (if \<not> internal \<and> phase r \<noteq> Open
      then Some (r\<lparr>nextTicket := Suc (nextTicket r), tickets := tickets r @ [(nextTicket r, RefusedClosed)]\<rparr>)
      else apply_queue stp throws (push r m))"

definition send :: "('s, 'm, 'e) step_fun \<Rightarrow> ('e \<Rightarrow> bool) \<Rightarrow> ('s, 'm, 'e) Reactor \<Rightarrow> 'm \<Rightarrow> ('s, 'm, 'e) Reactor option" where
  "send stp throws r m = enqueue stp throws r m False"

definition close :: "('s, 'm, 'e) Reactor \<Rightarrow> ('s, 'm, 'e) Reactor" where
  "close r =
     (if hasDrain r then r
      else settleIfQuiet (r\<lparr>phase := Closing, hasDrain := True, drainPending := True\<rparr>))"

text \<open>The effect at an index completes with a message, or its promise rejects.\<close>

definition remove_nth :: "nat \<Rightarrow> 'a list \<Rightarrow> 'a list" where
  "remove_nth i xs = take i xs @ drop (Suc i) xs"

definition effectCompletes ::
  "('s, 'm, 'e) step_fun \<Rightarrow> ('e \<Rightarrow> bool) \<Rightarrow> ('s, 'm, 'e) Reactor \<Rightarrow> nat \<Rightarrow> 'm \<Rightarrow> ('s, 'm, 'e) Reactor option" where
  "effectCompletes stp throws r i m =
     enqueue stp throws (r\<lparr>effectsInFlight := remove_nth i (effectsInFlight r)\<rparr>) m True"

definition effectRejects :: "('s, 'm, 'e) Reactor \<Rightarrow> nat \<Rightarrow> ('s, 'm, 'e) Reactor" where
  "effectRejects r i =
     settleIfQuiet (r\<lparr>effectsInFlight := remove_nth i (effectsInFlight r), reportedErrors := Suc (reportedErrors r)\<rparr>)"

section \<open>Runs\<close>

inductive reactor_step ::
  "('s, 'm, 'e) step_fun \<Rightarrow> ('e \<Rightarrow> bool) \<Rightarrow> ('s, 'm, 'e) Reactor \<Rightarrow> ('s, 'm, 'e) Reactor \<Rightarrow> bool"
  for stp :: "('s, 'm, 'e) step_fun" and throws :: "'e \<Rightarrow> bool" where
  step_send: "send stp throws r m = Some r' \<Longrightarrow> reactor_step stp throws r r'"
| step_close: "reactor_step stp throws r (close r)"
| step_complete: "i < length (effectsInFlight r) \<Longrightarrow> effectCompletes stp throws r i m = Some r' \<Longrightarrow>
    reactor_step stp throws r r'"
| step_reject: "i < length (effectsInFlight r) \<Longrightarrow> reactor_step stp throws r (effectRejects r i)"

inductive reactor_reach :: "('s, 'm, 'e) step_fun \<Rightarrow> ('e \<Rightarrow> bool) \<Rightarrow> 's \<Rightarrow> ('s, 'm, 'e) Reactor \<Rightarrow> bool"
  for stp :: "('s, 'm, 'e) step_fun" and throws :: "'e \<Rightarrow> bool" and initial :: 's where
  reach_create: "reactor_reach stp throws initial (createReactor initial)"
| reach_step: "reactor_reach stp throws initial r \<Longrightarrow> reactor_step stp throws r r' \<Longrightarrow>
    reactor_reach stp throws initial r'"

inductive_cases reactor_stepE: "reactor_step stp throws r r'"

section \<open>The sequential reading of the log\<close>

definition next_state :: "('s, 'm, 'e) step_fun \<Rightarrow> 's \<Rightarrow> 'm \<Rightarrow> nat \<Rightarrow> 's" where
  "next_state stp s m ep = (case snd (stp s m ep) of None \<Rightarrow> s | Some (s', _) \<Rightarrow> s')"

fun replay :: "('s, 'm, 'e) step_fun \<Rightarrow> nat \<Rightarrow> 's \<Rightarrow> (nat \<times> 'm) list \<Rightarrow> 's" where
  "replay stp n s [] = s"
| "replay stp n s ((t, m) # lg) = replay stp (Suc n) (next_state stp s m (Suc n)) lg"

lemma replay_snoc:
  "replay stp n s (lg @ [(t, m)]) = next_state stp (replay stp n s lg) m (Suc (n + length lg))"
  by (induction stp n s lg rule: replay.induct) simp_all

section \<open>Invariants\<close>

definition log_inv :: "('s, 'm, 'e) step_fun \<Rightarrow> 's \<Rightarrow> ('s, 'm, 'e) Reactor \<Rightarrow> bool" where
  "log_inv stp initial r \<longleftrightarrow>
     map fst (tickets r) @ map fst (queue r) = [0..<nextTicket r] \<and>
     map fst (appliedLog r) = map fst (filter (\<lambda>x. snd x \<noteq> RefusedClosed) (tickets r)) \<and>
     epoch r = length (appliedLog r) \<and> rstate r = replay stp 0 initial (appliedLog r)"

definition drain_inv :: "('s, 'm, 'e) Reactor \<Rightarrow> bool" where
  "drain_inv r \<longleftrightarrow> (hasDrain r \<longleftrightarrow> phase r \<noteq> Open) \<and> (drainPending r \<longleftrightarrow> phase r = Closing) \<and>
     drainResolved r = (if phase r = Closed then 1 else 0)"

definition quiet_inv :: "('s, 'm, 'e) Reactor \<Rightarrow> bool" where
  "quiet_inv r \<longleftrightarrow> queue r = [] \<and> (phase r = Closing \<longrightarrow> effectsInFlight r \<noteq> []) \<and>
     (phase r = Closed \<longrightarrow> effectsInFlight r = [])"

lemma push_fold:
  "\<exists>q. foldl push r ms = r\<lparr>queue := queue r @ q, nextTicket := nextTicket r + length ms\<rparr> \<and>
     map fst q = [nextTicket r..<nextTicket r + length ms]"
proof (induction ms arbitrary: r)
  case Nil
  then show ?case by (intro exI[of _ "[]"]) simp
next
  case (Cons m ms)
  from Cons[of "push r m"] obtain q where
    "foldl push (push r m) ms = (push r m)\<lparr>queue := queue (push r m) @ q, nextTicket := nextTicket (push r m) + length ms\<rparr>"
    "map fst q = [nextTicket (push r m)..<nextTicket (push r m) + length ms]" by blast
  moreover have "(push r m)\<lparr>queue := x, nextTicket := n\<rparr> = r\<lparr>queue := x, nextTicket := n\<rparr>" for x n
    by (simp add: push_def)
  moreover have "queue (push r m) = queue r @ [(nextTicket r, m)]" "nextTicket (push r m) = Suc (nextTicket r)"
    by (simp_all add: push_def)
  moreover have "[n..<n + length (m # ms)] = n # [Suc n..<Suc n + length ms]" for n
    by (simp add: upt_conv_Cons del: upt_Suc)
  ultimately show ?case by (intro exI[of _ "(nextTicket r, m) # q"]) (simp del: upt_Suc)
qed

lemma apply_one_frame:
  "phase (apply_one stp throws r) = phase r" "hasDrain (apply_one stp throws r) = hasDrain r"
  "drainPending (apply_one stp throws r) = drainPending r" "drainResolved (apply_one stp throws r) = drainResolved r"
proof -
  have "phase (foldl push x ms) = phase x" "hasDrain (foldl push x ms) = hasDrain x"
    "drainPending (foldl push x ms) = drainPending x" "drainResolved (foldl push x ms) = drainResolved x"
    for x :: "('a, 'b, 'c) Reactor" and ms
    using push_fold[of x ms] by auto
  then show "phase (apply_one stp throws r) = phase r" "hasDrain (apply_one stp throws r) = hasDrain r"
    "drainPending (apply_one stp throws r) = drainPending r" "drainResolved (apply_one stp throws r) = drainResolved r"
    by (auto simp: apply_one_def Let_def split: list.split option.split prod.split)
qed

lemma apply_one_log:
  assumes "log_inv stp initial r"
  shows "log_inv stp initial (apply_one stp throws r)"
proof (cases "queue r")
  case Nil
  then show ?thesis using assms by (simp add: apply_one_def)
next
  case (Cons tm q)
  obtain t m where tm: "tm = (t, m)" by (cases tm)
  obtain sends res where s: "stp (rstate r) m (Suc (epoch r)) = (sends, res)" by (cases "stp (rstate r) m (Suc (epoch r))")
  let ?r0 = "r\<lparr>queue := q, epoch := Suc (epoch r), appliedLog := appliedLog r @ [(t, m)]\<rparr>"
  obtain q' where q': "foldl push ?r0 sends = ?r0\<lparr>queue := q @ q', nextTicket := nextTicket r + length sends\<rparr>"
      "map fst q' = [nextTicket r..<nextTicket r + length sends]"
    using push_fold[of ?r0 sends] by auto
  have order: "map fst (tickets r) @ t # map fst q = [0..<nextTicket r]" using assms Cons tm by (simp add: log_inv_def)
  have st: "replay stp 0 initial (appliedLog r @ [(t, m)]) = (case res of None \<Rightarrow> rstate r | Some (s', _) \<Rightarrow> s')"
  proof -
    have "rstate r = replay stp 0 initial (appliedLog r)" "epoch r = length (appliedLog r)"
      using assms by (simp_all add: log_inv_def)
    with s show ?thesis by (simp add: replay_snoc next_state_def split: option.split)
  qed
  have "(map fst (tickets r) @ t # map fst q) @ map fst q' = [0..<nextTicket r + length sends]"
    unfolding order q'(2) using upt_add_eq_append[of 0 "nextTicket r" "length sends"] by simp
  then have order': "map fst (tickets r @ [(t, v)]) @ map fst (q @ q') = [0..<nextTicket r + length sends]" for v by simp
  have log: "map fst (appliedLog r @ [(t, m)]) = map fst (filter (\<lambda>x. snd x \<noteq> RefusedClosed) (tickets r @ [(t, v)]))"
    if "v \<noteq> RefusedClosed" for v using assms that by (simp add: log_inv_def)
  have ep: "Suc (epoch r) = length (appliedLog r @ [(t, m)])" using assms by (simp add: log_inv_def)
  show ?thesis
  proof (cases res)
    case None
    then have "apply_one stp throws r = (?r0\<lparr>queue := q @ q', nextTicket := nextTicket r + length sends\<rparr>)
        \<lparr>tickets := tickets r @ [(t, Failed)]\<rparr>"
      using Cons tm s q'(1) by (simp add: apply_one_def)
    moreover have "rstate r = replay stp 0 initial (appliedLog r @ [(t, m)])" using st None by simp
    ultimately show ?thesis using order' log[of Failed] ep unfolding log_inv_def by simp
  next
    case (Some se)
    obtain s' es where "se = (s', es)" by (cases se)
    moreover obtain ef re where "apply_one stp throws r = (?r0\<lparr>queue := q @ q', nextTicket := nextTicket r + length sends\<rparr>)
        \<lparr>rstate := s', tickets := tickets r @ [(t, Applied)], effectsInFlight := ef, reportedErrors := re\<rparr>"
      using Cons tm s q'(1) Some calculation by (simp add: apply_one_def)
    ultimately show ?thesis using order' log[of Applied] ep st Some unfolding log_inv_def by simp
  qed
qed

lemma apply_loop_inv:
  assumes "apply_loop stp throws r = Some r'"
  shows "log_inv stp initial r \<longrightarrow> log_inv stp initial r' \<and> queue r' = [] \<and> phase r' = phase r \<and> (drain_inv r \<longrightarrow> drain_inv r')"
proof -
  have drain: "drain_inv (apply_one stp throws r) = drain_inv r" for stp throws and r :: "('a, 'b, 'c) Reactor"
    by (simp add: drain_inv_def apply_one_frame)
  show ?thesis
    by (rule apply_loop.raw_induct[OF _ assms, where
          P = "\<lambda>stp throws r r'. log_inv stp initial r \<longrightarrow> log_inv stp initial r' \<and> queue r' = [] \<and> phase r' = phase r \<and> (drain_inv r \<longrightarrow> drain_inv r')"])
      (auto simp: drain apply_one_log apply_one_frame split: if_splits)
qed

lemma settleIfQuiet_inv:
  assumes "log_inv stp initial r" "drain_inv r" "queue r = []" "phase r = Closed \<longrightarrow> effectsInFlight r = []"
  shows "log_inv stp initial (settleIfQuiet r) \<and> drain_inv (settleIfQuiet r) \<and> quiet_inv (settleIfQuiet r)"
  using assms by (cases "phase r") (auto simp: settleIfQuiet_def log_inv_def drain_inv_def quiet_inv_def)

definition reactor_inv :: "('s, 'm, 'e) step_fun \<Rightarrow> 's \<Rightarrow> ('s, 'm, 'e) Reactor \<Rightarrow> bool" where
  "reactor_inv stp initial r \<longleftrightarrow> log_inv stp initial r \<and> drain_inv r \<and> quiet_inv r"

lemma push_log: "log_inv stp initial r \<Longrightarrow> log_inv stp initial (push r m)"
  by (auto simp: log_inv_def push_def)

lemma apply_queue_inv:
  assumes "apply_queue stp throws (push r m) = Some r'" "log_inv stp initial r" "drain_inv r" "phase r \<noteq> Closed"
  shows "reactor_inv stp initial r'"
proof -
  from assms(1) obtain x where x: "apply_loop stp throws (push r m) = Some x" "r' = settleIfQuiet x"
    by (auto simp: apply_queue_def)
  have "drain_inv (push r m)" "phase (push r m) = phase r" using assms(3) by (simp_all add: drain_inv_def push_def)
  then show ?thesis using apply_loop_inv[OF x(1), of initial] push_log[OF assms(2)] assms(4) x(2) settleIfQuiet_inv[of stp initial x]
    by (auto simp: reactor_inv_def)
qed

lemma send_inv: "reactor_inv stp initial r \<Longrightarrow> send stp throws r m = Some r' \<Longrightarrow> reactor_inv stp initial r'"
  using apply_queue_inv[of stp throws r m r' initial]
  by (auto simp: send_def enqueue_def reactor_inv_def log_inv_def drain_inv_def quiet_inv_def split: if_splits)

lemma close_inv: "reactor_inv stp initial r \<Longrightarrow> reactor_inv stp initial (close r)"
  by (auto simp: close_def settleIfQuiet_def reactor_inv_def log_inv_def drain_inv_def quiet_inv_def)

lemma in_flight_open: "reactor_inv stp initial r \<Longrightarrow> i < length (effectsInFlight r) \<Longrightarrow> phase r \<noteq> Closed"
  by (auto simp: reactor_inv_def quiet_inv_def)

lemma complete_inv:
  assumes "reactor_inv stp initial r" "i < length (effectsInFlight r)" "effectCompletes stp throws r i m = Some r'"
  shows "reactor_inv stp initial r'"
proof -
  let ?r = "r\<lparr>effectsInFlight := remove_nth i (effectsInFlight r)\<rparr>"
  have "log_inv stp initial ?r" "drain_inv ?r" "phase ?r \<noteq> Closed"
    using assms(1) in_flight_open[OF assms(1,2)] by (auto simp: reactor_inv_def log_inv_def drain_inv_def)
  then show ?thesis using assms(3) by (intro apply_queue_inv[of stp throws ?r m]) (simp_all add: effectCompletes_def enqueue_def)
qed

lemma reject_inv:
  assumes "reactor_inv stp initial r" "i < length (effectsInFlight r)"
  shows "reactor_inv stp initial (effectRejects r i)"
proof -
  let ?r = "r\<lparr>effectsInFlight := remove_nth i (effectsInFlight r), reportedErrors := Suc (reportedErrors r)\<rparr>"
  have "log_inv stp initial ?r" "drain_inv ?r" "queue ?r = []" "phase ?r \<noteq> Closed"
    using assms(1) in_flight_open[OF assms] by (auto simp: reactor_inv_def log_inv_def drain_inv_def quiet_inv_def)
  then show ?thesis using settleIfQuiet_inv[of stp initial ?r] by (simp add: effectRejects_def reactor_inv_def)
qed

lemma reach_reactor_inv: "reactor_reach stp throws initial r \<Longrightarrow> reactor_inv stp initial r"
proof (induction rule: reactor_reach.induct)
  case reach_create
  show ?case by (simp add: reactor_inv_def log_inv_def drain_inv_def quiet_inv_def createReactor_def)
next
  case (reach_step r r')
  from reach_step.hyps(2) reach_step.IH show ?case
    by (auto elim!: reactor_stepE intro: send_inv close_inv complete_inv reject_inv)
qed

section \<open>Draining\<close>

text \<open>The effects in flight settle one after the other: a message completes one, \<^const>\<open>None\<close> rejects it.\<close>

fun settle_effects ::
  "('s, 'm, 'e) step_fun \<Rightarrow> ('e \<Rightarrow> bool) \<Rightarrow> ('s, 'm, 'e) Reactor \<Rightarrow> 'm option list \<Rightarrow> ('s, 'm, 'e) Reactor option" where
  "settle_effects stp throws r [] = Some r"
| "settle_effects stp throws r (None # outs) = settle_effects stp throws (effectRejects r 0) outs"
| "settle_effects stp throws r (Some m # outs) =
     (case effectCompletes stp throws r 0 m of None \<Rightarrow> None | Some r' \<Rightarrow> settle_effects stp throws r' outs)"

text \<open>A step that sends nothing and admits no effect.\<close>

definition plain_step :: "('s, 'm, 'e) step_fun \<Rightarrow> bool" where
  "plain_step stp \<longleftrightarrow> (\<forall>s m ep. fst (stp s m ep) = [] \<and> pred_option (\<lambda>(s', es). es = []) (snd (stp s m ep)))"

lemma plain_complete:
  assumes "plain_step stp" "queue r = []"
  shows "\<exists>r'. effectCompletes stp throws r i m = Some r' \<and> effectsInFlight r' = remove_nth i (effectsInFlight r) \<and>
    (phase r' = phase r \<or> phase r' = Closed)"
proof -
  let ?r = "push (r\<lparr>effectsInFlight := remove_nth i (effectsInFlight r)\<rparr>) m"
  let ?x = "apply_one stp throws ?r"
  obtain sends res where s: "stp (rstate r) m (Suc (epoch r)) = (sends, res)" by (cases "stp (rstate r) m (Suc (epoch r))")
  have plain: "sends = []" "pred_option (\<lambda>(s', es). es = []) res"
    using assms(1) s unfolding plain_step_def by (metis fst_conv, metis snd_conv)
  have x: "queue ?x = []" "effectsInFlight ?x = remove_nth i (effectsInFlight r)" "phase ?x = phase r"
    using assms(2) s plain by (auto simp: push_def apply_one_def Let_def split: option.split)
  have "apply_loop stp throws ?x = Some ?x" using x(1) by (subst apply_loop.simps) simp
  moreover have "queue ?r \<noteq> []" by (simp add: push_def)
  then have "apply_loop stp throws ?r = apply_loop stp throws ?x" by (subst apply_loop.simps) simp
  ultimately have "effectCompletes stp throws r i m = Some (settleIfQuiet ?x)"
    by (simp add: effectCompletes_def enqueue_def apply_queue_def)
  then show ?thesis using x by (auto simp: settleIfQuiet_def)
qed

lemma drain_run:
  assumes "plain_step stp"
  shows "reactor_inv stp initial r \<Longrightarrow> phase r \<noteq> Open \<Longrightarrow> length outs = length (effectsInFlight r) \<Longrightarrow>
    \<exists>r'. settle_effects stp throws r outs = Some r' \<and> phase r' = Closed \<and> reactor_inv stp initial r'"
proof (induction outs arbitrary: r)
  case Nil
  then have "phase r = Closed" by (cases "phase r") (auto simp: reactor_inv_def quiet_inv_def)
  with Nil show ?case by simp
next
  case (Cons out outs)
  have some: "0 < length (effectsInFlight r)" "queue r = []" using Cons.prems by (auto simp: reactor_inv_def quiet_inv_def)
  have len: "length (remove_nth 0 (effectsInFlight r)) = length outs" using Cons.prems(3) by (simp add: remove_nth_def)
  show ?case
  proof (cases out)
    case None
    have "reactor_inv stp initial (effectRejects r 0)" using reject_inv[OF Cons.prems(1) some(1)] .
    moreover have "phase (effectRejects r 0) \<noteq> Open" "effectsInFlight (effectRejects r 0) = remove_nth 0 (effectsInFlight r)"
      using Cons.prems(2) by (simp_all add: effectRejects_def settleIfQuiet_def)
    ultimately show ?thesis using Cons.IH[of "effectRejects r 0"] len None by simp
  next
    case (Some m)
    obtain r' where r': "effectCompletes stp throws r 0 m = Some r'" "effectsInFlight r' = remove_nth 0 (effectsInFlight r)"
        "phase r' = phase r \<or> phase r' = Closed"
      using plain_complete[OF assms some(2), of throws 0 m] by blast
    have "reactor_inv stp initial r'" using complete_inv[OF Cons.prems(1) some(1) r'(1)] .
    then show ?thesis using Cons.IH[of r'] Cons.prems(2) r' len Some by auto
  qed
qed


section \<open>Properties\<close>

text \<open>
  \<^bold>\<open>Property C11.\<close>  The reactor is serial: in every reachable state the state is the one of applying the
  logged messages one at a time, each with its own epoch, in the order in which they arrived;
  every message sent, from outside, reentrantly or as a completion, has settled exactly once and in
  order, and the refused ones are not in the log.
\<close>

theorem reactor_serial:
  assumes "reactor_reach stp throws initial r"
  shows "rstate r = replay stp 0 initial (appliedLog r) \<and> epoch r = length (appliedLog r) \<and>
    map fst (tickets r) = [0..<nextTicket r] \<and> queue r = [] \<and>
    map fst (appliedLog r) = map fst (filter (\<lambda>x. snd x \<noteq> RefusedClosed) (tickets r))"
  using reach_reactor_inv[OF assms] by (auto simp: reactor_inv_def log_inv_def quiet_inv_def)

text \<open>A counter that sends itself one more message on every even one.\<close>

definition sample_step :: "(nat, nat, nat) step_fun" where
  "sample_step s m ep = (if even m then [Suc m] else [], if m = 0 then None else Some (s + m, [m]))"

lemma sample_reach: "\<exists>r. reactor_reach sample_step (\<lambda>_. False) 0 r \<and> rstate r = 5 \<and> length (appliedLog r) = 2"
proof -
  let ?r = "the (send sample_step (\<lambda>_. False) (createReactor 0) 2)"
  have e: "send sample_step (\<lambda>_. False) (createReactor 0) 2 = Some ?r \<and> rstate ?r = 5 \<and> length (appliedLog ?r) = 2"
    by (simp add: send_def enqueue_def createReactor_def push_def apply_queue_def apply_loop.simps apply_one_def
        sample_step_def settleIfQuiet_def Let_def)
  then have "reactor_reach sample_step (\<lambda>_. False) 0 ?r" by (intro reach_step[OF reach_create] step_send) blast
  with e show ?thesis by blast
qed

theorem reactor_serial_witness:
  "\<exists>r :: (nat, nat, nat) Reactor. rstate r = 5 \<and> rstate r = replay sample_step 0 0 (appliedLog r) \<and> map fst (tickets r) = [0..<nextTicket r]"
proof -
  obtain r where "reactor_reach sample_step (\<lambda>_. False) 0 r" "rstate r = 5" using sample_reach by blast
  from this(2) reactor_serial[OF this(1)] show ?thesis by blast
qed

text \<open>
  \<^bold>\<open>Lemma.\<close>  A drain is never stuck: once close began, as soon as the effects in flight have settled,
  by completion or rejection in any mix, with steps that admit nothing more, the reactor is closed
  and its drain has resolved exactly once.
\<close>

theorem drain_resolves:
  assumes "reactor_reach stp throws initial r" "phase r \<noteq> Open" "plain_step stp"
    and "length outs = length (effectsInFlight r)"
  shows "\<exists>r'. settle_effects stp throws r outs = Some r' \<and> phase r' = Closed \<and> drainResolved r' = 1"
  using drain_run[OF assms(3) reach_reactor_inv[OF assms(1)] assms(2,4), of throws]
  by (auto simp: reactor_inv_def drain_inv_def)

theorem drain_resolves_witness:
  "\<exists>r'. settle_effects (\<lambda>s (m::nat) ep. ([], Some (s + m, []))) (\<lambda>_::nat. False) (close (createReactor (0::nat))) [] = Some r' \<and>
     phase r' = Closed \<and> drainResolved r' = 1"
  by (rule drain_resolves[of _ _ 0])
    (auto simp: plain_step_def close_def settleIfQuiet_def createReactor_def intro: reach_step[OF reach_create step_close, unfolded close_def settleIfQuiet_def createReactor_def, simplified])

text \<open>
  \<^bold>\<open>Lemma.\<close>  Closed is final: from a closed reactor no step changes the state, the log or the phase,
  and the drain never resolves again; a send is refused with a ticket of its own.
\<close>

theorem closed_final:
  assumes "reactor_reach stp throws initial r" "phase r = Closed" "reactor_step stp throws r r'"
  shows "rstate r' = rstate r \<and> appliedLog r' = appliedLog r \<and> phase r' = Closed \<and> drainResolved r' = 1 \<and>
    effectsInFlight r' = []"
proof -
  have inv: "hasDrain r" "drainResolved r = 1" "effectsInFlight r = []"
    using reach_reactor_inv[OF assms(1)] assms(2) by (auto simp: reactor_inv_def drain_inv_def quiet_inv_def)
  from assms(3) show ?thesis
    by (cases rule: reactor_step.cases) (use inv assms(2) in \<open>auto simp: close_def send_def enqueue_def\<close>)
qed

theorem closed_final_witness:
  "\<exists>r r'. send sample_step (\<lambda>_. False) r 7 = Some r' \<and> phase r = Closed \<and> rstate r' = rstate r"
proof -
  let ?r = "close (createReactor 0) :: (nat, nat, nat) Reactor"
  have c: "phase ?r = Closed" by (simp add: close_def settleIfQuiet_def createReactor_def)
  have reach: "reactor_reach sample_step (\<lambda>_. False) 0 ?r" by (rule reach_step[OF reach_create step_close])
  obtain r' where s: "send sample_step (\<lambda>_. False) ?r 7 = Some r'" using c by (simp add: send_def enqueue_def)
  from closed_final[OF reach c step_send[OF s]] have "rstate r' = rstate ?r" by blast
  with s c show ?thesis by blast
qed

end
