(* ===== verification/Lazy.thy ===== *)
theory Lazy
  imports Entries Patch
begin

text \<open>
  Lazy fields, from \<^verbatim>\<open>packages/bridge/src/core/document.ts\<close>: what is stripped from the snapshot a
  client starts from (\<^verbatim>\<open>snapshotForWire\<close>, \<^verbatim>\<open>stripLazyFields\<close>) and from the patches it receives
  (\<^verbatim>\<open>filterPatchForSocket\<close> and the \<^verbatim>\<open>sanitize\<close> functions).  The subscription test climbs the path
  and does not return when the path ends in a slash; all functions that call it therefore return
  an option, and the lemmas show that on paths without empty segments they do return.
\<close>

section \<open>Stripping whole entries\<close>

definition strip_block :: "jsv \<Rightarrow> jsv" where
  "strip_block block =
     (let b = (if jget block ''type'' = JStr ''thinking'' \<and> jhas block ''thinking''
               then jset ''thinking'' JNull block else block)
      in if jget b ''type'' = JStr ''toolCall'' \<and> jhas b ''arguments''
         then jset ''arguments'' JNull b else b)"

definition stripLazyFields :: "jsv \<Rightarrow> jsv" where
  "stripLazyFields entry =
     (let c1 = (if jget entry ''kind'' = JStr ''message'' \<and> \<not> nullish (jget entry ''sections'')
                then jset ''sections'' JNull entry else entry);
          c2 = (if jhas c1 ''content''
                then (if jget c1 ''kind'' = JStr ''tool_result'' then jset ''content'' JNull c1
                      else (case jget c1 ''content'' of
                              JArr bs \<Rightarrow> jset ''content'' (JArr (map strip_block bs)) c1
                            | _ \<Rightarrow> c1))
                else c1)
      in if jhas c2 ''details'' \<and> jget c2 ''kind'' = JStr ''tool_result''
         then jset ''details'' JNull c2 else c2)"

definition snapshotForWire :: "jsv \<Rightarrow> jsv" where
  "snapshotForWire doc =
     mk_doc (doc_status doc)
       (foldl (\<lambda>acc (k, e). AList.update k (stripLazyFields e) acc) [] (js_entries (doc_entries doc)))"

section \<open>Filtering patches\<close>

text \<open>\<^verbatim>\<open>ENTRY_ROOT_RE\<close> and \<^verbatim>\<open>CONTENT_BLOCK_RE\<close>.\<close>

definition ENTRY_ROOT_RE :: "string \<Rightarrow> bool" where
  "ENTRY_ROOT_RE p =
     (case segments p of [r, es, i] \<Rightarrow> r = [] \<and> es = ''entries'' \<and> i \<noteq> [] | _ \<Rightarrow> False)"

definition CONTENT_BLOCK_RE :: "string \<Rightarrow> bool" where
  "CONTENT_BLOCK_RE p =
     (case segments p of
        [r, es, i, c, n] \<Rightarrow> r = [] \<and> es = ''entries'' \<and> i \<noteq> [] \<and> c = ''content'' \<and> digits1 n
      | _ \<Rightarrow> False)"

text \<open>\<open>withhold v p subs\<close>: \<^verbatim>\<open>v != null && !isSubscribedPath(p, subscriptions)\<close>.\<close>

definition withhold :: "jsv \<Rightarrow> string \<Rightarrow> string set \<Rightarrow> bool option" where
  "withhold v p subs = (if nullish v then Some False else map_option Not (isSubscribedPath p subs))"

definition sanitizeBlockValue :: "string \<Rightarrow> jsv \<Rightarrow> string set \<Rightarrow> jsv option" where
  "sanitizeBlockValue path block subs =
     do {
       t \<leftarrow> (if jget block ''type'' = JStr ''thinking''
             then withhold (jget block ''thinking'') (path @ ''/thinking'') subs else Some False);
       if t then Some (jset ''thinking'' JNull block)
       else do {
         a \<leftarrow> (if jget block ''type'' = JStr ''toolCall''
               then withhold (jget block ''arguments'') (path @ ''/arguments'') subs else Some False);
         Some (if a then jset ''arguments'' JNull block else block)
       }
     }"

fun sanitizeBlocks :: "string \<Rightarrow> nat \<Rightarrow> jsv list \<Rightarrow> string set \<Rightarrow> jsv list option" where
  "sanitizeBlocks path i [] subs = Some []"
| "sanitizeBlocks path i (b # bs) subs =
     do {
       b' \<leftarrow> sanitizeBlockValue (path @ ''/content/'' @ nat_str i) b subs;
       bs' \<leftarrow> sanitizeBlocks path (Suc i) bs subs;
       Some (b' # bs')
     }"

definition sanitizeEntryValue :: "string \<Rightarrow> jsv \<Rightarrow> string set \<Rightarrow> jsv option" where
  "sanitizeEntryValue path entry subs =
     (if jget entry ''kind'' = JStr ''tool_result''
      then do {
        stripContent \<leftarrow> withhold (jget entry ''content'') (path @ ''/content'') subs;
        stripDetails \<leftarrow> withhold (jget entry ''details'') (path @ ''/details'') subs;
        let clone = (if stripContent then jset ''content'' JNull entry else entry);
        Some (if stripDetails then jset ''details'' JNull clone else clone)
      }
      else do {
        s \<leftarrow> (if jget entry ''kind'' = JStr ''message''
              then withhold (jget entry ''sections'') (path @ ''/sections'') subs else Some False);
        let result = (if s then jset ''sections'' JNull entry else entry);
        case jget result ''content'' of
          JArr bs \<Rightarrow> map_option (\<lambda>bs'. if bs' \<noteq> bs then jset ''content'' (JArr bs') result else result)
            (sanitizeBlocks path 0 bs subs)
        | _ \<Rightarrow> Some result
      })"

definition sanitizeOpValue :: "string \<Rightarrow> jsv \<Rightarrow> string set \<Rightarrow> jsv option" where
  "sanitizeOpValue path val subs =
     (if ENTRY_ROOT_RE path then sanitizeEntryValue path val subs
      else if CONTENT_BLOCK_RE path then sanitizeBlockValue path val subs
      else Some val)"

fun is_lazy_append :: "PatchOp \<Rightarrow> bool" where
  "is_lazy_append (AppendOp _ _ lazy) = lazy"
| "is_lazy_append _ = False"

text \<open>The tail of an iteration, for an op on an eager path: its value may embed lazy content.\<close>

fun sanitizeOp :: "PatchOp \<Rightarrow> string set \<Rightarrow> PatchOp option" where
  "sanitizeOp (AddOp p v) subs =
     (if is_obj v \<or> is_arr v then map_option (AddOp p) (sanitizeOpValue p v subs) else Some (AddOp p v))"
| "sanitizeOp (ReplaceOp p v) subs =
     (if is_obj v \<or> is_arr v then map_option (ReplaceOp p) (sanitizeOpValue p v subs) else Some (ReplaceOp p v))"
| "sanitizeOp op subs = Some op"

text \<open>One iteration of the filter loop: the op to push, if any.\<close>

definition filterOp :: "PatchOp \<Rightarrow> string set \<Rightarrow> PatchOp option option" where
  "filterOp op subs =
     (let path = op_source_path op;
          if_subscribed = map_option (\<lambda>b. if b then Some op else None) (isSubscribedPath path subs)
      in if is_lazy_append op then if_subscribed
         else do {
           lzy \<leftarrow> isLazyFieldPath path;
           if lzy then if_subscribed else map_option Some (sanitizeOp op subs)
         })"

fun filterPatchForSocket :: "PatchOp list \<Rightarrow> string set \<Rightarrow> PatchOp list option" where
  "filterPatchForSocket [] subs = Some []"
| "filterPatchForSocket (op # ops) subs =
     do {
       r \<leftarrow> filterOp op subs;
       rs \<leftarrow> filterPatchForSocket ops subs;
       Some (case r of None \<Rightarrow> rs | Some x \<Rightarrow> x # rs)
     }"

section \<open>Climbing a path\<close>

text \<open>A segment a key contributes to a path: not empty and without a slash.\<close>

definition seg :: "string \<Rightarrow> bool" where
  "seg k \<longleftrightarrow> k \<noteq> [] \<and> CHR ''/'' \<notin> set k"

lemma takeWhile_rev_seg:
  "CHR ''/'' \<notin> set k \<Longrightarrow> takeWhile (\<lambda>c. c \<noteq> CHR ''/'') (rev (p @ CHR ''/'' # k)) = rev k"
  by (auto simp: takeWhile_append)

lemma parent_path_snoc: "seg k \<Longrightarrow> parent_path (p @ CHR ''/'' # k) = p"
  by (simp add: parent_path_def seg_def takeWhile_rev_seg Let_def del: rev_append rev.simps)

lemma parent_pathstr: "seg k \<Longrightarrow> parent_path (pathstr (ks @ [k])) = pathstr ks"
  by (simp add: parent_path_snoc)

lemma climb_pathstr:
  "list_all seg ks \<Longrightarrow> climb ok (pathstr ks) = Some (\<exists>i < length ks. ok (pathstr (take i ks)))"
proof (induction ks rule: rev_induct)
  case Nil
  then show ?case by (subst climb.simps) simp
next
  case (snoc k ks)
  have "CHR ''/'' \<in> set (pathstr (ks @ [k]))" by simp
  moreover have "parent_path (pathstr (ks @ [k])) = pathstr ks"
    using snoc.prems by (intro parent_pathstr) simp
  ultimately have "climb ok (pathstr (ks @ [k])) =
      (if ok (pathstr ks) then Some True else climb ok (pathstr ks))"
    by (subst climb.simps) simp
  moreover have "(\<exists>i < length (ks @ [k]). ok (pathstr (take i (ks @ [k])))) \<longleftrightarrow>
      ok (pathstr ks) \<or> (\<exists>i < length ks. ok (pathstr (take i ks)))"
    by (auto simp: less_Suc_eq)
  ultimately show ?case using snoc by auto
qed

lemma climb_stuck:
  assumes "CHR ''/'' \<in> set p" "parent_path p = p" "\<not> ok p"
  shows "climb ok p = None"
proof (rule ccontr)
  assume "climb ok p \<noteq> None"
  then obtain b where "climb ok p = Some b" by blast
  then have "\<not> (CHR ''/'' \<in> set p \<and> parent_path p = p \<and> \<not> ok p)"
  proof (rule climb.raw_induct[rotated])
    fix rec :: "(string \<Rightarrow> bool) \<Rightarrow> string \<Rightarrow> bool option" and ok p b
    assume "\<And>ok p b. rec ok p = Some b \<Longrightarrow> \<not> (CHR ''/'' \<in> set p \<and> parent_path p = p \<and> \<not> ok p)"
      and "(if CHR ''/'' \<in> set p then if ok (parent_path p) then Some True else rec ok (parent_path p)
            else Some False) = Some b"
    then show "\<not> (CHR ''/'' \<in> set p \<and> parent_path p = p \<and> \<not> ok p)"
      by (cases "parent_path p = p") (auto split: if_splits)
  qed
  with assms show False by simp
qed

lemma parent_path_trailing: "parent_path (p @ ''/'') = p @ ''/''"
  by (simp add: parent_path_def)

definition covered :: "string set \<Rightarrow> string list \<Rightarrow> bool" where
  "covered subs ks \<longleftrightarrow> list_ex (\<lambda>i. pathstr (take i ks) \<in> subs) [0 ..< Suc (length ks)]"

lemma isSubscribedPath_pathstr:
  "list_all seg ks \<Longrightarrow> isSubscribedPath (pathstr ks) subs = Some (covered subs ks)"
  by (auto simp: isSubscribedPath_def climb_pathstr covered_def list_ex_iff less_Suc_eq)

lemma isLazyFieldPath_returns: "list_all seg ks \<Longrightarrow> \<exists>b. isLazyFieldPath (pathstr ks) = Some b"
  by (auto simp: isLazyFieldPath_def climb_pathstr)

lemma covered_empty [simp]: "\<not> covered {} ks"
  by (simp add: covered_def list_ex_iff)

section \<open>What a subscriber may see\<close>

text \<open>
  The sanitizers as total functions of the key list, for paths whose segments are not empty.
  \<open>veil\<close> hides the lazy fields of an entry that no subscription covers.
\<close>

definition veil_field :: "string set \<Rightarrow> string list \<Rightarrow> string \<Rightarrow> jsv \<Rightarrow> jsv" where
  "veil_field subs ks k v =
     (if \<not> nullish (jget v k) \<and> \<not> covered subs (ks @ [k]) then jset k JNull v else v)"

definition veil_block :: "string set \<Rightarrow> string list \<Rightarrow> jsv \<Rightarrow> jsv" where
  "veil_block subs ks b =
     (if jget b ''type'' = JStr ''thinking'' then veil_field subs ks ''thinking'' b
      else if jget b ''type'' = JStr ''toolCall'' then veil_field subs ks ''arguments'' b
      else b)"

definition veil_blocks :: "string set \<Rightarrow> string list \<Rightarrow> jsv list \<Rightarrow> jsv list" where
  "veil_blocks subs ks bs =
     map (\<lambda>(i, b). veil_block subs (ks @ [''content'', nat_str i]) b) (enumerate 0 bs)"

definition veil_content :: "string set \<Rightarrow> string list \<Rightarrow> jsv \<Rightarrow> jsv" where
  "veil_content subs ks e =
     (case jget e ''content'' of
        JArr bs \<Rightarrow> jset ''content'' (JArr (veil_blocks subs ks bs)) e
      | _ \<Rightarrow> e)"

definition veil :: "string set \<Rightarrow> string list \<Rightarrow> jsv \<Rightarrow> jsv" where
  "veil subs ks e =
     (if jget e ''kind'' = JStr ''tool_result''
      then veil_field subs ks ''details'' (veil_field subs ks ''content'' e)
      else veil_content subs ks
        (if jget e ''kind'' = JStr ''message'' then veil_field subs ks ''sections'' e else e))"

lemma seg_literals [simp]:
  "seg ''entries''" "seg ''status''" "seg ''content''" "seg ''details''" "seg ''sections''" "seg ''thinking''"
  "seg ''arguments''" "seg ''text''" "seg (nat_str n)"
  by (simp_all add: seg_def)

lemma withhold_pathstr:
  "list_all seg ks \<Longrightarrow> seg k \<Longrightarrow> withhold v (pathstr ks @ CHR ''/'' # k) subs =
     Some (\<not> nullish v \<and> \<not> covered subs (ks @ [k]))"
  using isSubscribedPath_pathstr[of "ks @ [k]" subs] by (simp add: withhold_def)

lemma sanitizeBlockValue_pathstr:
  assumes "list_all seg ks"
  shows "sanitizeBlockValue (pathstr ks) b subs = Some (veil_block subs ks b)"
  using withhold_pathstr[OF assms, of "''thinking''"] withhold_pathstr[OF assms, of "''arguments''"]
  by (simp add: sanitizeBlockValue_def veil_block_def veil_field_def)

lemma sanitizeBlocks_pathstr:
  "list_all seg ks \<Longrightarrow> sanitizeBlocks (pathstr ks) n bs subs =
     Some (map (\<lambda>(i, b). veil_block subs (ks @ [''content'', nat_str i]) b) (enumerate n bs))"
proof (induction bs arbitrary: n)
  case (Cons b bs)
  then show ?case
    using sanitizeBlockValue_pathstr[of "ks @ [''content'', nat_str n]" b subs] by simp
qed simp

lemma jset_same: "is_obj v \<Longrightarrow> jhas v k \<Longrightarrow> jset k (jget v k) v = v"
  by (cases v) (auto simp: AList_update_same split: option.splits)

lemma jhas_jget: "is_obj v \<Longrightarrow> jget v k \<noteq> JUndef \<Longrightarrow> jhas v k"
  by (cases v) (auto split: option.splits)

lemma jget_kind_jset [simp]:
  "k \<noteq> k' \<Longrightarrow> jget (jset k x v) k' = jget v k'"
  by (cases v) auto

lemma sanitizeEntryValue_pathstr:
  assumes "list_all seg ks" "is_obj e"
  shows "sanitizeEntryValue (pathstr ks) e subs = Some (veil subs ks e)"
proof -
  have same: "jset ''content'' (JArr bs) v = v" if "jget v ''content'' = JArr bs" "is_obj v" for v bs
    using jset_same[of v "''content''"] jhas_jget[of v "''content''"] that by simp
  show ?thesis
    using withhold_pathstr[OF assms(1), of "''content''"] withhold_pathstr[OF assms(1), of "''details''"]
      withhold_pathstr[OF assms(1), of "''sections''"] assms same
    by (auto simp: sanitizeEntryValue_def veil_def veil_field_def veil_content_def veil_blocks_def
        sanitizeBlocks_pathstr Let_def split: jsv.split)
qed

text \<open>What it means that a value shows no lazy field that is not subscribed.\<close>

definition hidden :: "string set \<Rightarrow> string list \<Rightarrow> string \<Rightarrow> jsv \<Rightarrow> bool" where
  "hidden subs ks k v \<longleftrightarrow> nullish (jget v k) \<or> covered subs (ks @ [k])"

definition block_hidden :: "string set \<Rightarrow> string list \<Rightarrow> jsv \<Rightarrow> bool" where
  "block_hidden subs ks b \<longleftrightarrow>
     (jget b ''type'' = JStr ''thinking'' \<longrightarrow> hidden subs ks ''thinking'' b) \<and>
     (jget b ''type'' = JStr ''toolCall'' \<longrightarrow> hidden subs ks ''arguments'' b)"

definition entry_hidden :: "string set \<Rightarrow> string list \<Rightarrow> jsv \<Rightarrow> bool" where
  "entry_hidden subs ks e \<longleftrightarrow>
     (if jget e ''kind'' = JStr ''tool_result''
      then hidden subs ks ''content'' e \<and> hidden subs ks ''details'' e
      else (jget e ''kind'' = JStr ''message'' \<longrightarrow> hidden subs ks ''sections'' e) \<and>
        (\<forall>i < length (arr_of (jget e ''content'')).
           block_hidden subs (ks @ [''content'', nat_str i]) (arr_of (jget e ''content'') ! i)))"

lemma is_obj_veil_field [simp]: "is_obj (veil_field subs ks k v) = is_obj v"
  by (simp add: veil_field_def)

lemma jget_veil_field: "is_obj v \<Longrightarrow> jget (veil_field subs ks k v) k' =
     (if k' = k \<and> \<not> nullish (jget v k) \<and> \<not> covered subs (ks @ [k]) then JNull else jget v k')"
  by (simp add: veil_field_def)

lemma jget_veil_field_other: "k' \<noteq> k \<Longrightarrow> jget (veil_field subs ks k v) k' = jget v k'"
  by (simp add: veil_field_def)

lemma hidden_veil_field: "is_obj v \<Longrightarrow> hidden subs ks k (veil_field subs ks k v)"
  by (simp add: hidden_def jget_veil_field)

lemma block_hidden_veil: "block_hidden subs ks (veil_block subs ks b)"
proof (cases "is_obj b")
  case True
  then show ?thesis
    by (simp add: block_hidden_def veil_block_def jget_veil_field_other hidden_veil_field)
next
  case False
  then have "jget b ''type'' = JUndef \<or> is_str (jget b ''type'') = False"
    by (cases b) (simp_all add: not_canon_nat is_digit_def)
  then show ?thesis using False
    by (cases b) (auto simp: block_hidden_def veil_block_def veil_field_def not_canon_nat is_digit_def)
qed

lemma is_obj_veil_content [simp]: "is_obj (veil_content subs ks e) = is_obj e"
  by (simp add: veil_content_def split: jsv.split)

lemma jget_veil_content_other: "k \<noteq> ''content'' \<Longrightarrow> jget (veil_content subs ks e) k = jget e k"
  by (simp add: veil_content_def split: jsv.split)

lemma entry_hidden_veil:
  assumes "is_obj e"
  shows "entry_hidden subs ks (veil subs ks e)"
proof (cases "jget e ''kind'' = JStr ''tool_result''")
  case True
  then show ?thesis using assms
    by (simp add: veil_def entry_hidden_def jget_veil_field_other hidden_def jget_veil_field)
next
  case False
  let ?f = "if jget e ''kind'' = JStr ''message'' then veil_field subs ks ''sections'' e else e"
  have f: "is_obj ?f" "jget ?f ''kind'' = jget e ''kind''" using assms by (simp_all add: jget_veil_field_other)
  have "block_hidden subs (ks @ [''content'', nat_str i])
      (arr_of (jget (veil_content subs ks ?f) ''content'') ! i)"
    if "i < length (arr_of (jget (veil_content subs ks ?f) ''content''))" for i
    using that f(1) by (cases "jget ?f ''content''")
      (auto simp: veil_content_def veil_blocks_def nth_enumerate_eq block_hidden_veil)
  moreover have "jget e ''kind'' = JStr ''message'' \<Longrightarrow> hidden subs ks ''sections'' (veil_content subs ks ?f)"
    using assms by (simp add: hidden_def jget_veil_content_other jget_veil_field)
  ultimately show ?thesis using False f(2)
    by (simp add: veil_def entry_hidden_def jget_veil_content_other)
qed

section \<open>Totality of the filter\<close>

definition seg_path :: "string \<Rightarrow> bool" where
  "seg_path p = (case segments p of [] \<Rightarrow> False | r # ks \<Rightarrow> r = [] \<and> list_all seg ks)"

lemma split_on_pathstr_inv: "split_on CHR ''/'' p = r # ks \<Longrightarrow> p = r @ pathstr ks"
proof (induction p arbitrary: r ks)
  case (Cons c p)
  note IH = Cons.IH and prems = Cons.prems
  show ?case
  proof (cases "split_on CHR ''/'' p")
    case (Cons q qs)
    with IH[OF Cons] prems show ?thesis by (cases "c = CHR ''/''") auto
  qed (use split_on_not_Nil in blast)
qed auto

lemma seg_pathE:
  assumes "seg_path p"
  obtains ks where "p = pathstr ks" "list_all seg ks"
  using assms split_on_pathstr_inv by (fastforce simp: seg_path_def segments_def split: list.splits)

lemma sanitizeOpValue_returns:
  assumes "list_all seg ks" "is_obj v \<or> is_arr v"
  shows "\<exists>w. sanitizeOpValue (pathstr ks) v subs = Some w"
proof (cases "is_obj v")
  case True
  then show ?thesis using assms(1)
    by (simp add: sanitizeOpValue_def sanitizeEntryValue_pathstr sanitizeBlockValue_pathstr)
next
  case False
  then have v: "jget v ''kind'' = JUndef" "jget v ''content'' = JUndef"
    using assms(2) by (cases v; simp add: not_canon_nat is_digit_def)+
  show ?thesis using assms(1)
    by (simp add: sanitizeOpValue_def sanitizeEntryValue_def sanitizeBlockValue_pathstr v)
qed

lemma sanitizeOp_returns:
  "list_all seg ks \<Longrightarrow> op_source_path op = pathstr ks \<Longrightarrow> \<exists>x. sanitizeOp op subs = Some x"
  using sanitizeOpValue_returns by (cases op) (auto dest: sanitizeOpValue_returns)

lemma sanitizeOp_path: "sanitizeOp op subs = Some x \<Longrightarrow> op_source_path x = op_source_path op"
  by (cases op) (auto split: if_splits)

definition withheld :: "PatchOp \<Rightarrow> string list \<Rightarrow> bool" where
  "withheld op ks \<longleftrightarrow> is_lazy_append op \<or> isLazyFieldPath (pathstr ks) = Some True"

lemma filterOp_pathstr:
  assumes "list_all seg ks" "op_source_path op = pathstr ks"
  shows "filterOp op subs =
    (if withheld op ks then Some (if covered subs ks then Some op else None)
     else map_option Some (sanitizeOp op subs))"
  using isLazyFieldPath_returns[OF assms(1)] assms
  by (auto simp: filterOp_def withheld_def isSubscribedPath_pathstr Let_def)

lemma filterOp_returns:
  "list_all seg ks \<Longrightarrow> op_source_path op = pathstr ks \<Longrightarrow> \<exists>r. filterOp op subs = Some r"
  using sanitizeOp_returns[of ks op subs] by (auto simp: filterOp_pathstr)

lemma filterOp_path: "filterOp op subs = Some (Some x) \<Longrightarrow> op_source_path x = op_source_path op"
  by (auto simp: filterOp_def Let_def bind_eq_Some_conv sanitizeOp_path split: if_splits)

section \<open>The filter as a list of single filters\<close>

lemma filterPatchForSocket_mem:
  "filterPatchForSocket ops subs = Some out \<Longrightarrow> x \<in> set out \<Longrightarrow> \<exists>op \<in> set ops. filterOp op subs = Some (Some x)"
proof (induction ops arbitrary: out)
  case (Cons op ops)
  then obtain r rs where "filterOp op subs = Some r" "filterPatchForSocket ops subs = Some rs"
      "out = (case r of None \<Rightarrow> rs | Some x \<Rightarrow> x # rs)"
    by (auto simp: bind_eq_Some_conv)
  with Cons show ?case by (cases r) auto
qed simp

text \<open>What passes was sanitized, or is covered.\<close>

lemma is_obj_veil: "is_obj (veil subs ks e) = is_obj e"
  by (simp add: veil_def)

lemma segments_seg: "list_all seg ks \<Longrightarrow> segments (pathstr ks) = [] # ks"
proof (induction ks rule: rev_induct)
  case (snoc k ks)
  then show ?case by (simp add: segments_def seg_def split_on_append_sep)
qed (simp add: segments_def)

lemma ENTRY_ROOT_RE_pathstr [simp]: "seg i \<Longrightarrow> ENTRY_ROOT_RE (pathstr [''entries'', i])"
  using segments_seg[of "[''entries'', i]"] by (simp add: ENTRY_ROOT_RE_def seg_def)

lemma not_ENTRY_ROOT_RE [simp]:
  "list_all seg ks \<Longrightarrow> length ks \<noteq> 2 \<Longrightarrow> \<not> ENTRY_ROOT_RE (pathstr ks)"
  by (auto simp: ENTRY_ROOT_RE_def segments_seg split: list.split)

lemma CONTENT_BLOCK_RE_pathstr [simp]:
  "seg i \<Longrightarrow> CONTENT_BLOCK_RE (pathstr [''entries'', i, ''content'', nat_str n])"
  using segments_seg[of "[''entries'', i, ''content'', nat_str n]"]
  by (simp add: CONTENT_BLOCK_RE_def digits1_def nat_str_digits seg_def)

text \<open>The lazy patterns on key lists.\<close>

fun lazy_object_keys :: "string list \<Rightarrow> bool" where
  "lazy_object_keys [es, i, f] = (es = ''entries'' \<and> (f = ''details'' \<or> f = ''sections''))"
| "lazy_object_keys [es, i, c, n, f] = (es = ''entries'' \<and> c = ''content'' \<and> digits1 n \<and> f = ''arguments'')"
| "lazy_object_keys _ = False"

fun lazy_field_keys :: "string list \<Rightarrow> bool" where
  "lazy_field_keys [es, i, f] = (es = ''entries'' \<and> (f = ''content'' \<or> f = ''details'' \<or> f = ''sections''))"
| "lazy_field_keys [es, i, c, n, f] =
     (es = ''entries'' \<and> c = ''content'' \<and> digits1 n \<and> (f = ''thinking'' \<or> f = ''arguments''))"
| "lazy_field_keys _ = False"

lemma lazy_object_pathstr: "list_all seg ks \<Longrightarrow> lazy_object_pattern (pathstr ks) = lazy_object_keys ks"
  by (auto simp: lazy_object_pattern_def segments_seg seg_def split: list.split)

lemma lazy_field_pathstr: "list_all seg ks \<Longrightarrow> lazy_field_pattern (pathstr ks) = lazy_field_keys ks"
  by (auto simp: lazy_field_pattern_def segments_seg seg_def split: list.split)

lemma list_all_take: "list_all P xs \<Longrightarrow> list_all P (take i xs)"
  by (auto simp: list_all_iff dest: in_set_takeD)

lemma isLazyFieldPath_pathstr:
  "list_all seg ks \<Longrightarrow> isLazyFieldPath (pathstr ks) =
     Some (lazy_field_keys ks \<or> list_ex (\<lambda>i. lazy_object_keys (take i ks)) [0 ..< length ks])"
  by (auto simp: isLazyFieldPath_def climb_pathstr lazy_field_pathstr lazy_object_pathstr list_all_take
      list_ex_iff)

lemma eager_paths:
  "seg i \<Longrightarrow> isLazyFieldPath (pathstr [''entries'', i]) = Some False"
  "seg i \<Longrightarrow> isLazyFieldPath (pathstr [''entries'', i, ''content'', nat_str n]) = Some False"
  using isLazyFieldPath_pathstr[of "[''entries'', i]"] isLazyFieldPath_pathstr[of "[''entries'', i, ''content'', nat_str n]"]
  by (simp_all add: upt_rec numeral_2_eq_2)

lemma passed_value:
  assumes "sanitizeOp op subs = Some x" "op_source_path x = pathstr ks"
    and "x = AddOp (pathstr ks) v \<or> x = ReplaceOp (pathstr ks) v" "is_obj v"
  obtains u where "is_obj u \<or> is_arr u" "sanitizeOpValue (pathstr ks) u subs = Some v"
  using assms by (cases op) (auto split: if_splits)

lemma sanitized_value:
  assumes "filterOp op subs = Some (Some x)" "op_source_path x = pathstr ks" "list_all seg ks"
    and "isLazyFieldPath (pathstr ks) = Some False"
    and "x = AddOp (pathstr ks) v \<or> x = ReplaceOp (pathstr ks) v" "is_obj v"
  obtains u where "is_obj u \<or> is_arr u" "sanitizeOpValue (pathstr ks) u subs = Some v"
proof -
  have path: "op_source_path op = pathstr ks" using filterOp_path[OF assms(1)] assms(2) by simp
  note f = assms(1)[unfolded filterOp_pathstr[OF assms(3) path]]
  have "\<not> withheld op ks"
    using f assms(4,5) by (cases op) (auto simp: withheld_def split: if_splits)
  with f have "sanitizeOp op subs = Some x" by auto
  then show thesis using that assms by (elim passed_value)
qed

lemma obj_not_arr: "is_obj v \<Longrightarrow> is_arr v \<Longrightarrow> P"
  by (cases v) auto

lemma sanitizeEntryValue_arr: "is_arr v \<Longrightarrow> sanitizeEntryValue p v subs = Some v"
  by (cases v) (simp_all add: sanitizeEntryValue_def not_canon_nat is_digit_def)

text \<open>Lazy fields that are present are not \<^verbatim>\<open>undefined\<close>.\<close>

definition lazy_defined :: "jsv \<Rightarrow> bool" where
  "lazy_defined e \<longleftrightarrow> (jhas e ''content'' \<longrightarrow> jget e ''content'' \<noteq> JUndef) \<and>
     (jhas e ''details'' \<longrightarrow> jget e ''details'' \<noteq> JUndef) \<and>
     list_all (\<lambda>b. (jhas b ''thinking'' \<longrightarrow> jget b ''thinking'' \<noteq> JUndef) \<and>
                   (jhas b ''arguments'' \<longrightarrow> jget b ''arguments'' \<noteq> JUndef)) (arr_of (jget e ''content''))"

lemma jset_null_present:
  "is_obj v \<Longrightarrow> jhas v k \<Longrightarrow> jget v k \<noteq> JUndef \<Longrightarrow> veil_field {} ks k v = jset k JNull v"
  using jset_same[of v k] by (auto simp: veil_field_def nullish_def)

lemma veil_field_absent: "\<not> jhas v k \<Longrightarrow> veil_field subs ks k v = v"
  by (cases v) (auto simp: veil_field_def)

lemma veil_block_non_obj: "\<not> is_obj b \<Longrightarrow> veil_block subs ks b = b"
  by (cases b) (simp_all add: veil_block_def veil_field_def)

lemma jhas_non_obj: "\<not> is_obj v \<Longrightarrow> \<not> jhas v k"
  by (cases v) auto

lemma strip_block_veil:
  "(jhas b ''thinking'' \<longrightarrow> jget b ''thinking'' \<noteq> JUndef) \<Longrightarrow> (jhas b ''arguments'' \<longrightarrow> jget b ''arguments'' \<noteq> JUndef) \<Longrightarrow>
   strip_block b = veil_block {} ks b"
  using jset_null_present[of b "''thinking''"] jset_null_present[of b "''arguments''"]
  by (cases "is_obj b") (auto simp: strip_block_def veil_block_def veil_field_absent jhas_non_obj Let_def)

lemma strip_blocks_veil:
  "list_all (\<lambda>b. (jhas b ''thinking'' \<longrightarrow> jget b ''thinking'' \<noteq> JUndef) \<and>
                 (jhas b ''arguments'' \<longrightarrow> jget b ''arguments'' \<noteq> JUndef)) bs \<Longrightarrow>
   map strip_block bs = veil_blocks {} ks bs"
  by (rule nth_equalityI) (simp_all add: veil_blocks_def nth_enumerate_eq list_all_length strip_block_veil)

lemma stripLazyFields_veil:
  assumes "is_obj e" "lazy_defined e"
  shows "stripLazyFields e = veil {} ks e"
proof (cases "jget e ''kind'' = JStr ''tool_result''")
  case True
  then show ?thesis using assms jset_null_present[of e "''content''"]
      jset_null_present[of "jset ''content'' JNull e" "''details''"] jset_null_present[of e "''details''"]
    by (auto simp: stripLazyFields_def veil_def lazy_defined_def veil_field_absent Let_def)
next
  case False
  then show ?thesis using assms strip_blocks_veil[of "arr_of (jget e ''content'')" ks]
    by (auto simp: stripLazyFields_def veil_def veil_content_def veil_field_def lazy_defined_def Let_def
        jget_absent split: jsv.split)
qed

section \<open>Properties\<close>

text \<open>
  \<^bold>\<open>Lemma.\<close>  The patch filter returns on every patch whose paths have no empty segment.
\<close>

theorem filterPatchForSocket_returns:
  "list_all (\<lambda>op. seg_path (op_source_path op)) ops \<Longrightarrow> \<exists>out. filterPatchForSocket ops subs = Some out"
proof (induction ops)
  case (Cons op ops)
  then have "\<exists>out. filterPatchForSocket ops subs = Some out" and "seg_path (op_source_path op)" by simp_all
  moreover from this(2) obtain r where "filterOp op subs = Some r"
    using filterOp_returns[of _ op subs] by (auto elim!: seg_pathE)
  ultimately show ?case by auto
qed simp

theorem filterPatchForSocket_returns_witness:
  "\<exists>out. filterPatchForSocket [RemoveOp ''/entries/e1'', ReplaceOp ''/status/name'' (JStr ''n'')] {} = Some out"
  by (rule filterPatchForSocket_returns) (simp add: seg_path_def segments_def seg_def)

text \<open>
  \<^bold>\<open>Lemma.\<close>  On a path that ends in a slash the lazy test never returns.  Such a path is built by the
  argument diff itself, for a property whose key is the empty string.
\<close>

theorem isLazyFieldPath_trailing_slash:
  "isLazyFieldPath (p @ ''/'') = None"
proof -
  have seg_end: "segments (p @ ''/'') = segments p @ [[]]" by (simp add: segments_def split_on_append_sep)
  have "\<not> lazy_field_pattern (p @ ''/'')" "\<not> lazy_object_pattern (p @ ''/'')"
    by (auto simp: lazy_field_pattern_def lazy_object_pattern_def seg_end append_eq_Cons_conv
        split: list.split)
  then show ?thesis by (simp add: isLazyFieldPath_def climb_stuck parent_path_trailing)
qed



text \<open>
  \<^bold>\<open>Lemma.\<close>  The snapshot and the stream agree: what \<^verbatim>\<open>stripLazyFields\<close> leaves of an entry is what the
  filter sends of it to a client without subscriptions.  The lazy fields must not be present with
  the value \<^verbatim>\<open>undefined\<close>.
\<close>

theorem stripLazyFields_is_filter:
  assumes "seg i" "is_obj e" "lazy_defined e"
  shows "filterPatchForSocket [AddOp (pathstr [''entries'', i]) e] {} =
     Some [AddOp (pathstr [''entries'', i]) (stripLazyFields e)]"
proof -
  let ?ks = "[''entries'', i]"
  have ks: "list_all seg ?ks" using assms(1) by simp
  have "sanitizeOp (AddOp (pathstr ?ks) e) {} = Some (AddOp (pathstr ?ks) (stripLazyFields e))"
    using assms ks ENTRY_ROOT_RE_pathstr[OF assms(1)] sanitizeEntryValue_pathstr[OF ks assms(2), of "{}"]
    by (simp add: sanitizeOpValue_def stripLazyFields_veil[of e ?ks] del: pathstr_simps)
  moreover have "\<not> withheld (AddOp (pathstr ?ks) e) ?ks"
    using eager_paths(1)[OF assms(1)] by (simp add: withheld_def del: pathstr_simps)
  ultimately show ?thesis using filterOp_pathstr[OF ks, of "AddOp (pathstr ?ks) e" "{}"]
    by (simp del: pathstr_simps)
qed

theorem stripLazyFields_is_filter_witness:
  "filterPatchForSocket [AddOp (pathstr [''entries'', ''e'']) (JObj [(''kind'', JStr ''message''), (''content'', JArr [])])] {} =
     Some [AddOp (pathstr [''entries'', ''e'']) (stripLazyFields (JObj [(''kind'', JStr ''message''), (''content'', JArr [])]))]"
  by (rule stripLazyFields_is_filter) (simp_all add: seg_def lazy_defined_def)

end
