(* ===== verification/Sync.thy ===== *)
theory Sync
  imports Lazy Status Events
begin

text \<open>
  Initial sync, \<^verbatim>\<open>packages/bridge/src/core/sync.ts\<close>: the cursor check, the committed and provisional
  projections and the one frame a connecting client gets.  The main lemma compares the two forms of
  that frame: applied to a mirror that holds the committed prefix the cursor claims, the delta patch
  gives exactly the document the full replace would have sent.
\<close>

section \<open>Definitions\<close>

definition is_integer :: "rat \<Rightarrow> bool" where
  "is_integer r \<longleftrightarrow> of_int \<lfloor>r\<rfloor> = r"

definition validateCursor :: "jsv list \<Rightarrow> PrefixCursor \<Rightarrow> string \<Rightarrow> bool" where
  "validateCursor piEntries cursor sid =
     (if cursor_sessionId cursor \<noteq> sid then False
      else if \<not> is_integer (entryCount cursor) \<or> entryCount cursor \<le> 0 then False
      else if of_nat (length piEntries) < entryCount cursor then False
      else jget (piEntries ! nat (\<lfloor>entryCount cursor\<rfloor> - 1)) ''id'' = JStr (lastKnownId cursor))"

record CommittedProjection =
  cp_id :: string
  cp_ord :: nat
  cp_value :: jsv

definition committedBase :: "jsv \<Rightarrow> nat \<Rightarrow> jsv \<Rightarrow> jsv" where
  "committedBase doc i piEntry =
     (let existing = jget (doc_entries doc) (entry_id piEntry)
      in if existing \<noteq> JUndef \<and> isEntrySealed existing then existing else projectEntry piEntry (of_nat i))"

definition collectCommitted :: "jsv \<Rightarrow> jsv list \<Rightarrow> CommittedProjection list" where
  "collectCommitted doc piEntries =
     map (\<lambda>(i, e). \<lparr>cp_id = entry_id e, cp_ord = i, cp_value = stripLazyFields (committedBase doc i e)\<rparr>)
       (enumerate 0 piEntries)"

definition collectProvisional :: "jsv \<Rightarrow> props" where
  "collectProvisional doc =
     map (\<lambda>(k, e). (k, stripLazyFields e)) (filter (\<lambda>(k, e). \<not> isEntrySealed e) (js_entries (doc_entries doc)))"

text \<open>\<^verbatim>\<open>entries[id] ??= value\<close>.\<close>

definition assign_if_nullish :: "string \<Rightarrow> jsv \<Rightarrow> props \<Rightarrow> props" where
  "assign_if_nullish k v es = (if nullish (jget (JObj es) k) then AList.update k v es else es)"

definition replaceEntries :: "jsv \<Rightarrow> jsv list \<Rightarrow> props" where
  "replaceEntries doc piEntries =
     foldl (\<lambda>es (k, v). assign_if_nullish k v es)
       (foldl (\<lambda>es c. AList.update (cp_id c) (cp_value c) es) [] (collectCommitted doc piEntries))
       (collectProvisional doc)"

definition deltaOps :: "jsv \<Rightarrow> jsv list \<Rightarrow> rat \<Rightarrow> PatchOp list" where
  "deltaOps doc piEntries count =
     (let committed = collectCommitted doc piEntries
      in map (\<lambda>c. AddOp (entry_path (cp_id c)) (cp_value c)) (filter (\<lambda>c. count \<le> of_nat (cp_ord c)) committed) @
         map (\<lambda>(k, v). AddOp (entry_path k) v)
           (filter (\<lambda>(k, v). k \<notin> cp_id ` set committed) (collectProvisional doc)) @
         [ReplaceOp ''/status'' (doc_status doc)])"

definition buildInitialSync :: "jsv \<Rightarrow> jsv list \<Rightarrow> SessionRef \<Rightarrow> PrefixCursor option \<Rightarrow> InitialSyncFrame" where
  "buildInitialSync doc piEntries session cursor =
     (case cursor of
        Some c \<Rightarrow> if validateCursor piEntries c (sessionId session)
                  then PatchFrame session (deltaOps doc piEntries (entryCount c))
                  else ReplaceFrame session (mk_doc (doc_status doc) (replaceEntries doc piEntries))
      | None \<Rightarrow> ReplaceFrame session (mk_doc (doc_status doc) (replaceEntries doc piEntries)))"

section \<open>The committed prefix\<close>

definition committed_props :: "jsv \<Rightarrow> jsv list \<Rightarrow> props" where
  "committed_props doc piEntries = map (\<lambda>c. (cp_id c, cp_value c)) (collectCommitted doc piEntries)"

lemma length_collectCommitted [simp]: "length (collectCommitted doc es) = length es"
  by (simp add: collectCommitted_def)

lemma nth_collectCommitted:
  "i < length es \<Longrightarrow> collectCommitted doc es ! i =
     \<lparr>cp_id = entry_id (es ! i), cp_ord = i, cp_value = stripLazyFields (committedBase doc i (es ! i))\<rparr>"
  by (simp add: collectCommitted_def nth_enumerate_eq)

lemma map_fst_committed: "map fst (committed_props doc es) = map entry_id es"
  by (rule nth_equalityI) (simp_all add: committed_props_def nth_collectCommitted)

lemma cp_ids: "cp_id ` set (collectCommitted doc es) = entry_id ` set es"
proof -
  have "cp_id ` set (collectCommitted doc es) = set (map fst (committed_props doc es))"
    by (simp add: committed_props_def image_image)
  then show ?thesis by (simp add: map_fst_committed)
qed

lemma filter_enumerate_from:
  "filter (\<lambda>p. n \<le> fst p) (enumerate m xs) = drop (n - m) (enumerate m xs)"
proof (induction xs arbitrary: m)
  case (Cons x xs)
  show ?case
  proof (cases "n \<le> m")
    case True
    then have "filter (\<lambda>p. n \<le> fst p) (enumerate (Suc m) xs) = enumerate (Suc m) xs"
      using Cons.IH[of "Suc m"] by simp
    with True show ?thesis by simp
  next
    case False
    then have "n - m = Suc (n - Suc m)" by simp
    with False Cons.IH[of "Suc m"] show ?thesis by simp
  qed
qed simp

lemma committed_suffix:
  "filter (\<lambda>c. n \<le> cp_ord c) (collectCommitted doc es) = drop n (collectCommitted doc es)"
  using filter_enumerate_from[of n 0 es]
  by (simp add: collectCommitted_def filter_map comp_def case_prod_beta drop_map)

lemma fold_update_distinct:
  "distinct (map fst es @ map cp_id cs) \<Longrightarrow>
   foldl (\<lambda>es c. AList.update (cp_id c) (cp_value c) es) es cs = es @ map (\<lambda>c. (cp_id c, cp_value c)) cs"
  by (induction cs arbitrary: es) (simp_all add: AList_update_new)

lemma map_cp_id: "map cp_id (collectCommitted doc es) = map entry_id es"
  using map_fst_committed[of doc es] by (simp add: committed_props_def comp_def)

lemma distinct_provisional:
  "distinct (map fst (props_of (doc_entries doc))) \<Longrightarrow> distinct (map fst (collectProvisional doc))"
  by (simp add: collectProvisional_def js_entries_def comp_def case_prod_beta distinct_map_filter distinct_own_entries)

lemma is_obj_stripLazyFields [simp]: "is_obj (stripLazyFields e) = is_obj e"
  by (auto simp: stripLazyFields_def Let_def split: jsv.split)

lemma not_nullish_obj: "is_obj v \<Longrightarrow> \<not> nullish v"
  by (cases v) auto

text \<open>The provisional loop of the replace form adds exactly the ids that are not committed.\<close>

lemma provisional_replace:
  "distinct (map fst ps) \<Longrightarrow> (\<And>k v. (k, v) \<in> set es \<Longrightarrow> is_obj v) \<Longrightarrow> (\<And>k v. (k, v) \<in> set ps \<Longrightarrow> is_obj v) \<Longrightarrow>
   foldl (\<lambda>es (k, v). assign_if_nullish k v es) es ps = es @ filter (\<lambda>(k, v). k \<notin> fst ` set es) ps"
proof (induction ps arbitrary: es)
  case (Cons p ps)
  obtain k v where p: "p = (k, v)" by (cases p)
  show ?case
  proof (cases "k \<in> fst ` set es")
    case True
    then obtain w where w: "map_of es k = Some w" by (metis map_of_eq_None_iff not_None_eq)
    then have "\<not> nullish w" using Cons.prems(2)[OF map_of_SomeD[OF w]] by (rule_tac not_nullish_obj)
    with w have a: "assign_if_nullish k v es = es" by (simp add: assign_if_nullish_def)
    have "foldl (\<lambda>es (k, v). assign_if_nullish k v es) es ps = es @ filter (\<lambda>(k, v). k \<notin> fst ` set es) ps"
      using Cons.prems by (intro Cons.IH) auto
    with a True p show ?thesis by simp
  next
    case False
    then have "map_of es k = None" by (simp add: map_of_eq_None_iff)
    then have a: "assign_if_nullish k v es = es @ [(k, v)]"
      using False by (simp add: assign_if_nullish_def AList_update_new)
    have "filter (\<lambda>(j, v). j \<notin> fst ` set (es @ [(k, v)])) ps = filter (\<lambda>(j, v). j \<notin> fst ` set es) ps"
      using Cons.prems(1) p by (intro filter_cong) force+
    moreover have "foldl (\<lambda>es (k, v). assign_if_nullish k v es) (es @ [(k, v)]) ps =
        (es @ [(k, v)]) @ filter (\<lambda>(j, w). j \<notin> fst ` set (es @ [(k, v)])) ps"
      using Cons.prems p by (intro Cons.IH) auto
    ultimately show ?thesis using a False p by simp
  qed
qed simp

text \<open>A run of adds of new entries appends them to the mirror's entries.\<close>

lemma applyOp_add_entry:
  "plain_key k \<Longrightarrow> applyOp (mk_doc st es) (AddOp (entry_path k) v) = mk_doc st (AList.update k v es)"
  using applyOp_pathstr(1)[of "[''entries'', k]" "mk_doc st es" v]
      set_mk_doc(1)[of st es k "[]" v]
  by (simp add: entry_path_pathstr plain_key_def del: pathstr_simps) (simp add: setKeys_def)

lemma applyOps_add_entries:
  "list_all plain_key (map fst ps) \<Longrightarrow> distinct (map fst es @ map fst ps) \<Longrightarrow>
   applyOps (mk_doc st es) (map (\<lambda>(k, v). AddOp (entry_path k) v) ps) = mk_doc st (es @ ps)"
  by (induction ps arbitrary: es) (auto simp: applyOp_add_entry AList_update_new)

lemma applyOp_status: "applyOp (mk_doc st es) (ReplaceOp ''/status'' v) = mk_doc v es"
  using applyOp_pathstr(2)[of "[''status'']" "mk_doc st es" v] by (simp add: plain_key_def setKeys_def mk_doc_def)

text \<open>The provisional entries that travel, and the entries of the replace form in closed form.\<close>

definition in_flight :: "jsv \<Rightarrow> jsv list \<Rightarrow> props" where
  "in_flight doc piEntries = filter (\<lambda>(k, v). k \<notin> entry_id ` set piEntries) (collectProvisional doc)"

text \<open>What the sync relies on: ids usable in paths, no id twice, entries that are objects.\<close>

definition syncable :: "jsv \<Rightarrow> jsv list \<Rightarrow> bool" where
  "syncable doc piEntries \<longleftrightarrow> distinct (map entry_id piEntries) \<and> list_all (\<lambda>e. plain_key (entry_id e)) piEntries \<and>
     is_obj (doc_entries doc) \<and> distinct (map fst (props_of (doc_entries doc))) \<and>
     list_all (\<lambda>(k, e). plain_key k \<and> is_obj e) (props_of (doc_entries doc))"

lemma is_obj_projectEntry: "is_obj (projectEntry e n)"
  by (simp add: projectEntry_seal)

lemma is_obj_committed:
  assumes "syncable doc es" "(k, v) \<in> set (committed_props doc es)"
  shows "is_obj v"
proof -
  obtain i where i: "i < length es" "v = stripLazyFields (committedBase doc i (es ! i))"
    using assms(2) by (auto simp: committed_props_def collectCommitted_def in_set_enumerate_eq)
  have "jget (doc_entries doc) k = JUndef \<or> is_obj (jget (doc_entries doc) k)" for k
    using assms(1) by (cases "doc_entries doc")
      (auto simp: syncable_def list_all_iff split: option.split dest!: map_of_SomeD)
  then show ?thesis using i(2) by (auto simp: committedBase_def Let_def is_obj_projectEntry)
qed

lemma is_obj_provisional:
  "syncable doc es \<Longrightarrow> (k, v) \<in> set (collectProvisional doc) \<Longrightarrow> is_obj v \<and> plain_key k"
  by (auto simp: collectProvisional_def js_entries_def syncable_def list_all_iff)

lemma replaceEntries_closed:
  assumes "syncable doc es"
  shows "replaceEntries doc es = committed_props doc es @ in_flight doc es"
proof -
  have "foldl (\<lambda>es c. AList.update (cp_id c) (cp_value c) es) [] (collectCommitted doc es) = committed_props doc es"
    using assms by (subst fold_update_distinct) (simp_all add: map_cp_id syncable_def committed_props_def)
  moreover have "foldl (\<lambda>es (k, v). assign_if_nullish k v es) (committed_props doc es) (collectProvisional doc) =
      committed_props doc es @ filter (\<lambda>(k, v). k \<notin> fst ` set (committed_props doc es)) (collectProvisional doc)"
    using assms is_obj_committed[OF assms] is_obj_provisional[OF assms]
    by (intro provisional_replace) (auto simp: syncable_def intro: distinct_provisional)
  moreover have "fst ` set (committed_props doc es) = entry_id ` set es"
    using map_fst_committed[of doc es] by (metis list.set_map)
  ultimately show ?thesis by (simp add: replaceEntries_def in_flight_def)
qed

lemma deltaOps_closed:
  "deltaOps doc es (of_nat n) =
     map (\<lambda>(k, v). AddOp (entry_path k) v) (drop n (committed_props doc es) @ in_flight doc es) @
     [ReplaceOp ''/status'' (doc_status doc)]"
  by (simp add: deltaOps_def committed_suffix committed_props_def in_flight_def cp_ids drop_map comp_def)

lemma delta_is_replace:
  assumes "syncable doc es"
  shows "applyOps (mk_doc st (take n (committed_props doc es))) (deltaOps doc es (of_nat n)) =
     mk_doc (doc_status doc) (replaceEntries doc es)"
proof -
  let ?c = "committed_props doc es" and ?p = "in_flight doc es"
  have keys: "map fst ?c = map entry_id es" by (rule map_fst_committed)
  have "distinct (map fst ?p)"
    using assms distinct_provisional by (auto simp: in_flight_def syncable_def intro: distinct_map_filter)
  moreover have "set (map fst ?c) \<inter> set (map fst ?p) = {}" unfolding keys by (auto simp: in_flight_def)
  ultimately have "distinct (map fst ?c @ map fst ?p)" using assms unfolding keys by (simp add: syncable_def)
  then have "distinct (map fst (take n ?c) @ map fst (drop n ?c @ ?p))"
    by (simp flip: append_assoc map_append)
  moreover have "list_all plain_key (map fst (drop n ?c @ ?p))"
  proof -
    have "list_all plain_key (map fst ?c)" using assms unfolding keys by (simp add: syncable_def list_all_iff)
    then have "list_all plain_key (map fst (drop n ?c))" by (simp add: list_all_iff) (meson in_set_dropD)
    moreover have "list_all plain_key (map fst ?p)"
      using is_obj_provisional[OF assms] by (auto simp: in_flight_def list_all_iff)
    ultimately show ?thesis by simp
  qed
  ultimately have "applyOps (mk_doc st (take n ?c)) (map (\<lambda>(k, v). AddOp (entry_path k) v) (drop n ?c @ ?p)) =
      mk_doc st (take n ?c @ drop n ?c @ ?p)"
    by (intro applyOps_add_entries)
  then show ?thesis using applyOp_status
    by (simp add: deltaOps_closed replaceEntries_closed[OF assms])
qed

section \<open>Cursors\<close>

lemma validateCursor_nat:
  assumes "validateCursor es c sid"
  obtains n where "0 < n" "n \<le> length es" "entryCount c = of_nat n" "jget (es ! (n - 1)) ''id'' = JStr (lastKnownId c)"
    "cursor_sessionId c = sid"
proof
  let ?n = "nat \<lfloor>entryCount c\<rfloor>"
  from assms have int: "of_int \<lfloor>entryCount c\<rfloor> = entryCount c" and pos: "0 < entryCount c"
    and le: "entryCount c \<le> of_nat (length es)"
    and i: "jget (es ! nat (\<lfloor>entryCount c\<rfloor> - 1)) ''id'' = JStr (lastKnownId c)" "cursor_sessionId c = sid"
    by (auto simp: validateCursor_def is_integer_def split: if_splits)
  have fl: "0 < \<lfloor>entryCount c\<rfloor>" using int pos by (metis of_int_0_less_iff)
  then show "0 < ?n" by simp
  show n: "entryCount c = of_nat ?n" using int fl by (metis less_imp_le of_int_of_nat_eq int_nat_eq)
  show "?n \<le> length es" using le n by (metis of_nat_le_iff)
  show "jget (es ! (?n - 1)) ''id'' = JStr (lastKnownId c)"
    using i(1) fl by (simp add: nat_diff_distrib)
  show "cursor_sessionId c = sid" by (rule i(2))
qed

lemma validateCursor_intro:
  assumes "0 < n" "n \<le> length es" "entryCount c = of_nat n" "jget (es ! (n - 1)) ''id'' = JStr (lastKnownId c)"
    "cursor_sessionId c = sid"
  shows "validateCursor es c sid"
proof -
  have "nat (int n - 1) = n - 1" using assms(1) by simp
  then show ?thesis using assms by (auto simp: validateCursor_def is_integer_def)
qed

section \<open>Properties\<close>

text \<open>
  \<^bold>\<open>Property C7.\<close>  The delta is exact: on a mirror that holds the committed prefix a valid cursor claims,
  whatever its status, applying the patch frame gives the very document that the replace frame
  carries for a client without a cursor.
\<close>

theorem buildInitialSync_delta_exact:
  assumes "syncable doc es" "validateCursor es c (sessionId session)"
  shows "\<exists>n ops. entryCount c = of_nat n \<and> buildInitialSync doc es session (Some c) = PatchFrame session ops \<and>
     buildInitialSync doc es session None =
       ReplaceFrame session (applyOps (mk_doc st (take n (committed_props doc es))) ops)"
proof -
  obtain n where "entryCount c = of_nat n" using validateCursor_nat[OF assms(2)] by metis
  then show ?thesis using assms delta_is_replace[OF assms(1), of st n]
    by (intro exI[of _ n]) (simp add: buildInitialSync_def)
qed

theorem buildInitialSync_delta_exact_witness:
  "\<exists>n ops. 1 = (of_nat n :: rat) \<and>
     buildInitialSync (mk_doc JNull []) [JObj [(''id'', JStr ''a''), (''type'', JStr ''label'')]]
       \<lparr>projectId = ''p'', sessionId = ''s'', stem = ''x''\<rparr>
       (Some \<lparr>cursor_sessionId = ''s'', lastKnownId = ''a'', entryCount = 1\<rparr>) =
     PatchFrame \<lparr>projectId = ''p'', sessionId = ''s'', stem = ''x''\<rparr> ops"
proof -
  let ?es = "[JObj [(''id'', JStr ''a''), (''type'', JStr ''label'')]]"
  have "syncable (mk_doc JNull []) ?es" by (simp add: syncable_def entry_id_def plain_key_def)
  moreover have "validateCursor ?es \<lparr>cursor_sessionId = ''s'', lastKnownId = ''a'', entryCount = 1\<rparr>
      (sessionId \<lparr>projectId = ''p'', sessionId = ''s'', stem = ''x''\<rparr>)"
    by (simp add: validateCursor_def is_integer_def)
  ultimately show ?thesis using buildInitialSync_delta_exact by fastforce
qed

text \<open>
  \<^bold>\<open>Lemma.\<close>  The cursor check accepts exactly the cursors of a prefix of this session: a whole count
  between one and the number of stored entries whose last entry has the id the cursor names.  In
  every other case the client gets the full replace.
\<close>

theorem validateCursor_iff:
  "(validateCursor es c sid \<longleftrightarrow> cursor_sessionId c = sid \<and>
     (\<exists>n. 0 < n \<and> n \<le> length es \<and> entryCount c = of_nat n \<and> jget (es ! (n - 1)) ''id'' = JStr (lastKnownId c))) \<and>
   buildInitialSync doc es session (Some c) =
     (if validateCursor es c (sessionId session) then PatchFrame session (deltaOps doc es (entryCount c))
      else buildInitialSync doc es session None)"
proof -
  have "validateCursor es c sid \<Longrightarrow> cursor_sessionId c = sid \<and>
     (\<exists>n. 0 < n \<and> n \<le> length es \<and> entryCount c = of_nat n \<and> jget (es ! (n - 1)) ''id'' = JStr (lastKnownId c))"
    using validateCursor_nat[of es c sid] by metis
  then show ?thesis using validateCursor_intro[of _ es c sid] by (auto simp: buildInitialSync_def)
qed

end
