(* ===== verification/Projection.thy ===== *)
theory Projection
  imports Sync
begin

text \<open>
  The entry projection, \<^verbatim>\<open>packages/bridge/src/core/projection.ts\<close>: the state machine that merges live
  events with pi's persisted entries into one document.  The closure variables of
  \<^verbatim>\<open>createEntryProjection\<close> and the holder's document form the record \<open>Proj\<close>; each returned function
  is a function on it.  Walks along parent links may not return on a cycle, so the operations that
  select a leaf return an option.
\<close>

section \<open>State\<close>

record EntrySnapshot =
  snap_entries :: "jsv list"
  snap_next :: nat
  snap_leafId :: jsv
  snap_version :: rat

record Proj =
  document :: jsv
  live :: "string list"
  piLeaf :: jsv
  position :: nat
  version :: "rat option"
  selectedPath :: "(jsv \<times> jsv set) option"

definition createEntryProjection :: "jsv \<Rightarrow> Proj" where
  "createEntryProjection doc =
     \<lparr>document = doc, live = [], piLeaf = JNull, position = 0, version = None, selectedPath = None\<rparr>"

text \<open>\<^verbatim>\<open>JSON.stringify(a) === JSON.stringify(b)\<close>.\<close>

definition same_json :: "jsv \<Rightarrow> jsv \<Rightarrow> bool" where
  "same_json a b \<longleftrightarrow> (if a = JUndef \<or> b = JUndef then a = b else json_norm a = json_norm b)"

section \<open>The selected path and the effective leaf\<close>

definition path_step :: "jsv \<Rightarrow> jsv \<Rightarrow> (jsv \<times> jsv) option" where
  "path_step entries cursor =
     (if cursor = JNull then None
      else let entry = jget entries (js_text cursor)
           in Some (cursor, if truthy entry then jget entry ''parentId'' else JNull))"

definition selectedPathOf :: "Proj \<Rightarrow> jsv \<Rightarrow> (jsv set \<times> Proj) option" where
  "selectedPathOf p entries =
     (case selectedPath p of
        Some (leaf, ids) \<Rightarrow>
          if leaf = piLeaf p then Some (ids, p)
          else map_option (\<lambda>path. (set path, p\<lparr>selectedPath := Some (piLeaf p, set path)\<rparr>))
                 (chain (path_step entries) (piLeaf p))
      | None \<Rightarrow>
          map_option (\<lambda>path. (set path, p\<lparr>selectedPath := Some (piLeaf p, set path)\<rparr>))
            (chain (path_step entries) (piLeaf p)))"

definition is_live :: "string list \<Rightarrow> jsv \<Rightarrow> bool" where
  "is_live lv cursor = (case cursor of JStr s \<Rightarrow> s \<in> set lv | _ \<Rightarrow> False)"

partial_function (option) first_sealed :: "string list \<Rightarrow> jsv \<Rightarrow> jsv \<Rightarrow> jsv option" where
  "first_sealed lv entries cursor =
     (if cursor \<noteq> JNull \<and> is_live lv cursor
      then first_sealed lv entries (coalesce (jget (jget entries (js_text cursor)) ''parentId'') JNull)
      else Some cursor)"

fun find_attached :: "string list \<Rightarrow> jsv \<Rightarrow> jsv set \<Rightarrow> string list \<Rightarrow> jsv \<Rightarrow> jsv option" where
  "find_attached lv entries selected [] fallback = Some fallback"
| "find_attached lv entries selected (i # ids) fallback =
     do {
       cursor \<leftarrow> first_sealed lv entries (JStr i);
       if cursor \<noteq> JNull \<and> cursor \<in> selected then Some (JStr i)
       else find_attached lv entries selected ids fallback
     }"

definition effectiveLeaf :: "Proj \<Rightarrow> jsv \<Rightarrow> (jsv \<times> Proj) option" where
  "effectiveLeaf p entries =
     (if live p = [] then Some (piLeaf p, p)
      else do {
        (selected, p') \<leftarrow> selectedPathOf p entries;
        leaf \<leftarrow> find_attached (live p) entries selected (rev (live p)) (piLeaf p);
        Some (leaf, p')
      })"

definition status_leaf :: "jsv \<Rightarrow> jsv" where
  "status_leaf st = coalesce (jget st ''leafId'') JNull"

definition leafOp :: "Proj \<Rightarrow> jsv \<Rightarrow> PatchOp option" where
  "leafOp p leaf =
     (if status_leaf (doc_status (document p)) = leaf then None
      else Some (ReplaceOp ''/status/leafId'' (coalesce leaf JNull)))"

text \<open>\<^const>\<open>None\<close> also stands for the exception \<^verbatim>\<open>applyPatch\<close> may raise; the lemmas show it does not.\<close>

definition emit :: "Proj \<Rightarrow> PatchOp list \<Rightarrow> (PatchOp list option \<times> Proj) option" where
  "emit p ops =
     (if ops = [] then Some (None, p)
      else (case applyPatch (document p) ops of
              Inl _ \<Rightarrow> None
            | Inr doc \<Rightarrow> Some (Some ops, p\<lparr>document := doc\<rparr>)))"

section \<open>Refresh\<close>

text \<open>The install loop: project, unlist the live form, insert, and push the add.\<close>

fun install :: "nat \<Rightarrow> jsv list \<Rightarrow> string list \<Rightarrow> props \<Rightarrow> string list \<times> props \<times> PatchOp list" where
  "install n [] lv after = (lv, after, [])"
| "install n (e # es) lv after =
     (let entry = projectEntry e (of_nat n); i = entry_id entry;
          (lv', after', ops) = install (Suc n) es (removeAll i lv) (AList.update i entry after)
      in (lv', after', AddOp (entry_path i) entry # ops))"

text \<open>The keys a wholesale rewrite drops, in enumeration order.\<close>

definition gone_keys :: "jsv list \<Rightarrow> string list \<Rightarrow> props \<Rightarrow> string list" where
  "gone_keys entries lv after =
     filter (\<lambda>k. k \<notin> entry_id ` set entries \<and> k \<notin> set lv) (own_keys after)"

definition drop_keys :: "string list \<Rightarrow> props \<Rightarrow> props" where
  "drop_keys ks es = foldl (\<lambda>es k. AList.delete k es) es ks"

text \<open>The tail of a refresh: stats when something moved, then the name, then the leaf.\<close>

definition statsStep :: "bool \<Rightarrow> jsv \<Rightarrow> jsv \<Rightarrow> jsv \<Rightarrow> (PatchOp list \<times> jsv) option" where
  "statsStep moved after leaf status =
     (if moved \<or> status_leaf status \<noteq> leaf
      then map_option (\<lambda>stats.
             if \<not> same_json stats (jget status ''stats'')
             then ([ReplaceOp ''/status/stats'' stats], jset ''stats'' stats status) else ([], status))
           (deriveStatsForEntries after leaf)
      else Some ([], status))"

definition nameStep :: "jsv list \<Rightarrow> jsv \<Rightarrow> jsv \<Rightarrow> PatchOp list \<times> jsv" where
  "nameStep entries after status =
     (let name = deriveSessionName after
      in if list_ex (\<lambda>e. jget e ''type'' = JStr ''session_info'') entries \<and> name \<noteq> jget status ''name''
         then ([ReplaceOp ''/status/name'' name], jset ''name'' name status) else ([], status))"

definition leafStep :: "jsv \<Rightarrow> jsv \<Rightarrow> PatchOp list \<times> jsv" where
  "leafStep leaf status =
     (if status_leaf status \<noteq> leaf
      then ([ReplaceOp ''/status/leafId'' (coalesce leaf JNull)], jset ''leafId'' leaf status)
      else ([], status))"

text \<open>
  The parts of a refresh, in order: whether the list was replaced wholesale, the installed suffix,
  the keys that are gone, the entry map afterwards, the ops so far and the updated variables.
\<close>

definition is_rewrite :: "Proj \<Rightarrow> EntrySnapshot \<Rightarrow> bool" where
  "is_rewrite p snapshot \<longleftrightarrow> version p \<noteq> None \<and> version p \<noteq> Some (snap_version snapshot)"

definition refresh_base :: "Proj \<Rightarrow> EntrySnapshot \<Rightarrow> nat" where
  "refresh_base p snapshot = (if is_rewrite p snapshot then 0 else position p)"

definition installed :: "Proj \<Rightarrow> EntrySnapshot \<Rightarrow> string list \<times> props \<times> PatchOp list" where
  "installed p snapshot =
     install (refresh_base p snapshot) (snap_entries snapshot) (live p) (props_of (doc_entries (document p)))"

definition refresh_gone :: "Proj \<Rightarrow> EntrySnapshot \<Rightarrow> string list" where
  "refresh_gone p snapshot =
     (case installed p snapshot of (lv, after, _) \<Rightarrow>
        if is_rewrite p snapshot then gone_keys (snap_entries snapshot) lv after else [])"

definition refresh_after :: "Proj \<Rightarrow> EntrySnapshot \<Rightarrow> props" where
  "refresh_after p snapshot = drop_keys (refresh_gone p snapshot) (fst (snd (installed p snapshot)))"

definition entry_ops :: "Proj \<Rightarrow> EntrySnapshot \<Rightarrow> PatchOp list" where
  "entry_ops p snapshot =
     snd (snd (installed p snapshot)) @ map (\<lambda>k. RemoveOp (entry_path k)) (refresh_gone p snapshot)"

definition refresh_vars :: "Proj \<Rightarrow> EntrySnapshot \<Rightarrow> Proj" where
  "refresh_vars p snapshot =
     \<lparr>document = document p, live = fst (installed p snapshot), piLeaf = snap_leafId snapshot,
      position = snap_next snapshot, version = Some (snap_version snapshot),
      selectedPath = (if is_rewrite p snapshot then None else selectedPath p)\<rparr>"

definition refresh :: "Proj \<Rightarrow> EntrySnapshot \<Rightarrow> (PatchOp list option \<times> Proj) option" where
  "refresh p snapshot =
     (let after = JObj (refresh_after p snapshot); ops = entry_ops p snapshot
      in do {
        (leaf, p2) \<leftarrow> effectiveLeaf (refresh_vars p snapshot) after;
        (ops3, st3) \<leftarrow> statsStep (ops \<noteq> []) after leaf (doc_status (document p));
        let (ops4, st4) = nameStep (snap_entries snapshot) after st3;
        let (ops5, st5) = leafStep leaf st4;
        let all = ops @ ops3 @ ops4 @ ops5;
        Some (if all = [] then (None, p2) else (Some all, p2\<lparr>document := mk_doc st5 (refresh_after p snapshot)\<rparr>))
      })"

definition refreshFrom :: "Proj \<Rightarrow> (nat \<Rightarrow> EntrySnapshot) \<Rightarrow> (PatchOp list option \<times> Proj) option" where
  "refreshFrom p rd =
     (let snapshot = rd (position p)
      in refresh p (if version p \<noteq> None \<and> version p \<noteq> Some (snap_version snapshot) then rd 0 else snapshot))"

section \<open>Events\<close>

definition targetsSealed :: "Proj \<Rightarrow> SessionLifecycleEvent \<Rightarrow> bool" where
  "targetsSealed p event =
     (case event_id event of
        None \<Rightarrow> False
      | Some i \<Rightarrow> (let entry = jget (doc_entries (document p)) i
                   in entry \<noteq> JUndef \<and> isEntrySealed entry))"

text \<open>The events that carry content are those that can carry an entry id.\<close>

fun contentEvent :: "SessionLifecycleEvent \<Rightarrow> bool" where
  "contentEvent (MessageStart _ _) = True"
| "contentEvent (MessageUpdate _ _) = True"
| "contentEvent (MessageEnd _ _) = True"
| "contentEvent (ToolExecutionStart _ _ _ _) = True"
| "contentEvent (ToolExecutionUpdate _ _ _) = True"
| "contentEvent (ToolExecutionEnd _ _ _ _ _) = True"
| "contentEvent _ = False"

definition add_live :: "string \<Rightarrow> string list \<Rightarrow> string list" where
  "add_live i lv = (if i \<in> set lv then lv else lv @ [i])"

definition created :: "SessionLifecycleEvent \<Rightarrow> PatchOp list \<Rightarrow> bool" where
  "created event ops =
     (case event_id event of
        None \<Rightarrow> False
      | Some i \<Rightarrow> list_ex (\<lambda>op. case op of AddOp path _ \<Rightarrow> path = entry_path i | _ \<Rightarrow> False) ops)"

definition projectEvent :: "Proj \<Rightarrow> SessionLifecycleEvent \<Rightarrow> (PatchOp list option \<times> Proj) option" where
  "projectEvent p event =
     (if contentEvent event \<and> targetsSealed p event then Some (None, p)
      else (case applyEvent (document p) event of
              None \<Rightarrow> Some (None, p)
            | Some ops \<Rightarrow>
                let p1 = (if created event ops then p\<lparr>live := add_live (the (event_id event)) (live p)\<rparr> else p)
                in do {
                  (leaf, p2) \<leftarrow> effectiveLeaf p1 (doc_entries (document p1));
                  emit p2 (ops @ (case leafOp p2 leaf of None \<Rightarrow> [] | Some op \<Rightarrow> [op]))
                }))"

section \<open>Settle\<close>

definition settled_keys :: "Proj \<Rightarrow> string list" where
  "settled_keys p = filter (\<lambda>k. jget (doc_entries (document p)) k \<noteq> JUndef) (live p)"

definition settle :: "Proj \<Rightarrow> (PatchOp list option \<times> Proj) option" where
  "settle p =
     (let doc = document p; gone = settled_keys p; p1 = p\<lparr>live := []\<rparr>;
          after = JObj (drop_keys gone (props_of (doc_entries doc)))
      in if gone = [] then Some (None, p1)
         else do {
           (leaf, p2) \<leftarrow> effectiveLeaf p1 after;
           stats \<leftarrow> deriveStatsForEntries after leaf;
           emit p2 (map (\<lambda>k. RemoveOp (entry_path k)) gone @ [ReplaceOp ''/status/stats'' stats] @
             (if status_leaf (doc_status doc) \<noteq> leaf then [ReplaceOp ''/status/leafId'' (coalesce leaf JNull)] else []))
         })"

section \<open>Single status fields\<close>

fun statusAt :: "jsv \<Rightarrow> string list \<Rightarrow> jsv" where
  "statusAt cursor [] = cursor"
| "statusAt cursor (k # ks) = (if is_obj cursor \<or> is_arr cursor then statusAt (jget cursor k) ks else JUndef)"

definition getStatusAt :: "jsv \<Rightarrow> string \<Rightarrow> jsv" where
  "getStatusAt doc path = statusAt doc (filter (\<lambda>part. part \<noteq> []) (segments path))"

definition statusOp :: "jsv \<Rightarrow> string \<Rightarrow> jsv \<Rightarrow> PatchOp option" where
  "statusOp doc path val =
     (if same_json (getStatusAt doc path) val then None else Some (ReplaceOp path (coalesce val JNull)))"

section \<open>Ops of a refresh\<close>

lemma entry_id_projectEntry [simp]: "entry_id (projectEntry e n) = entry_id e"
  by (simp add: entry_id_def)

lemma applyOp_remove_entry:
  "plain_key k \<Longrightarrow> applyOp (mk_doc st es) (RemoveOp (entry_path k)) = mk_doc st (AList.delete k es)"
  using applyOp_pathstr(3)[of "[''entries'', k]" "mk_doc st es"] remove_mk_doc(1)[of st es k "[]"]
  by (simp add: entry_path_pathstr plain_key_def del: pathstr_simps) (simp add: removeKeys_def)

lemma applyOps_remove_entries:
  "list_all plain_key ks \<Longrightarrow>
   applyOps (mk_doc st es) (map (\<lambda>k. RemoveOp (entry_path k)) ks) = mk_doc st (drop_keys ks es)"
  by (induction ks arbitrary: es) (simp_all add: applyOp_remove_entry drop_keys_def)

lemma applyOp_status_field:
  assumes "is_obj st" "plain_key k"
  shows "applyOp (mk_doc st es) (ReplaceOp (''/status/'' @ k) v) = mk_doc (jset k v st) es"
  using applyOp_pathstr(2)[of "[''status'', k]" "mk_doc st es" v] assms set_mk_doc(2)[OF assms(1), of es k "[]" v]
  by (cases st) (simp_all add: plain_key_def setKeys_def[of st] setKeys_def[of "JObj _"])

lemma applyOp_status_fields:
  assumes "is_obj st"
  shows "applyOp (mk_doc st es) (ReplaceOp ''/status/stats'' v) = mk_doc (jset ''stats'' v st) es"
    and "applyOp (mk_doc st es) (ReplaceOp ''/status/name'' v) = mk_doc (jset ''name'' v st) es"
    and "applyOp (mk_doc st es) (ReplaceOp ''/status/leafId'' v) = mk_doc (jset ''leafId'' v st) es"
  using applyOp_status_field[OF assms, of "''stats''" es v] applyOp_status_field[OF assms, of "''name''" es v]
    applyOp_status_field[OF assms, of "''leafId''" es v] by (simp_all add: plain_key_def)

lemma install_ops:
  "install n es lv after = (lv', after', ops) \<Longrightarrow> list_all (\<lambda>e. plain_key (entry_id e)) es \<Longrightarrow>
   applyOps (mk_doc st after) ops = mk_doc st after'"
  by (induction n es lv after arbitrary: lv' after' ops rule: install.induct)
    (auto simp: Let_def applyOp_add_entry split: prod.splits)

lemma install_live: "install n es lv after = (lv', after', ops) \<Longrightarrow> lv' = filter (\<lambda>k. k \<notin> entry_id ` set es) lv"
  by (induction n es lv after arbitrary: lv' after' ops rule: install.induct)
    (auto simp: Let_def removeAll_filter_not_eq intro!: filter_cong split: prod.splits)

lemma install_keys: "install n es lv after = (lv', after', ops) \<Longrightarrow> fst ` set after' = fst ` set after \<union> entry_id ` set es"
proof (induction n es lv after arbitrary: lv' after' ops rule: install.induct)
  case (2 n e es lv after)
  have "fst ` set (AList.update k v after) = insert k (fst ` set after)" for k v
    unfolding dom_map_of_conv_image_fst[symmetric] by (auto simp: dom_def)
  with 2 show ?case by (auto simp: Let_def split: prod.splits)
qed simp

lemma install_other: "install n es lv after = (lv', after', ops) \<Longrightarrow> k \<notin> entry_id ` set es \<Longrightarrow> map_of after' k = map_of after k"
  by (induction n es lv after arbitrary: lv' after' ops rule: install.induct)
    (auto simp: Let_def split: prod.splits)

lemma install_entry:
  "install n es lv after = (lv', after', ops) \<Longrightarrow> distinct (map entry_id es) \<Longrightarrow> i < length es \<Longrightarrow>
   map_of after' (entry_id (es ! i)) = Some (projectEntry (es ! i) (of_nat (n + i)))"
proof (induction n es lv after arbitrary: lv' after' ops i rule: install.induct)
  case (2 n e es lv after)
  obtain lv'' after'' ops'' where r: "install (Suc n) es (removeAll (entry_id e) lv)
      (AList.update (entry_id e) (projectEntry e (of_nat n)) after) = (lv'', after'', ops'')"
    by (metis prod_cases3)
  then have a: "after' = after''" using "2.prems"(1) by (simp add: Let_def)
  show ?case
  proof (cases i)
    case 0
    then show ?thesis using install_other[OF r, of "entry_id e"] "2.prems"(2) a by simp
  next
    case (Suc j)
    then show ?thesis using "2.IH"[OF refl refl, of lv'' after'' ops'' j] r "2.prems" a by (simp add: add.commute)
  qed
qed simp

lemma install_Nil: "install n es lv after = (lv', after', ops) \<Longrightarrow> ops = [] \<longleftrightarrow> es = []"
  by (cases es) (auto simp: Let_def split: prod.splits)

section \<open>Leaf selection keeps the rest of the state\<close>

lemma selectedPathOf_keeps:
  "selectedPathOf p E = Some (ids, p') \<Longrightarrow> document p' = document p \<and> live p' = live p \<and> piLeaf p' = piLeaf p \<and>
     position p' = position p \<and> version p' = version p"
  by (auto simp: selectedPathOf_def split: option.splits if_splits)

lemma effectiveLeaf_keeps:
  "effectiveLeaf p E = Some (leaf, p') \<Longrightarrow> document p' = document p \<and> live p' = live p \<and> piLeaf p' = piLeaf p \<and>
     position p' = position p \<and> version p' = version p"
  by (auto simp: effectiveLeaf_def bind_eq_Some_conv dest!: selectedPathOf_keeps split: if_splits prod.splits)

lemma find_attached_leaf:
  "find_attached lv E sel ids fb = Some leaf \<Longrightarrow> leaf = fb \<or> (\<exists>i \<in> set ids. leaf = JStr i)"
  by (induction ids) (auto simp: bind_eq_Some_conv split: if_splits)

lemma effectiveLeaf_leaf:
  "effectiveLeaf p E = Some (leaf, p') \<Longrightarrow> leaf = piLeaf p \<or> (\<exists>i \<in> set (live p). leaf = JStr i)"
  by (auto simp: effectiveLeaf_def bind_eq_Some_conv split: if_splits prod.splits dest!: find_attached_leaf)

section \<open>The status steps\<close>

lemma statsStep_ops:
  "statsStep moved E leaf st = Some (ops, st') \<Longrightarrow> is_obj st \<Longrightarrow>
   applyOps (mk_doc st es) ops = mk_doc st' es \<and> is_obj st' \<and> status_leaf st' = status_leaf st"
  by (auto simp: statsStep_def applyOp_status_fields status_leaf_def split: if_splits)

lemma nameStep_ops:
  "nameStep entries E st = (ops, st') \<Longrightarrow> is_obj st \<Longrightarrow>
   applyOps (mk_doc st es) ops = mk_doc st' es \<and> is_obj st' \<and> status_leaf st' = status_leaf st"
  by (auto simp: nameStep_def Let_def applyOp_status_fields status_leaf_def split: if_splits)

lemma leafStep_ops:
  "leafStep leaf st = (ops, st') \<Longrightarrow> is_obj st \<Longrightarrow> leaf \<noteq> JUndef \<Longrightarrow>
   applyOps (mk_doc st es) ops = mk_doc st' es \<and> is_obj st' \<and> status_leaf st' = leaf"
  by (cases leaf) (auto simp: leafStep_def applyOp_status_fields status_leaf_def split: if_splits)

text \<open>One refresh, taken apart once for all properties.\<close>

lemma refresh_cases:
  assumes "refresh p snap = Some (patch, p')"
  obtains leaf p2 ops3 st3 ops4 st4 ops5 st5 where
    "effectiveLeaf (refresh_vars p snap) (JObj (refresh_after p snap)) = Some (leaf, p2)"
    "statsStep (entry_ops p snap \<noteq> []) (JObj (refresh_after p snap)) leaf (doc_status (document p)) = Some (ops3, st3)"
    "nameStep (snap_entries snap) (JObj (refresh_after p snap)) st3 = (ops4, st4)"
    "leafStep leaf st4 = (ops5, st5)"
    "(patch, p') = (if entry_ops p snap @ ops3 @ ops4 @ ops5 = [] then (None, p2)
       else (Some (entry_ops p snap @ ops3 @ ops4 @ ops5), p2\<lparr>document := mk_doc st5 (refresh_after p snap)\<rparr>))"
proof -
  obtain leaf p2 where e: "effectiveLeaf (refresh_vars p snap) (JObj (refresh_after p snap)) = Some (leaf, p2)"
    using assms by (cases "effectiveLeaf (refresh_vars p snap) (JObj (refresh_after p snap))") (auto simp: refresh_def)
  obtain ops3 st3 where s: "statsStep (entry_ops p snap \<noteq> []) (JObj (refresh_after p snap)) leaf
      (doc_status (document p)) = Some (ops3, st3)"
    using assms e by (cases "statsStep (entry_ops p snap \<noteq> []) (JObj (refresh_after p snap)) leaf
      (doc_status (document p))") (auto simp: refresh_def)
  obtain ops4 st4 where n: "nameStep (snap_entries snap) (JObj (refresh_after p snap)) st3 = (ops4, st4)" by fastforce
  obtain ops5 st5 where l: "leafStep leaf st4 = (ops5, st5)" by fastforce
  show thesis by (rule that[OF e s n l]) (use assms in \<open>auto simp: refresh_def Let_def e s n l split: if_splits\<close>)
qed

definition plain_ids :: "Proj \<Rightarrow> EntrySnapshot \<Rightarrow> bool" where
  "plain_ids p snap \<longleftrightarrow> list_all (\<lambda>e. plain_key (entry_id e)) (snap_entries snap) \<and>
     list_all (\<lambda>q. plain_key (fst q)) (props_of (doc_entries (document p)))"

lemma refresh_gone_plain:
  assumes "plain_ids p snap"
  shows "list_all plain_key (refresh_gone p snap)"
proof -
  obtain lv after ops where i: "installed p snap = (lv, after, ops)" by (metis prod_cases3)
  have "fst ` set after = fst ` set (props_of (doc_entries (document p))) \<union> entry_id ` set (snap_entries snap)"
    using i unfolding installed_def by (rule install_keys)
  then show ?thesis using assms
    by (auto simp: refresh_gone_def i gone_keys_def plain_ids_def list_all_iff)
qed

lemma entry_ops_apply:
  assumes "plain_ids p snap" "document p = mk_doc st es"
  shows "applyOps (document p) (entry_ops p snap) = mk_doc st (refresh_after p snap)"
proof -
  obtain lv after ops where i: "installed p snap = (lv, after, ops)" by (metis prod_cases3)
  have "applyOps (mk_doc st es) ops = mk_doc st after"
    using install_ops[of "refresh_base p snap" "snap_entries snap" "live p" es lv after ops st] i assms
    by (simp add: installed_def plain_ids_def)
  then show ?thesis using applyOps_remove_entries[OF refresh_gone_plain[OF assms(1)]] assms(2)
    by (simp add: entry_ops_def refresh_after_def i)
qed

lemma refresh_document:
  assumes "refresh p snap = Some (patch, p')" "document p = mk_doc st es" "is_obj st" "plain_ids p snap"
    and "snap_leafId snap \<noteq> JUndef"
  shows "document p' = applyOps (document p) (case patch of None \<Rightarrow> [] | Some ops \<Rightarrow> ops)"
    and "\<exists>st'. document p' = mk_doc st' (refresh_after p snap) \<and> is_obj st'"
    and "live p' = fst (installed p snap)" "piLeaf p' = snap_leafId snap" "position p' = snap_next snap"
proof -
  from assms(1) obtain leaf p2 ops3 st3 ops4 st4 ops5 st5 where
    r: "effectiveLeaf (refresh_vars p snap) (JObj (refresh_after p snap)) = Some (leaf, p2)"
      "statsStep (entry_ops p snap \<noteq> []) (JObj (refresh_after p snap)) leaf (doc_status (document p)) = Some (ops3, st3)"
      "nameStep (snap_entries snap) (JObj (refresh_after p snap)) st3 = (ops4, st4)"
      "leafStep leaf st4 = (ops5, st5)"
      "(patch, p') = (if entry_ops p snap @ ops3 @ ops4 @ ops5 = [] then (None, p2)
       else (Some (entry_ops p snap @ ops3 @ ops4 @ ops5), p2\<lparr>document := mk_doc st5 (refresh_after p snap)\<rparr>))"
    by (rule refresh_cases)
  have leaf: "leaf \<noteq> JUndef" using effectiveLeaf_leaf[OF r(1)] assms(5) by (auto simp: refresh_vars_def)
  have k: "document p2 = document p" "live p2 = fst (installed p snap)" "piLeaf p2 = snap_leafId snap" "position p2 = snap_next snap"
    using effectiveLeaf_keeps[OF r(1)] by (simp_all add: refresh_vars_def)
  have a: "applyOps (document p) (entry_ops p snap) = mk_doc st (refresh_after p snap)"
    by (rule entry_ops_apply[OF assms(4,2)])
  have s3: "applyOps (mk_doc st (refresh_after p snap)) ops3 = mk_doc st3 (refresh_after p snap)" "is_obj st3"
    using statsStep_ops[OF r(2)] assms(2,3) by simp_all
  have s4: "applyOps (mk_doc st3 (refresh_after p snap)) ops4 = mk_doc st4 (refresh_after p snap)" "is_obj st4"
    using nameStep_ops[OF r(3) s3(2)] by simp_all
  have s5: "applyOps (mk_doc st4 (refresh_after p snap)) ops5 = mk_doc st5 (refresh_after p snap)" "is_obj st5"
    using leafStep_ops[OF r(4) s4(2) leaf] by simp_all
  have all: "applyOps (document p) (entry_ops p snap @ ops3 @ ops4 @ ops5) = mk_doc st5 (refresh_after p snap)"
    using a s3(1) s4(1) s5(1) by simp
  show "document p' = applyOps (document p) (case patch of None \<Rightarrow> [] | Some ops \<Rightarrow> ops)"
    using r(5) all k by (auto split: if_splits)
  show "\<exists>st'. document p' = mk_doc st' (refresh_after p snap) \<and> is_obj st'"
    using r(5) all k s5(2) by (cases "entry_ops p snap @ ops3 @ ops4 @ ops5 = []") auto
  show "live p' = fst (installed p snap)" "piLeaf p' = snap_leafId snap" "position p' = snap_next snap"
    using r(5) k by (auto split: if_splits)
qed

section \<open>Entries after a refresh\<close>

lemma map_of_drop_keys: "map_of (drop_keys ks es) k = (if k \<in> set ks then None else map_of es k)"
  unfolding drop_keys_def by (induction ks arbitrary: es) auto

lemma refresh_after_installed:
  assumes "distinct (map entry_id (snap_entries snap))" "i < length (snap_entries snap)"
  shows "map_of (refresh_after p snap) (entry_id (snap_entries snap ! i)) =
    Some (projectEntry (snap_entries snap ! i) (of_nat (refresh_base p snap + i)))"
proof -
  obtain lv after ops where i: "installed p snap = (lv, after, ops)" by (metis prod_cases3)
  then have "map_of after (entry_id (snap_entries snap ! i)) =
      Some (projectEntry (snap_entries snap ! i) (of_nat (refresh_base p snap + i)))"
    unfolding installed_def using assms by (rule install_entry)
  then show ?thesis using assms(2)
    by (auto simp: refresh_after_def refresh_gone_def i map_of_drop_keys gone_keys_def)
qed

lemma refresh_after_other:
  assumes "k \<notin> entry_id ` set (snap_entries snap)"
  shows "map_of (refresh_after p snap) k =
    (if is_rewrite p snap \<and> k \<notin> set (live p) then None else map_of (props_of (doc_entries (document p))) k)"
proof -
  obtain lv after ops where i: "installed p snap = (lv, after, ops)" by (metis prod_cases3)
  note ii = i[unfolded installed_def]
  have k: "map_of after k = map_of (props_of (doc_entries (document p))) k" using ii assms by (rule install_other)
  have lv: "lv = filter (\<lambda>k. k \<notin> entry_id ` set (snap_entries snap)) (live p)" using ii by (rule install_live)
  have "k \<in> set (own_keys after) \<longleftrightarrow> map_of after k \<noteq> None" by (simp add: map_of_eq_None_iff)
  then show ?thesis using k lv assms
    by (auto simp: refresh_after_def refresh_gone_def i map_of_drop_keys gone_keys_def)
qed

section \<open>The walks return\<close>

abbreviation cursor_rank :: "(string \<Rightarrow> nat) \<Rightarrow> jsv \<Rightarrow> nat" where
  "cursor_rank rank c \<equiv> (case c of JStr s \<Rightarrow> Suc (rank s) | _ \<Rightarrow> 0)"

lemma parent_cursor:
  assumes "ranked_parents rank es" "nullable_parents es" "map_of es k = Some e"
  shows "nullable is_str (jget e ''parentId'') \<and> cursor_rank rank (jget e ''parentId'') < Suc (rank k)"
proof -
  have "nullable is_str (jget e ''parentId'')"
    using assms(2,3) by (fastforce simp: nullable_parents_def list_all_iff dest: map_of_SomeD)
  then show ?thesis using assms(1,3) by (auto simp: ranked_parents_def dest!: nullable_str)
qed

lemma selected_chain_returns:
  assumes "ranked_parents rank es" "nullable_parents es"
  shows "nullable is_str c \<Longrightarrow> \<exists>xs. chain (path_step (JObj es)) c = Some xs"
proof (induction "cursor_rank rank c" arbitrary: c rule: less_induct)
  case less
  from less.prems consider "c = JNull" | k where "c = JStr k" by (auto dest: nullable_str)
  then show ?case
  proof cases
    case 2
    let ?c = "if truthy (jget (JObj es) k) then jget (jget (JObj es) k) ''parentId'' else JNull"
    have step: "path_step (JObj es) c = Some (c, ?c)" using 2 by (simp add: path_step_def Let_def)
    have "nullable is_str ?c \<and> cursor_rank rank ?c < cursor_rank rank c"
      using parent_cursor[OF assms] 2 by (auto split: option.split)
    then obtain xs where "chain (path_step (JObj es)) ?c = Some xs" using less.hyps by blast
    then show ?thesis using chain_Some[of "path_step (JObj es)", OF step] by simp
  qed (simp add: path_step_def)
qed

lemma first_sealed_returns:
  assumes "ranked_parents rank es" "nullable_parents es"
  shows "nullable is_str c \<Longrightarrow> \<exists>d. first_sealed lv (JObj es) c = Some d"
proof (induction "cursor_rank rank c" arbitrary: c rule: less_induct)
  case less
  from less.prems consider "c = JNull" | k where "c = JStr k" by (auto dest: nullable_str)
  then show ?case
  proof cases
    case 2
    let ?c = "coalesce (jget (jget (JObj es) k) ''parentId'') JNull"
    have "nullable is_str ?c \<and> cursor_rank rank ?c < cursor_rank rank c"
    proof (cases "map_of es k")
      case (Some e)
      then show ?thesis using parent_cursor[OF assms Some] 2
        by (cases "jget e ''parentId''") (simp_all add: nullable_def)
    qed (simp add: 2)
    then obtain d where "first_sealed lv (JObj es) ?c = Some d" using less.hyps by blast
    then show ?thesis using 2 by (subst first_sealed.simps) simp
  qed (subst first_sealed.simps, simp)
qed

lemma find_attached_returns:
  assumes "ranked_parents rank es" "nullable_parents es"
  shows "\<exists>leaf. find_attached lv (JObj es) sel ids fb = Some leaf"
proof (induction ids)
  case (Cons i ids)
  obtain d where "first_sealed lv (JObj es) (JStr i) = Some d"
    using first_sealed_returns[OF assms, of "JStr i"] by auto
  with Cons show ?case by auto
qed simp

lemma effectiveLeaf_returns:
  assumes "ranked_parents rank es" "nullable_parents es" "nullable is_str (piLeaf p)"
  shows "\<exists>leaf p'. effectiveLeaf p (JObj es) = Some (leaf, p') \<and> nullable is_str leaf"
proof -
  obtain xs where xs: "chain (path_step (JObj es)) (piLeaf p) = Some xs"
    using selected_chain_returns[OF assms(1,2,3)] by blast
  then have "selectedPathOf p (JObj es) \<noteq> None"
    by (auto simp: selectedPathOf_def split: option.split)
  then obtain sel q where "selectedPathOf p (JObj es) = Some (sel, q)" by auto
  moreover obtain leaf where "find_attached (live p) (JObj es) sel (rev (live p)) (piLeaf p) = Some leaf"
    using find_attached_returns[OF assms(1,2)] by blast
  ultimately have "\<exists>leaf p'. effectiveLeaf p (JObj es) = Some (leaf, p')" by (auto simp: effectiveLeaf_def)
  then show ?thesis using effectiveLeaf_leaf assms(3) by fastforce
qed

lemma deriveStatsForEntries_returns:
  "ranked_parents rank es \<Longrightarrow> nullable_parents es \<Longrightarrow> nullable is_str leaf \<Longrightarrow>
   \<exists>stats. deriveStatsForEntries (JObj es) leaf = Some stats"
  using branchPath_returns[of rank es leaf] by (auto simp: deriveStatsForEntries_def deriveStats_def)

lemma refresh_returns_ranked:
  assumes "ranked_parents rank (refresh_after p snap)" "nullable_parents (refresh_after p snap)"
    and "nullable is_str (snap_leafId snap)"
  shows "\<exists>patch p'. refresh p snap = Some (patch, p')"
proof -
  have "nullable is_str (piLeaf (refresh_vars p snap))" using assms(3) by (simp add: refresh_vars_def)
  then obtain leaf p2 where e: "effectiveLeaf (refresh_vars p snap) (JObj (refresh_after p snap)) = Some (leaf, p2)"
      "nullable is_str leaf"
    using effectiveLeaf_returns[OF assms(1,2)] by blast
  then obtain stats where "deriveStatsForEntries (JObj (refresh_after p snap)) leaf = Some stats"
    using deriveStatsForEntries_returns[OF assms(1,2)] by blast
  then obtain ops3 st3 where "statsStep (entry_ops p snap \<noteq> []) (JObj (refresh_after p snap)) leaf
      (doc_status (document p)) = Some (ops3, st3)"
    by (simp add: statsStep_def split: if_splits) (metis (no_types, lifting) option.simps(9) prod.exhaust)
  then show ?thesis using e by (simp add: refresh_def Let_def split: prod.split)
qed

text \<open>A first refresh over the whole log is the bootstrap.\<close>

definition whole_log :: "jsv list \<Rightarrow> jsv \<Rightarrow> rat \<Rightarrow> EntrySnapshot" where
  "whole_log es leaf v = \<lparr>snap_entries = es, snap_next = length es, snap_leafId = leaf, snap_version = v\<rparr>"

lemma install_initEntryMap: "fst (snd (install n es lv m)) = initEntryMap n es m"
  by (induction n es lv m rule: install.induct) (auto simp: Let_def entry_id_def split: prod.split)

lemma refresh_after_whole_log:
  assumes "wf_log es"
  shows "refresh_after (createEntryProjection (mk_doc st [])) (whole_log es leaf v) = log_entries 0 es"
  using initEntryMap_log[of "[]" es 0] wf_logD(1)[OF assms] install_initEntryMap[of 0 es "[]" "[]"]
  by (simp add: refresh_after_def refresh_gone_def installed_def refresh_base_def is_rewrite_def
      createEntryProjection_def whole_log_def drop_keys_def case_prod_beta)

lemma bootstrap_returns:
  assumes "wf_log es" "nullable is_str leaf"
  shows "\<exists>patch p'. refresh (createEntryProjection (mk_doc st [])) (whole_log es leaf v) = Some (patch, p')"
proof -
  let ?p = "createEntryProjection (mk_doc st [])" and ?s = "whole_log es leaf v"
  note a = refresh_after_whole_log[OF assms(1), of st leaf v]
  show ?thesis
    using refresh_returns_ranked[of _ ?p ?s, unfolded a, OF log_ranked[OF assms(1)] log_nullable[OF assms(1)]] assms(2)
    by (simp add: whole_log_def)
qed

lemma bootstrap_start [simp]:
  "document (createEntryProjection doc) = doc" "snap_leafId (whole_log es leaf v) = leaf"
  "snap_entries (whole_log es leaf v) = es" "live (createEntryProjection doc) = []"
  by (simp_all add: createEntryProjection_def whole_log_def)

text \<open>A one-entry log, for the concrete instances of the properties below.\<close>

definition sample_label :: jsv where
  "sample_label = JObj [(''type'', JStr ''label''), (''id'', JStr ''a''), (''parentId'', JNull),
     (''timestamp'', JStr ''t''), (''targetId'', JStr ''x'')]"

lemma sample_log: "wf_log [sample_label]"
  by (simp add: sample_label_def wf_log_def is_SessionEntry_def is_SessionEntryBase_def entry_id_def Let_def)

lemma sample_id: "entry_id sample_label = ''a''"
  by (simp add: sample_label_def entry_id_def)

lemma sample_plain: "plain_ids (createEntryProjection (mk_doc st [])) (whole_log [sample_label] leaf v)"
  by (simp add: plain_ids_def sample_id plain_key_def)

section \<open>Events and the sealed flag\<close>

text \<open>An op of an event either adds the whole entry or writes below a field that is not the flag.\<close>

definition below_field :: "string option \<Rightarrow> PatchOp \<Rightarrow> bool" where
  "below_field i op \<longleftrightarrow> (case op of MoveOp _ _ \<Rightarrow> False | _ \<Rightarrow>
     (\<exists>j f r. parsePath (op_source_path op) = ''entries'' # j # f # r \<and> i = Some j \<and>
        f \<noteq> ''isSealed'' \<and> \<not> digits1 f) \<or>
     (\<exists>k r. parsePath (op_source_path op) = ''status'' # k # r))"

definition adds_entry :: "string option \<Rightarrow> PatchOp \<Rightarrow> bool" where
  "adds_entry i op \<longleftrightarrow> (\<exists>j v. i = Some j \<and> op = AddOp (entry_path j) v \<and> is_obj v)"

lemma below_field_at:
  assumes "at_or_below (pathstr (''entries'' # i # f # r)) op" "list_all plain_key (i # f # r)"
    and "f \<noteq> ''isSealed''" "\<not> digits1 f"
  shows "below_field (Some i) op"
proof -
  let ?b = "''entries'' # i # f # r"
  have b: "list_all plain_key ?b" "?b \<noteq> []" "?b \<noteq> [[]]" using assms(2) by (auto simp: plain_key_def)
  have "\<exists>t. parsePath (op_source_path op) = ''entries'' # i # f # t"
    using assms(1) parsePath_pathstr[OF b] parsePath_below[OF b(1,2)]
    by (auto simp: at_or_below_def simp del: pathstr_simps)
  then show ?thesis using assms(1,3,4) by (auto simp: below_field_def at_or_below_def split: PatchOp.splits)
qed

lemma field_not_digits: "\<not> is_digit c \<Longrightarrow> \<not> digits1 (c # cs)"
  by (simp add: digits1_def)

lemma field_path_at: "at_or_below (pathstr [''entries'', i, f]) (ReplaceOp (field_path i f) v)"
  by (simp add: at_or_below_def entry_path_pathstr)

lemma below_fields [simp]:
  assumes "plain_key i"
  shows "below_field (Some i) (ReplaceOp (field_path i ''api'') v)" "below_field (Some i) (ReplaceOp (field_path i ''provider'') v)"
    "below_field (Some i) (ReplaceOp (field_path i ''model'') v)" "below_field (Some i) (ReplaceOp (field_path i ''responseModel'') v)"
    "below_field (Some i) (ReplaceOp (field_path i ''responseId'') v)" "below_field (Some i) (ReplaceOp (field_path i ''stopReason'') v)"
    "below_field (Some i) (ReplaceOp (field_path i ''errorMessage'') v)" "below_field (Some i) (ReplaceOp (field_path i ''usage'') v)"
    "below_field (Some i) (ReplaceOp (field_path i ''durationMs'') v)" "below_field (Some i) (ReplaceOp (field_path i ''content'') v)"
    "below_field (Some i) (ReplaceOp (field_path i ''details'') v)" "below_field (Some i) (ReplaceOp (field_path i ''isError'') v)"
  by (rule below_field_at[OF field_path_at]; use assms in \<open>simp add: plain_key_def field_not_digits is_digit_def\<close>)+

lemma below_blocks [simp]:
  assumes "plain_key i"
  shows "below_field (Some i) (AddOp (block_path i n) v)" "below_field (Some i) (ReplaceOp (block_path i n) v)"
    "below_field (Some i) (AppendOp (block_path i n @ CHR ''/'' # f) t l)"
    "below_field (Some i) (ReplaceOp (block_path i n @ CHR ''/'' # f) v)"
  by (rule below_field_at[of i "''content''" "[nat_str n]"];
      use assms in \<open>simp add: at_or_below_def entry_path_pathstr plain_key_def field_not_digits is_digit_def\<close>)+

lemma below_status: "touches None op \<Longrightarrow> below_field i op"
  by (auto simp: touches_def below_field_def split: PatchOp.splits)

lemma below_status_fields [simp]:
  "below_field i (ReplaceOp ''/status/isStreaming'' v)" "below_field i (ReplaceOp ''/status/leafId'' v)"
  "below_field i (ReplaceOp ''/status/isCompacting'' v)" "below_field i (ReplaceOp ''/status/thinkingLevel'' v)"
  "below_field i (ReplaceOp ''/status/name'' v)" "below_field i (ReplaceOp ''/status/pendingSteer'' v)"
  by (rule below_status, simp)+

lemma below_diff:
  assumes "plain_key i" "op \<in> set (computeObjectDiff ps qs (block_path i n @ ''/arguments''))"
  shows "below_field (Some i) op"
  using diff_below(1)[OF assms(2)] assms(1)
    below_field_at[of i "''content''" "[nat_str n, ''arguments'']" op]
  by (simp add: entry_path_pathstr plain_key_def field_not_digits is_digit_def)

lemma below_assistant: "plain_key i \<Longrightarrow> op \<in> set (applyAssistantEvent doc i ame) \<Longrightarrow> below_field (Some i) op"
  by (cases ame) (auto simp: Let_def below_diff split: if_splits)

lemma below_streamed:
  assumes "plain_key i" "streamedToolContentOp doc i c = Some op"
  shows "below_field (Some i) op"
proof -
  from assms(2) obtain t where "op = AppendOp (pathstr [''entries'', i, ''content'', ''0'', ''text'']) t True"
    by (auto simp: streamedToolContentOp_def Let_def split: if_splits option.splits)
  then show ?thesis
    using assms(1) below_field_at[of i "''content''" "[''0'', ''text'']" op]
    by (simp add: at_or_below_def plain_key_def field_not_digits is_digit_def)
qed

lemma event_op_cases:
  assumes "\<And>i. event_id ev = Some i \<Longrightarrow> plain_key i" "op \<in> set (eventOps doc ev)"
  shows "adds_entry (event_id ev) op \<or> below_field (event_id ev) op"
  using assms
  by (cases "(doc, ev)" rule: eventOps.cases)
    (auto simp: Let_def when_ops_def messageEndOps_def toolUpdateOps_def toolEndOps_def adds_entry_def
      userMessageSkeleton_def assistantMessageSkeleton_def toolResultSkeleton_def
      below_assistant below_streamed split: option.splits if_splits)

section \<open>The invariant of the projection\<close>

text \<open>The document has its two fields, entries are objects, and an entry that is not sealed is live.\<close>

definition doc_inv :: "string set \<Rightarrow> jsv \<Rightarrow> bool" where
  "doc_inv L d \<longleftrightarrow> (\<exists>st es. d = mk_doc st es \<and> is_obj st \<and>
     (\<forall>k e. map_of es k = Some e \<longrightarrow> is_obj e \<and> (isEntrySealed e \<or> k \<in> L)))"

definition proj_inv :: "Proj \<Rightarrow> bool" where
  "proj_inv p \<longleftrightarrow> doc_inv (set (live p)) (document p)"

lemma autoCreate_field: "\<not> digits1 f \<Longrightarrow> autoCreate (f # r) = JObj []"
  by (simp add: autoCreate_def)

lemma write_field_flag:
  "is_obj e \<Longrightarrow> f \<noteq> k \<Longrightarrow> is_obj (cloneSet e f r v) \<and> jget (cloneSet e f r v) k = jget e k"
  "is_obj e \<Longrightarrow> f \<noteq> k \<Longrightarrow> is_obj (cloneRemove e f r) \<and> jget (cloneRemove e f r) k = jget e k"
  by (cases r; cases e; simp)+

lemma doc_inv_write:
  assumes "doc_inv L d" "f \<noteq> ''isSealed''" "\<not> digits1 f"
  shows "doc_inv L (setKeys d (''entries'' # j # f # r) v)" "doc_inv L (removeKeys d (''entries'' # j # f # r))"
proof -
  obtain st es where d: "d = mk_doc st es" "is_obj st"
      "\<And>k e. map_of es k = Some e \<Longrightarrow> is_obj e \<and> (isEntrySealed e \<or> k \<in> L)"
    using assms(1) by (auto simp: doc_inv_def)
  let ?e = "coalesce (jget (JObj es) j) (autoCreate (f # r))"
  have e: "is_obj ?e \<and> (isEntrySealed ?e \<or> j \<in> L)"
  proof (cases "map_of es j")
    case (Some e)
    then show ?thesis using d(3)[OF Some] by (cases e) auto
  qed (simp add: autoCreate_field[OF assms(3)] isEntrySealed_def)
  note w = write_field_flag(1)[of ?e f "''isSealed''" r v] and wr = write_field_flag(2)[of _ f "''isSealed''" r]
  show "doc_inv L (setKeys d (''entries'' # j # f # r) v)"
    using d e w assms(2) by (auto simp: doc_inv_def set_mk_doc setKeys_def[of "JObj es"] isEntrySealed_def split: if_splits)
  show "doc_inv L (removeKeys d (''entries'' # j # f # r))"
    using d wr assms(2)
    by (auto simp: doc_inv_def remove_mk_doc removeKeys_def[of "JObj es"] isEntrySealed_def split: if_splits)
qed

lemma doc_inv_status:
  "doc_inv L d \<Longrightarrow> doc_inv L (setKeys d (''status'' # k # r) v)" "doc_inv L d \<Longrightarrow> doc_inv L (removeKeys d (''status'' # k # r))"
  by (auto simp: doc_inv_def set_mk_doc remove_mk_doc is_obj_write)

lemma doc_inv_below: "doc_inv L d \<Longrightarrow> below_field i op \<Longrightarrow> doc_inv L (applyOp d op)"
  by (cases op)
    (auto simp: below_field_def applyOp.simps setAtPath_def removeAtPath_def appendAtPath_def doc_inv_write
      doc_inv_status split: jsv.split)

lemma doc_inv_add: "doc_inv L d \<Longrightarrow> j \<in> L \<Longrightarrow> plain_key j \<Longrightarrow> is_obj v \<Longrightarrow> doc_inv L (applyOp d (AddOp (entry_path j) v))"
  by (auto simp: doc_inv_def applyOp_add_entry split: if_splits)

lemma doc_inv_ops:
  "doc_inv L d \<Longrightarrow> (\<And>op. op \<in> set ops \<Longrightarrow> below_field i op \<or> (\<exists>j v. j \<in> L \<and> plain_key j \<and> is_obj v \<and> op = AddOp (entry_path j) v)) \<Longrightarrow>
   doc_inv L (applyOps d ops)"
proof (induction ops arbitrary: d)
  case (Cons op ops)
  then have "doc_inv L (applyOp d op)" using doc_inv_below doc_inv_add by (metis list.set_intros(1))
  with Cons show ?case by simp
qed simp

lemma doc_inv_mono: "doc_inv L d \<Longrightarrow> L \<subseteq> M \<Longrightarrow> doc_inv M d"
  unfolding doc_inv_def by blast

text \<open>What an emitting event did: the ops of the event, and at most a move of the leaf.\<close>

lemma projectEvent_cases:
  assumes "projectEvent p ev = Some (patch, p')"
  obtains "patch = None" "p' = p"
  | ops extra where "\<not> (contentEvent ev \<and> targetsSealed p ev)" "applyEvent (document p) ev = Some ops"
      "extra = [] \<or> (\<exists>v. extra = [ReplaceOp ''/status/leafId'' v])"
      "patch = Some (ops @ extra)" "document p' = applyOps (document p) (ops @ extra)"
      "live p' = (if created ev ops then add_live (the (event_id ev)) (live p) else live p)"
proof (cases "(contentEvent ev \<and> targetsSealed p ev) \<or> applyEvent (document p) ev = None")
  case True
  then show thesis using assms that(1) by (auto simp: projectEvent_def split: if_splits)
next
  case False
  then obtain ops where ops: "applyEvent (document p) ev = Some ops" by auto
  let ?p1 = "if created ev ops then p\<lparr>live := add_live (the (event_id ev)) (live p)\<rparr> else p"
  obtain leaf p2 where e: "effectiveLeaf ?p1 (doc_entries (document ?p1)) = Some (leaf, p2)"
    using assms False ops by (cases "effectiveLeaf ?p1 (doc_entries (document ?p1))") (auto simp: projectEvent_def Let_def)
  let ?extra = "case leafOp p2 leaf of None \<Rightarrow> [] | Some op \<Rightarrow> [op]"
  have em: "emit p2 (ops @ ?extra) = Some (patch, p')"
    using assms False ops e unfolding projectEvent_def Let_def by (simp only: if_False option.case bind.simps prod.case de_Morgan_disj simp_thms)
  have ne: "ops \<noteq> []" using ops by (auto simp: applyEvent_def Let_def split: if_splits)
  have k: "document p2 = document p" "live p2 = live ?p1" using effectiveLeaf_keeps[OF e] by auto
  show thesis
  proof (rule that(2)[of ops ?extra])
    show "?extra = [] \<or> (\<exists>v. ?extra = [ReplaceOp ''/status/leafId'' v])"
      by (auto simp: leafOp_def split: if_splits)
    show "document p' = applyOps (document p) (ops @ ?extra)" "patch = Some (ops @ ?extra)"
      "live p' = (if created ev ops then add_live (the (event_id ev)) (live p) else live p)"
      using em ne k by (auto simp: emit_def applyPatch_def split: if_splits)
  qed (use False ops in auto)
qed

lemma event_contentEvent: "event_id ev = Some i \<Longrightarrow> contentEvent ev"
  by (cases ev) auto

lemma projectEvent_inv:
  assumes "proj_inv p" "projectEvent p ev = Some (patch, p')" "\<And>i. event_id ev = Some i \<Longrightarrow> plain_key i"
  shows "proj_inv p'"
  using assms(2)
proof (cases rule: projectEvent_cases)
  case (2 ops extra)
  have ops: "ops = eventOps (document p) ev" using 2(2) by (auto simp: applyEvent_def Let_def split: if_splits)
  have "doc_inv (set (live p')) (document p)"
    using assms(1) 2(6) by (auto simp: proj_inv_def add_live_def intro: doc_inv_mono)
  moreover have "below_field (event_id ev) op \<or>
      (\<exists>j v. j \<in> set (live p') \<and> plain_key j \<and> is_obj v \<and> op = AddOp (entry_path j) v)" if "op \<in> set (ops @ extra)" for op
  proof (cases "adds_entry (event_id ev) op")
    case True
    then obtain j v where j: "event_id ev = Some j" "op = AddOp (entry_path j) v" "is_obj v" by (auto simp: adds_entry_def)
    then have "op \<in> set ops" using that 2(3) by auto
    then have "created ev ops" using j by (force simp: created_def list_ex_iff)
    then have "j \<in> set (live p')" using 2(6) j(1) by (simp add: add_live_def)
    then show ?thesis using j assms(3) by blast
  next
    case False
    then show ?thesis using that 2(3) event_op_cases[OF assms(3)] ops by auto
  qed
  ultimately show ?thesis unfolding proj_inv_def 2(5) by (rule doc_inv_ops)
qed (use assms(1) in simp)

lemma install_inv:
  "install n es lv after = (lv', after', ops) \<Longrightarrow>
   (\<And>k e. map_of after k = Some e \<Longrightarrow> is_obj e \<and> (isEntrySealed e \<or> k \<in> set lv)) \<Longrightarrow>
   map_of after' k = Some e \<Longrightarrow> is_obj e \<and> (isEntrySealed e \<or> k \<in> set lv')"
proof (induction n es lv after arbitrary: lv' after' ops rule: install.induct)
  case (2 n e0 es lv after)
  obtain lv'' after'' ops'' where r: "install (Suc n) es (removeAll (entry_id e0) lv)
      (AList.update (entry_id e0) (projectEntry e0 (of_nat n)) after) = (lv'', after'', ops'')"
    by (metis prod_cases3)
  then have eq: "lv' = lv''" "after' = after''" using "2.prems"(1) by (simp_all add: Let_def)
  have "is_obj e \<and> (isEntrySealed e \<or> k \<in> set lv'')"
  proof (rule "2.IH"[OF refl refl, of lv'' after'' ops''])
    show "install (Suc n) es (removeAll (entry_id (projectEntry e0 (of_nat n))) lv)
        (AList.update (entry_id (projectEntry e0 (of_nat n))) (projectEntry e0 (of_nat n)) after) = (lv'', after'', ops'')"
      using r by simp
    show "map_of after'' k = Some e" using "2.prems"(3) eq by simp
    fix k e assume "map_of (AList.update (entry_id (projectEntry e0 (of_nat n))) (projectEntry e0 (of_nat n)) after) k = Some e"
    then show "is_obj e \<and> (isEntrySealed e \<or> k \<in> set (removeAll (entry_id (projectEntry e0 (of_nat n))) lv))"
      using "2.prems"(2) by (auto split: if_splits)
  qed
  then show ?case using eq by simp
qed auto

lemma refresh_shape:
  assumes "refresh p snap = Some (patch, p')" "document p = mk_doc st es" "is_obj st" "snap_leafId snap \<noteq> JUndef"
  shows "\<exists>st'. document p' = mk_doc st' (refresh_after p snap) \<and> is_obj st'" "live p' = fst (installed p snap)"
proof -
  from assms(1) obtain leaf p2 ops3 st3 ops4 st4 ops5 st5 where
    r: "effectiveLeaf (refresh_vars p snap) (JObj (refresh_after p snap)) = Some (leaf, p2)"
      "statsStep (entry_ops p snap \<noteq> []) (JObj (refresh_after p snap)) leaf (doc_status (document p)) = Some (ops3, st3)"
      "nameStep (snap_entries snap) (JObj (refresh_after p snap)) st3 = (ops4, st4)"
      "leafStep leaf st4 = (ops5, st5)"
      "(patch, p') = (if entry_ops p snap @ ops3 @ ops4 @ ops5 = [] then (None, p2)
       else (Some (entry_ops p snap @ ops3 @ ops4 @ ops5), p2\<lparr>document := mk_doc st5 (refresh_after p snap)\<rparr>))"
    by (rule refresh_cases)
  have leaf: "leaf \<noteq> JUndef" using effectiveLeaf_leaf[OF r(1)] assms(4) by (auto simp: refresh_vars_def)
  have k: "document p2 = document p" "live p2 = fst (installed p snap)"
    using effectiveLeaf_keeps[OF r(1)] by (simp_all add: refresh_vars_def)
  have "is_obj st5"
    using statsStep_ops[OF r(2)] nameStep_ops[OF r(3)] leafStep_ops[OF r(4) _ leaf] assms(2,3) by auto
  moreover have "refresh_after p snap = es" if "entry_ops p snap = []"
  proof -
    obtain lv after ops where i: "installed p snap = (lv, after, ops)" by (metis prod_cases3)
    have e: "ops = []" "refresh_gone p snap = []" using that by (simp_all add: entry_ops_def i)
    then have "snap_entries snap = []" using install_Nil[OF i[unfolded installed_def]] by simp
    then show ?thesis using i e(2) assms(2) by (simp add: refresh_after_def installed_def drop_keys_def)
  qed
  ultimately show "\<exists>st'. document p' = mk_doc st' (refresh_after p snap) \<and> is_obj st'"
    using r(5) k assms(2,3) by (auto split: if_splits)
  show "live p' = fst (installed p snap)" using r(5) k by (auto split: if_splits)
qed

lemma refresh_inv:
  assumes "proj_inv p" "refresh p snap = Some (patch, p')" "snap_leafId snap \<noteq> JUndef"
  shows "proj_inv p'"
proof -
  obtain st es where d: "document p = mk_doc st es" "is_obj st"
      "\<And>k e. map_of es k = Some e \<Longrightarrow> is_obj e \<and> (isEntrySealed e \<or> k \<in> set (live p))"
    using assms(1) unfolding proj_inv_def doc_inv_def by blast
  obtain lv after ops where i: "installed p snap = (lv, after, ops)" by (metis prod_cases3)
  have "is_obj e \<and> (isEntrySealed e \<or> k \<in> set lv)" if "map_of (refresh_after p snap) k = Some e" for k e
    using that d install_inv[OF i[unfolded installed_def], of k e]
    by (simp add: refresh_after_def i map_of_drop_keys split: if_splits)
  then show ?thesis using refresh_shape[OF assms(2) d(1,2) assms(3)] i by (auto simp: proj_inv_def doc_inv_def)
qed

section \<open>Settling\<close>

lemma settle_result:
  assumes "proj_inv p" "settle p = Some (patch, p')" "document p = mk_doc st es" "list_all plain_key (live p)"
    and "piLeaf p \<noteq> JUndef"
  shows "\<exists>st'. document p' = mk_doc st' (drop_keys (settled_keys p) es) \<and> is_obj st' \<and>
      (patch \<noteq> None \<longrightarrow> status_leaf st' = piLeaf p)" "live p' = []"
    and "settled_keys p = filter (\<lambda>k. map_of es k \<noteq> None) (live p)"
proof -
  have st: "is_obj st" and ent: "\<And>k e. map_of es k = Some e \<Longrightarrow> is_obj e"
    using assms(1,3) by (auto simp: proj_inv_def doc_inv_def)
  show keys: "settled_keys p = filter (\<lambda>k. map_of es k \<noteq> None) (live p)"
    unfolding settled_keys_def using assms(3) ent by (intro filter_cong) (fastforce split: option.splits)+
  have plain: "list_all plain_key (settled_keys p)" using assms(4) by (auto simp: keys list_all_iff)
  show "\<exists>st'. document p' = mk_doc st' (drop_keys (settled_keys p) es) \<and> is_obj st' \<and>
      (patch \<noteq> None \<longrightarrow> status_leaf st' = piLeaf p)" and "live p' = []"
    using assms(2,3,5) st applyOps_remove_entries[OF plain, of st es]
    by (cases "piLeaf p"; auto simp: settle_def Let_def effectiveLeaf_def emit_def drop_keys_def applyPatch_def
        applyOp_status_fields status_leaf_def bind_eq_Some_conv split: if_splits)+
qed

section \<open>Reachable projections\<close>

text \<open>Any interleaving of refreshes, events and settles, as the session's actor issues them.\<close>

inductive proj_step :: "Proj \<Rightarrow> Proj \<Rightarrow> bool" where
  refreshed: "refresh p snap = Some (patch, p') \<Longrightarrow> snap_leafId snap \<noteq> JUndef \<Longrightarrow>
    list_all (\<lambda>e. plain_key (entry_id e)) (snap_entries snap) \<Longrightarrow> proj_step p p'"
| evented: "projectEvent p ev = Some (patch, p') \<Longrightarrow> pred_option plain_key (event_id ev) \<Longrightarrow> proj_step p p'"
| settled: "settle p = Some (patch, p') \<Longrightarrow> proj_step p p'"

inductive proj_reach :: "Proj \<Rightarrow> bool" where
  created: "is_obj st \<Longrightarrow> proj_reach (createEntryProjection (mk_doc st []))"
| stepped: "proj_reach p \<Longrightarrow> proj_step p p' \<Longrightarrow> proj_reach p'"

inductive_cases proj_stepE: "proj_step p p'"

lemma refresh_piLeaf: "refresh p snap = Some (patch, p') \<Longrightarrow> piLeaf p' = snap_leafId snap"
  by (erule refresh_cases) (auto simp: refresh_vars_def dest!: effectiveLeaf_keeps split: if_splits)

lemma projectEvent_live_leaf:
  assumes "projectEvent p ev = Some (patch, p')"
  shows "piLeaf p' = piLeaf p" "set (live p') \<subseteq> set (live p) \<union> set_option (event_id ev)"
  using assms
  by (auto simp: projectEvent_def Let_def emit_def bind_eq_Some_conv created_def add_live_def
      dest!: effectiveLeaf_keeps split: if_splits option.splits sum.splits)

lemma emit_keeps: "emit p ops = Some (patch, p') \<Longrightarrow> piLeaf p' = piLeaf p \<and> live p' = live p"
  by (auto simp: emit_def split: if_splits sum.splits)

lemma settle_live_leaf:
  assumes "settle p = Some (patch, p')"
  shows "piLeaf p' = piLeaf p" "live p' = []"
  using assms
  by (auto simp: settle_def Let_def effectiveLeaf_def bind_eq_Some_conv dest!: emit_keeps split: if_splits)

definition reach_inv :: "Proj \<Rightarrow> bool" where
  "reach_inv p \<longleftrightarrow> proj_inv p \<and> list_all plain_key (live p) \<and> piLeaf p \<noteq> JUndef"

lemma settle_inv: "reach_inv p \<Longrightarrow> settle p = Some (patch, p') \<Longrightarrow> proj_inv p'"
proof -
  assume inv: "reach_inv p" and s: "settle p = Some (patch, p')"
  then obtain st es where d: "document p = mk_doc st es"
    by (auto simp: reach_inv_def proj_inv_def doc_inv_def)
  have ent: "is_obj e \<and> (isEntrySealed e \<or> k \<in> set (live p))" if "map_of es k = Some e" for k e
    using inv d that by (auto simp: reach_inv_def proj_inv_def doc_inv_def)
  have p: "proj_inv p" "list_all plain_key (live p)" "piLeaf p \<noteq> JUndef" using inv by (auto simp: reach_inv_def)
  note r = settle_result[OF p(1) s d p(2,3)]
  obtain st' where d': "document p' = mk_doc st' (drop_keys (settled_keys p) es)" "is_obj st'" using r(1) by blast
  have "is_obj e \<and> isEntrySealed e" if "map_of (drop_keys (settled_keys p) es) k = Some e" for k e
    using that ent r(3) by (auto simp: map_of_drop_keys split: if_splits)
  then show "proj_inv p'" using d' by (auto simp: proj_inv_def doc_inv_def)
qed

lemma reach_inv: "proj_reach p \<Longrightarrow> reach_inv p"
proof (induction rule: proj_reach.induct)
  case (created st)
  then show ?case by (auto simp: reach_inv_def proj_inv_def doc_inv_def createEntryProjection_def)
next
  case (stepped p p')
  from stepped.hyps(2) show ?case
  proof (cases rule: proj_step.cases)
    case (refreshed snap patch)
    then have "set (live p') \<subseteq> set (live p)"
      using refresh_shape(2)[OF refreshed(1)] stepped.IH install_live[of "refresh_base p snap" "snap_entries snap"]
      by (cases "installed p snap") (fastforce simp: reach_inv_def proj_inv_def doc_inv_def installed_def)
    then show ?thesis using refreshed stepped.IH refresh_inv refresh_piLeaf by (auto simp: reach_inv_def list_all_iff)
  next
    case (evented ev patch)
    then have "plain_key i" if "event_id ev = Some i" for i using that by simp
    then show ?thesis using evented stepped.IH projectEvent_inv projectEvent_live_leaf[OF evented(1)]
      by (fastforce simp: reach_inv_def list_all_iff)
  next
    case (settled patch)
    then show ?thesis using stepped.IH settle_inv settle_live_leaf[OF settled] by (auto simp: reach_inv_def)
  qed
qed

section \<open>Properties\<close>

text \<open>
  \<^bold>\<open>Property C2.\<close>  A refresh and its patch agree: the document the projection holds afterwards is the one a
  mirror of the old document gets by applying the emitted patch, so mirrors stay in step although
  the refresh builds its entry map directly; without a patch nothing changed.
\<close>

theorem refresh_patch_exact:
  assumes "refresh p snap = Some (patch, p')" "document p = mk_doc st es" "is_obj st" "plain_ids p snap"
    and "snap_leafId snap \<noteq> JUndef"
  shows "document p' = applyOps (document p) (case patch of None \<Rightarrow> [] | Some ops \<Rightarrow> ops)"
  using assms by (rule refresh_document(1))

theorem refresh_patch_exact_witness:
  "\<exists>patch p'. refresh (createEntryProjection (mk_doc (JObj []) [])) (whole_log [sample_label] JNull 1) = Some (patch, p') \<and>
     document p' = applyOps (mk_doc (JObj []) []) (case patch of None \<Rightarrow> [] | Some ops \<Rightarrow> ops)"
proof -
  obtain patch p' where r: "refresh (createEntryProjection (mk_doc (JObj []) [])) (whole_log [sample_label] JNull 1) = Some (patch, p')"
    using bootstrap_returns[OF sample_log] by fastforce
  then show ?thesis using refresh_patch_exact[OF r _ _ sample_plain] by (fastforce simp: bootstrap_start)
qed

text \<open>
  \<^bold>\<open>Lemma.\<close>  What a refresh installs: every entry of the snapshot stands in the document as its sealed
  projection at its file position and is no live form any more; of the other entries a wholesale
  rewrite keeps exactly the live forms and an ordinary refresh keeps all.
\<close>

theorem refresh_installs:
  assumes "refresh p snap = Some (patch, p')" "document p = mk_doc st es" "is_obj st" "plain_ids p snap"
    and "snap_leafId snap \<noteq> JUndef" "distinct (map entry_id (snap_entries snap))"
  shows "(\<forall>i < length (snap_entries snap). map_of (props_of (doc_entries (document p'))) (entry_id (snap_entries snap ! i)) =
        Some (projectEntry (snap_entries snap ! i) (of_nat (refresh_base p snap + i)))) \<and>
     set (live p') = set (live p) - entry_id ` set (snap_entries snap) \<and>
     (\<forall>k. k \<notin> entry_id ` set (snap_entries snap) \<longrightarrow> map_of (props_of (doc_entries (document p'))) k =
        (if is_rewrite p snap \<and> k \<notin> set (live p) then None else map_of es k))"
proof -
  note d = refresh_document[OF assms(1-5)]
  obtain st' where doc: "document p' = mk_doc st' (refresh_after p snap)" using d(2) by blast
  obtain lv after ops where i: "installed p snap = (lv, after, ops)" by (metis prod_cases3)
  have "lv = filter (\<lambda>k. k \<notin> entry_id ` set (snap_entries snap)) (live p)"
    using i unfolding installed_def by (rule install_live)
  then have "set (live p') = set (live p) - entry_id ` set (snap_entries snap)" using d(3) i by auto
  then show ?thesis using doc refresh_after_installed[OF assms(6)] refresh_after_other[of _ snap p] assms(2) by simp
qed

theorem refresh_installs_witness:
  "\<exists>patch p'. refresh (createEntryProjection (mk_doc (JObj []) [])) (whole_log [sample_label] JNull 1) = Some (patch, p') \<and>
     map_of (props_of (doc_entries (document p'))) ''a'' = Some (projectEntry sample_label 0)"
proof -
  obtain patch p' where r: "refresh (createEntryProjection (mk_doc (JObj []) [])) (whole_log [sample_label] JNull 1) = Some (patch, p')"
    using bootstrap_returns[OF sample_log] by fastforce
  have "refresh_base (createEntryProjection (mk_doc (JObj []) [])) (whole_log [sample_label] JNull 1) = 0"
    by (simp add: refresh_base_def is_rewrite_def createEntryProjection_def)
  then show ?thesis using refresh_installs[OF r _ _ sample_plain] r by (fastforce simp: sample_id)
qed

text \<open>
  \<^bold>\<open>Lemma.\<close>  A refresh returns whenever parents precede their children in the merged entry map; in
  particular a first refresh over a whole session log always does, and then the document's entries
  are those of \<^verbatim>\<open>initFromEntries\<close> and the next read starts at the end of the log.
\<close>

theorem refresh_bootstrap:
  assumes "wf_log es" "list_all (\<lambda>e. plain_key (entry_id e)) es" "nullable is_str leaf" "is_obj st"
  shows "\<exists>patch p' doc. refresh (createEntryProjection (mk_doc st [])) (whole_log es leaf v) = Some (patch, p') \<and>
     initFromEntries es = Some doc \<and> doc_entries (document p') = doc_entries doc \<and>
     position p' = length es \<and> live p' = []"
proof -
  let ?p = "createEntryProjection (mk_doc st [])" and ?s = "whole_log es leaf v"
  obtain patch p' where r: "refresh ?p ?s = Some (patch, p')" using bootstrap_returns[OF assms(1,3)] by blast
  have ids: "plain_ids ?p ?s" using assms(2) by (simp add: plain_ids_def)
  have leaf: "snap_leafId ?s \<noteq> JUndef" using assms(3) by (auto simp: nullable_def)
  note d = refresh_document[OF r bootstrap_start(1) assms(4) ids leaf]
  have "doc_entries (document p') = JObj (log_entries 0 es)"
    using d(2) refresh_after_whole_log[OF assms(1)] by auto
  moreover obtain path where "branchPath (JObj (log_entries 0 es)) (deriveLeafId (JObj (log_entries 0 es))) = Some path"
    using branchPath_returns[OF log_ranked log_nullable, OF assms(1) assms(1)] log_leaf[OF assms(1)] by fastforce
  then obtain st' where "initFromEntries es = Some (mk_doc st' (log_entries 0 es))"
    using initEntryMap_log[of "[]" es 0] wf_logD(1)[OF assms(1)]
    by (simp add: initFromEntries_def deriveStatus_def deriveStats_def Let_def)
  moreover have "position p' = length es" using d(5) by (simp add: whole_log_def)
  moreover have "live p' = []"
    using d(3) install_live[of "refresh_base ?p ?s" es "[]" "[]"]
    by (cases "installed ?p ?s") (auto simp: installed_def mk_doc_def doc_entries_def)
  ultimately show ?thesis using r by fastforce
qed

theorem refresh_bootstrap_witness:
  "\<exists>patch p' doc. refresh (createEntryProjection (mk_doc (JObj []) [])) (whole_log [sample_label] (JStr ''a'') 1) = Some (patch, p') \<and>
     initFromEntries [sample_label] = Some doc \<and> doc_entries (document p') = doc_entries doc \<and>
     position p' = 1 \<and> live p' = []"
  using refresh_bootstrap[OF sample_log, of "JStr ''a''" "JObj []" 1] by (simp add: sample_id plain_key_def)

text \<open>
  \<^bold>\<open>Property C10.\<close>  A sealed entry is never written by an event: whatever live event the projection handles,
  delayed or repeated, every entry that was sealed before is the same afterwards.
\<close>

theorem projectEvent_keeps_sealed:
  assumes "projectEvent p ev = Some (patch, p')" "document p = mk_doc st es" "is_obj st"
    and "pred_option plain_key (event_id ev)" "map_of es k = Some e" "isEntrySealed e" "is_obj e"
  shows "map_of (props_of (doc_entries (document p'))) k = Some e"
  using assms(1)
proof (cases rule: projectEvent_cases)
  case (2 ops extra)
  have ops: "ops = eventOps (document p) ev" using 2(2) by (auto simp: applyEvent_def Let_def split: if_splits)
  have "list_all (touches (event_id ev)) ops" unfolding ops
    by (rule touches_event) (use assms(4) in simp)
  then have "list_all (touches (event_id ev)) (ops @ extra)" using 2(3) by auto
  moreover have "framed (event_id ev) es (document p)" using assms(2,3) by (auto simp: framed_def)
  ultimately have "framed (event_id ev) es (document p')" unfolding 2(5) by (intro framed_applyOps)
  moreover have "event_id ev \<noteq> Some k"
  proof
    assume "event_id ev = Some k"
    then have "contentEvent ev \<and> targetsSealed p ev"
      using assms(2,5,6,7) event_contentEvent by (cases e) (auto simp: targetsSealed_def)
    with 2(1) show False by simp
  qed
  ultimately show ?thesis using assms(5) by (auto simp: framed_def)
qed (use assms in simp)

theorem projectEvent_keeps_sealed_witness:
  "map_of (props_of (doc_entries (document (createEntryProjection (mk_doc (JObj []) [(''a'', JObj [])]))))) ''a'' = Some (JObj [])"
proof -
  let ?p = "createEntryProjection (mk_doc (JObj []) [(''a'', JObj [])])"
  have "projectEvent ?p (MessageUpdate (Some ''a'') (TextDelta 0 ''x'')) = Some (None, ?p)"
    by (simp add: projectEvent_def targetsSealed_def isEntrySealed_def)
  from projectEvent_keeps_sealed[OF this bootstrap_start(1), of "''a''" "JObj []"]
  show ?thesis by (simp add: plain_key_def isEntrySealed_def)
qed

text \<open>
  \<^bold>\<open>Lemma.\<close>  Live forms never outlive a settle: in every state the projection can reach by refreshes,
  events and settles in any order, an entry that is not sealed is a live form; settling removes
  every live form, leaves only sealed entries, keeps the sealed ones as they are and, when it
  changed anything, selects pi's leaf.
\<close>

theorem settle_drops_live_forms:
  assumes "proj_reach p" "settle p = Some (patch, p')"
  shows "(\<forall>k e. map_of (props_of (doc_entries (document p))) k = Some e \<longrightarrow> isEntrySealed e \<or> k \<in> set (live p)) \<and>
     live p' = [] \<and>
     (\<forall>k e. map_of (props_of (doc_entries (document p'))) k = Some e \<longrightarrow> isEntrySealed e) \<and>
     (\<forall>k. k \<notin> set (live p) \<longrightarrow>
        map_of (props_of (doc_entries (document p'))) k = map_of (props_of (doc_entries (document p))) k) \<and>
     (patch \<noteq> None \<longrightarrow> status_leaf (doc_status (document p')) = piLeaf p)"
proof -
  have inv: "reach_inv p" by (rule reach_inv[OF assms(1)])
  then obtain st es where d: "document p = mk_doc st es"
      "\<And>k e. map_of es k = Some e \<Longrightarrow> isEntrySealed e \<or> k \<in> set (live p)"
    by (auto simp: reach_inv_def proj_inv_def doc_inv_def)
  have "proj_inv p'" by (rule settle_inv[OF inv assms(2)])
  moreover have "live p' = []" by (rule settle_live_leaf[OF assms(2)])
  moreover obtain st' where "document p' = mk_doc st' (drop_keys (settled_keys p) es)"
      "patch \<noteq> None \<longrightarrow> status_leaf st' = piLeaf p"
    using settle_result(1)[OF _ assms(2) d(1)] inv by (auto simp: reach_inv_def)
  moreover have "set (settled_keys p) \<subseteq> set (live p)" by (auto simp: settled_keys_def)
  ultimately show ?thesis using d by (auto simp: proj_inv_def doc_inv_def map_of_drop_keys)
qed

theorem settle_drops_live_forms_witness:
  "live (createEntryProjection (mk_doc (JObj []) [])) = []"
proof -
  let ?p = "createEntryProjection (mk_doc (JObj []) [])"
  have "proj_reach ?p" by (rule proj_reach.created) simp
  moreover have "settle ?p = Some (None, ?p)"
    by (simp add: settle_def settled_keys_def createEntryProjection_def)
  ultimately show ?thesis using settle_drops_live_forms[of ?p None ?p] by blast
qed

end
