(* ===== verification/Codec.thy ===== *)
theory Codec
  imports Types
begin

text \<open>
  The compaction pair of one WebSocket, \<^verbatim>\<open>packages/bridge/src/core/compact-codec.ts\<close>.  A message on
  the wire is the value the receiver parses: the JSON form of a whole frame, or a bare string.  The
  contract of such a pair is the locale \<open>stream_codec\<close>; its client lemma is the round trip of whole
  streams, and the codec of the source is its interpretation.
\<close>

section \<open>Definitions\<close>

definition compactableFrame :: "jsv \<Rightarrow> bool" where
  "compactableFrame frame \<longleftrightarrow> jget frame ''kind'' = JStr ''patch'' \<and>
     (case jget frame ''ops'' of
        JArr [op] \<Rightarrow> (is_obj op \<or> is_arr op) \<and> jget op ''op'' = JStr ''append'' \<and>
          is_str (jget op ''path'') \<and> is_str (jget op ''value'')
      | _ \<Rightarrow> False)"

definition the_op :: "jsv \<Rightarrow> jsv" where
  "the_op frame = jget (jget frame ''ops'') (nat_str 0)"

definition shapeOf :: "jsv \<Rightarrow> jsv" where
  "shapeOf frame = jset ''ops'' (JArr [jdel ''value'' (the_op frame)]) frame"

text \<open>\<^verbatim>\<open>Object.keys(v).filter((k) => v[k] !== undefined)\<close> with the values; arrays have index keys.\<close>

fun defined_fields :: "jsv \<Rightarrow> props" where
  "defined_fields (JObj ps) = filter (\<lambda>p. snd p \<noteq> JUndef) ps"
| "defined_fields (JArr vs) = filter (\<lambda>p. snd p \<noteq> JUndef) (map (\<lambda>(i, v). (nat_str i, v)) (enumerate 0 vs))"
| "defined_fields _ = []"

lemma size_defined_fields [termination_simp]: "p \<in> set (defined_fields a) \<Longrightarrow> size (snd p) < size a"
proof (cases a)
  case (JArr vs)
  assume "p \<in> set (defined_fields a)"
  with JArr have "snd p \<in> set vs" by (auto simp: in_set_enumerate_eq)
  then show ?thesis using JArr size_list_estimation'[of "snd p" vs "size (snd p)" size] by simp
qed (auto dest: size_props_snd_less)

text \<open>
  The fields are compared in the order of \<open>a\<close>; enumeration order does not matter for the answer.
  On values that are not both objects the source compares with \<^verbatim>\<open>===\<close>.
\<close>

fun shapeEqual :: "jsv \<Rightarrow> jsv \<Rightarrow> bool" where
  "shapeEqual a b =
     (if (is_obj a \<or> is_arr a) \<and> (is_obj b \<or> is_arr b)
      then length (defined_fields a) = length (defined_fields b) \<and>
        list_all (\<lambda>p. (jhas b (fst p) \<or> map_of (defined_fields b) (fst p) \<noteq> None) \<and>
                      shapeEqual (snd p) (jget b (fst p))) (defined_fields a)
      else a = b)"

declare shapeEqual.simps [simp del]

type_synonym codec = "jsv option"

definition encode :: "codec \<Rightarrow> jsv \<Rightarrow> codec \<times> jsv" where
  "encode template frame =
     (if compactableFrame frame \<and> (case template of None \<Rightarrow> False | Some t \<Rightarrow> shapeEqual (shapeOf frame) (shapeOf t))
      then (template, jget (the_op frame) ''value'')
      else ((if compactableFrame frame then Some frame else template), json_norm frame))"

definition observe :: "codec \<Rightarrow> jsv \<Rightarrow> codec" where
  "observe template parsed = (if \<not> compactableFrame parsed then template else Some parsed)"

definition decode :: "codec \<Rightarrow> string \<Rightarrow> jsv option" where
  "decode template val =
     (case template of
        None \<Rightarrow> None
      | Some t \<Rightarrow> Some (jset ''ops'' (JArr [jset ''value'' (JStr val) (the_op t)]) t))"

text \<open>The receiving side of the transport handler: a bare string is decoded, anything else observed.\<close>

definition receive :: "codec \<Rightarrow> jsv \<Rightarrow> codec \<times> jsv option" where
  "receive template msg =
     (case msg of
        JStr s \<Rightarrow> (template, decode template s)
      | _ \<Rightarrow> (observe template msg, Some msg))"

section \<open>The contract of a stream codec\<close>

text \<open>One side of the pair over a whole stream: its state is threaded through the messages.\<close>

fun run_stream :: "('s \<Rightarrow> 'a \<Rightarrow> 's \<times> 'b) \<Rightarrow> 's \<Rightarrow> 'a list \<Rightarrow> 'b list" where
  "run_stream f s [] = []"
| "run_stream f s (x # xs) = snd (f s x) # run_stream f (fst (f s x)) xs"

locale stream_codec =
  fixes enc :: "'s \<Rightarrow> 'f \<Rightarrow> 's \<times> 'w"
    and dec :: "'r \<Rightarrow> 'w \<Rightarrow> 'r \<times> 'f option"
    and ok :: "'f \<Rightarrow> bool"
    and in_step :: "'s \<Rightarrow> 'r \<Rightarrow> bool"
    and same :: "'f \<Rightarrow> 'f \<Rightarrow> bool"
  assumes step: "ok f \<Longrightarrow> in_step s r \<Longrightarrow>
    in_step (fst (enc s f)) (fst (dec r (snd (enc s f)))) \<and>
    (\<exists>g. snd (dec r (snd (enc s f))) = Some g \<and> same g f)"
begin

lemma stream_roundtrip:
  "list_all ok fs \<Longrightarrow> in_step s r \<Longrightarrow>
   list_all2 (\<lambda>g f. \<exists>h. g = Some h \<and> same h f) (run_stream dec r (run_stream enc s fs)) fs"
proof (induction fs arbitrary: s r)
  case (Cons f fs)
  then show ?case using step[of f s r] by (auto simp: Let_def)
qed simp

end

section \<open>Values on the wire\<close>

definition norm_field :: "jsv \<Rightarrow> jsv" where
  "norm_field v = (if v = JUndef then JUndef else json_norm v)"

lemma distinct_map_filter_fst: "distinct (map fst ps) \<Longrightarrow> distinct (map fst (filter P ps))"
  by (induction ps) auto

lemma map_of_filter_map:
  "distinct (map fst ps) \<Longrightarrow>
   map_of (map (\<lambda>p. (fst p, g (snd p))) (filter (\<lambda>p. P (snd p)) ps)) k =
     (case map_of ps k of None \<Rightarrow> None | Some v \<Rightarrow> if P v then Some (g v) else None)"
proof (induction ps)
  case (Cons p ps)
  show ?case
  proof (cases "k = fst p \<and> \<not> P (snd p)")
    case True
    then have "k \<notin> fst ` set ps" using Cons.prems by simp
    then have "map_of ps k = None" by (simp add: map_of_eq_None_iff)
    with True Cons show ?thesis by (simp del: map_of_eq_Some_iff)
  next
    case False
    with Cons show ?thesis by (auto simp del: map_of_eq_Some_iff)
  qed
qed simp

lemma jget_json_norm: "wf_jsv (JObj ps) \<Longrightarrow> jget (json_norm (JObj ps)) k = norm_field (jget (JObj ps) k)"
  using map_of_filter_map[of ps json_norm "\<lambda>v. v \<noteq> JUndef" k]
  by (simp add: map_of_own_entries distinct_map_filter_fst comp_def norm_field_def
      split: option.split del: map_of_eq_Some_iff)

lemma wf_json_norm: "wf_jsv v \<Longrightarrow> wf_jsv (json_norm v)"
proof (induction v rule: json_norm.induct)
  case (3 ps)
  have "distinct (map fst (map (\<lambda>p. (fst p, json_norm (snd p))) (filter (\<lambda>p. snd p \<noteq> JUndef) ps)))"
    using 3 by (simp add: comp_def distinct_map_filter_fst)
  then show ?case using 3 by (auto simp: distinct_own_entries list_all_iff)
qed (auto simp: list_all_iff)

lemma json_norm_JStr [simp]: "json_norm v = JStr s \<longleftrightarrow> v = JStr s"
  by (cases v) auto

lemma is_obj_json_norm [simp]: "is_obj (json_norm v) = is_obj v"
  by (cases v) auto

lemma is_arr_json_norm [simp]: "is_arr (json_norm v) = is_arr v"
  by (cases v) auto

lemma json_norm_not_undef [simp]: "json_norm v \<noteq> JUndef"
  by (cases v) auto

text \<open>Sameness of objects without \<^verbatim>\<open>undefined\<close> fields is field by field.\<close>

definition no_undef :: "jsv \<Rightarrow> bool" where
  "no_undef v \<longleftrightarrow> list_all (\<lambda>p. snd p \<noteq> JUndef) (props_of v)"

lemma jget_undef_iff: "no_undef (JObj ps) \<Longrightarrow> jget (JObj ps) k = JUndef \<longleftrightarrow> map_of ps k = None"
  by (fastforce simp: no_undef_def list_all_iff split: option.splits dest: map_of_SomeD)

lemma js_same_undef: "js_same v w \<Longrightarrow> v = JUndef \<longleftrightarrow> w = JUndef"
  by (cases v; cases w) simp_all

lemma js_same_objI:
  assumes "wf_jsv (JObj ps)" "no_undef (JObj ps)" "no_undef (JObj qs)"
    and "\<And>k. js_same (jget (JObj ps) k) (jget (JObj qs) k)"
  shows "js_same (JObj ps) (JObj qs)"
proof -
  have dom: "map_of ps k = None \<longleftrightarrow> map_of qs k = None" for k
    using jget_undef_iff[OF assms(2), of k] jget_undef_iff[OF assms(3), of k]
      js_same_undef[OF assms(4), of k] by blast
  then have "fst ` set ps = fst ` set qs" by (metis domIff dom_map_of_conv_image_fst subsetI subset_antisym)
  moreover have "case map_of qs (fst p) of None \<Rightarrow> False | Some w \<Rightarrow> js_same (snd p) w" if "p \<in> set ps" for p
  proof -
    have p: "map_of ps (fst p) = Some (snd p)" using that assms(1) by simp
    then have "map_of qs (fst p) \<noteq> None" using dom[of "fst p"] by simp
    then show ?thesis using assms(4)[of "fst p"] p by auto
  qed
  ultimately show ?thesis by auto
qed

lemma no_undef_json_norm: "no_undef (json_norm v)"
  by (cases v) (auto simp: no_undef_def list_all_iff)

text \<open>Equal shapes define the same fields, and compare them pairwise.\<close>

lemma fields_jget:
  assumes "wf_jsv (JObj ps)"
  shows "(k, v) \<in> set (defined_fields (JObj ps)) \<longleftrightarrow> v \<noteq> JUndef \<and> jget (JObj ps) k = v"
proof -
  have "(k, v) \<in> set ps \<longleftrightarrow> map_of ps k = Some v" using assms by simp
  then show ?thesis by (auto split: option.splits simp del: map_of_eq_Some_iff)
qed

lemma shapeEqual_fields:
  assumes "shapeEqual (JObj ps) (JObj qs)" "wf_jsv (JObj ps)" "wf_jsv (JObj qs)"
  shows "jget (JObj ps) k = JUndef \<longleftrightarrow> jget (JObj qs) k = JUndef"
    and "jget (JObj ps) k \<noteq> JUndef \<Longrightarrow> shapeEqual (jget (JObj ps) k) (jget (JObj qs) k)"
proof -
  let ?A = "defined_fields (JObj ps)" and ?B = "defined_fields (JObj qs)"
  have len: "length ?A = length ?B" and all: "list_all (\<lambda>p. shapeEqual (snd p) (jget (JObj qs) (fst p))) ?A"
    using assms(1) by (auto simp: shapeEqual.simps[of "JObj ps"] list_all_iff)
  have undef: "\<not> shapeEqual v JUndef" if "v \<noteq> JUndef" for v
    using that by (simp add: shapeEqual.simps[of v])
  have sub: "fst ` set ?A \<subseteq> fst ` set ?B"
  proof
    fix k assume "k \<in> fst ` set ?A"
    then obtain v where v: "(k, v) \<in> set ?A" by auto
    then have "shapeEqual v (jget (JObj qs) k)" "v \<noteq> JUndef" using all by (auto simp: list_all_iff)
    then have "(k, jget (JObj qs) k) \<in> set ?B" using undef fields_jget[OF assms(3)] by metis
    then show "k \<in> fst ` set ?B" by force
  qed
  have "distinct (map fst ?A)" "distinct (map fst ?B)"
    using assms(2,3) by (simp_all add: distinct_map_filter_fst)
  then have "card (fst ` set ?A) = length ?A" "card (fst ` set ?B) = length ?B"
    by (metis distinct_card length_map list.set_map)+
  then have eq: "fst ` set ?A = fst ` set ?B" using sub len by (metis card_subset_eq finite_imageI finite_set)
  have dk: "jget (JObj ps) k \<noteq> JUndef \<longleftrightarrow> k \<in> fst ` set ?A" "jget (JObj qs) k \<noteq> JUndef \<longleftrightarrow> k \<in> fst ` set ?B" for k
    using fields_jget[OF assms(2)] fields_jget[OF assms(3)] by (force simp del: jget.simps defined_fields.simps)+
  show "jget (JObj ps) k = JUndef \<longleftrightarrow> jget (JObj qs) k = JUndef" using dk eq by blast
  assume "jget (JObj ps) k \<noteq> JUndef"
  then have "(k, jget (JObj ps) k) \<in> set ?A" using fields_jget[OF assms(2)] by blast
  then show "shapeEqual (jget (JObj ps) k) (jget (JObj qs) k)" using all by (auto simp: list_all_iff simp del: jget.simps)
qed

section \<open>Equal shapes on the wire\<close>

text \<open>
  Frames as the protocol has them: no arrays outside \<^verbatim>\<open>ops\<close>, so that the comparison of keys cannot
  confuse an array with an object.
\<close>

fun no_arrays :: "jsv \<Rightarrow> bool" where
  "no_arrays (JArr vs) = False"
| "no_arrays (JObj ps) = list_all (\<lambda>p. no_arrays (snd p)) ps"
| "no_arrays _ = True"

lemma no_arrays_not_arr: "no_arrays v \<Longrightarrow> \<not> is_arr v"
  by (cases v) auto

lemma no_arrays_jget: "no_arrays v \<Longrightarrow> is_obj v \<Longrightarrow> no_arrays (jget v k)"
  by (cases v) (fastforce simp: list_all_iff split: option.split dest!: map_of_SomeD)+

lemma jget_norm_wf: "wf_jsv v \<Longrightarrow> is_obj v \<Longrightarrow> jget (json_norm v) k = norm_field (jget v k)"
  by (cases v) (simp_all add: jget_json_norm del: json_norm.simps jget.simps)

lemma js_same_norm_objI:
  assumes "is_obj v" "is_obj w" "wf_jsv v" "wf_jsv w"
    and "\<And>k. js_same (norm_field (jget v k)) (norm_field (jget w k))"
  shows "js_same (json_norm v) (json_norm w)"
proof -
  obtain ps qs where n: "json_norm v = JObj ps" "json_norm w = JObj qs"
    using assms(1,2) is_obj_json_norm[of v] is_obj_json_norm[of w] by (auto elim!: is_obj.elims)
  show ?thesis unfolding n
    using assms n wf_json_norm[of v] no_undef_json_norm[of v] no_undef_json_norm[of w]
      jget_norm_wf[of v] jget_norm_wf[of w]
    by (intro js_same_objI) (simp_all del: jget.simps)
qed

lemma shapeEqual_same:
  "shapeEqual a b \<Longrightarrow> wf_jsv a \<Longrightarrow> wf_jsv b \<Longrightarrow> no_arrays a \<Longrightarrow> no_arrays b \<Longrightarrow>
   js_same (json_norm b) (json_norm a)"
proof (induction a b rule: shapeEqual.induct)
  case (1 a b)
  show ?case
  proof (cases "is_obj a \<and> is_obj b")
    case True
    then obtain ps qs where ab: "a = JObj ps" "b = JObj qs" by (auto elim!: is_obj.elims)
    have "js_same (norm_field (jget b k)) (norm_field (jget a k))" for k
    proof (cases "jget a k = JUndef")
      case True
      then have "jget b k = JUndef" using shapeEqual_fields(1)[of ps qs k] "1.prems" ab by simp
      with True show ?thesis by (simp add: norm_field_def)
    next
      case False
      then have sk: "shapeEqual (jget a k) (jget b k)" "jget b k \<noteq> JUndef"
        using shapeEqual_fields[of ps qs k] "1.prems" ab by auto
      have mem: "(k, jget a k) \<in> set (defined_fields a)" using fields_jget[of ps k] "1.prems"(2) ab False by metis
      have "js_same (json_norm (jget b k)) (json_norm (jget a k))"
        using "1.IH"[OF _ mem] sk(1) True "1.prems" by (simp add: wf_jget no_arrays_jget)
      then show ?thesis using False sk(2) by (simp add: norm_field_def)
    qed
    then show ?thesis using True "1.prems" by (intro js_same_norm_objI) auto
  next
    case False
    then have "a = b" using "1.prems" by (auto simp: shapeEqual.simps[of a b] dest: no_arrays_not_arr)
    then show ?thesis using "1.prems"(2) by (simp add: js_same_refl wf_json_norm)
  qed
qed

section \<open>The pair in step\<close>

definition wire_frame :: "jsv \<Rightarrow> bool" where
  "wire_frame f \<longleftrightarrow> is_obj f \<and> wf_jsv f \<and>
     (compactableFrame f \<longrightarrow> (\<forall>k. k \<noteq> ''ops'' \<longrightarrow> no_arrays (jget f k)) \<and> no_arrays (the_op f))"

lemma compactable_op:
  assumes "compactableFrame f" "wire_frame f"
  shows "jget f ''ops'' = JArr [the_op f] \<and> is_obj (the_op f) \<and> is_str (jget (the_op f) ''value'') \<and> wf_jsv (the_op f)"
proof -
  obtain op where op: "jget f ''ops'' = JArr [op]" "is_obj op \<or> is_arr op" "is_str (jget op ''value'')"
    using assms(1) by (auto simp: compactableFrame_def split: jsv.splits list.splits)
  have "wf_jsv (jget f ''ops'')" using assms(2) by (simp add: wire_frame_def wf_jget)
  moreover have "is_obj op" using op assms by (cases op) (auto simp: wire_frame_def the_op_def)
  ultimately show ?thesis using op by (simp add: the_op_def)
qed

lemma norm_field_simps [simp]:
  "norm_field JUndef = JUndef" "norm_field JNull = JNull" "norm_field (JBool b) = JBool b"
  "norm_field (JNum n) = JNum n" "norm_field (JStr s) = JStr s" "norm_field (JArr vs) = JArr (map json_norm vs)"
  "norm_field (JObj ps) = json_norm (JObj ps)"
  by (simp_all add: norm_field_def)

lemma norm_field_str: "norm_field v = JStr s \<longleftrightarrow> v = JStr s" "is_str (norm_field v) = is_str v"
  by (cases v; simp add: norm_field_def)+

lemma jget_norm_str:
  assumes "wf_jsv op" "is_obj op \<or> is_arr op" "\<not> canon_nat k"
  shows "jget (json_norm op) k = JStr s \<longleftrightarrow> jget op k = JStr s" "is_str (jget (json_norm op) k) \<longleftrightarrow> is_str (jget op k)"
proof -
  have "jget (json_norm op) k = norm_field (jget op k)" if "is_obj op" using assms(1) that by (rule jget_norm_wf)
  moreover have "jget (json_norm op) k = jget op k" if "is_arr op" using that assms(3) by (cases op) simp_all
  ultimately show "jget (json_norm op) k = JStr s \<longleftrightarrow> jget op k = JStr s"
      "is_str (jget (json_norm op) k) \<longleftrightarrow> is_str (jget op k)"
    using assms(2) by (metis norm_field_str)+
qed

lemma compactable_norm: "is_obj f \<Longrightarrow> wf_jsv f \<Longrightarrow> compactableFrame (json_norm f) = compactableFrame f"
proof -
  assume f: "is_obj f" "wf_jsv f"

  have keys: "\<not> canon_nat ''op''" "\<not> canon_nat ''path''" "\<not> canon_nat ''value''"
    by (simp_all add: not_canon_nat is_digit_def)
  have "wf_jsv (jget f ''ops'')" using f by (simp add: wf_jget)
  moreover have "jget (json_norm f) k = norm_field (jget f k)" for k using f by (simp add: jget_norm_wf)
  ultimately show ?thesis using keys
    by (cases "jget f ''ops''")
      (auto simp: compactableFrame_def norm_field_str jget_norm_str simp del: norm_field_simps(7) split: list.split,
       auto)
qed

definition in_step :: "codec \<Rightarrow> codec \<Rightarrow> bool" where
  "in_step s r \<longleftrightarrow> r = map_option json_norm s \<and> pred_option (\<lambda>t. wire_frame t \<and> compactableFrame t) s"

lemma the_op_norm:
  assumes "wire_frame t" "compactableFrame t"
  shows "the_op (json_norm t) = json_norm (the_op t)"
proof -
  have "jget t ''ops'' = JArr [the_op t]" using compactable_op[OF assms(2,1)] by blast
  moreover have "jget (json_norm t) ''ops'' = norm_field (jget t ''ops'')"
    using assms(1) by (intro jget_norm_wf) (simp_all add: wire_frame_def)
  ultimately have "jget (json_norm t) ''ops'' = JArr [json_norm (the_op t)]" by (simp add: norm_field_def)
  then show ?thesis by (simp add: the_op_def[of "json_norm t"])
qed

lemma jget_shapeOf: "is_obj f \<Longrightarrow> jget (shapeOf f) k = (if k = ''ops'' then JArr [jdel ''value'' (the_op f)] else jget f k)"
  by (simp add: shapeOf_def)

lemma is_obj_shapeOf [simp]: "is_obj (shapeOf f) = is_obj f"
  by (simp add: shapeOf_def)

lemma wf_jset: "wf_jsv v \<Longrightarrow> wf_jsv x \<Longrightarrow> wf_jsv (jset k x v)"
proof (cases v)
  case (JObj ps)
  assume "wf_jsv v" "wf_jsv x"
  with JObj show ?thesis
    by (auto simp: distinct_update list_all_iff dest!: AList.update_Some_unfold[THEN iffD1] map_of_is_SomeI[rotated])
qed auto

lemma wf_jdel: "wf_jsv v \<Longrightarrow> wf_jsv (jdel k v)"
  by (cases v) (auto simp: list_all_iff AList.delete_eq distinct_map_filter_fst)

text \<open>The fields of two objects of equal shape are the same on the wire.\<close>

lemma field_same:
  assumes "shapeEqual a b" "is_obj a" "is_obj b" "wf_jsv a" "wf_jsv b" "no_arrays (jget a k)" "no_arrays (jget b k)"
  shows "js_same (norm_field (jget b k)) (norm_field (jget a k))"
proof -
  obtain ps qs where ab: "a = JObj ps" "b = JObj qs" using assms(2,3) by (auto elim!: is_obj.elims)
  note fields = shapeEqual_fields[of ps qs, folded ab, OF assms(1,4,5)]
  show ?thesis
  proof (cases "jget a k = JUndef")
    case True
    then show ?thesis using fields(1)[of k] by simp
  next
    case False
    have "js_same (json_norm (jget b k)) (json_norm (jget a k))"
      using assms by (intro shapeEqual_same fields(2) False) (simp_all add: wf_jget)
    then show ?thesis using False fields(1)[of k] by (simp add: norm_field_def)
  qed
qed

lemma js_same_jgetI:
  assumes "is_obj v" "is_obj w" "wf_jsv v" "no_undef v" "no_undef w" "\<And>k. js_same (jget v k) (jget w k)"
  shows "js_same v w"
proof -
  obtain ps qs where vw: "v = JObj ps" "w = JObj qs" using assms(1,2) by (auto elim!: is_obj.elims)
  show ?thesis unfolding vw by (rule js_same_objI) (use assms in \<open>simp_all only: vw\<close>)
qed

lemma no_undef_jset: "no_undef v \<Longrightarrow> x \<noteq> JUndef \<Longrightarrow> no_undef (jset k x v)"
proof (cases v)
  case (JObj ps)
  assume "no_undef v" "x \<noteq> JUndef"
  then show ?thesis using JObj by (induction ps arbitrary: v) (auto simp: no_undef_def)
qed (auto simp: no_undef_def)

text \<open>A compacted frame, decoded against the peer's template, is the frame.\<close>

lemma decoded_op_same:
  assumes "wire_frame f" "compactableFrame f" "wire_frame t" "compactableFrame t"
    and eq: "shapeEqual (jdel ''value'' (the_op f)) (jdel ''value'' (the_op t))"
    and v: "jget (the_op f) ''value'' = JStr v"
  shows "js_same (jset ''value'' (JStr v) (json_norm (the_op t))) (json_norm (the_op f))"
proof (rule js_same_jgetI)
  note fo = compactable_op[OF assms(2,1)] and to = compactable_op[OF assms(4,3)]
  show "is_obj (jset ''value'' (JStr v) (json_norm (the_op t)))" "is_obj (json_norm (the_op f))" using fo to by simp_all
  show "wf_jsv (jset ''value'' (JStr v) (json_norm (the_op t)))" using to by (simp add: wf_jset wf_json_norm)
  show "no_undef (jset ''value'' (JStr v) (json_norm (the_op t)))" "no_undef (json_norm (the_op f))"
    by (simp_all add: no_undef_jset no_undef_json_norm)
  fix k
  have na: "no_arrays (jget (jdel ''value'' (the_op f)) k)" "no_arrays (jget (jdel ''value'' (the_op t)) k)"
    using fo to assms by (simp_all add: wire_frame_def no_arrays_jget)
  have "js_same (norm_field (jget (jdel ''value'' (the_op t)) k)) (norm_field (jget (jdel ''value'' (the_op f)) k))"
    using fo to na by (intro field_same[OF eq]) (simp_all add: wf_jdel)
  then show "js_same (jget (jset ''value'' (JStr v) (json_norm (the_op t))) k) (jget (json_norm (the_op f)) k)"
    using fo to v by (cases "k = ''value''") (simp_all add: jget_norm_wf)
qed

lemma decode_same:
  assumes f: "wire_frame f" "compactableFrame f" and t: "wire_frame t" "compactableFrame t"
    and eq: "shapeEqual (shapeOf f) (shapeOf t)" and v: "jget (the_op f) ''value'' = JStr v"
  shows "js_same (jset ''ops'' (JArr [jset ''value'' (JStr v) (json_norm (the_op t))]) (json_norm t)) (json_norm f)"
proof (rule js_same_jgetI)
  let ?a = "jdel ''value'' (the_op f)" and ?b = "jdel ''value'' (the_op t)"
  let ?op = "jset ''value'' (JStr v) (json_norm (the_op t))"
  note fo = compactable_op[OF f(2,1)] and to = compactable_op[OF t(2,1)]
  have fw: "is_obj f" "wf_jsv f" "wf_jsv (shapeOf f)" and tw: "is_obj t" "wf_jsv t" "wf_jsv (shapeOf t)"
    using f(1) t(1) fo to by (auto simp: wire_frame_def shapeOf_def intro!: wf_jset wf_jdel)
  show "is_obj (jset ''ops'' (JArr [?op]) (json_norm t))" "is_obj (json_norm f)" using fw tw by simp_all
  show "wf_jsv (jset ''ops'' (JArr [?op]) (json_norm t))" using tw to by (simp add: wf_jset wf_json_norm)
  show "no_undef (jset ''ops'' (JArr [?op]) (json_norm t))" "no_undef (json_norm f)"
    by (simp_all add: no_undef_jset no_undef_json_norm)
  fix k
  show "js_same (jget (jset ''ops'' (JArr [?op]) (json_norm t)) k) (jget (json_norm f) k)"
  proof (cases "k = ''ops''")
    case True
    obtain ps qs where pq: "shapeOf f = JObj ps" "shapeOf t = JObj qs"
      using fw(1) tw(1) is_obj_shapeOf by (metis is_obj.elims(2))
    from shapeEqual_fields(2)[OF eq[unfolded pq] fw(3)[unfolded pq] tw(3)[unfolded pq], folded pq, of "''ops''"]
    have "shapeEqual (JArr [?a]) (JArr [?b])" using fw(1) tw(1) by (simp add: jget_shapeOf)
    then have "shapeEqual ?a ?b"
      using fo to by (auto simp: shapeEqual.simps[of "JArr [?a]"] shapeEqual.simps[of JUndef] split: if_splits)
    then have "js_same ?op (json_norm (the_op f))" by (rule decoded_op_same[OF f t _ v])
    then show ?thesis using True fw tw fo by (simp add: jget_norm_wf)
  next
    case False
    have "js_same (norm_field (jget (shapeOf t) k)) (norm_field (jget (shapeOf f) k))"
      using fw tw f t False by (intro field_same[OF eq]) (simp_all add: jget_shapeOf wire_frame_def)
    then show ?thesis using False fw tw by (simp add: jget_shapeOf jget_norm_wf)
  qed
qed

lemma codec_step:
  assumes f: "wire_frame f" and io: "in_step s r"
  shows "in_step (fst (encode s f)) (fst (receive r (snd (encode s f)))) \<and>
    (\<exists>g. snd (receive r (snd (encode s f))) = Some g \<and> js_same g (json_norm f))"
proof (cases "compactableFrame f \<and> (case s of None \<Rightarrow> False | Some t \<Rightarrow> shapeEqual (shapeOf f) (shapeOf t))")
  case True
  then obtain t where t: "s = Some t" "shapeEqual (shapeOf f) (shapeOf t)" and c: "compactableFrame f"
    by (auto split: option.splits)
  have tw: "wire_frame t" "compactableFrame t" and r: "r = Some (json_norm t)" using io t(1) by (auto simp: in_step_def)
  obtain v where v: "jget (the_op f) ''value'' = JStr v"
    using compactable_op[OF c f] by (auto elim!: is_str.elims)
  show ?thesis using True t c r io v decode_same[OF f c tw t(2) v]
    by (simp add: encode_def receive_def decode_def the_op_norm[OF tw])
next
  case False
  have o: "is_obj f" "wf_jsv f" using f by (simp_all add: wire_frame_def)
  then obtain ps where n: "json_norm f = JObj ps" by (metis is_obj.elims(2) is_obj_json_norm)
  then have "receive r (json_norm f) = (observe r (json_norm f), Some (json_norm f))" by (simp add: receive_def)
  moreover have "snd (encode s f) = json_norm f" "fst (encode s f) = (if compactableFrame f then Some f else s)"
    using False by (auto simp: encode_def)
  moreover have "in_step (if compactableFrame f then Some f else s) (observe r (json_norm f))"
    using io f by (auto simp: observe_def compactable_norm[OF o] in_step_def)
  ultimately show ?thesis using o by (simp add: js_same_refl wf_json_norm)
qed

interpretation compact: stream_codec encode receive wire_frame in_step "\<lambda>g f. js_same g (json_norm f)"
  by unfold_locales (rule codec_step)

lemma shapeEqual_refl: "wf_jsv v \<Longrightarrow> shapeEqual v v"
proof (induction v rule: wf_jsv.induct)
  case (1 vs)
  have "map_of (defined_fields (JArr vs)) (fst p) \<noteq> None" if "p \<in> set (defined_fields (JArr vs))" for p
    using that by (metis image_eqI map_of_eq_None_iff)
  moreover have "shapeEqual (snd p) (jget (JArr vs) (fst p))" if mem: "p \<in> set (defined_fields (JArr vs))" for p
  proof -
    obtain i where "i < length vs" "p = (nat_str i, vs ! i)"
      using mem by (auto simp: in_set_enumerate_eq)
    then show ?thesis using 1 by (simp add: list_all_iff)
  qed
  ultimately show ?case
    by (subst shapeEqual.simps) (simp add: list_all_iff del: defined_fields.simps jget.simps)
next
  case (2 ps)
  have "map_of ps (fst p) = Some (snd p)" if "p \<in> set ps" for p using that 2 by simp
  with 2 show ?case by (subst shapeEqual.simps) (auto simp: list_all_iff simp del: map_of_eq_Some_iff)
qed (simp_all add: shapeEqual.simps)

section \<open>Properties\<close>

text \<open>
  \<^bold>\<open>Property C9.\<close>  Compaction is lossless: for every stream of protocol frames, encoding each with the
  sender's template and decoding in order with the receiver's gives, for each frame, the JSON form
  the full encoder would have sent, up to key order; no frame is lost or refused.
\<close>

theorem compact_stream_roundtrip:
  assumes "list_all wire_frame fs"
  shows "list_all2 (\<lambda>g f. \<exists>h. g = Some h \<and> js_same h (json_norm f))
     (run_stream receive None (run_stream encode None fs)) fs"
  by (rule compact.stream_roundtrip[OF assms]) (simp add: in_step_def)

theorem compact_stream_roundtrip_witness:
  "list_all2 (\<lambda>g f. \<exists>h. g = Some h \<and> js_same h (json_norm f))
     (run_stream receive None (run_stream encode None
       [JObj [(''kind'', JStr ''hello'')], JObj [(''kind'', JStr ''other'')]]))
     [JObj [(''kind'', JStr ''hello'')], JObj [(''kind'', JStr ''other'')]]"
  by (rule compact_stream_roundtrip) (simp add: wire_frame_def compactableFrame_def)

text \<open>
  \<^bold>\<open>Lemma.\<close>  A run is compacted: after a compactable frame travelled in full, a frame that differs
  from it at most in the appended value travels as that value alone, and the template stays.
\<close>

theorem encode_compacts_run:
  assumes "compactableFrame f" "compactableFrame g" "shapeOf g = shapeOf f" "wf_jsv (shapeOf f)"
  shows "encode (fst (encode None f)) g = (Some f, jget (the_op g) ''value'')"
  using assms shapeEqual_refl by (simp add: encode_def)

theorem encode_compacts_run_witness:
  "encode (Some (JObj [(''kind'', JStr ''patch''),
        (''ops'', JArr [JObj [(''op'', JStr ''append''), (''path'', JStr ''/p''), (''value'', JStr ''a'')]])]))
     (JObj [(''kind'', JStr ''patch''),
        (''ops'', JArr [JObj [(''op'', JStr ''append''), (''path'', JStr ''/p''), (''value'', JStr ''b'')]])]) =
   (Some (JObj [(''kind'', JStr ''patch''),
        (''ops'', JArr [JObj [(''op'', JStr ''append''), (''path'', JStr ''/p''), (''value'', JStr ''a'')]])]), JStr ''b'')"
proof -
  let ?f = "\<lambda>v. JObj [(''kind'', JStr ''patch''),
        (''ops'', JArr [JObj [(''op'', JStr ''append''), (''path'', JStr ''/p''), (''value'', JStr v)]])]"
  have c: "compactableFrame (?f v)" for v by (simp add: compactableFrame_def)
  have s: "shapeOf (?f v) = JObj [(''kind'', JStr ''patch''),
        (''ops'', JArr [JObj [(''op'', JStr ''append''), (''path'', JStr ''/p'')]])]" for v
    by (simp add: shapeOf_def the_op_def AList.delete_eq)
  show ?thesis using encode_compacts_run[of "?f ''a''" "?f ''b''"] c s
    by (simp add: encode_def the_op_def)
qed

end
