(* ===== verification/Client.thy ===== *)
theory Client
  imports Lazy Codec
begin

text \<open>
  The client, \<^verbatim>\<open>packages/bridge/src/core/client.ts\<close>: the document mirror with its attachment generation,
  pull planning, the requests of the RPC verbs, and \<^verbatim>\<open>BridgeClient\<close>, whose callbacks and promises are
  recorded in the state (what was sent, how each call settled, which pushes were delivered).  The
  properties: frames of another attachment never touch the mirror, a protocol violation is reported
  once, and every call settles at most once.
\<close>

section \<open>The mirror\<close>

record Mirror =
  m_document :: jsv
  m_revision :: nat
  m_generation :: jsv

definition emptyMirror :: jsv where
  "emptyMirror = mk_doc
     (JObj [(''leafId'', JNull), (''name'', JStr ''''),
            (''model'', JObj [(''provider'', JStr ''''), (''modelId'', JStr '''')]),
            (''thinkingLevel'', JStr ''off''), (''isStreaming'', JBool False), (''isCompacting'', JBool False),
            (''stats'', JObj [(''tokens'', JObj [(''input'', JNum 0), (''output'', JNum 0), (''cacheRead'', JNum 0),
                                               (''cacheWrite'', JNum 0), (''total'', JNum 0)]),
                            (''cost'', JObj [(''total'', JNum 0)]), (''messages'', JNum 0)]),
            (''contextUsage'', JNull), (''pendingSteer'', JArr []), (''inFlightTools'', JObj [])])
     []"

definition newMirror :: "jsv option \<Rightarrow> Mirror" where
  "newMirror doc =
     \<lparr>m_document = (case doc of None \<Rightarrow> emptyMirror | Some d \<Rightarrow> d), m_revision = 0, m_generation = JNull\<rparr>"

definition setGeneration :: "Mirror \<Rightarrow> jsv \<Rightarrow> Mirror" where
  "setGeneration m g = m\<lparr>m_generation := g\<rparr>"

definition applyReplace :: "Mirror \<Rightarrow> jsv \<Rightarrow> Mirror" where
  "applyReplace m snapshot = m\<lparr>m_document := snapshot, m_revision := Suc (m_revision m)\<rparr>"

text \<open>An op that replaces an entry root that is already installed.\<close>

fun replaces_root :: "jsv \<Rightarrow> PatchOp \<Rightarrow> bool" where
  "replaces_root doc (AddOp path v) = (ENTRY_ROOT_RE path \<and> jget (doc_entries doc) (drop 9 path) \<noteq> JUndef)"
| "replaces_root doc (ReplaceOp path v) = (ENTRY_ROOT_RE path \<and> jget (doc_entries doc) (drop 9 path) \<noteq> JUndef)"
| "replaces_root doc op = False"

text \<open>The second component tells whether \<^verbatim>\<open>applyPatch\<close> threw; the revision has moved by then.\<close>

definition mirrorPatch :: "Mirror \<Rightarrow> PatchOp list \<Rightarrow> Mirror \<times> bool" where
  "mirrorPatch m ops =
     (let m' = m\<lparr>m_revision := m_revision m + length (filter (replaces_root (m_document m)) ops)\<rparr>
      in case applyPatch (m_document m) ops of
           Inl _ \<Rightarrow> (m', True)
         | Inr doc \<Rightarrow> (m'\<lparr>m_document := doc\<rparr>, False))"

record PullItem =
  pull_entryId :: string
  pull_fieldPath :: string

definition needsPull :: "Mirror \<Rightarrow> PullItem list \<Rightarrow> PullItem list" where
  "needsPull m pending = filter (\<lambda>w. nullish (getAtPath (m_document m) (pull_fieldPath w))) pending"

definition ingestPullResponse :: "Mirror \<Rightarrow> (string \<times> jsv) list \<Rightarrow> Mirror" where
  "ingestPullResponse m vals =
     m\<lparr>m_document := foldl (\<lambda>doc (fieldPath, v). setAtPath doc fieldPath v) (m_document m) vals\<rparr>"

fun dedupe :: "string set \<Rightarrow> PullItem list \<Rightarrow> PullItem list" where
  "dedupe seen [] = []"
| "dedupe seen (w # ws) =
     (if pull_fieldPath w \<in> seen then dedupe seen ws
      else w # dedupe (insert (pull_fieldPath w) seen) ws)"

definition planPull :: "PullItem list \<Rightarrow> Mirror \<Rightarrow> string set \<Rightarrow> PullItem list" where
  "planPull pending m loadingPaths =
     filter (\<lambda>w. pull_fieldPath w \<notin> loadingPaths) (needsPull m (dedupe {} pending))"

section \<open>Requests\<close>

text \<open>
  \<^verbatim>\<open>RpcRequestBody\<close>: one constructor per verb, with the arguments of the method that sends it.
\<close>

datatype RpcRequestBody =
    PromptRequest string "jsv list" "jsv option" "string option"
  | AbortRequest
  | DiscardSteerRequest
  | SetPinnedModelsRequest "jsv list"
  | RenameSessionRequest string
  | SetLabelRequest string string
  | NavigateRequest "string option"
  | RecoverTurnRequest
  | OpenSessionRequest string string "jsv option"
  | NewSessionRequest string string string "jsv list option" "jsv option" "string option"
  | ListSessionsRequest string "rat option" "jsv option"
  | ListActiveSessionsRequest
  | GetDaemonInfoRequest
  | AsrCredentialsRequest
  | TextPolishRequest string
  | PullRequest "PullItem list"
  | DetachRequest
  | CloseSessionRequest string string
  | ArchiveSessionRequest string string
  | ListFilesRequest string string
  | ReadFileRequest string "string option"
  | ListDirectoryRequest string "string option"
  | GitShowRequest string
  | GitBaseRequest string string
  | GitDiffRequest string string string
  | ConsoleRequest string "jsv list"

definition opt_prop :: "string \<Rightarrow> jsv option \<Rightarrow> props" where
  "opt_prop k v = (case v of None \<Rightarrow> [] | Some x \<Rightarrow> [(k, x)])"

fun request_body :: "RpcRequestBody \<Rightarrow> props" where
  "request_body (PromptRequest msg images model level) =
     [(''verb'', JStr ''prompt''), (''text'', JStr msg)] @
     (if images \<noteq> [] then [(''images'', JArr images)] else []) @
     opt_prop ''model'' model @ opt_prop ''thinkingLevel'' (map_option JStr level)"
| "request_body AbortRequest = [(''verb'', JStr ''abort'')]"
| "request_body DiscardSteerRequest = [(''verb'', JStr ''discardSteer'')]"
| "request_body (SetPinnedModelsRequest models) = [(''verb'', JStr ''setPinnedModels''), (''models'', JArr models)]"
| "request_body (RenameSessionRequest name) = [(''verb'', JStr ''renameSession''), (''name'', JStr name)]"
| "request_body (SetLabelRequest entryId label) =
     [(''verb'', JStr ''setLabel''), (''entryId'', JStr entryId), (''label'', JStr label)]"
| "request_body (NavigateRequest entryId) =
     [(''verb'', JStr ''navigate''), (''entryId'', case entryId of None \<Rightarrow> JNull | Some i \<Rightarrow> JStr i)]"
| "request_body RecoverTurnRequest = [(''verb'', JStr ''recoverTurn'')]"
| "request_body (OpenSessionRequest proj stm cursor) =
     [(''verb'', JStr ''openSession''), (''projectId'', JStr proj), (''stem'', JStr stm)] @ opt_prop ''cursor'' cursor"
| "request_body (NewSessionRequest proj msg operationId images model level) =
     [(''verb'', JStr ''newSession''), (''projectId'', JStr proj), (''text'', JStr msg),
      (''operationId'', JStr operationId)] @
     opt_prop ''images'' (map_option JArr images) @ opt_prop ''model'' model @
     opt_prop ''thinkingLevel'' (map_option JStr level)"
| "request_body (ListSessionsRequest proj maxi cursor) =
     [(''verb'', JStr ''listSessions''), (''projectId'', JStr proj)] @
     opt_prop ''max'' (map_option JNum maxi) @ opt_prop ''cursor'' cursor"
| "request_body ListActiveSessionsRequest = [(''verb'', JStr ''listActiveSessions'')]"
| "request_body GetDaemonInfoRequest = [(''verb'', JStr ''getDaemonInfo'')]"
| "request_body AsrCredentialsRequest = [(''verb'', JStr ''asrCredentials'')]"
| "request_body (TextPolishRequest msg) = [(''verb'', JStr ''textPolish''), (''text'', JStr msg)]"
| "request_body (PullRequest requests) =
     [(''verb'', JStr ''pull''),
      (''requests'', JArr (map (\<lambda>w. JObj [(''entryId'', JStr (pull_entryId w)),
                                         (''fieldPath'', JStr (pull_fieldPath w))]) requests))]"
| "request_body DetachRequest = [(''verb'', JStr ''detach'')]"
| "request_body (CloseSessionRequest proj stm) =
     [(''verb'', JStr ''closeSession''), (''projectId'', JStr proj), (''stem'', JStr stm)]"
| "request_body (ArchiveSessionRequest proj stm) =
     [(''verb'', JStr ''archiveSession''), (''projectId'', JStr proj), (''stem'', JStr stm)]"
| "request_body (ListFilesRequest proj pre) =
     [(''verb'', JStr ''listFiles''), (''projectId'', JStr proj), (''prefix'', JStr pre)]"
| "request_body (ReadFileRequest path state) =
     [(''verb'', JStr ''readFile''), (''path'', JStr path)] @ opt_prop ''state'' (map_option JStr state)"
| "request_body (ListDirectoryRequest path state) =
     [(''verb'', JStr ''listDirectory''), (''path'', JStr path)] @ opt_prop ''state'' (map_option JStr state)"
| "request_body (GitShowRequest commit) = [(''verb'', JStr ''gitShow''), (''commit'', JStr commit)]"
| "request_body (GitBaseRequest directory commit) =
     [(''verb'', JStr ''gitBase''), (''directory'', JStr directory), (''commit'', JStr commit)]"
| "request_body (GitDiffRequest directory old new) =
     [(''verb'', JStr ''gitDiff''), (''directory'', JStr directory), (''old'', JStr old), (''new'', JStr new)]"
| "request_body (ConsoleRequest level args) =
     [(''verb'', JStr ''console''), (''level'', JStr level), (''args'', JArr args)]"

section \<open>Ops on the wire\<close>

fun decodeOp :: "jsv \<Rightarrow> PatchOp option" where
  "decodeOp v =
     (let path = str_of (jget v ''path'') in
      if jget v ''op'' = JStr ''add'' then Some (AddOp path (jget v ''value''))
      else if jget v ''op'' = JStr ''replace'' then Some (ReplaceOp path (jget v ''value''))
      else if jget v ''op'' = JStr ''remove'' then Some (RemoveOp path)
      else if jget v ''op'' = JStr ''move'' then Some (MoveOp (str_of (jget v ''from'')) path)
      else if jget v ''op'' = JStr ''append''
        then Some (AppendOp path (str_of (jget v ''value'')) (jget v ''lazy'' = JBool True))
      else None)"

declare decodeOp.simps [simp del]

text \<open>\<^const>\<open>None\<close>: some op is of an unknown kind, on which \<^verbatim>\<open>applyOp\<close> throws.\<close>

fun decodeOps :: "jsv list \<Rightarrow> PatchOp list option" where
  "decodeOps [] = Some []"
| "decodeOps (v # vs) = do { op \<leftarrow> decodeOp v; ops \<leftarrow> decodeOps vs; Some (op # ops) }"

section \<open>The client\<close>

datatype protocol_violation = MalformedMessage | NoEstablishedRun | NotAFrame | UnknownFrameKind jsv

datatype settlement = Resolved jsv | Disconnected | SendFailed

text \<open>
  \<^verbatim>\<open>settled_calls\<close>, \<^verbatim>\<open>sent\<close>, \<^verbatim>\<open>pushed\<close> and \<^verbatim>\<open>reported\<close> record the effects: the promises settled (with the id
  of the call), the arguments of \<^verbatim>\<open>transport.send\<close>, of the push listener and of \<^verbatim>\<open>onProtocolError\<close>.
\<close>

record Client =
  mirror :: Mirror
  pending :: "string list"
  nextId :: nat
  codec :: codec
  violated :: bool
  sent :: "jsv list"
  settled_calls :: "(string \<times> settlement) list"
  pushed :: "jsv list"
  reported :: "protocol_violation list"

definition newClient :: Client where
  "newClient = \<lparr>mirror = newMirror None, pending = [], nextId = 0, codec = None, violated = False, sent = [],
     settled_calls = [], pushed = [], reported = []\<rparr>"

definition protocolError :: "Client \<Rightarrow> protocol_violation \<Rightarrow> Client" where
  "protocolError c message =
     (if violated c then c else c\<lparr>violated := True, reported := reported c @ [message]\<rparr>)"

text \<open>The pending record is deleted; a promise that has settled ignores a second settlement.\<close>

definition settle_call :: "Client \<Rightarrow> string \<Rightarrow> settlement \<Rightarrow> Client" where
  "settle_call c i r =
     c\<lparr>pending := removeAll i (pending c),
       settled_calls := (if i \<in> fst ` set (settled_calls c) then settled_calls c else settled_calls c @ [(i, r)])\<rparr>"

definition disconnect :: "Client \<Rightarrow> Client" where
  "disconnect c =
     c\<lparr>settled_calls := settled_calls c @ map (\<lambda>i. (i, Disconnected)) (pending c), pending := []\<rparr>"

text \<open>A live patch is admitted only from the attachment the mirror replicates.\<close>

definition admits :: "Mirror \<Rightarrow> jsv \<Rightarrow> bool" where
  "admits m push \<longleftrightarrow> \<not> (m_generation m = JNull \<or> jget push ''generation'' \<noteq> m_generation m)"

definition patchMirror :: "Mirror \<Rightarrow> jsv \<Rightarrow> Mirror \<times> bool" where
  "patchMirror m push =
     (let raw = arr_of (jget push ''ops'') in
      case decodeOps raw of
        None \<Rightarrow> (m\<lparr>m_revision := m_revision m +
                     length (filter (\<lambda>v. pred_option (replaces_root (m_document m)) (decodeOp v) \<and> decodeOp v \<noteq> None) raw)\<rparr>,
                 True)
      | Some ops \<Rightarrow> mirrorPatch m ops)"

text \<open>The mirror after one push frame, and whether the frame reaches the listener.\<close>

definition handlePush :: "Mirror \<Rightarrow> jsv \<Rightarrow> Mirror \<times> bool" where
  "handlePush m push =
     (if jget push ''kind'' = JStr ''replace''
      then (applyReplace (setGeneration m (jget push ''generation'')) (jget push ''document''), True)
      else if jget push ''kind'' = JStr ''patch''
      then (if jget push ''session'' \<noteq> JUndef
            then map_prod id Not (patchMirror (setGeneration m (jget push ''generation'')) push)
            else if \<not> admits m push then (m, False)
            else map_prod id Not (patchMirror m push))
      else (m, True))"

definition PUSH_KINDS :: "string list" where
  "PUSH_KINDS = [''replace'', ''patch'', ''sessions_changed'', ''active_sessions_changed'',
     ''pinned_models_changed'', ''session_closed'']"

definition known_kind :: "jsv \<Rightarrow> bool" where
  "known_kind msg \<longleftrightarrow> is_str (jget msg ''kind'') \<and> str_of (jget msg ''kind'') \<in> set PUSH_KINDS"

definition handleMessage :: "Client \<Rightarrow> jsv \<Rightarrow> Client" where
  "handleMessage c msg =
     (if jget msg ''id'' = JUndef
      then (if \<not> known_kind msg
            then protocolError c (UnknownFrameKind (jget msg ''kind''))
            else (case handlePush (mirror c) msg of
                    (m, deliver) \<Rightarrow>
                      c\<lparr>mirror := m, pushed := (if deliver then pushed c @ [msg] else pushed c)\<rparr>))
      else (case jget msg ''id'' of
              JStr i \<Rightarrow> if i \<in> set (pending c) then settle_call c i (Resolved msg) else c
            | _ \<Rightarrow> c))"

text \<open>The transport handler; the argument is what \<^verbatim>\<open>JSON.parse\<close> gave, or \<^const>\<open>None\<close> if it threw.\<close>

definition onMessage :: "Client \<Rightarrow> jsv option \<Rightarrow> Client" where
  "onMessage c data =
     (case data of
        None \<Rightarrow> protocolError c MalformedMessage
      | Some (JStr s) \<Rightarrow>
          (case decode (codec c) s of
             None \<Rightarrow> protocolError c NoEstablishedRun
           | Some frame \<Rightarrow> handleMessage c frame)
      | Some (JObj ps) \<Rightarrow> handleMessage (c\<lparr>codec := observe (codec c) (JObj ps)\<rparr>) (JObj ps)
      | Some _ \<Rightarrow> protocolError c NotAFrame)"

text \<open>
  One call.  \<^verbatim>\<open>transport.send\<close> is not under the client's control: it may deliver messages before it
  returns (an in-process link), and it may throw (a closed socket); both are arguments.
\<close>

definition call :: "Client \<Rightarrow> RpcRequestBody \<Rightarrow> jsv option list \<Rightarrow> bool \<Rightarrow> Client" where
  "call c body delivered throws =
     (let n = Suc (nextId c); i = nat_str n; request = JObj ((''id'', JStr i) # request_body body);
          c1 = c\<lparr>nextId := n, pending := pending c @ [i], sent := sent c @ [json_norm request]\<rparr>;
          c2 = foldl onMessage c1 delivered
      in if throws then settle_call c2 i SendFailed else c2)"

section \<open>Calls and their settlement\<close>

inductive client_step :: "Client \<Rightarrow> Client \<Rightarrow> bool" where
  step_call: "client_step c (call c body delivered throws)"
| step_message: "client_step c (onMessage c data)"
| step_disconnect: "client_step c (disconnect c)"

inductive client_reach :: "Client \<Rightarrow> bool" where
  reach_new: "client_reach newClient"
| reach_step: "client_reach c \<Longrightarrow> client_step c d \<Longrightarrow> client_reach d"

definition issued :: "Client \<Rightarrow> string list" where
  "issued c = map nat_str [1..<Suc (nextId c)]"

definition settled_ids :: "Client \<Rightarrow> string list" where
  "settled_ids c = map fst (settled_calls c)"

definition client_inv :: "Client \<Rightarrow> bool" where
  "client_inv c \<longleftrightarrow> distinct (pending c @ settled_ids c) \<and> set (pending c @ settled_ids c) = set (issued c) \<and>
     map (\<lambda>r. jget r ''id'') (sent c) = map JStr (issued c) \<and>
     length (reported c) \<le> 1 \<and> (violated c \<longleftrightarrow> reported c \<noteq> [])"

lemma inv_new: "client_inv newClient"
  by (simp add: client_inv_def newClient_def issued_def settled_ids_def)

lemma inv_protocolError: "client_inv c \<Longrightarrow> client_inv (protocolError c msg)"
  by (auto simp: client_inv_def protocolError_def issued_def settled_ids_def)

lemma inv_codec: "client_inv (c\<lparr>codec := k\<rparr>) = client_inv c"
  by (simp add: client_inv_def issued_def settled_ids_def)

lemma inv_settle:
  assumes "client_inv c" "i \<in> set (issued c)"
  shows "client_inv (settle_call c i r)"
proof -
  let ?d = "settle_call c i r"
  have "set (pending ?d @ settled_ids ?d) = insert i (set (pending c @ settled_ids c))"
    by (auto simp: settle_call_def settled_ids_def)
  moreover have "distinct (pending ?d @ settled_ids ?d)"
    using assms(1) by (auto simp: client_inv_def settle_call_def settled_ids_def distinct_removeAll)
  moreover have "issued ?d = issued c" by (simp add: settle_call_def issued_def)
  ultimately show ?thesis using assms by (simp add: client_inv_def settle_call_def insert_absorb)
qed

lemma inv_disconnect: "client_inv c \<Longrightarrow> client_inv (disconnect c)"
  by (auto simp: client_inv_def disconnect_def issued_def settled_ids_def comp_def)

lemma inv_handleMessage: "client_inv c \<Longrightarrow> client_inv (handleMessage c msg)"
proof (cases "jget msg ''id'' = JUndef")
  case True
  assume inv: "client_inv c"
  then have "client_inv (c\<lparr>mirror := m, pushed := p\<rparr>)" for m p
    by (simp add: client_inv_def issued_def settled_ids_def)
  with True inv show ?thesis by (simp add: handleMessage_def inv_protocolError split: prod.split)
next
  case False
  assume inv: "client_inv c"
  then have "set (pending c) \<subseteq> set (issued c)" by (auto simp: client_inv_def)
  with False inv show ?thesis by (auto simp: handleMessage_def inv_settle split: jsv.split)
qed

lemma inv_onMessage: "client_inv c \<Longrightarrow> client_inv (onMessage c data)"
  by (simp add: onMessage_def inv_protocolError inv_handleMessage inv_codec split: option.split jsv.split)

lemma nextId_onMessage [simp]: "nextId (onMessage c data) = nextId c"
  by (simp add: onMessage_def handleMessage_def protocolError_def settle_call_def
      split: option.split jsv.split prod.split)

lemma deliveries:
  "client_inv c \<Longrightarrow> client_inv (foldl onMessage c ds) \<and> nextId (foldl onMessage c ds) = nextId c"
  by (induction ds arbitrary: c) (simp_all add: inv_onMessage)

lemma request_keys: "distinct (map fst (request_body b)) \<and> ''id'' \<notin> fst ` set (request_body b)"
  by (cases b) (auto simp: opt_prop_def split: option.splits)

lemma request_id: "jget (json_norm (JObj ((''id'', JStr i) # request_body b))) ''id'' = JStr i"
proof -
  let ?qs = "(''id'', JStr i) # map (\<lambda>p. (fst p, json_norm (snd p))) (filter (\<lambda>p. snd p \<noteq> JUndef) (request_body b))"
  have "distinct (map fst ?qs)" using request_keys[of b] by (auto simp: comp_def distinct_map_filter_fst)
  from map_of_own_entries[OF this] show ?thesis by simp
qed

lemma inv_call: "client_inv c \<Longrightarrow> client_inv (call c body delivered throws)"
proof -
  assume inv: "client_inv c"
  let ?i = "nat_str (Suc (nextId c))"
  define c1 where "c1 = c\<lparr>nextId := Suc (nextId c), pending := pending c @ [?i],
    sent := sent c @ [json_norm (JObj ((''id'', JStr ?i) # request_body body))]\<rparr>"
  have fresh: "?i \<notin> set (issued c)" by (auto simp: issued_def)
  have "issued c1 = issued c @ [?i]" by (simp add: issued_def c1_def)
  moreover have "map (\<lambda>r. jget r ''id'') (sent c1) = map (\<lambda>r. jget r ''id'') (sent c) @ [JStr ?i]"
    using request_id[of ?i body] by (simp add: c1_def del: jget.simps json_norm.simps)
  moreover have "pending c1 = pending c @ [?i]" "settled_ids c1 = settled_ids c" "reported c1 = reported c"
    "violated c1 = violated c" by (simp_all add: c1_def settled_ids_def)
  moreover have "distinct ((pending c @ [?i]) @ settled_ids c)"
    using inv fresh by (auto simp: client_inv_def)
  ultimately have "client_inv c1" using inv by (simp add: client_inv_def Un_assoc)
  then have "client_inv (foldl onMessage c1 delivered)" "?i \<in> set (issued (foldl onMessage c1 delivered))"
    using deliveries[of c1 delivered] by (auto simp: issued_def c1_def)
  then show ?thesis by (simp add: call_def Let_def c1_def inv_settle)
qed

lemma reach_client_inv: "client_reach c \<Longrightarrow> client_inv c"
proof (induction rule: client_reach.induct)
  case (reach_step c d)
  then show ?case by (auto elim!: client_step.cases simp: inv_call inv_onMessage inv_disconnect)
qed (rule inv_new)

lemma reach_settles:
  assumes "client_reach c"
  shows "distinct (pending c @ settled_ids c)" "set (pending c @ settled_ids c) = set (issued c)"
    "length (reported c) \<le> 1"
  using reach_client_inv[OF assms] unfolding client_inv_def by blast+

section \<open>Frames over the compacting wire\<close>

lemma js_same_scalar: "js_same v w \<Longrightarrow> \<not> is_obj w \<Longrightarrow> \<not> is_arr w \<Longrightarrow> v = w"
  by (cases v; cases w) auto

lemma js_same_scalar_iff: "js_same v w \<Longrightarrow> \<not> is_obj x \<Longrightarrow> \<not> is_arr x \<Longrightarrow> v = x \<longleftrightarrow> w = x"
  by (cases v; cases w; cases x) auto

lemma js_same_jget:
  assumes "js_same v w" "is_obj w"
  shows "js_same (jget v k) (jget w k)"
proof -
  obtain qs where w: "w = JObj qs" using assms(2) by (auto elim!: is_obj.elims)
  with assms(1) obtain ps where v: "v = JObj ps" by (cases v) auto
  have keys: "fst ` set ps = fst ` set qs"
    and same: "\<And>p. p \<in> set ps \<Longrightarrow> case map_of qs (fst p) of None \<Rightarrow> False | Some w \<Rightarrow> js_same (snd p) w"
    using assms(1) v w by simp_all
  show ?thesis
  proof (cases "map_of ps k")
    case None
    then have "map_of qs k = None" using keys by (simp add: map_of_eq_None_iff)
    with None show ?thesis by (simp add: v w)
  next
    case (Some x)
    then have "(k, x) \<in> set ps" by (rule map_of_SomeD)
    from same[OF this] Some show ?thesis by (simp add: v w split: option.splits)
  qed
qed

lemma decodeOp_same:
  assumes same: "js_same v w" "is_obj w" and op: "jget w ''op'' = JStr ''append''"
    and strs: "is_str (jget w ''path'')" "is_str (jget w ''value'')"
  shows "decodeOp v = decodeOp w"
proof -
  have "jget v k = jget w k" if "is_str (jget w k)" for k
    using js_same_scalar[OF js_same_jget[OF same, of k]] that by (cases "jget w k") auto
  moreover have "jget v ''lazy'' = JBool True \<longleftrightarrow> jget w ''lazy'' = JBool True"
    using js_same_scalar_iff[OF js_same_jget[OF same, of "''lazy''"]] by simp
  ultimately show ?thesis using op strs by (simp add: decodeOp.simps)
qed

lemma compactable_append:
  assumes "compactableFrame f" "wire_frame f"
  shows "jget f ''kind'' = JStr ''patch''" "jget (the_op f) ''op'' = JStr ''append''" "is_str (jget (the_op f) ''path'')"
  using compactable_op[OF assms] assms(1) by (auto simp: compactableFrame_def)

lemma wire_frame_norm: "wire_frame f \<Longrightarrow> wf_jsv (json_norm f) \<and> is_obj (json_norm f)"
  by (simp add: wire_frame_def wf_json_norm)

text \<open>
  What the receiver decodes from a compacted frame may order the keys differently; the mirror does
  not see the difference.
\<close>

lemma same_push:
  assumes same: "js_same g f" "is_obj f" and kind: "jget f ''kind'' = JStr ''patch''"
    and ops: "jget f ''ops'' = JArr [w]" "is_obj w" "jget w ''op'' = JStr ''append''"
      "is_str (jget w ''path'')" "is_str (jget w ''value'')"
    and gen: "is_num (jget f ''generation'')"
  shows "handlePush m g = handlePush m f \<and> jget g ''kind'' = jget f ''kind'' \<and>
    (jget g ''id'' = JUndef \<longleftrightarrow> jget f ''id'' = JUndef)"
proof -
  have "jget g ''kind'' = jget f ''kind''"
    using js_same_scalar[OF js_same_jget[OF same, of "''kind''"]] kind by simp
  moreover have "jget g ''generation'' = jget f ''generation''"
    using js_same_scalar[OF js_same_jget[OF same, of "''generation''"]] gen by (cases "jget f ''generation''") auto
  moreover have "jget g k = JUndef \<longleftrightarrow> jget f k = JUndef" for k
    using js_same_undef[OF js_same_jget[OF same, of k]] .
  moreover obtain v where v: "jget g ''ops'' = JArr [v]" "js_same v w"
    using js_same_jget[OF same, of "''ops''"] ops(1)
    by (cases "jget g ''ops''") (auto simp: length_Suc_conv)
  moreover have "decodeOp v = decodeOp w" using v(2) ops by (intro decodeOp_same)
  then have "patchMirror m' g = patchMirror m' f" for m'
    using v(1) ops(1) by (cases "decodeOp w") (simp_all add: patchMirror_def)
  ultimately show ?thesis using kind by (simp add: handlePush_def admits_def)
qed

text \<open>Push frames as the server sends them.\<close>

definition push_frame :: "jsv \<Rightarrow> bool" where
  "push_frame f \<longleftrightarrow> wire_frame f \<and> jget f ''id'' = JUndef \<and> known_kind f \<and>
     (jget f ''kind'' = JStr ''patch'' \<longrightarrow> is_num (jget f ''generation''))"

definition receive_push :: "Mirror \<Rightarrow> jsv \<Rightarrow> Mirror" where
  "receive_push m f = fst (handlePush m (json_norm f))"

lemma is_num_norm: "is_num (norm_field v) = is_num v"
  by (cases v) (simp_all add: norm_field_def)

lemma push_norm:
  assumes "push_frame f"
  shows "jget (json_norm f) ''id'' = JUndef" "known_kind (json_norm f)"
    "jget f ''kind'' = JStr ''patch'' \<Longrightarrow> is_num (jget (json_norm f) ''generation'')"
proof -
  have "jget (json_norm f) k = norm_field (jget f k)" for k
    using assms by (intro jget_norm_wf) (simp_all add: push_frame_def wire_frame_def)
  then show "jget (json_norm f) ''id'' = JUndef" "known_kind (json_norm f)"
    "jget f ''kind'' = JStr ''patch'' \<Longrightarrow> is_num (jget (json_norm f) ''generation'')"
    using assms by (auto simp: push_frame_def known_kind_def is_num_norm norm_field_str elim!: is_str.elims)
qed

lemma compacted_push:
  assumes f: "push_frame f" "compactableFrame f" and same: "js_same g (json_norm f)"
  shows "handlePush m g = handlePush m (json_norm f) \<and> known_kind g \<and> jget g ''id'' = JUndef"
proof -
  have w: "wire_frame f" using f(1) by (simp add: push_frame_def)
  note op = compactable_op[OF f(2) w] and app = compactable_append[OF f(2) w]
  have fields: "jget (json_norm f) k = norm_field (jget f k)" for k
    using w by (intro jget_norm_wf) (simp_all add: wire_frame_def)
  have ops: "jget (json_norm (the_op f)) k = norm_field (jget (the_op f) k)" for k
    using op by (intro jget_norm_wf) simp_all
  have "handlePush m g = handlePush m (json_norm f) \<and> jget g ''kind'' = jget (json_norm f) ''kind'' \<and>
    (jget g ''id'' = JUndef \<longleftrightarrow> jget (json_norm f) ''id'' = JUndef)"
    using w op app push_norm[OF f(1)]
    by (intro same_push[OF same, where w = "json_norm (the_op f)"])
      (simp_all add: wire_frame_def fields ops norm_field_str)
  then show ?thesis using push_norm[OF f(1)] by (simp add: known_kind_def)
qed

lemma handleMessage_push:
  "jget g ''id'' = JUndef \<Longrightarrow> known_kind g \<Longrightarrow>
   mirror (handleMessage c g) = fst (handlePush (mirror c) g) \<and> codec (handleMessage c g) = codec c \<and>
   reported (handleMessage c g) = reported c"
  by (simp add: handleMessage_def split: prod.split)

lemma onMessage_receive:
  assumes "receive (codec c) msg = (k, Some g)" "is_obj msg \<or> is_str msg"
  shows "onMessage c (Some msg) = handleMessage (c\<lparr>codec := k\<rparr>) g"
  using assms by (cases msg) (auto simp: receive_def onMessage_def)

lemma encode_msg: "wire_frame f \<Longrightarrow> is_obj (snd (encode s f)) \<or> is_str (snd (encode s f))"
  using compactable_op[of f] by (auto simp: encode_def wire_frame_def)

lemma uncompacted: "wire_frame f \<Longrightarrow> \<not> compactableFrame f \<Longrightarrow>
   snd (encode s f) = json_norm f \<and> snd (receive r (json_norm f)) = Some (json_norm f)"
  by (cases f) (auto simp: encode_def receive_def wire_frame_def)

lemma onMessage_push:
  assumes f: "push_frame f" and io: "in_step s (codec c)"
  shows "mirror (onMessage c (Some (snd (encode s f)))) = receive_push (mirror c) f \<and>
    in_step (fst (encode s f)) (codec (onMessage c (Some (snd (encode s f))))) \<and>
    reported (onMessage c (Some (snd (encode s f)))) = reported c"
proof -
  let ?m = "snd (encode s f)"
  have w: "wire_frame f" using f by (simp add: push_frame_def)
  obtain k g where r: "receive (codec c) ?m = (k, Some g)" and k: "in_step (fst (encode s f)) k"
    and g: "js_same g (json_norm f)"
    using codec_step[OF w io] by (metis prod.collapse)
  have "onMessage c (Some ?m) = handleMessage (c\<lparr>codec := k\<rparr>) g"
    using onMessage_receive[OF r encode_msg[OF w]] .
  moreover have "handlePush m g = handlePush m (json_norm f) \<and> known_kind g \<and> jget g ''id'' = JUndef" for m
  proof (cases "compactableFrame f")
    case True
    then show ?thesis using compacted_push[OF f True g] by blast
  next
    case False
    then have "g = json_norm f" using uncompacted[OF w False, of s "codec c"] r by simp
    then show ?thesis using push_norm[OF f] by simp
  qed
  ultimately show ?thesis using handleMessage_push[of g "c\<lparr>codec := k\<rparr>"] k by (simp add: receive_push_def)
qed

lemma stream_mirror:
  "list_all push_frame fs \<Longrightarrow> in_step s (codec c) \<Longrightarrow>
   mirror (foldl onMessage c (map Some (run_stream encode s fs))) = foldl receive_push (mirror c) fs \<and>
   reported (foldl onMessage c (map Some (run_stream encode s fs))) = reported c"
proof (induction fs arbitrary: s c)
  case (Cons f fs)
  then show ?case using onMessage_push[of f s c] by simp
qed simp

section \<open>Live frames\<close>

definition live_frame :: "jsv \<Rightarrow> bool" where
  "live_frame f \<longleftrightarrow> jget f ''kind'' = JStr ''patch'' \<and> jget f ''session'' = JUndef"

lemma generation_patchMirror: "m_generation (fst (patchMirror m f)) = m_generation m"
  by (simp add: patchMirror_def mirrorPatch_def Let_def split: option.split sum.split)

lemma live_generation: "live_frame f \<Longrightarrow> m_generation (fst (handlePush m f)) = m_generation m"
  by (simp add: handlePush_def live_frame_def generation_patchMirror)

lemma live_foreign:
  "live_frame f \<Longrightarrow> jget f ''generation'' \<noteq> m_generation m \<or> m_generation m = JNull \<Longrightarrow> handlePush m f = (m, False)"
  by (auto simp: handlePush_def live_frame_def admits_def)

lemma live_own:
  "live_frame f \<Longrightarrow> jget f ''generation'' = m_generation m \<Longrightarrow> m_generation m \<noteq> JNull \<Longrightarrow>
   fst (handlePush m f) = fst (patchMirror m f)"
  by (simp add: handlePush_def live_frame_def admits_def)

lemma live_norm:
  assumes "push_frame f" "live_frame f"
  shows "live_frame (json_norm f)" "jget (json_norm f) ''generation'' = jget f ''generation''"
proof -
  have fields: "jget (json_norm f) k = norm_field (jget f k)" for k
    using assms by (intro jget_norm_wf) (simp_all add: push_frame_def wire_frame_def)
  show "live_frame (json_norm f)" using assms(2) by (simp add: live_frame_def fields)
  show "jget (json_norm f) ''generation'' = jget f ''generation''"
    using assms by (cases "jget f ''generation''") (simp_all add: fields push_frame_def live_frame_def)
qed

lemma live_run:
  "list_all live_frame fs \<Longrightarrow>
   foldl (\<lambda>m f. fst (handlePush m f)) m fs =
   foldl (\<lambda>m f. fst (patchMirror m f)) m
     (filter (\<lambda>f. m_generation m \<noteq> JNull \<and> jget f ''generation'' = m_generation m) fs)"
proof (induction fs arbitrary: m)
  case (Cons f fs)
  show ?case
  proof (cases "m_generation m \<noteq> JNull \<and> jget f ''generation'' = m_generation m")
    case True
    then show ?thesis using Cons live_own[of f m] by (simp add: generation_patchMirror)
  next
    case False
    then show ?thesis using Cons live_foreign[of f m] by auto
  qed
qed simp

section \<open>Pull planning\<close>

lemma dedupe_paths: "distinct (map pull_fieldPath (dedupe seen ws)) \<and>
   set (map pull_fieldPath (dedupe seen ws)) = set (map pull_fieldPath ws) - seen"
  by (induction seen ws rule: dedupe.induct) auto

lemma dedupe_subset: "set (dedupe seen ws) \<subseteq> set ws"
  by (induction seen ws rule: dedupe.induct) auto

lemma distinct_map_filter: "distinct (map f xs) \<Longrightarrow> distinct (map f (filter P xs))"
  by (induction xs) auto

section \<open>Properties\<close>

text \<open>
  \<^bold>\<open>Property C8.\<close>  The compacting wire is invisible to the mirror: whatever push frames the server
  sends, in whatever order, encoding them for the socket and handling the received messages one by
  one leaves the client's mirror as if each frame had been handled in full, and reports no protocol
  violation.
\<close>

theorem wire_replication:
  assumes "list_all push_frame fs" "codec c = None"
  shows "mirror (foldl onMessage c (map Some (run_stream encode None fs))) = foldl receive_push (mirror c) fs \<and>
    reported (foldl onMessage c (map Some (run_stream encode None fs))) = reported c"
  using stream_mirror[OF assms(1), of None c] assms(2) by (simp add: in_step_def)

theorem wire_replication_witness:
  "let f = JObj [(''kind'', JStr ''patch''), (''generation'', JNum 1), (''ops'', JArr [])] in
   mirror (foldl onMessage newClient (map Some (run_stream encode None [f, f]))) = foldl receive_push (newMirror None) [f, f]"
  using wire_replication[of "[JObj [(''kind'', JStr ''patch''), (''generation'', JNum 1), (''ops'', JArr [])],
      JObj [(''kind'', JStr ''patch''), (''generation'', JNum 1), (''ops'', JArr [])]]" newClient]
  by (simp add: push_frame_def wire_frame_def compactableFrame_def known_kind_def PUSH_KINDS_def newClient_def Let_def)

text \<open>
  \<^bold>\<open>Lemma.\<close>  Attachments are isolated: over any interleaving of live patch frames, the mirror
  ends as if only the frames of the attachment it replicates had arrived; a mirror that has no
  attachment yet is not touched at all.
\<close>

theorem attachment_isolation:
  assumes "list_all live_frame fs"
  shows "foldl (\<lambda>m f. fst (handlePush m f)) m fs =
   foldl (\<lambda>m f. fst (patchMirror m f)) m
     (filter (\<lambda>f. m_generation m \<noteq> JNull \<and> jget f ''generation'' = m_generation m) fs)"
  using assms by (rule live_run)

theorem attachment_isolation_witness:
  "fst (handlePush (newMirror None) (JObj [(''kind'', JStr ''patch''), (''generation'', JNum 1), (''ops'', JArr [])])) =
   newMirror None"
  using attachment_isolation[of "[JObj [(''kind'', JStr ''patch''), (''generation'', JNum 1), (''ops'', JArr [])]]"
      "newMirror None"]
  by (simp add: live_frame_def newMirror_def)

text \<open>
  \<^bold>\<open>Property C13.\<close>  Calls settle exactly once: in every reachable state of the client the ids in flight
  and the ids settled are together exactly the ids issued, each once, whatever the transport
  delivers or throws during a send; every request carried its own id; and a disconnect leaves
  nothing in flight.
\<close>

theorem calls_settle_once:
  assumes "client_reach c"
  shows "distinct (pending c @ settled_ids c) \<and> set (pending c @ settled_ids c) = set (issued c) \<and>
    map (\<lambda>r. jget r ''id'') (sent c) = map JStr (issued c) \<and>
    distinct (settled_ids (disconnect c)) \<and> set (settled_ids (disconnect c)) = set (issued c)"
  using reach_client_inv[OF assms] inv_disconnect[OF reach_client_inv[OF assms]]
  by (simp add: client_inv_def issued_def disconnect_def)

theorem calls_settle_once_witness:
  "let c = call newClient AbortRequest [Some (JObj [(''id'', JStr ''1'')])] True in
   distinct (pending c @ settled_ids c) \<and> settled_calls c = [(''1'', Resolved (JObj [(''id'', JStr ''1'')]))]"
proof -
  let ?c = "call newClient AbortRequest [Some (JObj [(''id'', JStr ''1'')])] True"
  have "client_reach ?c" by (rule reach_step[OF reach_new step_call])
  from calls_settle_once[OF this] have "distinct (pending ?c @ settled_ids ?c)" by blast
  moreover have one: "nat_str (Suc 0) = ''1''" by (subst nat_str.simps) (simp add: digit_char_def)
  have "settled_calls ?c = [(''1'', Resolved (JObj [(''id'', JStr ''1'')]))]"
    by (simp add: call_def newClient_def onMessage_def handleMessage_def settle_call_def observe_def
        compactableFrame_def Let_def one)
  ultimately show ?thesis by (simp add: Let_def)
qed

text \<open>
  \<^bold>\<open>Lemma.\<close>  A protocol violation is reported, and only once: a message that does not parse, a
  bare string with no established run, a value that is not an object, or a push of an unknown kind
  leaves exactly one report, whatever happened before; no message ever makes it two.
\<close>

definition violates :: "Client \<Rightarrow> jsv option \<Rightarrow> bool" where
  "violates c data =
     (case data of
        None \<Rightarrow> True
      | Some (JStr s) \<Rightarrow> codec c = None
      | Some (JObj ps) \<Rightarrow> jget (JObj ps) ''id'' = JUndef \<and> \<not> known_kind (JObj ps)
      | Some _ \<Rightarrow> True)"

theorem violation_reported_once:
  assumes "client_reach c"
  shows "length (reported (onMessage c data)) \<le> 1 \<and>
    (violates c data \<longrightarrow> length (reported (onMessage c data)) = 1)"
proof
  have inv: "client_inv c" using reach_client_inv[OF assms] .
  show "length (reported (onMessage c data)) \<le> 1" using inv_onMessage[OF inv] by (simp add: client_inv_def)
  have "length (reported (protocolError d msg)) = 1" if "client_inv d" for d msg
    using that by (auto simp: client_inv_def protocolError_def Suc_le_eq le_Suc_eq)
  with inv show "violates c data \<longrightarrow> length (reported (onMessage c data)) = 1"
    by (auto simp: violates_def onMessage_def handleMessage_def decode_def inv_codec split: option.splits jsv.splits)
qed

theorem violation_reported_once_witness:
  "length (reported (onMessage (onMessage newClient None) (Some JNull))) = 1"
proof -
  have "client_reach (onMessage newClient None)" by (rule reach_step[OF reach_new step_message])
  from violation_reported_once[OF this, of "Some JNull"] show ?thesis by (simp add: violates_def)
qed

text \<open>
  \<^bold>\<open>Lemma.\<close>  A pull plan is exact: it asks for each field at most once, only for wanted fields
  the mirror does not hold and that are not being loaded, and it leaves none of those out.
\<close>

theorem planPull_exact:
  "distinct (map pull_fieldPath (planPull ws m loading)) \<and> set (planPull ws m loading) \<subseteq> set ws \<and>
   set (map pull_fieldPath (planPull ws m loading)) =
     {p \<in> set (map pull_fieldPath ws). nullish (getAtPath (m_document m) p) \<and> p \<notin> loading}"
proof (intro conjI)
  show "distinct (map pull_fieldPath (planPull ws m loading))"
    using dedupe_paths[of "{}" ws] by (simp add: planPull_def needsPull_def distinct_map_filter)
  show "set (planPull ws m loading) \<subseteq> set ws"
    using dedupe_subset[of "{}" ws] by (auto simp: planPull_def needsPull_def)
  have "set (map pull_fieldPath (planPull ws m loading)) =
     {p \<in> pull_fieldPath ` set (dedupe {} ws). nullish (getAtPath (m_document m) p) \<and> p \<notin> loading}"
    by (auto simp: planPull_def needsPull_def)
  moreover have "pull_fieldPath ` set (dedupe {} ws) = pull_fieldPath ` set ws" using dedupe_paths[of "{}" ws] by simp
  ultimately show "set (map pull_fieldPath (planPull ws m loading)) =
     {p \<in> set (map pull_fieldPath ws). nullish (getAtPath (m_document m) p) \<and> p \<notin> loading}"
    by simp
qed

end
