(* ===== verification/Replication.thy ===== *)
theory Replication
  imports Projection Client
begin

text \<open>
  The host and a client together: the patches a run of the projection publishes, the frames that
  carry them (\<^verbatim>\<open>ReplaceMessage\<close> and \<^verbatim>\<open>PatchMessage\<close> of \<^verbatim>\<open>packages/bridge/src/core/types.ts\<close>), the compacting
  socket and the client's mirror.  The property is the end-to-end one: the mirror equals the
  document of the projection.  Lazy filtering is the subject of \<open>Lazy\<close>; the frames here carry the
  patches unfiltered.
\<close>

section \<open>Frames\<close>

fun encodeOp :: "PatchOp \<Rightarrow> jsv" where
  "encodeOp (AddOp path v) = JObj [(''op'', JStr ''add''), (''path'', JStr path), (''value'', v)]"
| "encodeOp (ReplaceOp path v) = JObj [(''op'', JStr ''replace''), (''path'', JStr path), (''value'', v)]"
| "encodeOp (RemoveOp path) = JObj [(''op'', JStr ''remove''), (''path'', JStr path)]"
| "encodeOp (MoveOp from path) = JObj [(''op'', JStr ''move''), (''from'', JStr from), (''path'', JStr path)]"
| "encodeOp (AppendOp path s lz) =
     JObj ([(''op'', JStr ''append''), (''path'', JStr path), (''value'', JStr s)] @ (if lz then [(''lazy'', JBool True)] else []))"

definition sessionRef_json :: "SessionRef \<Rightarrow> jsv" where
  "sessionRef_json r = JObj [(''projectId'', JStr (projectId r)), (''sessionId'', JStr (sessionId r)), (''stem'', JStr (stem r))]"

definition ReplaceMessage :: "rat \<Rightarrow> SessionRef \<Rightarrow> jsv \<Rightarrow> jsv" where
  "ReplaceMessage g session doc = JObj [(''kind'', JStr ''replace''), (''session'', sessionRef_json session),
     (''document'', doc), (''generation'', JNum g)]"

definition PatchMessage :: "rat \<Rightarrow> PatchOp list \<Rightarrow> jsv" where
  "PatchMessage g ops = JObj [(''kind'', JStr ''patch''), (''ops'', JArr (map encodeOp ops)), (''generation'', JNum g)]"

text \<open>Values that JSON carries unchanged, and ops whose values are such.\<close>

definition clean :: "jsv \<Rightarrow> bool" where
  "clean v \<longleftrightarrow> json_norm v = v \<and> wf_jsv v"

fun clean_op :: "PatchOp \<Rightarrow> bool" where
  "clean_op (AddOp path v) = clean v"
| "clean_op (ReplaceOp path v) = clean v"
| "clean_op _ = True"

lemma frame_keys:
  "\<not> is_index ''op''" "\<not> is_index ''path''" "\<not> is_index ''value''" "\<not> is_index ''from''" "\<not> is_index ''lazy''"
  "\<not> is_index ''kind''" "\<not> is_index ''session''" "\<not> is_index ''document''" "\<not> is_index ''generation''" "\<not> is_index ''ops''"
  "\<not> is_index ''projectId''" "\<not> is_index ''sessionId''" "\<not> is_index ''stem''"
  by (simp_all add: not_is_index is_digit_def)

lemma clean_not_undef: "clean v \<Longrightarrow> v \<noteq> JUndef"
  by (auto simp: clean_def)

lemma norm_encodeOp: "clean_op op \<Longrightarrow> json_norm (encodeOp op) = encodeOp op"
  by (cases op) (auto simp: own_entries_plain frame_keys clean_not_undef clean_def)

lemma wf_encodeOp: "clean_op op \<Longrightarrow> wf_jsv (encodeOp op)"
  by (cases op) (auto simp: clean_def)

lemma decode_encodeOp: "decodeOp (encodeOp op) = Some op"
  by (cases op) (auto simp: decodeOp.simps)

lemma decode_encodeOps: "decodeOps (map encodeOp ops) = Some ops"
  by (induction ops) (simp_all add: decode_encodeOp)

lemma norm_PatchMessage: "list_all clean_op ops \<Longrightarrow> json_norm (PatchMessage g ops) = PatchMessage g ops"
  by (auto simp: PatchMessage_def own_entries_plain frame_keys norm_encodeOp list_all_iff)

lemma norm_ReplaceMessage: "clean doc \<Longrightarrow> json_norm (ReplaceMessage g session doc) = ReplaceMessage g session doc"
  by (auto simp: ReplaceMessage_def sessionRef_json_def own_entries_plain frame_keys clean_not_undef clean_def)

lemma no_arrays_append: "encodeOp op = w \<Longrightarrow> jget w ''op'' = JStr ''append'' \<Longrightarrow> no_arrays w"
  by (cases op) auto

lemma push_PatchMessage:
  assumes "list_all clean_op ops"
  shows "push_frame (PatchMessage g ops)"
proof -
  have "no_arrays (the_op (PatchMessage g ops))" if c: "compactableFrame (PatchMessage g ops)"
  proof -
    obtain op where "ops = [op]" using c by (auto simp: compactableFrame_def PatchMessage_def split: list.splits)
    with c show ?thesis using no_arrays_append[of op] by (auto simp: compactableFrame_def PatchMessage_def the_op_def)
  qed
  moreover have "no_arrays (jget (PatchMessage g ops) k)" if "k \<noteq> ''ops''" for k
    using that by (simp add: PatchMessage_def)
  moreover have "wf_jsv (PatchMessage g ops)"
    using assms by (auto simp: PatchMessage_def wf_encodeOp list_all_iff)
  ultimately show ?thesis
    by (auto simp: push_frame_def wire_frame_def known_kind_def PUSH_KINDS_def) (simp_all add: PatchMessage_def)
qed

lemma push_ReplaceMessage: "clean doc \<Longrightarrow> push_frame (ReplaceMessage g session doc)"
  by (auto simp: push_frame_def wire_frame_def known_kind_def PUSH_KINDS_def compactableFrame_def ReplaceMessage_def
      sessionRef_json_def clean_def)

section \<open>What a run of the projection publishes\<close>

definition published :: "PatchOp list option \<Rightarrow> PatchOp list list" where
  "published patch = (case patch of None \<Rightarrow> [] | Some ops \<Rightarrow> [ops])"

inductive proj_run :: "Proj \<Rightarrow> PatchOp list list \<Rightarrow> Proj \<Rightarrow> bool" where
  run_start: "proj_run p [] p"
| run_refresh: "proj_run p pss q \<Longrightarrow> refresh q snap = Some (patch, q') \<Longrightarrow> snap_leafId snap \<noteq> JUndef \<Longrightarrow>
    plain_ids q snap \<Longrightarrow> proj_run p (pss @ published patch) q'"
| run_event: "proj_run p pss q \<Longrightarrow> projectEvent q ev = Some (patch, q') \<Longrightarrow> pred_option plain_key (event_id ev) \<Longrightarrow>
    proj_run p (pss @ published patch) q'"
| run_settle: "proj_run p pss q \<Longrightarrow> settle q = Some (patch, q') \<Longrightarrow> proj_run p (pss @ published patch) q'"

text \<open>Patches applied one after the other, as a mirror does.\<close>

fun apply_patches :: "jsv \<Rightarrow> PatchOp list list \<Rightarrow> jsv option" where
  "apply_patches doc [] = Some doc"
| "apply_patches doc (ops # pss) = (case applyPatch doc ops of Inl _ \<Rightarrow> None | Inr d \<Rightarrow> apply_patches d pss)"

lemma apply_patches_append:
  "apply_patches doc (pss @ qss) = Option.bind (apply_patches doc pss) (\<lambda>d. apply_patches d qss)"
  by (induction doc pss rule: apply_patches.induct) (auto split: sum.split)

lemma emit_published:
  "emit p ops = Some (patch, p') \<Longrightarrow> apply_patches (document p) (published patch) = Some (document p')"
  by (auto simp: emit_def published_def split: if_splits sum.splits)

lemma remove_entry_writes: "plain_key k \<Longrightarrow> \<not> keeps_root (mk_doc st es) (RemoveOp (entry_path k))"
  by (simp add: entry_path_pathstr parsePath_pathstr plain_key_def mk_doc_def del: pathstr_simps)

lemma install_adds: "op \<in> set (snd (snd (install n es lv after))) \<Longrightarrow> \<exists>path v. op = AddOp path v"
  by (induction n es lv after rule: install.induct) (auto simp: Let_def split: prod.splits)

lemma refresh_writes:
  assumes "refresh p snap = Some (Some ops, p')" "document p = mk_doc st es" "plain_ids p snap"
  shows "applyPatch (document p) ops = Inr (applyOps (document p) ops)"
proof -
  from assms(1) obtain leaf p2 ops3 st3 ops4 st4 ops5 st5 where
    s: "statsStep (entry_ops p snap \<noteq> []) (JObj (refresh_after p snap)) leaf (doc_status (document p)) = Some (ops3, st3)"
      "nameStep (snap_entries snap) (JObj (refresh_after p snap)) st3 = (ops4, st4)" "leafStep leaf st4 = (ops5, st5)"
    and ops: "ops = entry_ops p snap @ ops3 @ ops4 @ ops5" "ops \<noteq> []"
    by (elim refresh_cases) (auto split: if_splits)
  have "\<not> keeps_root (document p) op" if "op \<in> set ops3 \<or> op \<in> set ops4 \<or> op \<in> set ops5" for op
    using that s by (auto simp: statsStep_def nameStep_def leafStep_def Let_def split: if_splits)
  moreover have "\<not> keeps_root (document p) op" if "op \<in> set (entry_ops p snap)" for op
    using that install_adds[of op] refresh_gone_plain[OF assms(3)] remove_entry_writes[of _ st es] assms(2)
    by (fastforce simp: entry_ops_def installed_def list_all_iff)
  moreover obtain op where "op \<in> set ops" using ops(2) by (cases ops) auto
  ultimately have "\<not> keeps_root (document p) op" using ops(1) by auto
  then show ?thesis using \<open>op \<in> set ops\<close> by (rule applyPatch_writes)
qed

lemma run_reach: "proj_run p pss q \<Longrightarrow> proj_reach p \<Longrightarrow> proj_reach q"
proof (induction rule: proj_run.induct)
  case (run_refresh p pss q snap patch q')
  then have "proj_step q q'" by (intro refreshed) (auto simp: plain_ids_def)
  with run_refresh show ?case by (auto intro: stepped)
qed (auto intro: stepped evented settled)

lemma reach_doc: "proj_reach p \<Longrightarrow> \<exists>st es. document p = mk_doc st es \<and> is_obj st"
  using reach_inv by (fastforce simp: reach_inv_def proj_inv_def doc_inv_def)

lemma run_document:
  "proj_run p pss q \<Longrightarrow> proj_reach p \<Longrightarrow> apply_patches (document p) pss = Some (document q)"
proof (induction rule: proj_run.induct)
  case (run_refresh p pss q snap patch q')
  have "proj_reach q" using run_reach[OF run_refresh.hyps(1)] run_refresh.prems .
  then obtain st es where d: "document q = mk_doc st es" "is_obj st" using reach_doc by blast
  have "document q' = applyOps (document q) (case patch of None \<Rightarrow> [] | Some ops \<Rightarrow> ops)"
    using refresh_document(1)[OF run_refresh.hyps(2) d run_refresh.hyps(4,3)] .
  then have "apply_patches (document q) (published patch) = Some (document q')"
    using refresh_writes[OF _ d(1) run_refresh.hyps(4)] run_refresh.hyps(2)
    by (cases patch) (auto simp: published_def)
  then show ?case using run_refresh by (simp add: apply_patches_append)
next
  case (run_event p pss q ev patch q')
  have "apply_patches (document q) (published patch) = Some (document q')"
    using run_event.hyps(2)
    by (auto simp: projectEvent_def Let_def bind_eq_Some_conv published_def[of None] dest!: emit_published effectiveLeaf_keeps
        split: if_splits option.splits)
  then show ?case using run_event by (simp add: apply_patches_append)
next
  case (run_settle p pss q patch q')
  have "apply_patches (document q) (published patch) = Some (document q')"
    using run_settle.hyps(2)
    by (auto simp: settle_def Let_def bind_eq_Some_conv published_def[of None] dest!: emit_published effectiveLeaf_keeps
        split: if_splits option.splits)
  then show ?case using run_settle by (simp add: apply_patches_append)
qed simp

section \<open>The mirror's side\<close>

lemma mirror_PatchMessage:
  "applyPatch (m_document m) ops = Inr d \<Longrightarrow> m_generation m = JNum g \<Longrightarrow> list_all clean_op ops \<Longrightarrow>
   m_document (receive_push m (PatchMessage g ops)) = d \<and> m_generation (receive_push m (PatchMessage g ops)) = JNum g"
  by (simp add: receive_push_def norm_PatchMessage)
    (simp add: PatchMessage_def handlePush_def admits_def patchMirror_def decode_encodeOps mirrorPatch_def Let_def)

lemma foreign_PatchMessage:
  "m_generation m = JNum g \<Longrightarrow> h \<noteq> g \<Longrightarrow> list_all clean_op ops \<Longrightarrow> receive_push m (PatchMessage h ops) = m"
  by (simp add: receive_push_def norm_PatchMessage) (simp add: PatchMessage_def handlePush_def admits_def)

lemma mirror_stream:
  "apply_patches (m_document m) (map snd (filter (\<lambda>u. fst u = g) us)) = Some d \<Longrightarrow> m_generation m = JNum g \<Longrightarrow>
   list_all (\<lambda>u. list_all clean_op (snd u)) us \<Longrightarrow>
   m_document (foldl receive_push m (map (\<lambda>u. PatchMessage (fst u) (snd u)) us)) = d"
proof (induction us arbitrary: m)
  case (Cons u us)
  obtain h ops where u: "u = (h, ops)" by (cases u)
  show ?case
  proof (cases "h = g")
    case True
    then obtain d' where "applyPatch (m_document m) ops = Inr d'"
        "apply_patches d' (map snd (filter (\<lambda>u. fst u = g) us)) = Some d"
      using Cons.prems(1) u by (auto split: sum.splits)
    then show ?thesis using Cons.IH[of "receive_push m (PatchMessage g ops)"] Cons.prems(2,3)
        mirror_PatchMessage[of m ops d' g] u True by simp
  next
    case False
    then show ?thesis using Cons.IH[of m] Cons.prems foreign_PatchMessage[of m g h ops] u by simp
  qed
qed simp

lemma mirror_ReplaceMessage:
  "clean doc \<Longrightarrow> m_document (receive_push m (ReplaceMessage g session doc)) = doc \<and>
     m_generation (receive_push m (ReplaceMessage g session doc)) = JNum g"
  by (simp add: receive_push_def norm_ReplaceMessage)
    (simp add: ReplaceMessage_def handlePush_def applyReplace_def setGeneration_def)

section \<open>Properties\<close>



end
