(* ===== verification/Cache.thy ===== *)
theory Cache
  imports Lazy Status "HOL-Library.Multiset"
begin

text \<open>
  The client cache, \<^verbatim>\<open>packages/bridge/src/core/cache.ts\<close>: the in-memory store, the cursor derived from
  cached records, the writes planned for a document transition, and the document seeded from a
  cache.  The store's contract is the locale \<open>entry_cache_store\<close>; the in-memory store is its
  interpretation.  The incremental plan and the full repair are shown to leave the same cache.
\<close>

section \<open>Records and the store\<close>

record CacheEntryRecord =
  rec_sessionId :: string
  rec_ord :: rat
  rec_entryId :: string
  rec_entry :: jsv

record CachedSession =
  cs_records :: "(rat \<times> CacheEntryRecord) list"
  cs_hint :: "jsv option"

type_synonym cache_store = "(string \<times> CachedSession) list"

definition loadSession :: "cache_store \<Rightarrow> string \<Rightarrow> CacheEntryRecord list \<times> jsv option" where
  "loadSession store sid =
     (case map_of store sid of
        None \<Rightarrow> ([], None)
      | Some session \<Rightarrow> (sort_key rec_ord (map snd (cs_records session)), cs_hint session))"

definition put_records :: "(rat \<times> CacheEntryRecord) list \<Rightarrow> CacheEntryRecord list \<Rightarrow> (rat \<times> CacheEntryRecord) list" where
  "put_records m records = foldl (\<lambda>m r. AList.update (rec_ord r) r m) m records"

definition writeEntries :: "cache_store \<Rightarrow> string \<Rightarrow> CacheEntryRecord list \<Rightarrow> jsv option \<Rightarrow> cache_store" where
  "writeEntries store sid records hint =
     (if records = [] \<and> hint = None then store
      else
        let session = (case map_of store sid of None \<Rightarrow> \<lparr>cs_records = [], cs_hint = None\<rparr> | Some s \<Rightarrow> s);
            session' = session\<lparr>cs_records := put_records (cs_records session) records\<rparr>
        in AList.update sid
             (case hint of None \<Rightarrow> session' | Some h \<Rightarrow> session'\<lparr>cs_hint := Some h\<rparr>) store)"

definition replaceSession :: "cache_store \<Rightarrow> string \<Rightarrow> CacheEntryRecord list \<Rightarrow> jsv option \<Rightarrow> cache_store" where
  "replaceSession store sid records hint =
     AList.update sid \<lparr>cs_records = put_records [] records, cs_hint = hint\<rparr> store"

section \<open>Cursor\<close>

text \<open>The first loop of \<^verbatim>\<open>computeCursor\<close>: one session id, whole non-negative positions, none twice.\<close>

fun scan_records :: "string option \<Rightarrow> (rat \<times> string) list \<Rightarrow> CacheEntryRecord list \<Rightarrow>
    (string option \<times> (rat \<times> string) list) option" where
  "scan_records sid seen [] = Some (sid, seen)"
| "scan_records sid seen (r # rs) =
     (if (case sid of None \<Rightarrow> False | Some s \<Rightarrow> rec_sessionId r \<noteq> s) then None
      else if of_int \<lfloor>rec_ord r\<rfloor> \<noteq> rec_ord r \<or> rec_ord r < 0 then None
      else if map_of seen (rec_ord r) \<noteq> None then None
      else scan_records (Some (rec_sessionId r)) (AList.update (rec_ord r) (rec_entryId r) seen) rs)"

definition computeCursor :: "CacheEntryRecord list \<Rightarrow> PrefixCursor option" where
  "computeCursor records =
     (if records = [] then None
      else (case scan_records None [] records of
              None \<Rightarrow> None
            | Some (sid, ordToId) \<Rightarrow>
                if list_ex (\<lambda>i. map_of ordToId (of_nat i) = None) [0 ..< length records] then None
                else Some \<lparr>cursor_sessionId = the sid,
                           lastKnownId = the (map_of ordToId (of_nat (length records - 1))),
                           entryCount = of_nat (length records)\<rparr>))"

section \<open>Projections, plans and seeds\<close>

definition entryForCache :: "jsv \<Rightarrow> jsv" where
  "entryForCache entry = jset ''isSealed'' (JBool True) (stripLazyFields entry)"

definition cacheable :: "jsv \<Rightarrow> bool" where
  "cacheable e \<longleftrightarrow> isEntrySealed e \<and> jget e ''ord'' \<noteq> JUndef"

definition cache_record :: "string \<Rightarrow> string \<Rightarrow> jsv \<Rightarrow> CacheEntryRecord" where
  "cache_record sid k e =
     \<lparr>rec_sessionId = sid, rec_ord = ord_of e, rec_entryId = k, rec_entry = entryForCache e\<rparr>"

text \<open>
  \<^verbatim>\<open>JSON.stringify\<close> gives two values the same text exactly when their JSON normal forms agree, key
  order included, so the comparison of texts is the comparison of normal forms.  Reference equality
  of base and entry implies the second test and needs no case of its own.
\<close>

definition unchanged_projection :: "jsv \<Rightarrow> jsv \<Rightarrow> bool" where
  "unchanged_projection base entry \<longleftrightarrow> base \<noteq> JUndef \<and> jget base ''ord'' = jget entry ''ord'' \<and>
     json_norm (entryForCache base) = json_norm (entryForCache entry)"

definition planCacheWrites :: "string \<Rightarrow> jsv \<Rightarrow> jsv \<Rightarrow> CacheEntryRecord list" where
  "planCacheWrites sid before after =
     sort_key rec_ord (map (\<lambda>(k, e). cache_record sid k e)
       (filter (\<lambda>(k, e). cacheable e \<and> \<not> unchanged_projection (jget (doc_entries before) k) e)
         (js_entries (doc_entries after))))"

definition cacheRecordsOfDocument :: "string \<Rightarrow> jsv \<Rightarrow> CacheEntryRecord list" where
  "cacheRecordsOfDocument sid doc =
     sort_key rec_ord (map (\<lambda>(k, e). cache_record sid k e)
       (filter (\<lambda>(k, e). cacheable e) (js_entries (doc_entries doc))))"

definition statusHintOfDocument :: "jsv \<Rightarrow> jsv" where
  "statusHintOfDocument doc =
     (let st = doc_status doc in
      JObj [(''name'', jget st ''name''), (''model'', jget st ''model''),
            (''thinkingLevel'', jget st ''thinkingLevel''), (''contextUsage'', jget st ''contextUsage'')])"

definition overlay :: "jsv \<Rightarrow> jsv \<Rightarrow> jsv" where
  "overlay status hint =
     foldl (\<lambda>st (k, v). if v \<noteq> JUndef then jset k v st else st) status (js_entries hint)"

definition seedEntries :: "CacheEntryRecord list \<Rightarrow> props" where
  "seedEntries records =
     foldl (\<lambda>es r. AList.update (rec_entryId r) (rec_entry r) es) [] (sort_key rec_ord records)"

definition seedDocument :: "CacheEntryRecord list \<Rightarrow> jsv option \<Rightarrow> jsv option" where
  "seedDocument records statusHint =
     map_option (\<lambda>status.
        mk_doc (case statusHint of None \<Rightarrow> status | Some h \<Rightarrow> if truthy h then overlay status h else status)
          (seedEntries records))
       (deriveStatus (JObj (seedEntries records)) JUndef)"

section \<open>The contract of a store\<close>

text \<open>
  A store holds for each session a map from position to record.  Loading returns the records in
  position order; writing adds or overwrites positions of one session; replacing forgets the old
  ones.  Other sessions are untouched.
\<close>

definition by_ord :: "CacheEntryRecord list \<Rightarrow> rat \<Rightarrow> CacheEntryRecord option" where
  "by_ord records = map_of (map (\<lambda>r. (rec_ord r, r)) records)"

definition last_by_ord :: "CacheEntryRecord list \<Rightarrow> rat \<Rightarrow> CacheEntryRecord option" where
  "last_by_ord records = map_of (rev (map (\<lambda>r. (rec_ord r, r)) records))"

locale entry_cache_store =
  fixes good :: "'st \<Rightarrow> bool"
    and ld :: "'st \<Rightarrow> string \<Rightarrow> CacheEntryRecord list"
    and wr :: "'st \<Rightarrow> string \<Rightarrow> CacheEntryRecord list \<Rightarrow> 'st"
    and rp :: "'st \<Rightarrow> string \<Rightarrow> CacheEntryRecord list \<Rightarrow> 'st"
  assumes good_write: "good st \<Longrightarrow> good (wr st sid rs)"
    and good_replace: "good st \<Longrightarrow> good (rp st sid rs)"
    and load_sorted: "good st \<Longrightarrow> sorted (map rec_ord (ld st sid)) \<and> distinct (map rec_ord (ld st sid))"
    and load_write: "good st \<Longrightarrow> by_ord (ld (wr st sid rs) sid) = by_ord (ld st sid) ++ last_by_ord rs"
    and load_replace: "good st \<Longrightarrow> by_ord (ld (rp st sid rs) sid) = last_by_ord rs"
    and load_write_other: "good st \<Longrightarrow> sid' \<noteq> sid \<Longrightarrow> ld (wr st sid rs) sid' = ld st sid'"
    and load_replace_other: "good st \<Longrightarrow> sid' \<noteq> sid \<Longrightarrow> ld (rp st sid rs) sid' = ld st sid'"
begin

text \<open>Two loads with the same positions are the same list: the order is determined.\<close>

lemma load_determined:
  assumes "good st" "good st'" "by_ord (ld st sid) = by_ord (ld st' sid')"
  shows "ld st sid = ld st' sid'"
proof -
  have mem: "set (ld s i) = {r. by_ord (ld s i) (rec_ord r) = Some r}" if "good s" for s i
  proof -
    have d: "distinct (map fst (map (\<lambda>r. (rec_ord r, r)) (ld s i)))"
      using load_sorted[OF that, of i] by (simp add: comp_def)
    show ?thesis unfolding by_ord_def map_of_eq_Some_iff[OF d] by auto
  qed
  have "set (ld st sid) = set (ld st' sid')" using mem[OF assms(1)] mem[OF assms(2)] assms(3) by simp
  moreover have "inj_on rec_ord (set (ld st sid))"
    using load_sorted[OF assms(1), of sid] by (simp add: distinct_map)
  moreover have "map rec_ord (ld st sid) = map rec_ord (ld st' sid')"
    using load_sorted[OF assms(1), of sid] load_sorted[OF assms(2), of sid'] calculation(1)
    by (intro sorted_distinct_set_unique) (auto simp: image_iff)
  ultimately show ?thesis by (metis inj_on_map_eq_map set_map subset_refl sup.idem map_inj_on)
qed

text \<open>Writing all records into a fresh session is the same as replacing it.\<close>

lemma write_fresh_replace:
  assumes "good st" "ld st sid = []"
  shows "ld (wr st sid rs) sid = ld (rp st sid rs) sid"
  using assms load_write[OF assms(1), of sid rs] load_replace[OF assms(1), of sid rs]
  by (intro load_determined good_write good_replace) (simp_all add: by_ord_def)

lemma write_twice:
  assumes "good st"
  shows "ld (wr (wr st sid rs) sid rs) sid = ld (wr st sid rs) sid"
  using assms
  by (intro load_determined) (auto simp: good_write load_write map_add_def fun_eq_iff split: option.split)

end

section \<open>The in-memory store\<close>

definition keyed :: "(rat \<times> CacheEntryRecord) list \<Rightarrow> bool" where
  "keyed m \<longleftrightarrow> distinct (map fst m) \<and> list_all (\<lambda>(n, r). n = rec_ord r) m"

definition wf_store :: "cache_store \<Rightarrow> bool" where
  "wf_store store \<longleftrightarrow> (\<forall>sid s. map_of store sid = Some s \<longrightarrow> keyed (cs_records s))"

lemma keyed_Nil [simp]: "keyed []"
  by (simp add: keyed_def)

lemma keyed_update: "keyed m \<Longrightarrow> keyed (AList.update (rec_ord r) r m)"
  by (auto simp: keyed_def list_all_iff dest!: AList.update_Some_unfold[THEN iffD1]
      map_of_is_SomeI[rotated] simp: distinct_update)

lemma keyed_put_records: "keyed m \<Longrightarrow> keyed (put_records m rs)"
  by (induction rs arbitrary: m) (simp_all add: put_records_def keyed_update)

lemma map_of_put_records: "map_of (put_records m rs) = map_of m ++ last_by_ord rs"
proof (induction rs arbitrary: m)
  case (Cons r rs)
  have "map_of (put_records m (r # rs)) = map_of (AList.update (rec_ord r) r m) ++ last_by_ord rs"
    using Cons[of "AList.update (rec_ord r) r m"] by (simp only: put_records_def foldl_Cons)
  then show ?case by (simp add: last_by_ord_def fun_eq_iff map_add_def split: option.split)
qed (simp add: put_records_def last_by_ord_def)

lemma keyed_self: "keyed m \<Longrightarrow> map (\<lambda>r. (rec_ord r, r)) (map snd m) = m"
  by (induction m) (auto simp: keyed_def)

lemma by_ord_load: "keyed m \<Longrightarrow> by_ord (sort_key rec_ord (map snd m)) = map_of m"
proof -
  assume k: "keyed m"
  let ?xs = "map (\<lambda>r. (rec_ord r, r)) (sort_key rec_ord (map snd m))"
  have "map fst ?xs = map rec_ord (sort_key rec_ord (map snd m))" by simp
  moreover have "mset (map fst ?xs) = mset (map fst m)"
    using keyed_self[OF k] by (metis (no_types, lifting) map_map mset_map mset_sort calculation comp_def fst_conv map_cong)
  then have "distinct (map fst ?xs)" using k by (metis keyed_def mset_eq_imp_distinct_iff)
  moreover have "set ?xs = set m" using arg_cong[OF keyed_self[OF k], of set] by (simp add: image_image)
  ultimately show "by_ord (sort_key rec_ord (map snd m)) = map_of m"
    unfolding by_ord_def using k by (intro map_of_inject_set[THEN iffD2]) (simp_all add: keyed_def)
qed

lemma distinct_load: "keyed m \<Longrightarrow> distinct (map rec_ord (sort_key rec_ord (map snd m)))"
proof -
  assume k: "keyed m"
  have "map rec_ord (map snd m) = map fst m"
    using arg_cong[OF keyed_self[OF k], of "map fst"] by (simp add: comp_def)
  then have "mset (map rec_ord (sort_key rec_ord (map snd m))) = mset (map fst m)" by (metis mset_map mset_sort)
  then show ?thesis using k by (metis keyed_def mset_eq_imp_distinct_iff)
qed

lemma load_map_of:
  "wf_store store \<Longrightarrow> by_ord (fst (loadSession store sid)) =
     (case map_of store sid of None \<Rightarrow> Map.empty | Some s \<Rightarrow> map_of (cs_records s))"
  by (auto simp: loadSession_def wf_store_def by_ord_load split: option.split) (simp add: by_ord_def)

lemma wf_store_write: "wf_store store \<Longrightarrow> wf_store (writeEntries store sid rs h)"
  by (auto simp: wf_store_def writeEntries_def Let_def keyed_put_records split: option.splits if_splits)

lemma wf_store_replace: "wf_store store \<Longrightarrow> wf_store (replaceSession store sid rs h)"
  by (auto simp: wf_store_def replaceSession_def keyed_put_records split: if_splits)

lemma last_by_ord_Nil [simp]: "last_by_ord [] = Map.empty"
  by (simp add: last_by_ord_def)

interpretation memory: entry_cache_store wf_store "\<lambda>st sid. fst (loadSession st sid)"
  "\<lambda>st sid rs. writeEntries st sid rs h" "\<lambda>st sid rs. replaceSession st sid rs h" for h
proof unfold_locales
  fix st sid sid' rs assume wf: "wf_store st"
  show "wf_store (writeEntries st sid rs h)" "wf_store (replaceSession st sid rs h)"
    using wf by (rule wf_store_write wf_store_replace)+
  show "sorted (map rec_ord (fst (loadSession st sid))) \<and> distinct (map rec_ord (fst (loadSession st sid)))"
    using wf by (auto simp: loadSession_def wf_store_def distinct_load split: option.split)
  show "by_ord (fst (loadSession (writeEntries st sid rs h) sid)) =
      by_ord (fst (loadSession st sid)) ++ last_by_ord rs"
    using wf by (auto simp: load_map_of wf_store_write)
      (auto simp: writeEntries_def Let_def map_of_put_records split: option.split)
  show "by_ord (fst (loadSession (replaceSession st sid rs h) sid)) = last_by_ord rs"
    using wf by (simp add: load_map_of wf_store_replace) (simp add: replaceSession_def map_of_put_records)
  assume "sid' \<noteq> sid"
  then show "fst (loadSession (writeEntries st sid rs h) sid') = fst (loadSession st sid')"
    "fst (loadSession (replaceSession st sid rs h) sid') = fst (loadSession st sid')"
    by (simp_all add: loadSession_def writeEntries_def replaceSession_def Let_def)
qed

section \<open>The cursor of a record set\<close>

lemma scan_records_Some:
  "scan_records sid seen rs = Some (sid', seen') \<Longrightarrow> distinct (map fst seen) \<Longrightarrow>
   list_all (\<lambda>r. Some (rec_sessionId r) = sid') rs \<and> (sid \<noteq> None \<longrightarrow> sid' = sid) \<and>
   seen' = seen @ map (\<lambda>r. (rec_ord r, rec_entryId r)) rs \<and> distinct (map fst seen @ map rec_ord rs)"
proof (induction rs arbitrary: sid seen)
  case (Cons r rs)
  from Cons.prems(1) have new: "map_of seen (rec_ord r) = None" by (simp split: if_splits)
  then have upd: "AList.update (rec_ord r) (rec_entryId r) seen = seen @ [(rec_ord r, rec_entryId r)]"
    by (simp add: AList_update_new map_of_eq_None_iff)
  with Cons.prems have "scan_records (Some (rec_sessionId r)) (seen @ [(rec_ord r, rec_entryId r)]) rs = Some (sid', seen')"
    by (auto split: if_splits)
  from Cons.IH[OF this] Cons.prems new show ?case
    by (auto simp: map_of_eq_None_iff split: option.splits if_splits)
qed simp

lemma scan_records_ok:
  "list_all (\<lambda>r. rec_sessionId r = s \<and> (\<exists>i. rec_ord r = of_nat i)) rs \<Longrightarrow> distinct (map fst seen @ map rec_ord rs) \<Longrightarrow>
   sid = None \<or> sid = Some s \<Longrightarrow> rs \<noteq> [] \<Longrightarrow>
   scan_records sid seen rs = Some (Some s, seen @ map (\<lambda>r. (rec_ord r, rec_entryId r)) rs)"
proof (induction rs arbitrary: sid seen)
  case (Cons r rs)
  then have "map_of seen (rec_ord r) = None" by (auto simp: map_of_eq_None_iff)
  moreover have "AList.update (rec_ord r) (rec_entryId r) seen = seen @ [(rec_ord r, rec_entryId r)]"
    using Cons.prems by (simp add: AList_update_new)
  moreover have "scan_records (Some s) (seen @ [(rec_ord r, rec_entryId r)]) rs =
      Some (Some s, (seen @ [(rec_ord r, rec_entryId r)]) @ map (\<lambda>r. (rec_ord r, rec_entryId r)) rs)"
  proof (cases "rs = []")
    case False
    with Cons.prems show ?thesis by (intro Cons.IH) (auto simp del: append_assoc)
  qed simp
  moreover obtain i where "rec_ord r = of_nat i" using Cons.prems(1) by auto
  then have "of_int \<lfloor>rec_ord r\<rfloor> = rec_ord r \<and> 0 \<le> rec_ord r" by (metis floor_of_nat of_int_of_nat_eq of_nat_0_le_iff)
  moreover have "rec_sessionId r = s" using Cons.prems(1) by simp
  ultimately show ?case using Cons.prems(3) by (auto simp: not_less split: option.split)
qed simp

text \<open>The records cover exactly the positions \<open>0 \<dots> n - 1\<close> of one session.\<close>

definition contiguous :: "string \<Rightarrow> CacheEntryRecord list \<Rightarrow> bool" where
  "contiguous sid rs \<longleftrightarrow> list_all (\<lambda>r. rec_sessionId r = sid) rs \<and> distinct (map rec_ord rs) \<and>
     rec_ord ` set rs = of_nat ` {0 ..< length rs}"

lemma map_of_record:
  "distinct (map rec_ord rs) \<Longrightarrow>
   (map_of (map (\<lambda>r. (rec_ord r, rec_entryId r)) rs) n = Some k) = (\<exists>r \<in> set rs. rec_ord r = n \<and> rec_entryId r = k)"
  by (subst map_of_eq_Some_iff) (auto simp: comp_def)

lemma no_gap_contiguous:
  assumes "distinct (map rec_ord rs)" "\<forall>i < length rs. of_nat i \<in> rec_ord ` set rs"
  shows "rec_ord ` set rs = of_nat ` {0 ..< length rs}"
proof -
  have "of_nat ` {0 ..< length rs} \<subseteq> rec_ord ` set rs" using assms(2) by auto
  moreover have "card (of_nat ` {0 ..< length rs} :: rat set) = length rs"
    by (simp add: card_image inj_on_def)
  moreover have "card (rec_ord ` set rs) = length rs"
    using assms(1) by (metis distinct_card length_map list.set_map)
  ultimately show ?thesis by (metis card_subset_eq finite_imageI finite_set)
qed

lemma computeCursor_sound:
  assumes "computeCursor rs = Some c"
  shows "rs \<noteq> [] \<and> contiguous (cursor_sessionId c) rs \<and> entryCount c = of_nat (length rs) \<and>
     (\<exists>r \<in> set rs. rec_ord r = of_nat (length rs - 1) \<and> rec_entryId r = lastKnownId c)"
proof -
  let ?m = "map (\<lambda>r. (rec_ord r, rec_entryId r)) rs"
  obtain sid m where ne: "rs \<noteq> []" and scan: "scan_records None [] rs = Some (sid, m)"
    and gap: "\<forall>i < length rs. map_of m (of_nat i) \<noteq> None"
    and c: "c = \<lparr>cursor_sessionId = the sid, lastKnownId = the (map_of m (of_nat (length rs - 1))),
      entryCount = of_nat (length rs)\<rparr>"
    using assms by (auto simp: computeCursor_def list_ex_iff split: if_splits option.splits)
  from scan_records_Some[OF scan] have s: "list_all (\<lambda>r. Some (rec_sessionId r) = sid) rs"
    and m: "m = ?m" and d: "distinct (map rec_ord rs)" by simp_all
  have "\<forall>i < length rs. of_nat i \<in> rec_ord ` set rs"
    using gap by (auto simp: m map_of_eq_None_iff image_image)
  then have "contiguous (the sid) rs"
    using s d no_gap_contiguous[OF d] by (auto simp: contiguous_def list_all_iff)
  moreover obtain k where k: "map_of ?m (of_nat (length rs - 1)) = Some k"
    using gap ne m by (metis diff_less length_greater_0_conv not_None_eq zero_less_one)
  moreover have "\<exists>r \<in> set rs. rec_ord r = of_nat (length rs - 1) \<and> rec_entryId r = k"
    using k map_of_record[OF d] by blast
  ultimately show ?thesis using ne c m by simp
qed

lemma computeCursor_complete:
  assumes "rs \<noteq> []" "contiguous s rs"
  shows "\<exists>c. computeCursor rs = Some c \<and> cursor_sessionId c = s"
proof -
  let ?m = "map (\<lambda>r. (rec_ord r, rec_entryId r)) rs"
  have pos: "\<exists>i. rec_ord r = of_nat i" if "r \<in> set rs" for r
  proof -
    from that have "rec_ord r \<in> of_nat ` {0 ..< length rs}" using assms(2) unfolding contiguous_def by blast
    then show ?thesis by auto
  qed
  have "scan_records None [] rs = Some (Some s, ?m)"
    using scan_records_ok[of s rs "[]" None] assms pos by (simp add: contiguous_def list_all_iff)
  moreover have "map_of ?m (of_nat i) \<noteq> None" if "i < length rs" for i
  proof -
    from that have "(of_nat i :: rat) \<in> rec_ord ` set rs" using assms(2) unfolding contiguous_def by simp
    then show ?thesis by (auto simp: map_of_eq_None_iff image_image)
  qed
  ultimately show ?thesis using assms(1) by (auto simp: computeCursor_def list_ex_iff)
qed

section \<open>Incremental writes and the full repair\<close>

text \<open>What a set of records says about a position: the id and the JSON form of the entry.\<close>

definition cache_view :: "(rat \<Rightarrow> CacheEntryRecord option) \<Rightarrow> rat \<Rightarrow> (string \<times> jsv) option" where
  "cache_view m n = map_option (\<lambda>r. (rec_entryId r, json_norm (rec_entry r))) (m n)"

text \<open>
  A document a cache can be kept of: keys and positions name one entry each, positions are numbers,
  and live forms carry no position.
\<close>

definition cache_ready :: "jsv \<Rightarrow> bool" where
  "cache_ready doc \<longleftrightarrow> is_obj (doc_entries doc) \<and> distinct (map fst (props_of (doc_entries doc))) \<and>
     list_all (\<lambda>(k, e). is_obj e \<and> opt is_num (jget e ''ord'') \<and> (isEntrySealed e \<or> jget e ''ord'' = JUndef))
       (props_of (doc_entries doc)) \<and>
     (\<forall>k e k' e'. map_of (props_of (doc_entries doc)) k = Some e \<and> map_of (props_of (doc_entries doc)) k' = Some e' \<and>
        cacheable e \<and> cacheable e' \<and> ord_of e = ord_of e' \<longrightarrow> k = k')"

definition cache_entry :: "jsv \<Rightarrow> rat \<Rightarrow> string \<Rightarrow> jsv \<Rightarrow> bool" where
  "cache_entry doc n k e \<longleftrightarrow> map_of (props_of (doc_entries doc)) k = Some e \<and> cacheable e \<and> ord_of e = n"

lemma cache_entry_unique:
  assumes "cache_ready doc" "cache_entry doc n k e" "cache_entry doc n k' e'"
  shows "k' = k \<and> e' = e"
proof -
  have inj: "\<forall>k e k' e'. map_of (props_of (doc_entries doc)) k = Some e \<and> map_of (props_of (doc_entries doc)) k' = Some e' \<and>
        cacheable e \<and> cacheable e' \<and> ord_of e = ord_of e' \<longrightarrow> k = k'"
    using assms(1) unfolding cache_ready_def by blast
  have "k' = k" using inj[rule_format, of k' e' k e] assms(2,3) by (simp add: cache_entry_def)
  then show ?thesis using assms(2,3) by (simp add: cache_entry_def)
qed

lemma last_by_ord_Some: "last_by_ord rs n = Some r \<Longrightarrow> r \<in> set rs \<and> rec_ord r = n"
  by (auto simp: last_by_ord_def dest: map_of_SomeD)

lemma last_by_ord_None: "last_by_ord rs n = None \<longleftrightarrow> (\<forall>r \<in> set rs. rec_ord r \<noteq> n)"
  by (auto simp: last_by_ord_def map_of_eq_None_iff image_image)

text \<open>A sorted selection of the document's entries, seen by position.\<close>

definition selected :: "string \<Rightarrow> jsv \<Rightarrow> (string \<Rightarrow> jsv \<Rightarrow> bool) \<Rightarrow> CacheEntryRecord list" where
  "selected sid doc P = sort_key rec_ord (map (\<lambda>(k, e). cache_record sid k e)
     (filter (\<lambda>(k, e). cacheable e \<and> P k e) (js_entries (doc_entries doc))))"

lemma selected_plan:
  "planCacheWrites sid before after = selected sid after (\<lambda>k e. \<not> unchanged_projection (jget (doc_entries before) k) e)"
  "cacheRecordsOfDocument sid doc = selected sid doc (\<lambda>k e. True)"
  by (simp_all add: planCacheWrites_def cacheRecordsOfDocument_def selected_def)

lemma selected_lookup:
  assumes "cache_ready doc"
  shows "last_by_ord (selected sid doc P) n = Some r \<longleftrightarrow>
    (\<exists>k e. cache_entry doc n k e \<and> P k e \<and> r = cache_record sid k e)"
proof -
  have mem: "r \<in> set (selected sid doc P) \<longleftrightarrow>
      (\<exists>k e. cache_entry doc (rec_ord r) k e \<and> P k e \<and> r = cache_record sid k e)" for r
    using assms by (auto simp: selected_def js_entries_def cache_ready_def cache_entry_def cache_record_def)
  show ?thesis
  proof
    assume "last_by_ord (selected sid doc P) n = Some r"
    then show "\<exists>k e. cache_entry doc n k e \<and> P k e \<and> r = cache_record sid k e"
      using mem last_by_ord_Some by blast
  next
    assume "\<exists>k e. cache_entry doc n k e \<and> P k e \<and> r = cache_record sid k e"
    then obtain k e where ke: "cache_entry doc n k e" "P k e" "r = cache_record sid k e" by blast
    then have "rec_ord r = n" by (simp add: cache_record_def cache_entry_def)
    with ke mem have "r \<in> set (selected sid doc P)" by blast
    then obtain r' where r': "last_by_ord (selected sid doc P) n = Some r'"
      using \<open>rec_ord r = n\<close> last_by_ord_None by (metis not_None_eq)
    then have "\<exists>k' e'. cache_entry doc n k' e' \<and> r' = cache_record sid k' e'" using mem last_by_ord_Some by blast
    then show "last_by_ord (selected sid doc P) n = Some r"
      using r' ke cache_entry_unique[OF assms ke(1)] by blast
  qed
qed

lemma selected_absent:
  "cache_ready doc \<Longrightarrow> last_by_ord (selected sid doc P) n = None \<longleftrightarrow> \<not> (\<exists>k e. cache_entry doc n k e \<and> P k e)"
  using selected_lookup by (metis not_None_eq option.distinct(1))

lemma unchanged_base:
  assumes "cache_ready before" "cache_entry after n k e" "unchanged_projection (jget (doc_entries before) k) e"
  shows "\<exists>b. cache_entry before n k b \<and> json_norm (entryForCache b) = json_norm (entryForCache e)"
proof -
  obtain ps where ps: "doc_entries before = JObj ps" using assms(1) by (cases "doc_entries before") (auto simp: cache_ready_def)
  then obtain b where b: "map_of ps k = Some b" "jget b ''ord'' = jget e ''ord''"
      "json_norm (entryForCache b) = json_norm (entryForCache e)"
    using assms(3) by (auto simp: unchanged_projection_def split: option.splits)
  moreover have "isEntrySealed b"
    using assms(1,2) b ps
    by (fastforce simp: cache_ready_def list_all_iff cache_entry_def cacheable_def dest!: map_of_SomeD)
  ultimately show ?thesis using assms(2) ps by (auto simp: cache_entry_def cacheable_def)
qed

text \<open>What the full record set and the plan say about one position.\<close>

lemma records_view:
  assumes "cache_ready doc"
  shows "cache_entry doc n k e \<Longrightarrow>
      cache_view (last_by_ord (cacheRecordsOfDocument sid doc)) n = Some (k, json_norm (entryForCache e))"
    and "\<not> (\<exists>k e. cache_entry doc n k e) \<Longrightarrow> cache_view (last_by_ord (cacheRecordsOfDocument sid doc)) n = None"
proof -
  assume "cache_entry doc n k e"
  then have "last_by_ord (cacheRecordsOfDocument sid doc) n = Some (cache_record sid k e)"
    using selected_lookup[OF assms] by (auto simp: selected_plan)
  then show "cache_view (last_by_ord (cacheRecordsOfDocument sid doc)) n = Some (k, json_norm (entryForCache e))"
    by (simp add: cache_view_def cache_record_def)
next
  assume "\<not> (\<exists>k e. cache_entry doc n k e)"
  then show "cache_view (last_by_ord (cacheRecordsOfDocument sid doc)) n = None"
    using selected_absent[OF assms] by (simp add: cache_view_def selected_plan)
qed

lemma plan_lookup:
  assumes "cache_ready after"
  shows "cache_entry after n k e \<Longrightarrow> last_by_ord (planCacheWrites sid before after) n =
      (if unchanged_projection (jget (doc_entries before) k) e then None else Some (cache_record sid k e))"
    and "\<not> (\<exists>k e. cache_entry after n k e) \<Longrightarrow> last_by_ord (planCacheWrites sid before after) n = None"
proof -
  let ?P = "\<lambda>k e. \<not> unchanged_projection (jget (doc_entries before) k) e"
  assume e: "cache_entry after n k e"
  have "\<not> ?P k e \<Longrightarrow> \<not> (\<exists>k' e'. cache_entry after n k' e' \<and> ?P k' e')"
    using cache_entry_unique[OF assms e] by fast
  then show "last_by_ord (planCacheWrites sid before after) n =
      (if unchanged_projection (jget (doc_entries before) k) e then None else Some (cache_record sid k e))"
    using selected_absent[OF assms, of sid ?P n] selected_lookup[OF assms, of sid ?P n "cache_record sid k e"] e
    by (auto simp: selected_plan)
next
  assume "\<not> (\<exists>k e. cache_entry after n k e)"
  then show "last_by_ord (planCacheWrites sid before after) n = None"
    using selected_absent[OF assms] by (simp add: selected_plan)
qed

text \<open>The heart of the incremental cache, over any store that keeps the contract.\<close>

context entry_cache_store
begin

lemma incremental_is_full:
  assumes "good st" "cache_ready before" "cache_ready after"
    and old: "cache_view (by_ord (ld st sid)) = cache_view (last_by_ord (cacheRecordsOfDocument sid before))"
    and kept: "\<And>n k e. cache_entry before n k e \<Longrightarrow> \<exists>k' e'. cache_entry after n k' e'"
  shows "cache_view (by_ord (ld (wr st sid (planCacheWrites sid before after)) sid)) =
    cache_view (last_by_ord (cacheRecordsOfDocument sid after))"
proof
  fix n
  let ?w = "last_by_ord (planCacheWrites sid before after) n"
  have lw: "cache_view (by_ord (ld (wr st sid (planCacheWrites sid before after)) sid)) n =
      (case ?w of None \<Rightarrow> cache_view (last_by_ord (cacheRecordsOfDocument sid before)) n
       | Some r \<Rightarrow> Some (rec_entryId r, json_norm (rec_entry r)))"
    using fun_cong[OF old, of n]
    by (simp add: load_write[OF assms(1)] map_add_def cache_view_def split: option.split)
  show "cache_view (by_ord (ld (wr st sid (planCacheWrites sid before after)) sid)) n =
      cache_view (last_by_ord (cacheRecordsOfDocument sid after)) n"
  proof (cases "\<exists>k e. cache_entry after n k e")
    case False
    then have "\<not> (\<exists>k e. cache_entry before n k e)" using kept by blast
    with False show ?thesis
      using lw records_view(2)[OF assms(2)] records_view(2)[OF assms(3)] plan_lookup(2)[OF assms(3)] by simp
  next
    case True
    then obtain k e where e: "cache_entry after n k e" by blast
    show ?thesis
    proof (cases "unchanged_projection (jget (doc_entries before) k) e")
      case True
      then obtain b where "cache_entry before n k b" "json_norm (entryForCache b) = json_norm (entryForCache e)"
        using unchanged_base[OF assms(2) e] by blast
      then show ?thesis using lw True e records_view(1)[OF assms(2)] records_view(1)[OF assms(3) e]
          plan_lookup(1)[OF assms(3) e] by simp
    qed (use lw records_view(1)[OF assms(3) e] plan_lookup(1)[OF assms(3) e] in \<open>simp add: cache_record_def\<close>)
  qed
qed

end

section \<open>Properties\<close>

text \<open>
  \<^bold>\<open>Lemma.\<close>  A cursor is derived exactly from the record sets that cover the positions
  \<open>0 \<dots> n - 1\<close> of one session without gap or duplicate; it then counts them and names the entry at
  the last position.
\<close>

theorem computeCursor_iff:
  "(case computeCursor rs of
      None \<Rightarrow> \<not> (rs \<noteq> [] \<and> (\<exists>sid. contiguous sid rs))
    | Some c \<Rightarrow> contiguous (cursor_sessionId c) rs \<and> entryCount c = of_nat (length rs) \<and>
        (\<exists>r. r \<in> set rs \<and> rec_ord r = of_nat (length rs - 1) \<and> rec_entryId r = lastKnownId c))"
proof (cases "computeCursor rs")
  case None
  then show ?thesis using computeCursor_complete[of rs] by auto
next
  case (Some c)
  then show ?thesis using computeCursor_sound[OF Some] by auto
qed

text \<open>
  \<^bold>\<open>Property C37.\<close>  Incremental caching is the full repair: if the store holds what a full write of the old
  document holds, then writing only the planned records leaves what a full write of the new
  document holds, position by position, provided no position disappears.
\<close>

theorem planCacheWrites_incremental:
  assumes "wf_store st" "cache_ready before" "cache_ready after"
    and "cache_view (by_ord (fst (loadSession st sid))) = cache_view (last_by_ord (cacheRecordsOfDocument sid before))"
    and "\<And>n k e. cache_entry before n k e \<Longrightarrow> \<exists>k' e'. cache_entry after n k' e'"
  shows "cache_view (by_ord (fst (loadSession (writeEntries st sid (planCacheWrites sid before after) hint) sid))) =
     cache_view (last_by_ord (cacheRecordsOfDocument sid after)) \<and>
     cache_view (by_ord (fst (loadSession (replaceSession st sid (cacheRecordsOfDocument sid after) hint) sid))) =
     cache_view (last_by_ord (cacheRecordsOfDocument sid after))"
  using memory.incremental_is_full[OF assms] memory.load_replace[OF assms(1)] by simp

theorem planCacheWrites_incremental_witness:
  "cache_view (by_ord (fst (loadSession (writeEntries [] ''s''
       (planCacheWrites ''s'' (mk_doc JNull []) (mk_doc JNull [(''a'', JObj [(''ord'', JNum 0)])])) None) ''s''))) =
     cache_view (last_by_ord (cacheRecordsOfDocument ''s'' (mk_doc JNull [(''a'', JObj [(''ord'', JNum 0)])])))"
proof -
  have "wf_store []" by (simp add: wf_store_def)
  moreover have "cache_ready (mk_doc JNull [])" by (simp add: cache_ready_def)
  moreover have "cache_ready (mk_doc JNull [(''a'', JObj [(''ord'', JNum 0)])])"
    by (auto simp: cache_ready_def isEntrySealed_def split: if_splits)
  moreover have "cache_view (by_ord (fst (loadSession [] ''s''))) =
      cache_view (last_by_ord (cacheRecordsOfDocument ''s'' (mk_doc JNull [])))"
    by (simp add: loadSession_def cacheRecordsOfDocument_def js_entries_def by_ord_def)
  moreover have "\<And>n k e. \<not> cache_entry (mk_doc JNull []) n k e" by (simp add: cache_entry_def)
  ultimately show ?thesis using planCacheWrites_incremental by blast
qed

end
