(* ===== verification/Resume.thy ===== *)
theory Resume
  imports Sync Cache
begin

text \<open>
  Resuming a session from the client cache, the composition of \<^verbatim>\<open>cache.ts\<close> and \<^verbatim>\<open>sync.ts\<close>: what a client
  caches of a mirror is a prefix of the committed log, the cursor computed from those records is
  accepted by the host, and the delta the host answers brings the seeded mirror to the document of a
  full replace.
\<close>

section \<open>Resuming from the cache\<close>

text \<open>The records a client has cached for the first positions of a session.\<close>

definition prefix_records :: "string \<Rightarrow> jsv \<Rightarrow> jsv list \<Rightarrow> nat \<Rightarrow> CacheEntryRecord list" where
  "prefix_records sid doc es n =
     map (\<lambda>i. \<lparr>rec_sessionId = sid, rec_ord = of_nat i, rec_entryId = entry_id (es ! i),
               rec_entry = entryForCache (committedBase doc i (es ! i))\<rparr>) [0..<n]"

lemma jget_strip:
  assumes "k \<notin> {''sections'', ''content'', ''details''}" "is_obj e"
  shows "jget (stripLazyFields e) k = jget e k"
  using assms by (auto simp: stripLazyFields_def Let_def split: jsv.split)

lemma entryForCache_sealed:
  assumes "is_obj e" "jget e ''isSealed'' = JBool True"
  shows "entryForCache e = stripLazyFields e"
proof -
  obtain ps where ps: "stripLazyFields e = JObj ps"
    using is_obj_stripLazyFields[of e] assms(1) by (cases "stripLazyFields e") auto
  have "jget (JObj ps) ''isSealed'' = JBool True" using jget_strip[of "''isSealed''" e] assms ps by simp
  then have "map_of ps ''isSealed'' = Some (JBool True)" by (auto split: option.splits)
  then show ?thesis by (simp add: entryForCache_def ps AList_update_same)
qed

lemma fold_update_fresh:
  "distinct (map fst es @ map f rs) \<Longrightarrow>
   foldl (\<lambda>es r. AList.update (f r) (g r) es) es rs = es @ map (\<lambda>r. (f r, g r)) rs"
  by (induction rs arbitrary: es) (simp_all add: AList_update_new)

lemma prefix_records_facts:
  shows "length (prefix_records sid doc es n) = n"
    and "contiguous sid (prefix_records sid doc es n)"
    and "sorted (map rec_ord (prefix_records sid doc es n))"
proof -
  show "length (prefix_records sid doc es n) = n" by (simp add: prefix_records_def)
  have ords: "map rec_ord (prefix_records sid doc es n) = map of_nat [0..<n]"
    by (simp add: prefix_records_def comp_def)
  then have "distinct (map rec_ord (prefix_records sid doc es n))" by (simp add: distinct_map)
  moreover have "rec_ord ` set (prefix_records sid doc es n) = of_nat ` {0..<n}"
    using arg_cong[OF ords, of set] by simp
  ultimately show "contiguous sid (prefix_records sid doc es n)"
    by (auto simp: contiguous_def list_all_iff prefix_records_def)
  show "sorted (map rec_ord (prefix_records sid doc es n))"
    unfolding ords by (simp add: sorted_iff_nth_mono)
qed

text \<open>
  What makes a log resumable: every committed form is an object that is marked sealed and carries
  its file position.
\<close>

definition resumable :: "jsv \<Rightarrow> jsv list \<Rightarrow> bool" where
  "resumable doc es \<longleftrightarrow> syncable doc es \<and>
     list_all (\<lambda>(i, e). let b = committedBase doc i e
        in jget b ''isSealed'' = JBool True \<and> jget b ''ord'' = JNum (of_nat i)) (enumerate 0 es)"

lemma is_obj_sealed: "jget v ''isSealed'' = JBool True \<Longrightarrow> is_obj v"
  by (cases v) (auto simp: not_canon_nat is_digit_def split: if_splits)

lemma strip_block_idem [simp]: "strip_block (strip_block b) = strip_block b"
  by (cases b) (auto simp: strip_block_def Let_def split: option.splits)

text \<open>Stripping is idempotent: on a stripped entry every step finds what it would write.\<close>

definition nullify :: "string \<Rightarrow> jsv \<Rightarrow> jsv" where
  "nullify k e = (if jhas e k then jset k JNull e else e)"

definition hide_sections :: "jsv \<Rightarrow> jsv" where
  "hide_sections e = (if jget e ''kind'' = JStr ''message'' \<and> \<not> nullish (jget e ''sections'')
     then jset ''sections'' JNull e else e)"

definition hide_blocks :: "jsv \<Rightarrow> jsv" where
  "hide_blocks e = (case jget e ''content'' of JArr bs \<Rightarrow> jset ''content'' (JArr (map strip_block bs)) e | _ \<Rightarrow> e)"

lemma stripLazyFields_steps:
  "is_obj e \<Longrightarrow> stripLazyFields e =
     (if jget e ''kind'' = JStr ''tool_result'' then nullify ''details'' (nullify ''content'' e)
      else hide_blocks (hide_sections e))"
  by (cases e) (auto simp: stripLazyFields_def nullify_def hide_sections_def hide_blocks_def Let_def
      split: option.splits jsv.split)

lemma nullify_nullified:
  "is_obj e \<Longrightarrow> k \<noteq> k' \<Longrightarrow> nullify k (nullify k' (nullify k (nullify k' e))) = nullify k (nullify k' e)"
  by (cases e) (simp_all add: nullify_def AList_update_same)

lemma hide_blocks_idem: "is_obj e \<Longrightarrow> hide_blocks (hide_blocks e) = hide_blocks e"
  by (cases e) (auto simp: hide_blocks_def comp_def split: option.splits jsv.split)

lemma is_obj_hide [simp]:
  "is_obj (hide_blocks e) = is_obj e" "is_obj (hide_sections e) = is_obj e"
  by (simp_all add: hide_blocks_def hide_sections_def split: jsv.split)

lemma jget_hide_blocks: "is_obj e \<Longrightarrow> k \<noteq> ''content'' \<Longrightarrow> jget (hide_blocks e) k = jget e k"
  by (simp add: hide_blocks_def split: jsv.split)

lemma hide_sections_hidden: "is_obj e \<Longrightarrow> hide_sections (hide_blocks (hide_sections e)) = hide_blocks (hide_sections e)"
  by (subst hide_sections_def) (auto simp: jget_hide_blocks hide_sections_def)

lemma stripLazyFields_idem:
  assumes "is_obj e"
  shows "stripLazyFields (stripLazyFields e) = stripLazyFields e"
proof -
  have "jget (stripLazyFields e) ''kind'' = jget e ''kind''" using assms by (intro jget_strip) auto
  then have "stripLazyFields (stripLazyFields e) =
      (if jget e ''kind'' = JStr ''tool_result'' then nullify ''details'' (nullify ''content'' (stripLazyFields e))
       else hide_blocks (hide_sections (stripLazyFields e)))"
    using assms by (simp add: stripLazyFields_steps[of "stripLazyFields e"])
  then show ?thesis using assms
    by (simp add: stripLazyFields_steps[of e] nullify_nullified hide_blocks_idem hide_sections_hidden)
qed

text \<open>What a client caches of a mirror that holds a committed prefix and live forms.\<close>

lemma committed_form:
  assumes "resumable doc es" "i < length es"
  defines "b \<equiv> committedBase doc i (es ! i)"
  shows "is_obj b" "entryForCache b = stripLazyFields b" "cacheable (stripLazyFields b)"
    "cache_record sid k (stripLazyFields b) =
       \<lparr>rec_sessionId = sid, rec_ord = of_nat i, rec_entryId = k, rec_entry = entryForCache b\<rparr>"
proof -
  have b: "jget b ''isSealed'' = JBool True" "jget b ''ord'' = JNum (of_nat i)"
    using assms unfolding resumable_def by (auto simp: list_all_length nth_enumerate_eq Let_def)
  then show o: "is_obj b" by (intro is_obj_sealed)
  show "entryForCache b = stripLazyFields b" by (rule entryForCache_sealed[OF o b(1)])
  have s: "jget (stripLazyFields b) ''isSealed'' = JBool True" "jget (stripLazyFields b) ''ord'' = JNum (of_nat i)"
    using b o jget_strip[of _ b] by simp_all
  then show "cacheable (stripLazyFields b)" by (simp add: cacheable_def isEntrySealed_def)
  have "entryForCache (stripLazyFields b) = entryForCache b"
    using s o b by (simp add: entryForCache_sealed stripLazyFields_idem)
  then show "cache_record sid k (stripLazyFields b) =
      \<lparr>rec_sessionId = sid, rec_ord = of_nat i, rec_entryId = k, rec_entry = entryForCache b\<rparr>"
    using s by (simp add: cache_record_def)
qed

lemma prefix_records_map:
  assumes "resumable doc es" "n \<le> length es"
  shows "map (\<lambda>(k, e). cache_record sid k e) (take n (committed_props doc es)) = prefix_records sid doc es n"
  using assms committed_form(4)[OF assms(1)]
  by (intro nth_equalityI) (auto simp: prefix_records_def committed_props_def nth_collectCommitted)

lemma mset_own_entries: "mset (own_entries ps) = mset ps"
  using multiset_partition[of "mset ps" "is_index \<circ> fst"] by (simp add: own_entries_def comp_def)

lemma cached_prefix:
  assumes "resumable doc es" "n \<le> length es" "distinct (map fst (take n (committed_props doc es) @ live))"
    and "list_all (\<lambda>(k, e). \<not> isEntrySealed e) live"
  shows "cacheRecordsOfDocument sid (mk_doc st (take n (committed_props doc es) @ live)) = prefix_records sid doc es n"
proof -
  let ?c = "take n (committed_props doc es)" and ?rec = "\<lambda>(k, e). cache_record sid k e"
  let ?f = "filter (\<lambda>(k, e). cacheable e)"
  have "cacheable e" if "(k, e) \<in> set ?c" for k e
    using that committed_form(3)[OF assms(1)] assms(2)
    by (auto simp: in_set_conv_nth committed_props_def nth_collectCommitted)
  then have c: "?f ?c = ?c" by (intro filter_True) auto
  have "?f live = []" using assms(4) by (auto simp: filter_empty_conv list_all_iff cacheable_def)
  with c have fl: "?f (?c @ live) = ?c" by simp
  have "mset (own_entries (?c @ live)) = mset (?c @ live)"
    by (rule mset_own_entries)
  then have "mset (map ?rec (?f (own_entries (?c @ live)))) = mset (map ?rec ?c)"
    by (metis fl mset_filter mset_map)
  then have "mset (map ?rec (?f (own_entries (?c @ live)))) = mset (prefix_records sid doc es n)"
    by (simp add: prefix_records_map[OF assms(1,2)])
  moreover from this have "inj_on rec_ord (set (map ?rec (?f (own_entries (?c @ live)))))"
    using prefix_records_facts(2)[of sid doc es n] by (metis contiguous_def distinct_map mset_eq_setD)
  ultimately show ?thesis using prefix_records_facts(3)
    by (simp add: cacheRecordsOfDocument_def js_entries_def sort_key_inj_key_eq)
qed

text \<open>Seeding from those records gives the committed prefix back.\<close>

lemma seedEntries_prefix:
  assumes "resumable doc es" "n \<le> length es"
  shows "seedEntries (prefix_records sid doc es n) = take n (committed_props doc es)"
proof -
  let ?rs = "prefix_records sid doc es n"
  have "distinct (map rec_ord ?rs)" using prefix_records_facts(2)[of sid doc es n] by (simp add: contiguous_def)
  then have sort: "sort_key rec_ord ?rs = ?rs"
    using prefix_records_facts(3) by (intro sort_key_inj_key_eq) (auto simp: distinct_map)
  have ids: "map rec_entryId ?rs = take n (map entry_id es)"
    using assms(2) by (intro nth_equalityI) (auto simp: prefix_records_def)
  have "distinct (map entry_id es)" using assms(1) by (simp add: resumable_def syncable_def)
  then have "seedEntries ?rs = map (\<lambda>r. (rec_entryId r, rec_entry r)) ?rs"
    unfolding seedEntries_def sort by (subst fold_update_fresh) (simp_all add: ids distinct_take)
  also have "\<dots> = take n (committed_props doc es)"
    using assms(2) committed_form(2)[OF assms(1)] by (intro nth_equalityI)
      (auto simp: prefix_records_def committed_props_def nth_collectCommitted)
  finally show ?thesis .
qed

section \<open>Properties\<close>

text \<open>
  \<^bold>\<open>Property C3.\<close>  A client may resume from its cache.  Take the mirror of a client that holds the first
  \<open>n\<close> committed entries and any live forms.  From the records cached of it a cursor is computed; the
  host, whose log has grown since, accepts the cursor and answers with a patch; on the document
  seeded from the same records this patch gives exactly the document of a full replace.
\<close>

theorem cached_resume:
  fixes session :: SessionRef and st st' :: jsv
  assumes "resumable doc es" "0 < n" "n \<le> length es"
    and "distinct (map fst (take n (committed_props doc es) @ live))"
    and "list_all (\<lambda>(k, e). \<not> isEntrySealed e) live"
    and "list_all (\<lambda>e. jget e ''id'' = JStr (entry_id e)) es"
  defines "records \<equiv> cacheRecordsOfDocument (sessionId session) (mk_doc st (take n (committed_props doc es) @ live))"
  shows "\<exists>c ops. computeCursor records = Some c \<and>
     buildInitialSync doc es session (Some c) = PatchFrame session ops \<and>
     buildInitialSync doc es session None = ReplaceFrame session (applyOps (mk_doc st' (seedEntries records)) ops)"
proof -
  have r: "records = prefix_records (sessionId session) doc es n"
    using cached_prefix[OF assms(1,3,4,5)] by (simp add: records_def)
  have len: "length records = n" and contig: "contiguous (sessionId session) records"
    unfolding r by (rule prefix_records_facts)+
  have "records \<noteq> []" using len assms(2) by auto
  then obtain c where c: "computeCursor records = Some c" "cursor_sessionId c = sessionId session"
    using computeCursor_complete[OF _ contig] by blast
  from computeCursor_sound[OF c(1)] obtain k where count: "entryCount c = of_nat n"
    and k: "k \<in> set records" "rec_ord k = of_nat (n - 1)" "rec_entryId k = lastKnownId c"
    by (auto simp: len)
  then have "lastKnownId c = entry_id (es ! (n - 1))" by (auto simp: r prefix_records_def)
  then have "jget (es ! (n - 1)) ''id'' = JStr (lastKnownId c)"
    using assms(2,3,6) by (simp add: list_all_length)
  then have v: "validateCursor es c (sessionId session)"
    using assms(2,3) count c(2) by (intro validateCursor_intro)
  have "syncable doc es" using assms(1) by (simp add: resumable_def)
  then have "applyOps (mk_doc st' (seedEntries records)) (deltaOps doc es (of_nat n)) =
      mk_doc (doc_status doc) (replaceEntries doc es)"
    unfolding r seedEntries_prefix[OF assms(1,3)] by (rule delta_is_replace)
  then show ?thesis using c(1) v count by (simp add: buildInitialSync_def)
qed

theorem cached_resume_witness:
  "\<exists>c ops. computeCursor (cacheRecordsOfDocument ''s'' (mk_doc JNull
       [(''a'', projectEntry (JObj [(''id'', JStr ''a''), (''type'', JStr ''label'')]) 0)])) = Some c \<and>
     buildInitialSync (mk_doc JNull []) [JObj [(''id'', JStr ''a''), (''type'', JStr ''label'')]]
       \<lparr>projectId = ''p'', sessionId = ''s'', stem = ''x''\<rparr> (Some c) =
     PatchFrame \<lparr>projectId = ''p'', sessionId = ''s'', stem = ''x''\<rparr> ops"
proof -
  let ?e = "JObj [(''id'', JStr ''a''), (''type'', JStr ''label'')]"
  let ?s = "\<lparr>projectId = ''p'', sessionId = ''s'', stem = ''x''\<rparr>"
  have base: "committedBase (mk_doc JNull []) 0 ?e = projectEntry ?e 0" by (simp add: committedBase_def)
  have strip: "stripLazyFields (projectEntry ?e 0) = projectEntry ?e 0"
    by (simp add: projectEntry_def toEntry_def toLabelEntry_def stripLazyFields_def Let_def)
  have c: "committed_props (mk_doc JNull []) [?e] = [(''a'', projectEntry ?e 0)]"
    by (simp add: committed_props_def collectCommitted_def base strip entry_id_def)
  have "resumable (mk_doc JNull []) [?e]"
    by (simp add: resumable_def syncable_def entry_id_def plain_key_def base projectEntry_seal Let_def)
  from cached_resume[OF this, of 1 "[]" ?s JNull JNull] show ?thesis by (simp add: c entry_id_def) blast
qed

end
