(* ===== verification/JsonText.thy ===== *)
theory JsonText
  imports Entries
begin

text \<open>
  \<^verbatim>\<open>JSON.stringify\<close> as text, which the recovery relay measures: string quoting with its escapes,
  numbers, arrays and objects (without whitespace).  The length of a quoted string is what the
  relay's loop depends on.
\<close>

section \<open>Definitions\<close>

definition hex_lower :: "nat \<Rightarrow> char" where
  "hex_lower n = (if n < 10 then digit_char n else char_of (87 + n))"

text \<open>One UTF-16 unit of a quoted string.  Units from 32 on other than the quote and the backslash stand for themselves.\<close>

definition escape_char :: "char \<Rightarrow> string" where
  "escape_char c =
     (let n = of_char c :: nat in
      if n = 34 then [CHR 92, CHR 34]
      else if n = 92 then [CHR 92, CHR 92]
      else if n = 8 then [CHR 92, CHR ''b'']
      else if n = 9 then [CHR 92, CHR ''t'']
      else if n = 10 then [CHR 92, CHR ''n'']
      else if n = 12 then [CHR 92, CHR ''f'']
      else if n = 13 then [CHR 92, CHR ''r'']
      else if n < 32 then [CHR 92] @ ''u00'' @ [hex_lower (n div 16), hex_lower (n mod 16)]
      else [c])"

definition quote :: "string \<Rightarrow> string" where
  "quote s = [CHR 34] @ concat (map escape_char s) @ [CHR 34]"

text \<open>\<^verbatim>\<open>ts.join(sep)\<close>.\<close>

fun join_with :: "string \<Rightarrow> string list \<Rightarrow> string" where
  "join_with sep [] = []"
| "join_with sep [t] = t"
| "join_with sep (t # u # ts) = t @ sep @ join_with sep (u # ts)"

definition member_text :: "string \<times> string \<Rightarrow> string" where
  "member_text p = quote (fst p) @ [CHR '':''] @ snd p"

fun json_text :: "jsv \<Rightarrow> string" where
  "json_text JUndef = ''null''"
| "json_text JNull = ''null''"
| "json_text (JBool b) = (if b then ''true'' else ''false'')"
| "json_text (JNum r) = num_str r"
| "json_text (JStr s) = quote s"
| "json_text (JArr vs) = [CHR ''[''] @ join_with '','' (map json_text vs) @ [CHR '']'']"
| "json_text (JObj ps) =
     [CHR ''{''] @ join_with '','' (map (\<lambda>p. member_text (fst p, json_text (snd p))) ps) @ [CHR ''}'']"

text \<open>\<^verbatim>\<open>JSON.stringify(v)\<close>; \<^const>\<open>None\<close> is its result \<^verbatim>\<open>undefined\<close>.\<close>

definition stringify :: "jsv \<Rightarrow> string option" where
  "stringify v = (if v = JUndef then None else Some (json_text (json_norm v)))"

section \<open>Lengths\<close>

definition esc_len :: "string \<Rightarrow> nat" where
  "esc_len s = length (concat (map escape_char s))"

lemma esc_len_simps [simp]:
  "esc_len [] = 0" "esc_len (c # s) = length (escape_char c) + esc_len s" "esc_len (s @ t) = esc_len s + esc_len t"
  by (simp_all add: esc_len_def)

lemma length_quote [simp]: "length (quote s) = esc_len s + 2"
  by (simp add: quote_def esc_len_def)

text \<open>A unit that escapes to at most two: every unit but the control characters without a short escape.\<close>

definition mild :: "char \<Rightarrow> bool" where
  "mild c \<longleftrightarrow> length (escape_char c) \<le> 2"

lemma mild_iff: "mild c \<longleftrightarrow> (of_char c :: nat) \<ge> 32 \<or> (of_char c :: nat) \<in> {8, 9, 10, 12, 13}"
  by (auto simp: mild_def escape_char_def Let_def)

lemma esc_len_mild: "list_all mild s \<Longrightarrow> esc_len s \<le> 2 * length s"
  by (induction s) (auto simp: mild_def)

lemma esc_len_ge: "length s \<le> esc_len s"
proof (induction s)
  case (Cons c s)
  have "1 \<le> length (escape_char c)" by (simp add: escape_char_def Let_def)
  with Cons show ?case by simp
qed simp

lemma esc_len_replicate: "esc_len (replicate n c) = n * length (escape_char c)"
  by (induction n) simp_all

lemma length_join_with: "length (join_with sep ts) = sum_list (map length ts) + (length ts - 1) * length sep"
  by (induction sep ts rule: join_with.induct) simp_all

lemma length_join_with_le: "length (join_with sep ts) \<le> sum_list (map length ts) + length ts * length sep"
  by (simp add: length_join_with)

lemma length_member_text: "length (member_text p) = esc_len (fst p) + 3 + length (snd p)"
  by (simp add: member_text_def)

end
