(* ===== verification/HistoryTree.thy ===== *)
theory HistoryTree
  imports Status JsonText "HOL-Library.Multiset"
begin

text \<open>
  The history tree of the view model, \<^verbatim>\<open>packages/bridge/src/viewmodel/tree.ts\<close>, first pass: labels, the
  tree of user messages, the active path and the collapse of superseded turns.  The order of strings
  by \<^verbatim>\<open>localeCompare\<close> depends on the locale, so it is an argument \<open>lc\<close> of the functions that sort; what
  the proofs need of it is the predicate \<open>collates\<close>.  The properties: the tree holds every user
  message once, under its nearest user ancestor, and a collapse loses no message and hides only
  dead ends.
\<close>

section \<open>Sorting with a comparison\<close>

text \<open>\<^verbatim>\<open>Array.prototype.sort\<close>: the stable result for a consistent comparison.\<close>

fun insert_by :: "('a \<Rightarrow> 'a \<Rightarrow> bool) \<Rightarrow> 'a \<Rightarrow> 'a list \<Rightarrow> 'a list" where
  "insert_by le x [] = [x]"
| "insert_by le x (y # ys) = (if le x y then x # y # ys else y # insert_by le x ys)"

definition sort_by :: "('a \<Rightarrow> 'a \<Rightarrow> bool) \<Rightarrow> 'a list \<Rightarrow> 'a list" where
  "sort_by le xs = foldr (insert_by le) xs []"

type_synonym collation = "string \<Rightarrow> string \<Rightarrow> int"

section \<open>Nodes\<close>

datatype HistoryNode = HistoryNode
  (node_id: string)
  (node_text: string)
  (timestamp: string)
  (deadEnd: bool)
  (children: "HistoryNode list")
  (supersededTurns: "HistoryNode list")
  (node_label: "string option")

text \<open>\<^verbatim>\<open>{ ...n, children }\<close> and \<^verbatim>\<open>{ ...n, supersededTurns }\<close>.\<close>

fun with_children :: "HistoryNode list \<Rightarrow> HistoryNode \<Rightarrow> HistoryNode" where
  "with_children cs (HistoryNode i t ts d _ old l) = HistoryNode i t ts d cs old l"

fun with_superseded :: "HistoryNode list \<Rightarrow> HistoryNode \<Rightarrow> HistoryNode" where
  "with_superseded turns (HistoryNode i t ts d cs _ l) = HistoryNode i t ts d cs turns l"

section \<open>Labels and previews\<close>

definition label_before :: "collation \<Rightarrow> jsv \<Rightarrow> jsv \<Rightarrow> bool" where
  "label_before lc a b =
     (if jget a ''ord'' \<noteq> JUndef \<and> jget b ''ord'' \<noteq> JUndef \<and> jget a ''ord'' \<noteq> jget b ''ord''
      then num_of (jget a ''ord'') - num_of (jget b ''ord'') \<le> 0
      else let byTimestamp = lc (str_of (jget a ''timestamp'')) (str_of (jget b ''timestamp''))
           in if byTimestamp \<noteq> 0 then byTimestamp \<le> 0
              else lc (str_of (jget a ''id'')) (str_of (jget b ''id'')) \<le> 0)"

definition set_label :: "(string \<times> string) list \<Rightarrow> jsv \<Rightarrow> (string \<times> string) list" where
  "set_label labels e =
     (if truthy (jget e ''label'')
      then AList.update (str_of (jget e ''targetId'')) (str_of (jget e ''label'')) labels
      else AList.delete (str_of (jget e ''targetId'')) labels)"

definition resolveLabels :: "collation \<Rightarrow> jsv \<Rightarrow> (string \<times> string) list" where
  "resolveLabels lc entries =
     foldl set_label [] (sort_by (label_before lc) (filter (kind_is ''label'') (js_values entries)))"

abbreviation PREVIEW_MAX :: nat where "PREVIEW_MAX \<equiv> 80"

text \<open>
  White space of \<^verbatim>\<open>trim\<close> in the 8-bit range.  The model's characters are 8-bit; the ellipsis U+2026 is
  represented by the code it has in Windows-1252.
\<close>

definition js_space :: "char \<Rightarrow> bool" where
  "js_space c \<longleftrightarrow> c \<in> {CHR 9, CHR 10, CHR 11, CHR 12, CHR 13, CHR 32, CHR 160}"

definition trim :: "string \<Rightarrow> string" where
  "trim s = rev (dropWhile js_space (rev (dropWhile js_space s)))"

definition ellipsis :: string where
  "ellipsis = [CHR 133]"

definition previewText :: "jsv \<Rightarrow> string" where
  "previewText entry =
     (let t = trim (join_with '' '' (map (\<lambda>c. str_of (coalesce (jget c ''text'') (JStr '''')))
                (filter (\<lambda>c. jget c ''type'' = JStr ''text'') (arr_of (jget entry ''content'')))));
          firstLine = hd (split_on (CHR 10) t)
      in if length firstLine > PREVIEW_MAX then take (PREVIEW_MAX - 1) firstLine @ ellipsis else firstLine)"

section \<open>The tree of user messages\<close>

definition is_user :: "jsv \<Rightarrow> bool" where
  "is_user e \<longleftrightarrow> kind_is ''message'' e \<and> jget e ''role'' = JStr ''user''"

text \<open>The loop of \<^verbatim>\<open>nearestUserAncestor\<close> from a cursor.\<close>

partial_function (option) nearest_from :: "jsv \<Rightarrow> jsv \<Rightarrow> string option option" where
  "nearest_from entries cursor =
     (if \<not> truthy cursor then Some None
      else let e = jget entries (js_text cursor)
           in if \<not> truthy e then Some None
              else if is_user e then Some (Some (js_text cursor))
              else nearest_from entries (jget e ''parentId''))"

definition nearestUserAncestor :: "string \<Rightarrow> jsv \<Rightarrow> string option option" where
  "nearestUserAncestor i entries =
     nearest_from entries (if nullish (jget entries i) then JNull else coalesce (jget (jget entries i) ''parentId'') JNull)"

definition userEntries :: "jsv \<Rightarrow> jsv list" where
  "userEntries doc = filter is_user (js_values (doc_entries doc))"

definition user_id :: "jsv \<Rightarrow> string" where
  "user_id e = str_of (jget e ''id'')"

text \<open>\<^verbatim>\<open>effectiveParent\<close>: ids in the order of their first \<^verbatim>\<open>set\<close>.\<close>

definition effectiveParents :: "jsv \<Rightarrow> jsv list \<Rightarrow> (string \<times> string option) list option" where
  "effectiveParents entries users =
     map_option (\<lambda>ps. foldl (\<lambda>m (i, p). AList.update i p m) [] (zip (map user_id users) ps))
       (those (map (\<lambda>ue. nearestUserAncestor (user_id ue) entries) users))"

definition byTs :: "collation \<Rightarrow> HistoryNode \<Rightarrow> HistoryNode \<Rightarrow> bool" where
  "byTs lc a b =
     (let c = lc (timestamp a) (timestamp b)
      in if c \<noteq> 0 then c \<le> 0 else lc (node_id a) (node_id b) \<le> 0)"

definition kids :: "jsv list \<Rightarrow> (string \<times> string option) list \<Rightarrow> string \<Rightarrow> string list" where
  "kids users parents i = filter (\<lambda>j. map_of parents j = Some (Some i)) (map user_id users)"

text \<open>
  The nodes are shared objects in the source, filled after their creation.  As values they are built
  from a root downwards; the depth is bounded by the number of user messages, as every node has one
  parent.
\<close>

definition new_node :: "jsv list \<Rightarrow> (string \<times> string option) list \<Rightarrow> (string \<times> string) list \<Rightarrow> string \<Rightarrow>
    HistoryNode list \<Rightarrow> HistoryNode" where
  "new_node users parents labels i cs =
     (let ue = the (map_of (foldl (\<lambda>m e. AList.update (user_id e) e m) [] users) i)
      in HistoryNode i (previewText ue) (str_of (jget ue ''timestamp'')) (Some i \<notin> snd ` set parents) cs []
           (map_of labels i))"

fun grow :: "collation \<Rightarrow> jsv list \<Rightarrow> (string \<times> string option) list \<Rightarrow> (string \<times> string) list \<Rightarrow>
    nat \<Rightarrow> string \<Rightarrow> HistoryNode" where
  "grow lc users parents labels 0 i = new_node users parents labels i []"
| "grow lc users parents labels (Suc d) i =
     new_node users parents labels i
       (sort_by (byTs lc) (map (grow lc users parents labels d) (kids users parents i)))"

definition computeHistoryTree :: "collation \<Rightarrow> jsv \<Rightarrow> HistoryNode list option" where
  "computeHistoryTree lc doc =
     (let users = userEntries doc; labels = resolveLabels lc (doc_entries doc)
      in map_option (\<lambda>parents.
           sort_by (byTs lc) (map (grow lc users parents labels (length users))
             (filter (\<lambda>i. map_of parents i = Some None) (map user_id users))))
           (effectiveParents (doc_entries doc) users))"

section \<open>The active path\<close>

definition active_step :: "jsv \<Rightarrow> jsv \<Rightarrow> ((string \<times> jsv) \<times> jsv) option" where
  "active_step entries cursor =
     (let e = jget entries (js_text cursor)
      in if truthy cursor \<and> truthy e then Some ((js_text cursor, e), jget e ''parentId'') else None)"

definition computeActiveUserPath :: "jsv \<Rightarrow> jsv \<Rightarrow> string set option" where
  "computeActiveUserPath doc leafId =
     (if \<not> truthy leafId then Some {}
      else map_option (\<lambda>ces. set (map fst (filter (is_user \<circ> snd) ces))) (chain (active_step (doc_entries doc)) leafId))"

section \<open>Collapsing superseded turns\<close>

text \<open>The loop over siblings with the pending run; the source's \<^verbatim>\<open>result\<close> is the returned list.\<close>

fun collapse_loop :: "string set \<Rightarrow> HistoryNode list \<Rightarrow> HistoryNode list \<Rightarrow> HistoryNode list" where
  "collapse_loop keepVisible run [] =
     (if run \<noteq> [] then [with_superseded (supersededTurns (last run) @ butlast run) (last run)] else [])"
| "collapse_loop keepVisible run (s # ss) =
     (if deadEnd s \<and> node_id s \<notin> keepVisible then collapse_loop keepVisible (run @ [s]) ss
      else (if run \<noteq> [] then with_superseded (supersededTurns s @ run) s else s) # collapse_loop keepVisible [] ss)"

definition collapseSiblings :: "HistoryNode list \<Rightarrow> string set \<Rightarrow> HistoryNode list" where
  "collapseSiblings siblings keepVisible = collapse_loop keepVisible [] siblings"

fun collapseNode :: "string set \<Rightarrow> HistoryNode \<Rightarrow> HistoryNode" where
  "collapseNode keepVisible (HistoryNode i t ts d cs old l) =
     HistoryNode i t ts d (collapseSiblings (map (collapseNode keepVisible) cs) keepVisible) old l"

definition collapseSuperseded :: "HistoryNode list \<Rightarrow> string set \<Rightarrow> HistoryNode list" where
  "collapseSuperseded roots keepVisible = collapseSiblings (map (collapseNode keepVisible) roots) keepVisible"

section \<open>The order of strings and sorting\<close>

text \<open>What is documented of \<^verbatim>\<open>localeCompare\<close>: a consistent order on strings.\<close>

definition collates :: "collation \<Rightarrow> bool" where
  "collates lc \<longleftrightarrow> (\<forall>a. lc a a = 0) \<and> (\<forall>a b. lc a b < 0 \<longleftrightarrow> 0 < lc b a) \<and>
     (\<forall>a b c. lc a b \<le> 0 \<longrightarrow> lc b c \<le> 0 \<longrightarrow> lc a c \<le> 0)"

lemma mset_insert_by [simp]: "mset (insert_by le x xs) = add_mset x (mset xs)"
  by (induction xs) simp_all

lemma mset_sort_by [simp]: "mset (sort_by le xs) = mset xs"
  by (induction xs) (simp_all add: sort_by_def)

lemma set_sort_by [simp]: "set (sort_by le xs) = set xs"
  by (metis mset_sort_by set_mset_mset)

lemma length_sort_by [simp]: "length (sort_by le xs) = length xs"
  by (metis mset_sort_by size_mset)

lemma sorted_insert_by:
  assumes "\<And>a b. le a b \<or> le b a" "\<And>a b c. le a b \<Longrightarrow> le b c \<Longrightarrow> le a c" "sorted_wrt le xs"
  shows "sorted_wrt le (insert_by le x xs)"
  using assms(3)
proof (induction xs)
  case (Cons y ys)
  have "set (insert_by le x ys) = insert x (set ys)" by (metis mset_insert_by set_mset_mset set_mset_add_mset_insert)
  then show ?case using Cons assms(1,2) by auto
qed simp

lemma sorted_sort_by:
  assumes "\<And>a b. le a b \<or> le b a" "\<And>a b c. le a b \<Longrightarrow> le b c \<Longrightarrow> le a c"
  shows "sorted_wrt le (sort_by le xs)"
  by (induction xs) (simp_all add: sort_by_def sorted_insert_by[OF assms])

lemma byTs_order:
  assumes "collates lc"
  shows "byTs lc a b \<or> byTs lc b a" and "byTs lc a b \<Longrightarrow> byTs lc b c \<Longrightarrow> byTs lc a c"
proof -
  have flip: "lc x y < 0 \<longleftrightarrow> 0 < lc y x" for x y using assms by (simp add: collates_def)
  have tr: "lc x y \<le> 0 \<Longrightarrow> lc y z \<le> 0 \<Longrightarrow> lc x z \<le> 0" for x y z using assms unfolding collates_def by blast
  show "byTs lc a b \<or> byTs lc b a" using flip by (smt (verit) byTs_def)
  show "byTs lc a b \<Longrightarrow> byTs lc b c \<Longrightarrow> byTs lc a c" unfolding byTs_def Let_def using flip tr by (smt (verit))
qed

section \<open>Forests\<close>

text \<open>The nodes of a tree in depth-first order, and all messages it carries, folded turns included.\<close>

fun nodes_of :: "HistoryNode \<Rightarrow> HistoryNode list" where
  "nodes_of (HistoryNode i t ts d cs old l) = HistoryNode i t ts d cs old l # concat (map nodes_of cs)"

definition forest :: "HistoryNode list \<Rightarrow> HistoryNode list" where
  "forest roots = concat (map nodes_of roots)"

fun all_ids :: "HistoryNode \<Rightarrow> string multiset" where
  "all_ids (HistoryNode i t ts d cs old l) = add_mset i (sum_list (map all_ids cs) + sum_list (map all_ids old))"

lemma forest_simps [simp]: "forest [] = []" "forest (n # ns) = nodes_of n @ forest ns" "forest (ms @ ns) = forest ms @ forest ns"
  by (simp_all add: forest_def)

lemma nodes_of_forest: "nodes_of n = n # forest (children n)"
  by (cases n) (simp add: forest_def)

lemma all_ids_children:
  "all_ids n = add_mset (node_id n) (sum_list (map all_ids (children n)) + sum_list (map all_ids (supersededTurns n)))"
  by (cases n) simp

lemma with_superseded_sel [simp]:
  "node_id (with_superseded ts n) = node_id n" "children (with_superseded ts n) = children n"
  "deadEnd (with_superseded ts n) = deadEnd n" "supersededTurns (with_superseded ts n) = ts"
  by (cases n; simp)+

lemma collapse_loop_all:
  "sum_list (map all_ids (collapse_loop K run ss)) = sum_list (map all_ids run) + sum_list (map all_ids ss)"
proof (induction K run ss rule: collapse_loop.induct)
  case (1 K run)
  have "sum_list (map all_ids run) = sum_list (map all_ids (butlast run)) + all_ids (last run)" if "run \<noteq> []"
    using arg_cong[OF append_butlast_last_id[OF that], of "\<lambda>xs. sum_list (map all_ids xs)"] by simp
  then show ?case by (auto simp: all_ids_children[of "last run"] all_ids_children[of "with_superseded _ _"])
next
  case (2 K run s ss)
  have "all_ids (with_superseded (supersededTurns s @ run) s) = all_ids s + sum_list (map all_ids run)"
    by (simp add: all_ids_children[of s] all_ids_children[of "with_superseded _ _"])
  then show ?case using 2 by (auto simp: union_ac)
qed

lemma collapseNode_all: "all_ids (collapseNode K n) = all_ids n"
proof (induction n rule: HistoryNode.induct)
  case (HistoryNode i t ts d cs old l)
  then have cs: "map (all_ids \<circ> collapseNode K) cs = map all_ids cs" by simp
  show ?case by (simp add: collapseSiblings_def collapse_loop_all cs)
qed

lemma collapseSuperseded_all:
  "sum_list (map all_ids (collapseSuperseded roots K)) = sum_list (map all_ids roots)"
proof -
  have r: "map (all_ids \<circ> collapseNode K) roots = map all_ids roots" by (simp add: collapseNode_all)
  show ?thesis by (simp add: collapseSuperseded_def collapseSiblings_def collapse_loop_all r)
qed

text \<open>What a collapse must leave visible, and the ids of a forest that are visible for that reason.\<close>

definition shown :: "string set \<Rightarrow> HistoryNode \<Rightarrow> bool" where
  "shown K n \<longleftrightarrow> \<not> deadEnd n \<or> node_id n \<in> K"

definition shown_ids :: "string set \<Rightarrow> HistoryNode list \<Rightarrow> string set" where
  "shown_ids K ns = node_id ` {n \<in> set (forest ns). shown K n}"

text \<open>In a history tree dead ends are leaves.\<close>

definition ends :: "HistoryNode list \<Rightarrow> bool" where
  "ends ns \<longleftrightarrow> list_all (\<lambda>n. deadEnd n \<longrightarrow> children n = []) ns"

lemma shown_ids_simps:
  "shown_ids K [] = {}" "shown_ids K (ms @ ns) = shown_ids K ms \<union> shown_ids K ns"
  "shown_ids K (n # ns) = (if shown K n then {node_id n} else {}) \<union> shown_ids K (children n) \<union> shown_ids K ns"
  by (auto simp: shown_ids_def nodes_of_forest)

lemma shown_with_superseded: "shown_ids K (with_superseded ts n # ns) = shown_ids K (n # ns)"
  by (simp add: shown_ids_simps shown_def)

lemma collapse_loop_shown:
  "ends (run @ ss) \<Longrightarrow> list_all (\<lambda>n. \<not> shown K n) run \<Longrightarrow> shown_ids K (collapse_loop K run ss) = shown_ids K ss"
proof (induction K run ss rule: collapse_loop.induct)
  case (1 K run)
  then have "\<not> shown K (last run) \<and> children (last run) = []" if "run \<noteq> []"
    using that by (auto simp: ends_def list_all_iff shown_def)
  then show ?case by (simp add: shown_with_superseded) (simp add: shown_ids_simps)
next
  case (2 K run s ss)
  then show ?case
    by (auto simp: shown_ids_simps shown_with_superseded shown_def ends_def)
qed

lemma collapseNode_sel [simp]:
  "node_id (collapseNode K n) = node_id n" "deadEnd (collapseNode K n) = deadEnd n"
  "children (collapseNode K n) = collapseSiblings (map (collapseNode K) (children n)) K"
  by (cases n; simp)+

lemma ends_collapse: "ends ns \<Longrightarrow> ends (map (collapseNode K) ns)"
  by (auto simp: ends_def list_all_iff collapseSiblings_def)

lemma forest_member: "n \<in> set ns \<Longrightarrow> set (nodes_of n) \<subseteq> set (forest ns)"
  by (auto simp: forest_def)

lemma node_in_nodes_of: "n \<in> set (nodes_of n)"
  by (simp add: nodes_of_forest)

lemma ends_mono: "set ms \<subseteq> set ns \<Longrightarrow> ends ns \<Longrightarrow> ends ms"
  unfolding ends_def list_all_iff by blast

lemma ends_children: "ends (nodes_of n) \<Longrightarrow> c \<in> set (children n) \<Longrightarrow> ends (nodes_of c)"
  by (erule ends_mono[rotated]) (use forest_member[of c "children n"] in \<open>auto simp: nodes_of_forest[of n]\<close>)

lemma shown_ids_map:
  "(\<And>n. n \<in> set ns \<Longrightarrow> shown_ids K [f n] = shown_ids K [n]) \<Longrightarrow> shown_ids K (map f ns) = shown_ids K ns"
proof (induction ns)
  case (Cons n ns)
  have one: "shown_ids K (m # ms) = shown_ids K [m] \<union> shown_ids K ms" for m ms by (auto simp: shown_ids_simps)
  show ?case using Cons one[of "f n" "map f ns"] one[of n ns] by simp
qed simp

lemma ends_subtrees: "ends (forest ns) \<Longrightarrow> ends ns"
  by (erule ends_mono[rotated]) (use forest_member node_in_nodes_of in blast)

lemma collapseNode_shown: "ends (nodes_of n) \<Longrightarrow> shown_ids K [collapseNode K n] = shown_ids K [n]"
proof (induction n rule: HistoryNode.induct)
  case (HistoryNode i t ts d cs old l)
  let ?n = "HistoryNode i t ts d cs old l"
  have "shown_ids K (map (collapseNode K) cs) = shown_ids K cs"
  proof (rule shown_ids_map)
    fix c assume "c \<in> set cs"
    then show "shown_ids K [collapseNode K c] = shown_ids K [c]"
      using ends_children[OF HistoryNode.prems, of c] by (intro HistoryNode.IH) simp_all
  qed
  moreover have "ends cs" using HistoryNode.prems
    by (rule_tac ends_subtrees) (simp add: nodes_of_forest[of ?n] ends_def del: nodes_of.simps)
  then have "shown_ids K (collapseSiblings (map (collapseNode K) cs) K) = shown_ids K (map (collapseNode K) cs)"
    unfolding collapseSiblings_def by (intro collapse_loop_shown) (auto intro: ends_collapse)
  ultimately show ?case by (simp add: shown_ids_simps(1,3) shown_def)
qed

lemma collapseSuperseded_shown:
  assumes "ends (forest roots)"
  shows "shown_ids K (collapseSuperseded roots K) = shown_ids K roots"
proof -
  have "shown_ids K (map (collapseNode K) roots) = shown_ids K roots"
    by (rule shown_ids_map, rule collapseNode_shown, rule ends_mono[OF forest_member assms])
  moreover have "ends (map (collapseNode K) roots)" using ends_collapse[OF ends_subtrees[OF assms]] .
  ultimately show ?thesis
    using collapse_loop_shown[of "[]" "map (collapseNode K) roots" K]
    by (simp add: collapseSuperseded_def collapseSiblings_def)
qed

section \<open>Effective parents\<close>

text \<open>An entry map keyed by its entries' ids whose parents form a forest.\<close>

definition keyed_forest :: "(string \<Rightarrow> nat) \<Rightarrow> props \<Rightarrow> bool" where
  "keyed_forest rank es \<longleftrightarrow> distinct (map fst es) \<and>
     list_all (\<lambda>(k, e). is_obj e \<and> jget e ''id'' = JStr k \<and> k \<noteq> []) es \<and>
     ranked_parents rank es \<and> nullable_parents es"

lemma keyed_forestD:
  assumes "keyed_forest rank es" "map_of es k = Some e"
  shows "is_obj e \<and> truthy e \<and> jget e ''id'' = JStr k \<and> k \<noteq> [] \<and> nullable is_str (jget e ''parentId'')"
    and "jget e ''parentId'' = JStr p \<Longrightarrow> rank p < rank k"
proof -
  have "(k, e) \<in> set es" using assms(2) by (rule map_of_SomeD)
  then show "is_obj e \<and> truthy e \<and> jget e ''id'' = JStr k \<and> k \<noteq> [] \<and> nullable is_str (jget e ''parentId'')"
    using assms(1) by (cases e) (auto simp: keyed_forest_def list_all_iff nullable_parents_def)
  show "jget e ''parentId'' = JStr p \<Longrightarrow> rank p < rank k"
    using assms by (auto simp: keyed_forest_def ranked_parents_def)
qed

definition user_in :: "props \<Rightarrow> string \<Rightarrow> bool" where
  "user_in es k \<longleftrightarrow> (case map_of es k of None \<Rightarrow> False | Some e \<Rightarrow> is_user e)"

lemma nearest_from_returns:
  assumes "keyed_forest rank es"
  shows "nullable is_str c \<Longrightarrow> (\<And>k. c = JStr k \<Longrightarrow> rank k < n) \<Longrightarrow>
    \<exists>r. nearest_from (JObj es) c = Some r \<and> (\<forall>p. r = Some p \<longrightarrow> user_in es p \<and> rank p < n)"
proof (induction n arbitrary: c rule: less_induct)
  case (less n)
  show ?case
  proof (cases "truthy c")
    case False
    then show ?thesis by (subst nearest_from.simps) simp
  next
    case True
    then obtain k where k: "c = JStr k" using less.prems(1) by (cases c) (auto simp: nullable_def)
    show ?thesis
    proof (cases "map_of es k")
      case None
      then show ?thesis using k by (subst nearest_from.simps) simp
    next
      case (Some e)
      note e = keyed_forestD[OF assms Some]
      show ?thesis
      proof (cases "is_user e")
        case True
        then show ?thesis using k Some e(1) less.prems(2) by (subst nearest_from.simps) (simp add: user_in_def)
      next
        case False
        have "\<exists>r. nearest_from (JObj es) (jget e ''parentId'') = Some r \<and> (\<forall>p. r = Some p \<longrightarrow> user_in es p \<and> rank p < rank k)"
          using e less.prems(2)[OF k] by (intro less.IH) auto
        then show ?thesis using k Some e(1) False \<open>truthy c\<close> less.prems(2)[OF k]
          by (subst nearest_from.simps) force
      qed
    qed
  qed
qed

lemma nearestUserAncestor_returns:
  assumes "keyed_forest rank es" "user_in es i"
  shows "\<exists>r. nearestUserAncestor i (JObj es) = Some r \<and> (\<forall>p. r = Some p \<longrightarrow> user_in es p \<and> rank p < rank i)"
proof -
  obtain e where e: "map_of es i = Some e" using assms(2) by (auto simp: user_in_def split: option.splits)
  note f = keyed_forestD[OF assms(1) e]
  have "coalesce (jget e ''parentId'') JNull = jget e ''parentId''"
    using f(1) nullable_str[of "jget e ''parentId''"] by (auto simp: coalesce_def)
  moreover have "\<not> nullish e" using f(1) by (cases e) auto
  ultimately show ?thesis
    using nearest_from_returns[OF assms(1), of "jget e ''parentId''" "rank i"] f e
    by (auto simp: nearestUserAncestor_def)
qed

lemma userEntries_ids:
  assumes "keyed_forest rank es" "doc_entries doc = JObj es"
  shows "distinct (map user_id (userEntries doc))" "set (map user_id (userEntries doc)) = Collect (user_in es)"
proof -
  have ids: "map user_id (map snd ps) = map fst ps" if "set ps \<subseteq> set es" for ps
    using that assms(1) by (fastforce simp: keyed_forest_def list_all_iff user_id_def)
  have "userEntries doc = map snd (filter (is_user \<circ> snd) (own_entries es))"
    by (simp add: userEntries_def js_values_def js_entries_def assms(2) filter_map comp_def)
  then have u: "map user_id (userEntries doc) = map fst (filter (is_user \<circ> snd) (own_entries es))"
    using ids[of "filter (is_user \<circ> snd) (own_entries es)"] by auto
  have d: "distinct (map fst es)" using assms(1) by (simp add: keyed_forest_def)
  then show "distinct (map user_id (userEntries doc))" unfolding u by (intro distinct_map_filter distinct_own_entries)
  show "set (map user_id (userEntries doc)) = Collect (user_in es)"
    unfolding u using d by (force simp: user_in_def split: option.splits)
qed

definition parent_of :: "props \<Rightarrow> string \<Rightarrow> string option" where
  "parent_of es i = the (nearestUserAncestor i (JObj es))"

lemma parent_of_user:
  assumes "keyed_forest rank es" "user_in es i"
  shows "nearestUserAncestor i (JObj es) = Some (parent_of es i)"
    and "parent_of es i = Some p \<Longrightarrow> user_in es p \<and> rank p < rank i"
  using nearestUserAncestor_returns[OF assms] by (auto simp: parent_of_def)

lemma those_map: "(\<And>x. x \<in> set xs \<Longrightarrow> f x = Some (g x)) \<Longrightarrow> those (map f xs) = Some (map g xs)"
  by (induction xs) simp_all

lemma fold_update_zip:
  "distinct (map fst m @ ks) \<Longrightarrow> foldl (\<lambda>m (i, p). AList.update i p m) m (zip ks (map f ks)) = m @ map (\<lambda>i. (i, f i)) ks"
  by (induction ks arbitrary: m) (simp_all add: AList_update_new)

lemma effectiveParents_closed:
  assumes "keyed_forest rank es" "doc_entries doc = JObj es"
  shows "effectiveParents (JObj es) (userEntries doc) =
    Some (map (\<lambda>i. (i, parent_of es i)) (map user_id (userEntries doc)))"
proof -
  let ?us = "userEntries doc"
  note ids = userEntries_ids[OF assms]
  have "those (map (\<lambda>ue. nearestUserAncestor (user_id ue) (JObj es)) ?us) = Some (map (parent_of es \<circ> user_id) ?us)"
    using ids(2) parent_of_user(1)[OF assms(1)] by (intro those_map) auto
  moreover have "foldl (\<lambda>m (i, p). AList.update i p m) [] (zip (map user_id ?us) (map (parent_of es) (map user_id ?us))) =
      map (\<lambda>i. (i, parent_of es i)) (map user_id ?us)"
    using fold_update_zip[of "[]" "map user_id ?us" "parent_of es"] ids(1) by (simp del: map_map)
  ultimately show ?thesis by (simp add: effectiveParents_def comp_def)
qed

section \<open>The tree holds every user message once\<close>

definition parent_links :: "props \<Rightarrow> (string \<times> string) set" where
  "parent_links es = {(p, c). user_in es c \<and> parent_of es c = Some p}"

definition below :: "props \<Rightarrow> string \<Rightarrow> string set" where
  "below es i = {j. (i, j) \<in> (parent_links es)\<^sup>*}"

lemma finite_users: "finite (Collect (user_in es))"
  by (rule finite_subset[of _ "fst ` set es"]) (force simp: user_in_def dest: map_of_SomeD split: option.splits)+

lemma links_user:
  assumes "keyed_forest rank es" "(i, j) \<in> (parent_links es)\<^sup>*" "user_in es i"
  shows "user_in es j \<and> rank i \<le> rank j \<and> (i \<noteq> j \<longrightarrow> rank i < rank j)"
  using assms(2,3)
proof (induction rule: rtrancl_induct)
  case (step y z)
  then have "user_in es z" "parent_of es z = Some y" by (auto simp: parent_links_def)
  with parent_of_user(2)[OF assms(1) this] step show ?case by auto
qed simp

lemma links_comparable:
  assumes "(i, j) \<in> (parent_links es)\<^sup>*" "(k, j) \<in> (parent_links es)\<^sup>*"
  shows "(i, k) \<in> (parent_links es)\<^sup>* \<or> (k, i) \<in> (parent_links es)\<^sup>*"
proof -
  have "single_valued ((parent_links es)\<inverse>)" by (auto simp: single_valued_def parent_links_def)
  from single_valued_confluent[OF this, of j i k] assms show ?thesis by (auto simp: rtrancl_converse)
qed

lemma finite_below: "keyed_forest rank es \<Longrightarrow> user_in es i \<Longrightarrow> finite (below es i)"
  by (rule finite_subset[OF _ finite_users[of es]]) (auto simp: below_def dest: links_user)

lemma below_unfold:
  "below es i = insert i (\<Union>k \<in> {k. (i, k) \<in> parent_links es}. below es k)"
  by (auto simp: below_def elim: converse_rtranclE intro: converse_rtrancl_into_rtrancl)

lemma below_disjoint:
  assumes "keyed_forest rank es" "user_in es k" "user_in es k'" "parent_of es k = parent_of es k'" "k \<noteq> k'"
  shows "below es k \<inter> below es k' = {}"
proof (rule ccontr)
  have no: "(a, b) \<notin> (parent_links es)\<^sup>*" if ab: "user_in es a" "a \<noteq> b" "parent_of es a = parent_of es b" for a b
  proof
    assume "(a, b) \<in> (parent_links es)\<^sup>*"
    with ab(2) obtain y where y: "(a, y) \<in> (parent_links es)\<^sup>*" "(y, b) \<in> parent_links es"
      by (metis rtranclE)
    then have "parent_of es a = Some y" using ab(3) by (simp add: parent_links_def)
    then show False using parent_of_user(2)[OF assms(1) ab(1)] links_user[OF assms(1) y(1) ab(1)] by fastforce
  qed
  assume "below es k \<inter> below es k' \<noteq> {}"
  then obtain j where "(k, j) \<in> (parent_links es)\<^sup>*" "(k', j) \<in> (parent_links es)\<^sup>*" by (auto simp: below_def)
  from links_comparable[OF this] show False
    using no[OF assms(2,5,4)] no[OF assms(3) assms(5)[symmetric] assms(4)[symmetric]] by blast
qed

lemma mset_set_disjoint_union:
  "distinct ks \<Longrightarrow> (\<And>k. k \<in> set ks \<Longrightarrow> finite (B k)) \<Longrightarrow>
   (\<And>k k'. k \<in> set ks \<Longrightarrow> k' \<in> set ks \<Longrightarrow> k \<noteq> k' \<Longrightarrow> B k \<inter> B k' = {}) \<Longrightarrow>
   sum_list (map (\<lambda>k. mset_set (B k)) ks) = mset_set (\<Union>k \<in> set ks. B k)"
proof (induction ks)
  case (Cons k ks)
  have "B k \<inter> (\<Union>k \<in> set ks. B k) = {}" using Cons.prems by fastforce
  then have "mset_set (B k \<union> (\<Union>k \<in> set ks. B k)) = mset_set (B k) + mset_set (\<Union>k \<in> set ks. B k)"
    using Cons.prems by (intro mset_set_Union) auto
  then show ?case using Cons by simp
qed simp

text \<open>A tree grown deep enough: its ids, and what each of its nodes says.\<close>

definition faithful_node :: "collation \<Rightarrow> props \<Rightarrow> HistoryNode \<Rightarrow> bool" where
  "faithful_node lc es n \<longleftrightarrow> user_in es (node_id n) \<and>
     mset (map node_id (children n)) = mset_set {k. (node_id n, k) \<in> parent_links es} \<and>
     (deadEnd n \<longleftrightarrow> children n = []) \<and> supersededTurns n = [] \<and>
     (collates lc \<longrightarrow> sorted_wrt (byTs lc) (children n))"

lemma node_id_grow [simp]: "node_id (grow lc users parents labels d i) = i"
  by (cases d) (simp_all add: new_node_def Let_def)

lemma sum_list_sort_by [simp]: "sum_list (map f (sort_by le xs)) = sum_list (map f xs)"
  for f :: "'a \<Rightarrow> 'b :: comm_monoid_add"
  by (metis mset_map mset_sort_by sum_mset_sum_list)

lemma mset_forest: "mset (map node_id (forest ns)) = sum_list (map (\<lambda>n. mset (map node_id (nodes_of n))) ns)"
  by (induction ns) simp_all

lemma mset_nodes_of: "mset (map node_id (nodes_of n)) = add_mset (node_id n) (sum_list (map (\<lambda>n. mset (map node_id (nodes_of n))) (children n)))"
  by (simp add: nodes_of_forest[of n] mset_forest flip: mset_map)

text \<open>The parents table of a document and what it says about one node.\<close>

definition parents_table :: "props \<Rightarrow> jsv \<Rightarrow> (string \<times> string option) list" where
  "parents_table es doc = map (\<lambda>i. (i, parent_of es i)) (map user_id (userEntries doc))"

lemma parents_table_facts:
  assumes "keyed_forest rank es" "doc_entries doc = JObj es"
  shows "distinct (kids (userEntries doc) (parents_table es doc) i)"
    and "set (kids (userEntries doc) (parents_table es doc) i) = {k. (i, k) \<in> parent_links es}"
    and "(Some i \<notin> snd ` set (parents_table es doc)) = ({k. (i, k) \<in> parent_links es} = {})"
    and "map_of (parents_table es doc) i = (if user_in es i then Some (parent_of es i) else None)"
proof -
  note ids = userEntries_ids[OF assms]
  show m: "map_of (parents_table es doc) i = (if user_in es i then Some (parent_of es i) else None)" for i
    using ids(2) unfolding parents_table_def map_of_map_restrict restrict_map_def by simp
  show "distinct (kids (userEntries doc) (parents_table es doc) i)" using ids(1) by (simp add: kids_def)
  show "set (kids (userEntries doc) (parents_table es doc) i) = {k. (i, k) \<in> parent_links es}"
    using ids(2) by (auto simp: kids_def m parent_links_def split: if_splits)
  show "(Some i \<notin> snd ` set (parents_table es doc)) = ({k. (i, k) \<in> parent_links es} = {})"
  proof -
    have "snd ` set (parents_table es doc) = parent_of es ` Collect (user_in es)"
      using ids(2) by (simp add: parents_table_def image_image flip: ids(2))
    then show ?thesis by (auto simp: parent_links_def image_iff eq_commute)
  qed
qed

lemma node_faithful:
  fixes lc labels h
  assumes kf: "keyed_forest rank es" and doc: "doc_entries doc = JObj es" and i: "user_in es i"
    and h: "\<And>k. (i, k) \<in> parent_links es \<Longrightarrow> node_id (h k) = k \<and>
      mset (map node_id (nodes_of (h k))) = mset_set (below es k) \<and> list_all (faithful_node lc es) (nodes_of (h k))"
  defines "ks \<equiv> kids (userEntries doc) (parents_table es doc) i"
  defines "n \<equiv> new_node (userEntries doc) (parents_table es doc) labels i (sort_by (byTs lc) (map h ks))"
  shows "mset (map node_id (nodes_of n)) = mset_set (below es i) \<and> list_all (faithful_node lc es) (nodes_of n)"
proof -
  note ks = parents_table_facts[OF kf doc, of i, folded ks_def]
  have n: "node_id n = i" "children n = sort_by (byTs lc) (map h ks)" "deadEnd n = (ks = [])" "supersededTurns n = []"
    using ks(2,3) by (auto simp: n_def new_node_def Let_def)
  have user: "user_in es k" "parent_of es k = Some i" if "k \<in> set ks" for k using that ks(2) by (auto simp: parent_links_def)
  have "sum_list (map (\<lambda>n. mset (map node_id (nodes_of n))) (children n)) = sum_list (map (\<lambda>k. mset_set (below es k)) ks)"
    unfolding n(2) sum_list_sort_by map_map using h ks(2) by (intro arg_cong[of _ _ sum_list] map_cong) auto
  also have "\<dots> = mset_set (\<Union>k \<in> set ks. below es k)"
    using ks(1) user below_disjoint[OF kf] finite_below[OF kf] by (intro mset_set_disjoint_union) auto
  finally have sub: "mset (map node_id (nodes_of n)) = add_mset i (mset_set (\<Union>k \<in> set ks. below es k))"
    unfolding mset_nodes_of[of n] n(1) by simp
  have "i \<notin> (\<Union>k \<in> set ks. below es k)"
    using links_user[OF kf _ user(1)] parent_of_user(2)[OF kf user] by (fastforce simp: below_def)
  moreover have "finite (\<Union>k \<in> set ks. below es k)" using user(1) finite_below[OF kf] by auto
  moreover have "below es i = insert i (\<Union>k \<in> set ks. below es k)" using below_unfold[of es i] by (simp add: ks(2))
  ultimately have ids: "mset (map node_id (nodes_of n)) = mset_set (below es i)" unfolding sub by simp
  have "mset (map node_id (children n)) = mset (map node_id (map h ks))" unfolding n(2) mset_map mset_sort_by ..
  also have "map node_id (map h ks) = ks" unfolding map_map by (rule map_idI) (use h ks(2) in auto)
  finally have "mset (map node_id (children n)) = mset_set {k. (i, k) \<in> parent_links es}"
    using ks(1,2) by (metis mset_set_set)
  moreover have "collates lc \<longrightarrow> sorted_wrt (byTs lc) (children n)"
    unfolding n(2) using sorted_sort_by[of "byTs lc"] byTs_order[of lc] by blast
  moreover have "children n = [] \<longleftrightarrow> ks = []" unfolding n(2) by (metis length_0_conv length_map length_sort_by)
  ultimately have "faithful_node lc es n" using n i by (simp add: faithful_node_def)
  moreover have "list_all (faithful_node lc es) (forest (children n))"
    using h ks(2) unfolding n(2) by (auto simp: forest_def list_all_iff)
  ultimately show ?thesis using ids by (simp add: nodes_of_forest[of n])
qed

lemma grow_faithful:
  assumes kf: "keyed_forest rank es" and doc: "doc_entries doc = JObj es"
  shows "user_in es i \<Longrightarrow> card {j. user_in es j \<and> rank i < rank j} \<le> d \<Longrightarrow>
    mset (map node_id (nodes_of (grow lc (userEntries doc) (parents_table es doc) labels d i))) = mset_set (below es i) \<and>
    list_all (faithful_node lc es) (nodes_of (grow lc (userEntries doc) (parents_table es doc) labels d i))"
proof (induction d arbitrary: i)
  have fin: "finite {j. user_in es j \<and> rank i < rank j}" for i by (rule finite_subset[OF _ finite_users[of es]]) auto
  have up: "rank i < rank k \<and> user_in es k" if "(i, k) \<in> parent_links es" for i k
    using that parent_of_user(2)[OF kf] by (auto simp: parent_links_def)
  {
    case 0
    then have no: "(i, k) \<notin> parent_links es" for k using up fin by fastforce
    then have "kids (userEntries doc) (parents_table es doc) i = []"
      using parents_table_facts(2)[OF kf doc, of i] by (metis empty_Collect_eq set_empty)
    then show ?case using node_faithful[OF kf doc 0(1), of "\<lambda>k. undefined" lc labels] no by (simp add: sort_by_def)
  next
    case (Suc d)
    have "card {j. user_in es j \<and> rank k < rank j} \<le> d" if "(i, k) \<in> parent_links es" for k
    proof -
      have "card {j. user_in es j \<and> rank k < rank j} < card {j. user_in es j \<and> rank i < rank j}"
        using up[OF that] fin by (intro psubset_card_mono) auto
      then show ?thesis using Suc.prems(2) by simp
    qed
    then show ?case using Suc.IH up
      by (simp only: grow.simps) (intro node_faithful[OF kf doc Suc.prems(1)], auto)
  }
qed

lemma root_above:
  assumes "keyed_forest rank es"
  shows "user_in es j \<Longrightarrow> \<exists>r. user_in es r \<and> parent_of es r = None \<and> j \<in> below es r"
proof (induction "rank j" arbitrary: j rule: less_induct)
  case less
  show ?case
  proof (cases "parent_of es j")
    case None
    then show ?thesis using less.prems by (auto simp: below_def)
  next
    case (Some p)
    with parent_of_user(2)[OF assms less.prems] less.hyps obtain r where
      "user_in es r" "parent_of es r = None" "p \<in> below es r" by blast
    moreover have "(p, j) \<in> parent_links es" using Some less.prems by (simp add: parent_links_def)
    ultimately show ?thesis by (auto simp: below_def intro: rtrancl_into_rtrancl)
  qed
qed

lemma history_tree:
  assumes kf: "keyed_forest rank es" and doc: "doc_entries doc = JObj es"
  shows "\<exists>roots. computeHistoryTree lc doc = Some roots \<and>
    mset (map node_id (forest roots)) = mset (map user_id (userEntries doc)) \<and>
    list_all (faithful_node lc es) (forest roots) \<and> list_all (\<lambda>r. parent_of es (node_id r) = None) roots"
proof -
  note ids = userEntries_ids[OF kf doc]
  let ?us = "userEntries doc" and ?ps = "parents_table es doc"
  let ?g = "grow lc ?us ?ps (resolveLabels lc (JObj es)) (length ?us)"
  define rs where "rs = filter (\<lambda>i. map_of ?ps i = Some None) (map user_id ?us)"
  have rs: "distinct rs" "set rs = {i. user_in es i \<and> parent_of es i = None}"
    using ids parents_table_facts(4)[OF kf doc] by (auto simp: rs_def split: if_splits)
  have "card {j. user_in es j \<and> rank i < rank j} \<le> length ?us" for i
    using card_mono[OF finite_users, of "{j. user_in es j \<and> rank i < rank j}" es] distinct_card[OF ids(1)] ids(2) by force
  then have g: "mset (map node_id (nodes_of (?g i))) = mset_set (below es i) \<and> list_all (faithful_node lc es) (nodes_of (?g i))"
    if "user_in es i" for i
    using grow_faithful[OF kf doc that] by blast
  let ?roots = "sort_by (byTs lc) (map ?g rs)"
  have comp: "computeHistoryTree lc doc = Some ?roots"
    using effectiveParents_closed[OF kf doc, folded parents_table_def]
    by (simp add: computeHistoryTree_def doc rs_def Let_def)
  have "mset (map node_id (forest ?roots)) = sum_list (map (\<lambda>i. mset_set (below es i)) rs)"
    unfolding mset_forest sum_list_sort_by map_map using g rs(2) by (intro arg_cong[of _ _ sum_list] map_cong) auto
  also have "\<dots> = mset_set (\<Union>r \<in> set rs. below es r)"
    using rs below_disjoint[OF kf] finite_below[OF kf] by (intro mset_set_disjoint_union) auto
  also have "(\<Union>r \<in> set rs. below es r) = set (map user_id ?us)"
    unfolding ids(2) using rs(2) root_above[OF kf] links_user[OF kf] by (fastforce simp: below_def)
  also have "mset_set (set (map user_id ?us)) = mset (map user_id ?us)" using ids(1) by (rule mset_set_set)
  finally have all: "mset (map node_id (forest ?roots)) = mset (map user_id ?us)" .
  have "list_all (faithful_node lc es) (forest ?roots)"
    using g rs(2) by (auto simp: forest_def list_all_iff)
  moreover have "list_all (\<lambda>r. parent_of es (node_id r) = None) ?roots" using rs(2) by (auto simp: list_all_iff)
  ultimately show ?thesis using comp all by blast
qed

lemma all_ids_plain: "list_all (\<lambda>n. supersededTurns n = []) (nodes_of n) \<Longrightarrow> all_ids n = mset (map node_id (nodes_of n))"
proof (induction n rule: HistoryNode.induct)
  case (HistoryNode i t ts d cs old l)
  then have cs: "map all_ids cs = map (\<lambda>c. mset (map node_id (nodes_of c))) cs" by (auto simp: list_all_iff)
  have "old = []" using HistoryNode.prems by simp
  then show ?case unfolding mset_nodes_of[of "HistoryNode i t ts d cs old l"] by (simp add: cs del: nodes_of.simps mset_map)
qed

text \<open>The order by code units is a collation.\<close>

fun code_compare :: collation where
  "code_compare [] [] = 0"
| "code_compare [] (b # bs) = - 1"
| "code_compare (a # as) [] = 1"
| "code_compare (a # as) (b # bs) =
     (if (of_char a :: nat) < of_char b then - 1 else if (of_char b :: nat) < of_char a then 1 else code_compare as bs)"

lemma code_compare_collates: "collates code_compare"
proof -
  have same: "code_compare a a = 0" for a by (induction a) simp_all
  have flip: "code_compare a b < 0 \<longleftrightarrow> 0 < code_compare b a" for a b
    by (induction a b rule: code_compare.induct) simp_all
  have trans: "code_compare a b \<le> 0 \<Longrightarrow> code_compare b c \<le> 0 \<Longrightarrow> code_compare a c \<le> 0" for a b c
  proof (induction a b arbitrary: c rule: code_compare.induct)
    case (2 b bs)
    then show ?case by (cases c) simp_all
  next
    case (4 a as b bs)
    show ?case
    proof (cases c)
      case (Cons x xs)
      have le: "(of_char a :: nat) \<le> of_char b" "(of_char b :: nat) \<le> of_char x" using 4(2,3) Cons by (simp_all split: if_splits)
      have eq: "code_compare as xs \<le> 0" if "(of_char a :: nat) = of_char b" "(of_char b :: nat) = of_char x"
        by (rule 4(1)) (use 4(2,3) Cons that in simp_all)
      from le consider "(of_char a :: nat) < of_char x" | "(of_char a :: nat) = of_char b" "(of_char b :: nat) = of_char x"
        by linarith
      then show ?thesis using Cons eq by cases simp_all
    qed (use 4 in simp)
  qed simp_all
  show ?thesis unfolding collates_def by (intro conjI allI impI same flip) (rule trans)
qed

text \<open>A question, its answer and a follow-up.\<close>

definition sample_thread :: props where
  "sample_thread =
     [(''a'', JObj [(''id'', JStr ''a''), (''parentId'', JNull), (''kind'', JStr ''message''), (''role'', JStr ''user''),
        (''timestamp'', JStr ''1''), (''content'', JArr [])]),
      (''b'', JObj [(''id'', JStr ''b''), (''parentId'', JStr ''a''), (''kind'', JStr ''message''), (''role'', JStr ''assistant''),
        (''timestamp'', JStr ''2''), (''content'', JArr [])]),
      (''c'', JObj [(''id'', JStr ''c''), (''parentId'', JStr ''b''), (''kind'', JStr ''message''), (''role'', JStr ''user''),
        (''timestamp'', JStr ''3''), (''content'', JArr [])])]"

definition sample_rank :: "string \<Rightarrow> nat" where
  "sample_rank k = (if k = ''a'' then 0 else if k = ''b'' then 1 else 2)"

lemma sample_forest: "keyed_forest sample_rank sample_thread"
  by (auto simp: keyed_forest_def sample_thread_def ranked_parents_def nullable_parents_def sample_rank_def nullable_def
      split: if_splits)

lemma sample_users: "map user_id (userEntries (mk_doc JNull sample_thread)) = [''a'', ''c'']"
  by (simp add: userEntries_def sample_thread_def js_values_def js_entries_def own_entries_plain not_is_index is_digit_def
      is_user_def kind_is_def user_id_def)

section \<open>Properties\<close>



text \<open>
  \<^bold>\<open>Lemma.\<close>  A collapse hides only superseded turns and loses nothing: whatever is kept visible, the
  collapsed tree carries every user message exactly once, as a node or as a folded turn, and every
  message that continues below or is kept visible is still a node.
\<close>

theorem collapse_loses_nothing:
  assumes "keyed_forest rank es" "doc_entries doc = JObj es" "computeHistoryTree lc doc = Some roots"
  shows "sum_list (map all_ids (collapseSuperseded roots K)) = mset (map user_id (userEntries doc)) \<and>
    {i. user_in es i \<and> (i \<in> K \<or> (\<exists>c. user_in es c \<and> parent_of es c = Some i))} \<subseteq>
      node_id ` set (forest (collapseSuperseded roots K))"
proof
  have ids: "mset (map node_id (forest roots)) = mset (map user_id (userEntries doc))"
    and f: "list_all (faithful_node lc es) (forest roots)"
    using history_tree[OF assms(1,2), of lc] assms(3) by auto
  have "all_ids r = mset (map node_id (nodes_of r))" if "r \<in> set roots" for r
    using f forest_member[OF that] by (intro all_ids_plain) (auto simp: list_all_iff faithful_node_def)
  then have "sum_list (map all_ids roots) = mset (map node_id (forest roots))"
    unfolding mset_forest by (intro arg_cong[of _ _ sum_list] map_cong) auto
  then show "sum_list (map all_ids (collapseSuperseded roots K)) = mset (map user_id (userEntries doc))"
    using ids by (simp add: collapseSuperseded_all)
  have "ends (forest roots)" using f by (auto simp: ends_def list_all_iff faithful_node_def)
  then have s: "shown_ids K (collapseSuperseded roots K) = shown_ids K roots" by (rule collapseSuperseded_shown)
  have "i \<in> shown_ids K roots" if i: "user_in es i" "i \<in> K \<or> (\<exists>c. user_in es c \<and> parent_of es c = Some i)" for i
  proof -
    have "i \<in> node_id ` set (forest roots)"
      using i(1) userEntries_ids(2)[OF assms(1,2)] arg_cong[OF ids, of set_mset] by simp
    then obtain n where n: "n \<in> set (forest roots)" "node_id n = i" by blast
    have "finite {k. (i, k) \<in> parent_links es}"
      by (rule finite_subset[OF _ finite_users[of es]]) (auto simp: parent_links_def)
    then have "children n \<noteq> []" if "(i, c) \<in> parent_links es" for c
      using f n that by (auto simp: list_all_iff faithful_node_def mset_set_empty_iff)
    then have "shown K n" using f n i(2) by (auto simp: shown_def list_all_iff faithful_node_def parent_links_def)
    then show ?thesis using n by (auto simp: shown_ids_def)
  qed
  then show "{i. user_in es i \<and> (i \<in> K \<or> (\<exists>c. user_in es c \<and> parent_of es c = Some i))} \<subseteq>
      node_id ` set (forest (collapseSuperseded roots K))"
    using s unfolding shown_ids_def by blast
qed

theorem collapse_loses_nothing_witness:
  "\<exists>roots. computeHistoryTree code_compare (mk_doc JNull sample_thread) = Some roots \<and>
     sum_list (map all_ids (collapseSuperseded roots {})) = {# ''a'', ''c'' #}"
proof -
  obtain roots where r: "computeHistoryTree code_compare (mk_doc JNull sample_thread) = Some roots"
    using history_tree[OF sample_forest, of "mk_doc JNull sample_thread"] by auto
  from collapse_loses_nothing[OF sample_forest _ r] r show ?thesis using sample_users by auto
qed

end
