(* ===== verification/LaneLayout.thy ===== *)
theory LaneLayout
  imports HistoryTree
begin

text \<open>
  The lane layout of the view model, \<^verbatim>\<open>packages/bridge/src/viewmodel/tree.ts\<close>, second pass: nodes get a
  row by time and a lane; a primary child stays on its parent's lane, the others fork to lanes on the
  right that are reserved at the branch point and freed when their chain has ended.  The maps of the
  source are functions with optional results.  A lane that the source would read as \<^verbatim>\<open>undefined\<close>, which
  happens when a node is older than its parent, ends the model with \<open>None\<close>.
\<close>

section \<open>Definitions\<close>

record Lineage =
  lin_lane :: nat
  startRow :: rat
  endRow :: nat

record Fork =
  fromRow :: nat
  fromLane :: nat
  toRow :: rat
  toLane :: nat

record PlacedNode =
  pn_node :: HistoryNode
  pn_lane :: nat
  pn_row :: nat
  isOnActivePath :: bool

record LaneLayout =
  ll_nodes :: "PlacedNode list"
  ll_lineages :: "Lineage list"
  ll_forks :: "Fork list"
  laneCount :: nat
  rowCount :: nat

text \<open>The chronological list, and the maps computed before lanes are assigned.\<close>

definition chronological :: "collation \<Rightarrow> HistoryNode list \<Rightarrow> HistoryNode list" where
  "chronological lc roots = sort_by (byTs lc) (forest roots)"

definition rowOf :: "HistoryNode list \<Rightarrow> string \<rightharpoonup> nat" where
  "rowOf all = foldl (\<lambda>m (i, n). m(node_id n \<mapsto> i)) Map.empty (enumerate 0 all)"

text \<open>\<^verbatim>\<open>dfsParent\<close>: what it sets, in order, and the map it leaves, where roots have no parent.\<close>

fun dfsParent :: "string option \<Rightarrow> HistoryNode \<Rightarrow> (string \<times> string option) list" where
  "dfsParent p (HistoryNode i t ts d cs old l) = (i, p) # concat (map (dfsParent (Some i)) cs)"

definition parentOf :: "HistoryNode list \<Rightarrow> string \<rightharpoonup> string" where
  "parentOf roots i = map_of (rev (concat (map (dfsParent None) roots))) i \<bind> id"

definition primary_child :: "string set \<Rightarrow> HistoryNode \<Rightarrow> string option" where
  "primary_child activePath n =
     (if children n = [] then None
      else case List.find (\<lambda>c. node_id c \<in> activePath) (children n) of
             Some c \<Rightarrow> Some (node_id c)
           | None \<Rightarrow> Some (node_id (last (children n))))"

definition primaryChildOf :: "string set \<Rightarrow> HistoryNode list \<Rightarrow> string \<rightharpoonup> string" where
  "primaryChildOf activePath all i =
     foldl (\<lambda>m n. m(node_id n \<mapsto> primary_child activePath n)) Map.empty all i \<bind> id"

partial_function (option) computePCLR :: "(string \<rightharpoonup> string) \<Rightarrow> (string \<rightharpoonup> nat) \<Rightarrow> string \<Rightarrow> nat option" where
  "computePCLR primary row i =
     (case primary i of
        None \<Rightarrow> row i
      | Some pc \<Rightarrow> if pc = [] then row i else computePCLR primary row pc)"

declare computePCLR.simps [code]

text \<open>\<^verbatim>\<open>leftmostFreeLane\<close> is the search from 0, \<^verbatim>\<open>leftmostFreeLaneAbove\<close> the one from the next lane.\<close>

function free_lane :: "(nat \<times> Lineage) list \<Rightarrow> nat \<Rightarrow> nat" where
  "free_lane lanes i = (if i \<in> fst ` set lanes then free_lane lanes (Suc i) else i)"
  by auto
termination
proof (relation "measure (\<lambda>(lanes, i). Suc (Max (insert 0 (fst ` set lanes))) - i)")
  fix lanes :: "(nat \<times> Lineage) list" and i
  assume "i \<in> fst ` set lanes"
  then have "i \<le> Max (insert 0 (fst ` set lanes))" by (intro Max_ge) auto
  then show "((lanes, Suc i), lanes, i) \<in> measure (\<lambda>(lanes, i). Suc (Max (insert 0 (fst ` set lanes))) - i)" by simp
qed simp

record Placement =
  placed :: "PlacedNode list"
  lineages :: "Lineage list"
  forks :: "Fork list"
  nodeLane :: "string \<rightharpoonup> nat"
  childLane :: "string \<rightharpoonup> nat"
  activeLanes :: "(nat \<times> Lineage) list"

definition open_lineage :: "Lineage \<Rightarrow> Placement \<Rightarrow> Placement" where
  "open_lineage lin st =
     st\<lparr>lineages := lineages st @ [lin], activeLanes := AList.update (lin_lane lin) lin (activeLanes st)\<rparr>"

text \<open>The lane of the node at a row, with the lineage a root begins.\<close>

definition take_lane :: "(string \<rightharpoonup> string) \<Rightarrow> (string \<Rightarrow> nat) \<Rightarrow> nat \<Rightarrow> HistoryNode \<Rightarrow> Placement \<Rightarrow> (nat \<times> Placement) option" where
  "take_lane parent lastRow row n st =
     (case parent (node_id n) of
        None \<Rightarrow> let lane = free_lane (activeLanes st) 0
                in Some (lane, open_lineage \<lparr>lin_lane = lane, startRow = of_nat row, endRow = lastRow (node_id n)\<rparr> st)
      | Some p \<Rightarrow>
          (case childLane st (node_id n) of
             Some lane \<Rightarrow> Some (lane, st)
           | None \<Rightarrow> map_option (\<lambda>lane. (lane, st)) (nodeLane st p)))"

text \<open>The reservation for one secondary child.\<close>

definition reserve :: "(string \<Rightarrow> nat) \<Rightarrow> nat \<Rightarrow> nat \<Rightarrow> HistoryNode \<Rightarrow> Placement \<Rightarrow> Placement" where
  "reserve lastRow row lane c st =
     (let l = free_lane (activeLanes st) (Suc lane); landing = of_nat row + 1 / 2
      in open_lineage \<lparr>lin_lane = l, startRow = landing, endRow = lastRow (node_id c)\<rparr>
           (st\<lparr>childLane := (childLane st)(node_id c \<mapsto> l),
               forks := forks st @ [\<lparr>fromRow = row, fromLane = lane, toRow = landing, toLane = l\<rparr>]\<rparr>))"

definition reserve_all :: "(string \<Rightarrow> nat) \<Rightarrow> nat \<Rightarrow> nat \<Rightarrow> string option \<Rightarrow> HistoryNode list \<Rightarrow> Placement \<Rightarrow> Placement" where
  "reserve_all lastRow row lane primary cs st =
     foldl (\<lambda>st c. if Some (node_id c) = primary then st else reserve lastRow row lane c st) st cs"

definition free_ended :: "nat \<Rightarrow> Placement \<Rightarrow> Placement" where
  "free_ended row st = st\<lparr>activeLanes := filter (\<lambda>(l, lin). \<not> endRow lin \<le> row) (activeLanes st)\<rparr>"

definition place_node ::
  "string set \<Rightarrow> (string \<rightharpoonup> string) \<Rightarrow> (string \<rightharpoonup> string) \<Rightarrow> (string \<Rightarrow> nat) \<Rightarrow> Placement \<Rightarrow> nat \<times> HistoryNode \<Rightarrow> Placement option" where
  "place_node activePath parent primary lastRow st rn =
     (let (row, n) = rn in
      do {
        (lane, st1) \<leftarrow> take_lane parent lastRow row n st;
        let st2 = st1\<lparr>nodeLane := (nodeLane st1)(node_id n \<mapsto> lane),
                      placed := placed st1 @ [\<lparr>pn_node = n, pn_lane = lane, pn_row = row,
                                               isOnActivePath = (node_id n \<in> activePath)\<rparr>]\<rparr>;
        Some (free_ended row (reserve_all lastRow row lane (primary (node_id n)) (rev (children n)) st2))
      })"

definition empty_placement :: Placement where
  "empty_placement = \<lparr>placed = [], lineages = [], forks = [], nodeLane = Map.empty, childLane = Map.empty, activeLanes = []\<rparr>"

fun place_all ::
  "string set \<Rightarrow> (string \<rightharpoonup> string) \<Rightarrow> (string \<rightharpoonup> string) \<Rightarrow> (string \<Rightarrow> nat) \<Rightarrow> Placement \<Rightarrow> (nat \<times> HistoryNode) list \<Rightarrow> Placement option" where
  "place_all activePath parent primary lastRow st [] = Some st"
| "place_all activePath parent primary lastRow st (rn # rns) =
     place_node activePath parent primary lastRow st rn \<bind>
       (\<lambda>st'. place_all activePath parent primary lastRow st' rns)"

definition computeLaneLayout :: "collation \<Rightarrow> HistoryNode list \<Rightarrow> string set \<Rightarrow> LaneLayout option" where
  "computeLaneLayout lc roots activePath =
     (let all = chronological lc roots; primary = primaryChildOf activePath all
      in if all = [] then Some \<lparr>ll_nodes = [], ll_lineages = [], ll_forks = [], laneCount = 0, rowCount = 0\<rparr>
         else do {
           lasts \<leftarrow> those (map (\<lambda>n. computePCLR primary (rowOf all) (node_id n)) all);
           let lastRow = (\<lambda>i. the (map_of (zip (map node_id all) lasts) i));
           st \<leftarrow> place_all activePath (parentOf roots) primary lastRow empty_placement (enumerate 0 all);
           Some \<lparr>ll_nodes = placed st, ll_lineages = lineages st, ll_forks = forks st,
                 laneCount = Max (insert 0 ((\<lambda>n. Suc (the (nodeLane st (node_id n)))) ` set all)), rowCount = length all\<rparr>
         })"

section \<open>Lineages on one lane do not overlap\<close>

declare free_lane.simps [simp del]

lemma free_lane_free: "free_lane lanes i \<notin> fst ` set lanes \<and> i \<le> free_lane lanes i"
proof (induction lanes i rule: free_lane.induct)
  case (1 lanes i)
  show ?case
  proof (cases "i \<in> fst ` set lanes")
    case True
    then show ?thesis using 1 by (simp add: free_lane.simps[of lanes i])
  qed (simp add: free_lane.simps[of lanes i])
qed

definition apart :: "Lineage \<Rightarrow> Lineage \<Rightarrow> bool" where
  "apart a b \<longleftrightarrow> (lin_lane a = lin_lane b \<longrightarrow> of_nat (endRow a) < startRow b)"

definition lanes_inv :: "nat \<Rightarrow> Placement \<Rightarrow> bool" where
  "lanes_inv r st \<longleftrightarrow> distinct (map fst (activeLanes st)) \<and>
     (\<forall>lin \<in> set (lineages st). (lin_lane lin, lin) \<in> set (activeLanes st) \<or> endRow lin < r) \<and>
     sorted_wrt apart (lineages st)"

lemma lanes_inv_open:
  assumes "lanes_inv r st" "lin_lane lin \<notin> fst ` set (activeLanes st)" "of_nat r \<le> startRow lin"
  shows "lanes_inv r (open_lineage lin st)"
proof -
  have "apart a lin" if "a \<in> set (lineages st)" for a
  proof -
    have "endRow a < r" if "lin_lane a = lin_lane lin"
      using assms(1,2) \<open>a \<in> set (lineages st)\<close> that unfolding lanes_inv_def by force
    then have "(of_nat (endRow a) :: rat) < startRow lin" if "lin_lane a = lin_lane lin"
      using that assms(3) by (metis of_nat_less_iff order_less_le_trans)
    then show ?thesis by (simp add: apart_def)
  qed
  then show ?thesis using assms(1,2)
    by (auto simp: lanes_inv_def open_lineage_def AList_update_new sorted_wrt_append)
qed

lemma lanes_inv_frame:
  "lineages st' = lineages st \<Longrightarrow> activeLanes st' = activeLanes st \<Longrightarrow> lanes_inv r st' = lanes_inv r st"
  by (simp add: lanes_inv_def)

lemma lanes_inv_free: "lanes_inv r st \<Longrightarrow> lanes_inv (Suc r) (free_ended r st)"
  by (fastforce simp: lanes_inv_def free_ended_def intro: distinct_map_filter)

lemma lanes_inv_reserve: "lanes_inv r st \<Longrightarrow> lanes_inv r (reserve lastRow r lane c st)"
  unfolding reserve_def Let_def
  by (rule lanes_inv_open) (use free_lane_free in \<open>simp_all add: lanes_inv_def\<close>)

lemma lanes_inv_reserves:
  "lanes_inv r st \<Longrightarrow> lanes_inv r (reserve_all lastRow r lane pr cs st)"
  unfolding reserve_all_def by (induction cs arbitrary: st) (simp_all add: lanes_inv_reserve)

lemma lanes_inv_take: "lanes_inv r st \<Longrightarrow> take_lane parent lastRow r n st = Some (lane, st') \<Longrightarrow> lanes_inv r st'"
  using free_lane_free[of "activeLanes st" 0]
  by (force simp: take_lane_def Let_def split: option.splits intro!: lanes_inv_open)

lemma lanes_inv_place:
  assumes "lanes_inv r st" "place_node A parent primary lastRow st (r, n) = Some st'"
  shows "lanes_inv (Suc r) st'"
proof -
  obtain lane st1 where t: "take_lane parent lastRow r n st = Some (lane, st1)"
    using assms(2) by (auto simp: place_node_def split: bind_splits)
  note lanes_inv_take[OF assms(1) t]
  then have "lanes_inv r (st1\<lparr>nodeLane := X, placed := Y\<rparr>)" for X Y by (simp add: lanes_inv_def)
  then show ?thesis using assms(2) t by (auto simp: place_node_def Let_def intro!: lanes_inv_free lanes_inv_reserves)
qed

lemma lanes_inv_all:
  "lanes_inv r st \<Longrightarrow> place_all A parent primary lastRow st (enumerate r ns) = Some st' \<Longrightarrow> lanes_inv (r + length ns) st'"
proof (induction ns arbitrary: r st)
  case (Cons n ns)
  then obtain st1 where s: "place_node A parent primary lastRow st (r, n) = Some st1"
    "place_all A parent primary lastRow st1 (enumerate (Suc r) ns) = Some st'" by (auto split: bind_splits)
  from Cons.IH[OF lanes_inv_place[OF Cons.prems(1) s(1)] s(2)] show ?case by simp
qed simp

section \<open>Every dot lies on a lineage\<close>

text \<open>What the second pass relies on: rows that respect the tree, and the end row of a primary chain.\<close>

definition lane_env :: "HistoryNode list \<Rightarrow> (string \<rightharpoonup> string) \<Rightarrow> (string \<rightharpoonup> string) \<Rightarrow> (string \<Rightarrow> nat) \<Rightarrow> bool" where
  "lane_env all par prim E \<longleftrightarrow> distinct (map node_id all) \<and>
     (\<forall>i < length all. i \<le> E (node_id (all ! i)) \<and> distinct (map node_id (children (all ! i)))) \<and>
     (\<forall>i < length all. \<forall>c \<in> set (children (all ! i)).
        par (node_id c) = Some (node_id (all ! i)) \<and> (\<exists>j < length all. i < j \<and> all ! j = c) \<and>
        (prim (node_id (all ! i)) = Some (node_id c) \<longrightarrow> E (node_id c) = E (node_id (all ! i)))) \<and>
     (\<forall>j < length all. \<forall>p. par (node_id (all ! j)) = Some p \<longrightarrow>
        (\<exists>i < j. node_id (all ! i) = p \<and> all ! j \<in> set (children (all ! i))))"

lemma lane_envD:
  assumes "lane_env all par prim E"
  shows "distinct (map node_id all)"
    and "i < length all \<Longrightarrow> i \<le> E (node_id (all ! i)) \<and> distinct (map node_id (children (all ! i)))"
    and "i < length all \<Longrightarrow> c \<in> set (children (all ! i)) \<Longrightarrow>
      par (node_id c) = Some (node_id (all ! i)) \<and> (\<exists>j < length all. i < j \<and> all ! j = c)"
    and "i < length all \<Longrightarrow> c \<in> set (children (all ! i)) \<Longrightarrow> prim (node_id (all ! i)) = Some (node_id c) \<Longrightarrow>
      E (node_id c) = E (node_id (all ! i))"
    and "j < length all \<Longrightarrow> par (node_id (all ! j)) = Some p \<Longrightarrow>
      \<exists>i < j. node_id (all ! i) = p \<and> all ! j \<in> set (children (all ! i))"
  using assms unfolding lane_env_def by blast+

text \<open>A lane held until a row by a lineage that began early enough.\<close>

definition held :: "Placement \<Rightarrow> nat \<Rightarrow> nat \<Rightarrow> rat \<Rightarrow> bool" where
  "held st l e s \<longleftrightarrow> (\<exists>lin \<in> set (lineages st). (l, lin) \<in> set (activeLanes st) \<and> lin_lane lin = l \<and> endRow lin = e \<and> startRow lin \<le> s)"

lemma held_open:
  assumes "lin_lane lin \<notin> fst ` set (activeLanes st)"
  shows "held st l e s \<Longrightarrow> held (open_lineage lin st) l e s" and "held (open_lineage lin st) (lin_lane lin) (endRow lin) (startRow lin)"
  using assms by (auto simp: held_def open_lineage_def AList_update_new)

lemma held_free: "held st l e s \<Longrightarrow> r < e \<Longrightarrow> held (free_ended r st) l e s"
  by (auto simp: held_def free_ended_def)

lemma held_mono: "held st l e s \<Longrightarrow> s \<le> s' \<Longrightarrow> held st l e s'"
  by (force simp: held_def)

lemma held_frame: "lineages st' = lineages st \<Longrightarrow> activeLanes st' = activeLanes st \<Longrightarrow> held st' = held st"
  by (simp add: held_def fun_eq_iff)

lemma reserve_sel [simp]:
  "placed (reserve E r lane c st) = placed st" "nodeLane (reserve E r lane c st) = nodeLane st"
  "childLane (reserve E r lane c st) = (childLane st)(node_id c \<mapsto> free_lane (activeLanes st) (Suc lane))"
  by (simp_all add: reserve_def open_lineage_def Let_def)

lemma held_reserve:
  "held st l e s \<Longrightarrow> held (reserve E r lane c st) l e s"
  "held (reserve E r lane c st) (free_lane (activeLanes st) (Suc lane)) (E (node_id c)) (of_nat r + 1 / 2)"
proof -
  let ?l = "free_lane (activeLanes st) (Suc lane)"
  let ?lin = "\<lparr>lin_lane = ?l, startRow = of_nat r + 1 / 2, endRow = E (node_id c)\<rparr>"
  define st1 where "st1 = st\<lparr>childLane := (childLane st)(node_id c \<mapsto> ?l),
    forks := forks st @ [\<lparr>fromRow = r, fromLane = lane, toRow = of_nat r + 1 / 2, toLane = ?l\<rparr>]\<rparr>"
  have r: "reserve E r lane c st = open_lineage ?lin st1" by (simp add: reserve_def st1_def Let_def)
  have f: "lin_lane ?lin \<notin> fst ` set (activeLanes st1)" using free_lane_free by (simp add: st1_def)
  have "held st1 = held st" by (rule held_frame) (simp_all add: st1_def)
  then show "held st l e s \<Longrightarrow> held (reserve E r lane c st) l e s" unfolding r using held_open(1)[OF f] by simp
  show "held (reserve E r lane c st) ?l (E (node_id c)) (of_nat r + 1 / 2)" unfolding r using held_open(2)[OF f] by simp
qed

lemma reserve_all_simps [simp]:
  "reserve_all E r lane pr [] st = st"
  "reserve_all E r lane pr (c # cs) st =
     reserve_all E r lane pr cs (if Some (node_id c) = pr then st else reserve E r lane c st)"
  by (simp_all add: reserve_all_def)

lemma reserve_all_frame:
  "placed (reserve_all E r lane pr cs st) = placed st" "nodeLane (reserve_all E r lane pr cs st) = nodeLane st"
  "i \<notin> node_id ` set cs \<or> Some i = pr \<Longrightarrow> childLane (reserve_all E r lane pr cs st) i = childLane st i"
  "held st l e s \<Longrightarrow> held (reserve_all E r lane pr cs st) l e s"
  by (induction cs arbitrary: st) (auto simp: held_reserve(1) split: if_splits)

lemma reserve_all_ok:
  "distinct (map node_id cs) \<Longrightarrow> c \<in> set cs \<Longrightarrow> Some (node_id c) \<noteq> pr \<Longrightarrow>
   \<exists>l'. childLane (reserve_all E r lane pr cs st) (node_id c) = Some l' \<and> lane < l' \<and>
     held (reserve_all E r lane pr cs st) l' (E (node_id c)) (of_nat r + 1 / 2)"
proof (induction cs arbitrary: st)
  case (Cons d cs)
  show ?case
  proof (cases "c = d")
    case True
    have "lane < free_lane (activeLanes st) (Suc lane)" using free_lane_free[of _ "Suc lane"] by (meson Suc_le_lessD)
    moreover have "node_id d \<notin> node_id ` set cs" using Cons.prems(1) by simp
    ultimately show ?thesis
      using True Cons.prems(3) reserve_all_frame(3,4) held_reserve(2) by simp
  qed (use Cons in simp)
qed simp

text \<open>
  The state after \<open>r\<close> rows: the nodes placed, and for each child of a placed node where it is, or which
  lane is held for it.
\<close>

definition child_ok :: "HistoryNode list \<Rightarrow> (string \<rightharpoonup> string) \<Rightarrow> (string \<Rightarrow> nat) \<Rightarrow> nat \<Rightarrow> Placement \<Rightarrow> nat \<Rightarrow> nat \<Rightarrow> bool" where
  "child_ok all prim E r st i j \<longleftrightarrow>
     (let l = pn_lane (placed st ! i); c = node_id (all ! j)
      in if prim (node_id (all ! i)) = Some c
         then childLane st c = None \<and> (if j < r then pn_lane (placed st ! j) = l else held st l (E c) (of_nat i))
         else \<exists>l'. childLane st c = Some l' \<and> l < l' \<and>
                (if j < r then pn_lane (placed st ! j) = l' else held st l' (E c) (of_nat i + 1 / 2)))"

definition dots_inv :: "HistoryNode list \<Rightarrow> (string \<rightharpoonup> string) \<Rightarrow> (string \<Rightarrow> nat) \<Rightarrow> nat \<Rightarrow> Placement \<Rightarrow> bool" where
  "dots_inv all prim E r st \<longleftrightarrow> length (placed st) = r \<and>
     (\<forall>i < r. pn_node (placed st ! i) = all ! i \<and> pn_row (placed st ! i) = i \<and>
        nodeLane st (node_id (all ! i)) = Some (pn_lane (placed st ! i)) \<and>
        (\<exists>lin \<in> set (lineages st). lin_lane lin = pn_lane (placed st ! i) \<and> startRow lin \<le> of_nat i \<and> i \<le> endRow lin)) \<and>
     (\<forall>i < r. \<forall>j < length all. all ! j \<in> set (children (all ! i)) \<longrightarrow> child_ok all prim E r st i j) \<and>
     (\<forall>c l. childLane st c = Some l \<longrightarrow> (\<exists>i < r. c \<in> node_id ` set (children (all ! i))))"

lemma dots_invD:
  assumes "dots_inv all prim E r st"
  shows "length (placed st) = r"
    and "i < r \<Longrightarrow> pn_node (placed st ! i) = all ! i \<and> pn_row (placed st ! i) = i \<and>
        nodeLane st (node_id (all ! i)) = Some (pn_lane (placed st ! i))"
    and "i < r \<Longrightarrow> \<exists>lin \<in> set (lineages st). lin_lane lin = pn_lane (placed st ! i) \<and> startRow lin \<le> of_nat i \<and> i \<le> endRow lin"
    and "i < r \<Longrightarrow> j < length all \<Longrightarrow> all ! j \<in> set (children (all ! i)) \<Longrightarrow> child_ok all prim E r st i j"
    and "childLane st c = Some l \<Longrightarrow> \<exists>i < r. c \<in> node_id ` set (children (all ! i))"
  using assms unfolding dots_inv_def by blast+

lemma take_lane_ok:
  assumes env: "lane_env all par prim E" and inv: "dots_inv all prim E r st" and r: "r < length all"
  shows "\<exists>lane st1. take_lane par E r (all ! r) st = Some (lane, st1) \<and> held st1 lane (E (node_id (all ! r))) (of_nat r) \<and>
    placed st1 = placed st \<and> nodeLane st1 = nodeLane st \<and> childLane st1 = childLane st \<and>
    (\<forall>l e s. held st l e s \<longrightarrow> held st1 l e s) \<and> set (lineages st) \<subseteq> set (lineages st1) \<and>
    (\<forall>i < r. all ! r \<in> set (children (all ! i)) \<longrightarrow>
      (if prim (node_id (all ! i)) = Some (node_id (all ! r)) then lane = pn_lane (placed st ! i)
       else childLane st (node_id (all ! r)) = Some lane \<and> pn_lane (placed st ! i) < lane))"
proof (cases "par (node_id (all ! r))")
  case None
  let ?lane = "free_lane (activeLanes st) 0"
  let ?lin = "\<lparr>lin_lane = ?lane, startRow = of_nat r, endRow = E (node_id (all ! r))\<rparr>"
  have free: "lin_lane ?lin \<notin> fst ` set (activeLanes st)" using free_lane_free by simp
  have "all ! r \<notin> set (children (all ! i))" if "i < r" for i
    using lane_envD(3)[OF env, of i "all ! r"] that r None by auto
  then show ?thesis using None held_open[OF free] by (simp add: take_lane_def Let_def) (auto simp: open_lineage_def)
next
  case (Some p)
  then obtain i where i: "i < r" "node_id (all ! i) = p" "all ! r \<in> set (children (all ! i))"
    using lane_envD(5)[OF env r] by blast
  have uniq: "k = i" if "k < r" "all ! r \<in> set (children (all ! k))" for k
  proof -
    have "node_id (all ! k) = p" using lane_envD(3)[OF env, of k "all ! r"] that r Some by simp
    then have "map node_id all ! k = map node_id all ! i" using i that r by simp
    then show ?thesis using nth_eq_iff_index_eq[OF lane_envD(1)[OF env]] i(1) that(1) r by simp
  qed
  have ok: "child_ok all prim E r st i r" using dots_invD(4)[OF inv i(1) r i(3)] .
  show ?thesis
  proof (cases "prim (node_id (all ! i)) = Some (node_id (all ! r))")
    case True
    then have h: "childLane st (node_id (all ! r)) = None" "held st (pn_lane (placed st ! i)) (E (node_id (all ! r))) (of_nat i)"
      using ok by (simp_all add: child_ok_def Let_def)
    have "take_lane par E r (all ! r) st = Some (pn_lane (placed st ! i), st)"
      using h(1) Some i(2) dots_invD(2)[OF inv i(1)] by (simp add: take_lane_def)
    moreover have "held st (pn_lane (placed st ! i)) (E (node_id (all ! r))) (of_nat r)"
      using held_mono[OF h(2)] i(1) by simp
    ultimately show ?thesis using True uniq by (intro exI[of _ "pn_lane (placed st ! i)"] exI[of _ st]) auto
  next
    case False
    then obtain l' where l': "childLane st (node_id (all ! r)) = Some l'" "pn_lane (placed st ! i) < l'"
      "held st l' (E (node_id (all ! r))) (of_nat i + 1 / 2)"
      using ok by (auto simp: child_ok_def Let_def)
    have "(of_nat i :: rat) + 1 / 2 \<le> of_nat r"
    proof -
      have "(of_nat (Suc i) :: rat) \<le> of_nat r" using i(1) by (intro of_nat_mono) simp
      then show ?thesis by simp
    qed
    then have "held st l' (E (node_id (all ! r))) (of_nat r)" by (rule held_mono[OF l'(3)])
    moreover have "take_lane par E r (all ! r) st = Some (l', st)" using l'(1) Some by (simp add: take_lane_def)
    ultimately show ?thesis using l'(1,2) False uniq by (intro exI[of _ l'] exI[of _ st]) auto
  qed
qed

lemma lineages_reserve_all: "set (lineages st) \<subseteq> set (lineages (reserve_all E r lane pr cs st))"
proof (induction cs arbitrary: st)
  case (Cons c cs)
  have "set (lineages st) \<subseteq> set (lineages (if Some (node_id c) = pr then st else reserve E r lane c st))"
    by (auto simp: reserve_def open_lineage_def Let_def)
  then show ?case using Cons[of "if Some (node_id c) = pr then st else reserve E r lane c st"] by auto
qed simp

lemma free_ended_sel [simp]:
  "placed (free_ended r st) = placed st" "nodeLane (free_ended r st) = nodeLane st"
  "childLane (free_ended r st) = childLane st" "lineages (free_ended r st) = lineages st"
  by (simp_all add: free_ended_def)

text \<open>A child has one parent, so its row names its parent's row.\<close>

lemma child_parent_unique:
  assumes "lane_env all par prim E" "i < length all" "k < length all"
    and "c \<in> node_id ` set (children (all ! i))" "c \<in> node_id ` set (children (all ! k))"
  shows "i = k"
proof -
  have "node_id (all ! i) = node_id (all ! k)"
    using lane_envD(3)[OF assms(1)] assms(2-5) by (metis image_iff option.inject)
  then show ?thesis using nth_eq_iff_index_eq[OF lane_envD(1)[OF assms(1)]] assms(2,3) by simp
qed

text \<open>What one row does to the state.\<close>

lemma place_node_effect:
  assumes env: "lane_env all par prim E" and inv: "dots_inv all prim E r st" and r: "r < length all"
  shows "\<exists>st' lane. place_node A par prim E st (r, all ! r) = Some st' \<and>
    placed st' = placed st @ [\<lparr>pn_node = all ! r, pn_lane = lane, pn_row = r, isOnActivePath = (node_id (all ! r) \<in> A)\<rparr>] \<and>
    nodeLane st' = (nodeLane st)(node_id (all ! r) \<mapsto> lane) \<and> set (lineages st) \<subseteq> set (lineages st') \<and>
    (\<exists>lin \<in> set (lineages st'). lin_lane lin = lane \<and> startRow lin \<le> of_nat r \<and> r \<le> endRow lin) \<and>
    (r < E (node_id (all ! r)) \<longrightarrow> held st' lane (E (node_id (all ! r))) (of_nat r)) \<and>
    (\<forall>l e s. held st l e s \<and> r < e \<longrightarrow> held st' l e s) \<and>
    (\<forall>c. c \<notin> node_id ` set (children (all ! r)) \<or> Some c = prim (node_id (all ! r)) \<longrightarrow> childLane st' c = childLane st c) \<and>
    (\<forall>c \<in> set (children (all ! r)). Some (node_id c) \<noteq> prim (node_id (all ! r)) \<longrightarrow>
      (\<exists>l'. childLane st' (node_id c) = Some l' \<and> lane < l' \<and>
        (r < E (node_id c) \<longrightarrow> held st' l' (E (node_id c)) (of_nat r + 1 / 2)))) \<and>
    (\<forall>i < r. all ! r \<in> set (children (all ! i)) \<longrightarrow>
      (if prim (node_id (all ! i)) = Some (node_id (all ! r)) then lane = pn_lane (placed st ! i)
       else childLane st (node_id (all ! r)) = Some lane \<and> pn_lane (placed st ! i) < lane))"
proof -
  obtain lane st1 where t: "take_lane par E r (all ! r) st = Some (lane, st1)"
    "held st1 lane (E (node_id (all ! r))) (of_nat r)"
    and fr: "placed st1 = placed st" "nodeLane st1 = nodeLane st" "childLane st1 = childLane st"
    and keep: "\<And>l e s. held st l e s \<Longrightarrow> held st1 l e s" "set (lineages st) \<subseteq> set (lineages st1)"
    and at: "\<forall>i < r. all ! r \<in> set (children (all ! i)) \<longrightarrow>
      (if prim (node_id (all ! i)) = Some (node_id (all ! r)) then lane = pn_lane (placed st ! i)
       else childLane st (node_id (all ! r)) = Some lane \<and> pn_lane (placed st ! i) < lane)"
    using take_lane_ok[OF env inv r] by blast
  define st2 where "st2 = st1\<lparr>nodeLane := (nodeLane st1)(node_id (all ! r) \<mapsto> lane),
      placed := placed st1 @ [\<lparr>pn_node = all ! r, pn_lane = lane, pn_row = r, isOnActivePath = (node_id (all ! r) \<in> A)\<rparr>]\<rparr>"
  define st3 where "st3 = reserve_all E r lane (prim (node_id (all ! r))) (rev (children (all ! r))) st2"
  have held2: "held st2 = held st1" by (rule held_frame) (simp_all add: st2_def)
  have "place_node A par prim E st (r, all ! r) = Some (free_ended r st3)"
    by (simp add: place_node_def t(1) st3_def st2_def)
  moreover have "placed (free_ended r st3) = placed st @ [\<lparr>pn_node = all ! r, pn_lane = lane, pn_row = r, isOnActivePath = (node_id (all ! r) \<in> A)\<rparr>]"
    "nodeLane (free_ended r st3) = (nodeLane st)(node_id (all ! r) \<mapsto> lane)"
    by (simp_all add: st3_def reserve_all_frame st2_def fr)
  moreover have lins: "set (lineages st1) \<subseteq> set (lineages (free_ended r st3))"
    using lineages_reserve_all[of st2] by (simp add: st3_def st2_def)
  moreover have "\<exists>lin \<in> set (lineages (free_ended r st3)). lin_lane lin = lane \<and> startRow lin \<le> of_nat r \<and> r \<le> endRow lin"
    using t(2) lins lane_envD(2)[OF env r] by (auto simp: held_def)
  moreover have keep3: "held st3 l e s" if "held st1 l e s" for l e s
    using that reserve_all_frame(4) by (simp add: st3_def held2)
  moreover have "childLane (free_ended r st3) c = childLane st c"
    if "c \<notin> node_id ` set (children (all ! r)) \<or> Some c = prim (node_id (all ! r))" for c
    using that reserve_all_frame(3) by (simp add: st3_def) (simp add: st2_def fr)
  moreover have "\<exists>l'. childLane (free_ended r st3) (node_id c) = Some l' \<and> lane < l' \<and>
      (r < E (node_id c) \<longrightarrow> held (free_ended r st3) l' (E (node_id c)) (of_nat r + 1 / 2))"
    if c: "c \<in> set (children (all ! r))" "Some (node_id c) \<noteq> prim (node_id (all ! r))" for c
  proof -
    have "distinct (map node_id (rev (children (all ! r))))" using lane_envD(2)[OF env r] by (simp flip: rev_map)
    from reserve_all_ok[OF this, of c "prim (node_id (all ! r))" E r lane st2] c show ?thesis
      by (auto simp: st3_def held_free)
  qed
  ultimately show ?thesis using at keep t(2) held_free
    by (intro exI[of _ "free_ended r st3"] exI[of _ lane] conjI) (blast | simp)+
qed

lemma dots_inv_place:
  assumes env: "lane_env all par prim E" and inv: "dots_inv all prim E r st" and r: "r < length all"
  shows "\<exists>st'. place_node A par prim E st (r, all ! r) = Some st' \<and> dots_inv all prim E (Suc r) st'"
proof -
  obtain st' lane where p: "place_node A par prim E st (r, all ! r) = Some st'"
    and pl: "placed st' = placed st @ [\<lparr>pn_node = all ! r, pn_lane = lane, pn_row = r, isOnActivePath = (node_id (all ! r) \<in> A)\<rparr>]"
    and nl: "nodeLane st' = (nodeLane st)(node_id (all ! r) \<mapsto> lane)"
    and lins: "set (lineages st) \<subseteq> set (lineages st')"
    and dot: "\<exists>lin \<in> set (lineages st'). lin_lane lin = lane \<and> startRow lin \<le> of_nat r \<and> r \<le> endRow lin"
    and own: "r < E (node_id (all ! r)) \<Longrightarrow> held st' lane (E (node_id (all ! r))) (of_nat r)"
    and keep: "\<And>l e s. held st l e s \<Longrightarrow> r < e \<Longrightarrow> held st' l e s"
    and same: "\<And>c. c \<notin> node_id ` set (children (all ! r)) \<or> Some c = prim (node_id (all ! r)) \<Longrightarrow> childLane st' c = childLane st c"
    and new: "\<And>c. c \<in> set (children (all ! r)) \<Longrightarrow> Some (node_id c) \<noteq> prim (node_id (all ! r)) \<Longrightarrow>
      \<exists>l'. childLane st' (node_id c) = Some l' \<and> lane < l' \<and> (r < E (node_id c) \<longrightarrow> held st' l' (E (node_id c)) (of_nat r + 1 / 2))"
    and at: "\<And>i. i < r \<Longrightarrow> all ! r \<in> set (children (all ! i)) \<Longrightarrow>
      (if prim (node_id (all ! i)) = Some (node_id (all ! r)) then lane = pn_lane (placed st ! i)
       else childLane st (node_id (all ! r)) = Some lane \<and> pn_lane (placed st ! i) < lane)"
    using place_node_effect[OF env inv r, of A] by blast
  note len = dots_invD(1)[OF inv]
  have old: "placed st' ! i = placed st ! i" if "i < r" for i using that len by (simp add: pl nth_append)
  have cur: "placed st' ! r = \<lparr>pn_node = all ! r, pn_lane = lane, pn_row = r, isOnActivePath = (node_id (all ! r) \<in> A)\<rparr>"
    using len by (simp add: pl nth_append)
  have id: "node_id (all ! i) \<noteq> node_id (all ! r)" if "i < r" for i
    using nth_eq_iff_index_eq[OF lane_envD(1)[OF env], of i r] that r by simp
  have later: "r < E (node_id (all ! j))" if "r < j" "j < length all" for j using lane_envD(2)[OF env that(2)] that(1) by simp
  have untouched: "childLane st' (node_id (all ! j)) = childLane st (node_id (all ! j))"
    if "i < r" "all ! j \<in> set (children (all ! i))" for i j
    using that child_parent_unique[OF env, of i r "node_id (all ! j)"] r by (intro same) auto
  have "child_ok all prim E (Suc r) st' i j" if ij: "i < Suc r" "j < length all" "all ! j \<in> set (children (all ! i))" for i j
  proof (cases "i < r")
    case True
    note ok = dots_invD(4)[OF inv True ij(2,3)] and u = untouched[OF True ij(3)]
    consider "j < r" | "j = r" | "r < j" by linarith
    then show ?thesis
    proof cases
      case 1
      then show ?thesis using ok u old True by (simp add: child_ok_def Let_def split: if_splits)
    next
      case 2
      then show ?thesis using ok u at[OF True] ij(3) old[OF True] cur by (auto simp: child_ok_def Let_def split: if_splits)
    next
      case 3
      then show ?thesis using ok u keep[OF _ later[OF 3 ij(2)]] old[OF True] by (auto simp: child_ok_def Let_def split: if_splits)
    qed
  next
    case False
    then have i: "i = r" using ij(1) by simp
    have c: "all ! j \<in> set (children (all ! r))" using ij(3) i by simp
    obtain k where "k < length all" "r < k" "all ! k = all ! j" using lane_envD(3)[OF env r c] by blast
    then have j: "r < j" using nth_eq_iff_index_eq[OF lane_envD(1)[OF env], of k j] ij(2) by simp
    show ?thesis
    proof (cases "prim (node_id (all ! r)) = Some (node_id (all ! j))")
      case True
      have "childLane st (node_id (all ! j)) = None"
        using dots_invD(5)[OF inv] child_parent_unique[OF env _ r _ imageI[OF c]] r
        by (metis less_irrefl less_trans not_None_eq)
      then have "childLane st' (node_id (all ! j)) = None" using same[of "node_id (all ! j)"] True by simp
      moreover have "held st' lane (E (node_id (all ! j))) (of_nat r)"
        using own lane_envD(4)[OF env r c True] later[OF j ij(2)] by simp
      ultimately show ?thesis using True i j cur by (simp add: child_ok_def)
    next
      case False
      then show ?thesis using new[OF c] later[OF j ij(2)] i j cur by (auto simp: child_ok_def)
    qed
  qed
  moreover have "\<exists>i < Suc r. c \<in> node_id ` set (children (all ! i))" if "childLane st' c = Some l" for c l
  proof (cases "c \<in> node_id ` set (children (all ! r))")
    case False
    then show ?thesis using same[of c] that dots_invD(5)[OF inv] less_SucI by metis
  qed blast
  moreover have "pn_node (placed st' ! i) = all ! i \<and> pn_row (placed st' ! i) = i \<and>
        nodeLane st' (node_id (all ! i)) = Some (pn_lane (placed st' ! i)) \<and>
        (\<exists>lin \<in> set (lineages st'). lin_lane lin = pn_lane (placed st' ! i) \<and> startRow lin \<le> of_nat i \<and> i \<le> endRow lin)"
    if "i < Suc r" for i
  proof (cases "i < r")
    case True
    then show ?thesis using dots_invD(2,3)[OF inv True] old[OF True] id[OF True] lins by (auto simp: nl)
  next
    case False
    then show ?thesis using that dot cur by (simp add: nl less_Suc_eq)
  qed
  ultimately have "dots_inv all prim E (Suc r) st'" unfolding dots_inv_def using len pl by simp
  then show ?thesis using p by blast
qed

lemma dots_inv_all:
  assumes env: "lane_env all par prim E"
  shows "dots_inv all prim E r st \<Longrightarrow> r \<le> length all \<Longrightarrow>
    \<exists>st'. place_all A par prim E st (enumerate r (drop r all)) = Some st' \<and> dots_inv all prim E (length all) st'"
proof (induction "length all - r" arbitrary: r st)
  case (Suc d)
  then have r: "r < length all" by simp
  then have d: "drop r all = all ! r # drop (Suc r) all" by (simp add: Cons_nth_drop_Suc)
  obtain st1 where s: "place_node A par prim E st (r, all ! r) = Some st1" "dots_inv all prim E (Suc r) st1"
    using dots_inv_place[OF env Suc.prems(1) r] by blast
  have "\<exists>st'. place_all A par prim E st1 (enumerate (Suc r) (drop (Suc r) all)) = Some st' \<and> dots_inv all prim E (length all) st'"
    using Suc.hyps(2) r s(2) by (intro Suc.hyps(1)) simp_all
  then show ?case using d s(1) by simp
qed simp

section \<open>The maps of a tree\<close>

text \<open>A tree with distinct non-empty ids in which a message is later than its parent.\<close>

definition timely :: "collation \<Rightarrow> HistoryNode list \<Rightarrow> bool" where
  "timely lc roots \<longleftrightarrow> collates lc \<and> distinct (map node_id (forest roots)) \<and>
     list_all (\<lambda>n. node_id n \<noteq> [] \<and> list_all (\<lambda>c. \<not> byTs lc c n) (children n)) (forest roots)"

lemma chronological_facts:
  "set (chronological lc roots) = set (forest roots)"
  "distinct (map node_id (chronological lc roots)) = distinct (map node_id (forest roots))"
  "collates lc \<Longrightarrow> sorted_wrt (byTs lc) (chronological lc roots)"
proof -
  show "set (chronological lc roots) = set (forest roots)" by (simp add: chronological_def)
  have "mset (map node_id (chronological lc roots)) = mset (map node_id (forest roots))"
    by (simp only: mset_map chronological_def mset_sort_by)
  then show "distinct (map node_id (chronological lc roots)) = distinct (map node_id (forest roots))"
    by (rule mset_eq_imp_distinct_iff)
  show "collates lc \<Longrightarrow> sorted_wrt (byTs lc) (chronological lc roots)"
    unfolding chronological_def using sorted_sort_by[of "byTs lc"] byTs_order[of lc] by blast
qed

lemma forest_children: "n \<in> set (forest ns) \<Longrightarrow> c \<in> set (children n) \<Longrightarrow> c \<in> set (forest ns)"
proof -
  have "c \<in> set (nodes_of m)" if "n \<in> set (nodes_of m)" "c \<in> set (children n)" for m n c
    using that
  proof (induction m rule: HistoryNode.induct)
    case (HistoryNode i t ts d cs old l)
    then show ?case using node_in_nodes_of[of c] by auto
  qed
  then show "n \<in> set (forest ns) \<Longrightarrow> c \<in> set (children n) \<Longrightarrow> c \<in> set (forest ns)" by (auto simp: forest_def)
qed

lemma distinct_forest: "distinct (map node_id (forest ns)) \<Longrightarrow> distinct (map node_id ns)"
proof (induction ns)
  case (Cons n ns)
  have "node_id m \<in> set (map node_id (forest ns))" if "m \<in> set ns" for m
    using forest_member[OF that] node_in_nodes_of[of m] by auto
  then show ?case using Cons by (auto simp: nodes_of_forest[of n] distinct_map)
qed simp

lemma distinct_children:
  "distinct (map node_id (forest ns)) \<Longrightarrow> n \<in> set (forest ns) \<Longrightarrow> distinct (map node_id (children n))"
proof -
  have one: "distinct (map node_id (nodes_of m)) \<Longrightarrow> n \<in> set (nodes_of m) \<Longrightarrow> distinct (map node_id (children n))" for m
  proof (induction m rule: HistoryNode.induct)
    case (HistoryNode i t ts d cs old l)
    have d: "distinct (map node_id (forest cs))" using HistoryNode.prems(1) by (simp add: forest_def)
    then have "distinct (map node_id (nodes_of c))" if "c \<in> set cs" for c
      using that by (induction cs) auto
    then show ?case using HistoryNode distinct_forest[OF d] by auto
  qed
  show "distinct (map node_id (forest ns)) \<Longrightarrow> n \<in> set (forest ns) \<Longrightarrow> distinct (map node_id (children n))"
    using one by (induction ns) auto
qed

lemma map_fst_dfsParent: "map fst (concat (map (dfsParent None) roots)) = map node_id (forest roots)"
proof -
  have "map fst (dfsParent p n) = map node_id (nodes_of n)" for p n
    by (induction n arbitrary: p rule: HistoryNode.induct) (simp add: map_concat cong: map_cong)
  then show ?thesis by (simp add: map_concat forest_def comp_def)
qed

lemma set_dfsParent:
  "set (dfsParent p n) = insert (node_id n, p) (\<Union>m \<in> set (nodes_of n). (\<lambda>c. (node_id c, Some (node_id m))) ` set (children m))"
proof (induction n arbitrary: p rule: HistoryNode.induct)
  case (HistoryNode i t ts d cs old l)
  let ?B = "\<lambda>c. \<Union>m \<in> set (nodes_of c). (\<lambda>c. (node_id c, Some (node_id m))) ` set (children m)"
  have "(\<Union>c \<in> set cs. set (dfsParent (Some i) c)) = (\<Union>c \<in> set cs. insert (node_id c, Some i) (?B c))"
    by (intro SUP_cong refl HistoryNode.IH(1))
  also have "\<dots> = (\<lambda>c. (node_id c, Some i)) ` set cs \<union> (\<Union>c \<in> set cs. ?B c)" by blast
  finally show ?case by simp
qed

lemma parentOf_facts:
  assumes "distinct (map node_id (forest roots))"
  shows "n \<in> set (forest roots) \<Longrightarrow> c \<in> set (children n) \<Longrightarrow> parentOf roots (node_id c) = Some (node_id n)"
    and "parentOf roots i = Some p \<Longrightarrow> \<exists>n \<in> set (forest roots). \<exists>c \<in> set (children n). node_id n = p \<and> node_id c = i"
proof -
  let ?D = "concat (map (dfsParent None) roots)"
  have d: "distinct (map fst ?D)" using assms by (simp add: map_fst_dfsParent)
  then have m: "map_of (rev ?D) = map_of ?D" by (intro map_of_inject_set[THEN iffD2]) (simp_all add: rev_map[symmetric])
  have D: "(i, Some p) \<in> set ?D \<longleftrightarrow> (\<exists>n \<in> set (forest roots). \<exists>c \<in> set (children n). node_id n = p \<and> node_id c = i)" for i p
    by (auto simp: set_dfsParent forest_def)
  show "n \<in> set (forest roots) \<Longrightarrow> c \<in> set (children n) \<Longrightarrow> parentOf roots (node_id c) = Some (node_id n)"
    using map_of_is_SomeI[OF d] D unfolding parentOf_def m by fastforce
  show "parentOf roots i = Some p \<Longrightarrow> \<exists>n \<in> set (forest roots). \<exists>c \<in> set (children n). node_id n = p \<and> node_id c = i"
    using D unfolding parentOf_def m by (auto simp: bind_eq_Some_conv dest: map_of_SomeD)
qed

lemma rowOf_nth: "distinct (map node_id all) \<Longrightarrow> i < length all \<Longrightarrow> rowOf all (node_id (all ! i)) = Some i"
proof -
  have "foldl (\<lambda>m (i, n). m(node_id n \<mapsto> i)) m (enumerate k ns) (node_id (ns ! i)) = Some (k + i)"
    if "distinct (map node_id ns)" "i < length ns" for ns k i and m :: "string \<rightharpoonup> nat"
    using that
  proof (induction ns arbitrary: k i m)
    case (Cons n ns)
    have keep: "foldl (\<lambda>m (i, n). m(node_id n \<mapsto> i)) m (enumerate k ns) x = m x" if "x \<notin> node_id ` set ns"
      for m :: "string \<rightharpoonup> nat" and k x using that by (induction ns arbitrary: m k) auto
    have "node_id n \<notin> node_id ` set ns" using Cons.prems(1) by simp
    from keep[OF this, of "m(node_id n \<mapsto> k)" "Suc k"] show ?case using Cons by (cases i) (simp_all del: fun_upd_apply, simp)
  qed simp
  from this[of all i Map.empty 0] show "distinct (map node_id all) \<Longrightarrow> i < length all \<Longrightarrow> rowOf all (node_id (all ! i)) = Some i"
    by (simp add: rowOf_def)
qed

lemma primaryChildOf_node:
  assumes "distinct (map node_id all)" "n \<in> set all"
  shows "primaryChildOf A all (node_id n) = primary_child A n"
proof -
  have "foldl (\<lambda>m n. m(node_id n \<mapsto> primary_child A n)) m ns (node_id n) = Some (primary_child A n)"
    if "distinct (map node_id ns)" "n \<in> set ns" for ns and m :: "string \<rightharpoonup> string option"
    using that
  proof (induction ns arbitrary: m)
    case (Cons k ns)
    have keep: "foldl (\<lambda>m n. m(node_id n \<mapsto> primary_child A n)) m ns x = m x" if "x \<notin> node_id ` set ns"
      for m :: "string \<rightharpoonup> string option" and x using that by (induction ns arbitrary: m) auto
    have "node_id k \<notin> node_id ` set ns" using Cons.prems(1) by simp
    from keep[OF this, of "m(node_id k \<mapsto> primary_child A k)"] have
      "foldl (\<lambda>m n. m(node_id n \<mapsto> primary_child A n)) m (k # ns) (node_id k) = Some (primary_child A k)" by simp
    then show ?case using Cons by (cases "n = k") (simp_all del: fun_upd_apply)
  qed simp
  then show ?thesis using assms by (simp add: primaryChildOf_def)
qed

lemma primary_child_Some: "primary_child A n = Some p \<Longrightarrow> \<exists>c \<in> set (children n). node_id c = p"
  by (auto simp: primary_child_def find_Some_iff split: if_splits option.splits)

lemma child_row:
  assumes "timely lc roots" "i < length (chronological lc roots)" "c \<in> set (children (chronological lc roots ! i))"
  shows "\<exists>j < length (chronological lc roots). i < j \<and> chronological lc roots ! j = c"
proof -
  let ?all = "chronological lc roots"
  have coll: "collates lc" using assms(1) by (simp add: timely_def)
  have n: "?all ! i \<in> set (forest roots)" using nth_mem[OF assms(2)] chronological_facts(1) by blast
  then have "c \<in> set ?all" using forest_children[OF n assms(3)] chronological_facts(1) by blast
  then obtain j where j: "j < length ?all" "?all ! j = c" by (auto simp: in_set_conv_nth)
  have no: "\<not> byTs lc c (?all ! i)" using assms(1,3) n by (auto simp: timely_def list_all_iff)
  then have "j \<noteq> i" using j byTs_order(1)[OF coll, of c c] by auto
  moreover have "\<not> j < i" using sorted_wrt_nth_less[OF chronological_facts(3)[OF coll], of j i] no j(2) assms(2) by blast
  ultimately show ?thesis using j by auto
qed

lemma computePCLR_returns:
  fixes A
  assumes t: "timely lc roots"
  defines "all \<equiv> chronological lc roots"
  defines "P \<equiv> computePCLR (primaryChildOf A all) (rowOf all)"
  shows "i < length all \<Longrightarrow> \<exists>e. P (node_id (all ! i)) = Some e \<and> i \<le> e"
    and "i < length all \<Longrightarrow> primaryChildOf A all (node_id (all ! i)) = Some p \<Longrightarrow> P (node_id (all ! i)) = P p"
proof -
  have d: "distinct (map node_id all)" using t chronological_facts(2) by (simp add: timely_def all_def)
  have prim: "\<exists>j < length all. i < j \<and> node_id (all ! j) = p \<and> p \<noteq> []"
    if i: "i < length all" and p: "primaryChildOf A all (node_id (all ! i)) = Some p" for i p
  proof -
    obtain c where c: "c \<in> set (children (all ! i))" "node_id c = p"
      using p i primaryChildOf_node[OF d nth_mem[OF i]] primary_child_Some by metis
    obtain j where j: "j < length all" "i < j" "all ! j = c" using child_row[OF t] i c(1) unfolding all_def by blast
    have "node_id (all ! j) \<noteq> []" using t nth_mem[OF j(1)] chronological_facts(1) unfolding all_def timely_def list_all_iff by blast
    then show ?thesis using j c(2) by blast
  qed
  show step: "i < length all \<Longrightarrow> primaryChildOf A all (node_id (all ! i)) = Some p \<Longrightarrow> P (node_id (all ! i)) = P p" for i p
    using prim[of i p] unfolding P_def by (subst computePCLR.simps) auto
  show "i < length all \<Longrightarrow> \<exists>e. P (node_id (all ! i)) = Some e \<and> i \<le> e"
  proof (induction "length all - i" arbitrary: i rule: less_induct)
    case less
    show ?case
    proof (cases "primaryChildOf A all (node_id (all ! i))")
      case None
      then have "P (node_id (all ! i)) = Some i" unfolding P_def using rowOf_nth[OF d less.prems]
        by (subst computePCLR.simps) simp
      then show ?thesis by simp
    next
      case (Some p)
      obtain j where j: "j < length all" "i < j" "node_id (all ! j) = p" using prim[OF less.prems Some] by blast
      have "\<exists>e. P (node_id (all ! j)) = Some e \<and> j \<le> e" using j less.prems by (intro less.hyps) auto
      then show ?thesis using step[OF less.prems Some] j by auto
    qed
  qed
qed

lemma timely_env:
  assumes t: "timely lc roots"
  defines "all \<equiv> chronological lc roots"
  shows "\<exists>lasts. those (map (\<lambda>n. computePCLR (primaryChildOf A all) (rowOf all) (node_id n)) all) = Some lasts \<and>
    lane_env all (parentOf roots) (primaryChildOf A all) (\<lambda>i. the (map_of (zip (map node_id all) lasts) i))"
proof -
  let ?P = "\<lambda>i. computePCLR (primaryChildOf A all) (rowOf all) i"
  have d: "distinct (map node_id all)" and df: "distinct (map node_id (forest roots))"
    using t chronological_facts(2) by (simp_all add: timely_def all_def)
  have mem: "all ! i \<in> set (forest roots)" if "i < length all" for i
    using nth_mem[OF that] chronological_facts(1) by (auto simp: all_def)
  note pc = computePCLR_returns[OF t, of _ A, folded all_def]
  let ?lasts = "map (\<lambda>n. the (?P (node_id n))) all"
  have "those (map (\<lambda>n. ?P (node_id n)) all) = Some ?lasts"
    using pc(1) by (intro those_map) (metis in_set_conv_nth option.sel)
  moreover have E: "the (map_of (zip (map node_id all) ?lasts) (node_id (all ! i))) = the (?P (node_id (all ! i)))"
    if "i < length all" for i
  proof -
    have "zip (map node_id all) ?lasts = map (\<lambda>n. (node_id n, the (?P (node_id n)))) all" by (simp add: zip_map_map zip_same_conv_map)
    moreover have "map_of (map (\<lambda>n. (node_id n, the (?P (node_id n)))) all) (node_id (all ! i)) = Some (the (?P (node_id (all ! i))))"
      using d that by (intro map_of_is_SomeI) (auto simp: comp_def)
    ultimately show ?thesis by simp
  qed
  have "lane_env all (parentOf roots) (primaryChildOf A all) (\<lambda>i. the (map_of (zip (map node_id all) ?lasts) i))"
    unfolding lane_env_def
  proof (intro conjI allI ballI impI)
    show "distinct (map node_id all)" by (rule d)
    fix i assume i: "i < length all"
    show "i \<le> the (map_of (zip (map node_id all) ?lasts) (node_id (all ! i)))" unfolding E[OF i] using pc(1)[OF i] by auto
    show "distinct (map node_id (children (all ! i)))" using distinct_children[OF df mem[OF i]] .
    fix c assume c: "c \<in> set (children (all ! i))"
    show "parentOf roots (node_id c) = Some (node_id (all ! i))" using parentOf_facts(1)[OF df mem[OF i] c] .
    show row: "\<exists>j < length all. i < j \<and> all ! j = c" using child_row[OF t] i c by (simp add: all_def)
    then obtain j where j: "j < length all" "all ! j = c" by blast
    assume "primaryChildOf A all (node_id (all ! i)) = Some (node_id c)"
    then have "?P (node_id (all ! i)) = ?P (node_id c)" by (rule pc(2)[OF i])
    then show "the (map_of (zip (map node_id all) ?lasts) (node_id c)) = the (map_of (zip (map node_id all) ?lasts) (node_id (all ! i)))"
      using E[OF i] E[OF j(1)] j(2) by simp
  next
    fix j p assume j: "j < length all" "parentOf roots (node_id (all ! j)) = Some p"
    obtain n c where n: "n \<in> set (forest roots)" "c \<in> set (children n)" "node_id n = p" "node_id c = node_id (all ! j)"
      using parentOf_facts(2)[OF df j(2)] by blast
    obtain i where i: "i < length all" "all ! i = n" using n(1) chronological_facts(1) unfolding all_def by (metis in_set_conv_nth)
    obtain k where k: "k < length all" "i < k" "all ! k = c" using child_row[OF t] i n(2) unfolding all_def by blast
    have "k = j" using nth_eq_iff_index_eq[OF d, of k j] k j(1) n(4) by simp
    then show "\<exists>i < j. node_id (all ! i) = p \<and> all ! j \<in> set (children (all ! i))" using k i n by blast
  qed
  ultimately show ?thesis by blast
qed

lemma dots_inv_start: "dots_inv all prim E 0 empty_placement"
  by (simp add: dots_inv_def empty_placement_def)

text \<open>The layout of a timely tree, with the invariant of its last row.\<close>

lemma layout_final:
  assumes t: "timely lc roots"
  defines "all \<equiv> chronological lc roots"
  shows "\<exists>L st E. computeLaneLayout lc roots A = Some L \<and> dots_inv all (primaryChildOf A all) E (length all) st \<and>
    ll_nodes L = placed st \<and> ll_lineages L = lineages st \<and> rowCount L = length all \<and>
    (\<forall>i < length all. pn_lane (placed st ! i) < laneCount L)"
proof (cases "all = []")
  case True
  have "dots_inv all (primaryChildOf A all) E (length all) empty_placement" for E using dots_inv_start True by simp
  then show ?thesis using True
    by (intro exI conjI) (auto simp: computeLaneLayout_def all_def[symmetric] empty_placement_def)
next
  case False
  obtain lasts where lasts: "those (map (\<lambda>n. computePCLR (primaryChildOf A all) (rowOf all) (node_id n)) all) = Some lasts"
    and env: "lane_env all (parentOf roots) (primaryChildOf A all) (\<lambda>i. the (map_of (zip (map node_id all) lasts) i))"
    using timely_env[OF t, of A] unfolding all_def by blast
  let ?E = "\<lambda>i. the (map_of (zip (map node_id all) lasts) i)"
  obtain st where st: "place_all A (parentOf roots) (primaryChildOf A all) ?E empty_placement (enumerate 0 all) = Some st"
    "dots_inv all (primaryChildOf A all) ?E (length all) st"
    using dots_inv_all[OF env dots_inv_start, of A] by auto
  let ?L = "\<lparr>ll_nodes = placed st, ll_lineages = lineages st, ll_forks = forks st,
     laneCount = Max (insert 0 ((\<lambda>n. Suc (the (nodeLane st (node_id n)))) ` set all)), rowCount = length all\<rparr>"
  have "computeLaneLayout lc roots A = Some ?L"
    using False lasts st(1) by (simp add: computeLaneLayout_def all_def[symmetric])
  moreover have "pn_lane (placed st ! i) < laneCount ?L" if "i < length all" for i
  proof -
    have "Suc (pn_lane (placed st ! i)) \<in> (\<lambda>n. Suc (the (nodeLane st (node_id n)))) ` set all"
      using dots_invD(2)[OF st(2) that] that by (intro image_eqI[of _ _ "all ! i"]) simp_all
    then have "Suc (pn_lane (placed st ! i)) \<le> Max (insert 0 ((\<lambda>n. Suc (the (nodeLane st (node_id n)))) ` set all))"
      by (intro Max_ge) auto
    then show ?thesis by (simp del: Max_insert)
  qed
  ultimately show ?thesis using st(2) by (intro exI[of _ ?L] exI[of _ st] exI[of _ ?E]) simp
qed

text \<open>A question with an early detour, and a follow-up with one of its own.\<close>

definition leaf_node :: "string \<Rightarrow> string \<Rightarrow> HistoryNode list \<Rightarrow> HistoryNode" where
  "leaf_node i ts cs = HistoryNode i [] ts (cs = []) cs [] None"

definition sample_tree :: "HistoryNode list" where
  "sample_tree = [leaf_node ''a'' ''1'' [leaf_node ''b'' ''2'' [],
     leaf_node ''c'' ''3'' [leaf_node ''d'' ''4'' [], leaf_node ''e'' ''5'' []]]]"

lemma sample_timely: "timely code_compare sample_tree"
  using code_compare_collates by (simp add: timely_def sample_tree_def leaf_node_def forest_def byTs_def)

lemma sample_layout:
  "map_option ll_lineages (computeLaneLayout code_compare sample_tree {}) =
     Some [\<lparr>lin_lane = 0, startRow = 0, endRow = 4\<rparr>, \<lparr>lin_lane = 1, startRow = 1 / 2, endRow = 1\<rparr>,
           \<lparr>lin_lane = 1, startRow = 5 / 2, endRow = 3\<rparr>]"
  by code_simp

section \<open>Properties\<close>

text \<open>
  \<^bold>\<open>Lemma.\<close>  Lanes are reused safely: in every layout that is computed, of two lineages on one lane
  the earlier one has ended strictly above the row where the later one begins, so no two verticals
  overlap.
\<close>

theorem lineages_apart:
  assumes "computeLaneLayout lc roots A = Some L" "i < j" "j < length (ll_lineages L)"
    and "lin_lane (ll_lineages L ! i) = lin_lane (ll_lineages L ! j)"
  shows "of_nat (endRow (ll_lineages L ! i)) < startRow (ll_lineages L ! j)"
proof -
  obtain parent primary lastRow st where
    "place_all A parent primary lastRow empty_placement (enumerate 0 (chronological lc roots)) = Some st"
    "ll_lineages L = lineages st"
    using assms(1,3) by (auto simp: computeLaneLayout_def Let_def split: if_splits bind_splits)
  moreover have "lanes_inv 0 empty_placement" by (simp add: lanes_inv_def empty_placement_def)
  ultimately have "sorted_wrt apart (ll_lineages L)" using lanes_inv_all by (metis lanes_inv_def)
  then have "apart (ll_lineages L ! i) (ll_lineages L ! j)" using assms(2,3) by (rule sorted_wrt_nth_less)
  then show ?thesis using assms(4) by (simp add: apart_def)
qed

theorem lineages_apart_witness:
  "\<exists>L. computeLaneLayout code_compare sample_tree {} = Some L \<and> endRow (ll_lineages L ! 1) = 1 \<and>
     lin_lane (ll_lineages L ! 1) = lin_lane (ll_lineages L ! 2) \<and>
     (of_nat (endRow (ll_lineages L ! 1)) :: rat) < startRow (ll_lineages L ! 2)"
proof -
  obtain L where L: "computeLaneLayout code_compare sample_tree {} = Some L"
    "ll_lineages L = [\<lparr>lin_lane = 0, startRow = 0, endRow = 4\<rparr>, \<lparr>lin_lane = 1, startRow = 1 / 2, endRow = 1\<rparr>,
       \<lparr>lin_lane = 1, startRow = 5 / 2, endRow = 3\<rparr>]"
    using sample_layout by auto
  have same: "lin_lane (ll_lineages L ! 1) = lin_lane (ll_lineages L ! 2)" by (simp add: L(2))
  have "(of_nat (endRow (ll_lineages L ! 1)) :: rat) < startRow (ll_lineages L ! 2)"
    by (rule lineages_apart[OF L(1) _ _ same]) (simp_all add: L(2))
  with L same show ?thesis by simp
qed

text \<open>
  \<^bold>\<open>Lemma.\<close>  The layout is complete: for a tree in which messages are later than their parents it is
  computed, places every message once, in chronological rows, on a lane within the lane count, and
  every dot lies on a lineage of its lane that spans its row.
\<close>

theorem layout_complete:
  assumes "timely lc roots"
  shows "\<exists>L. computeLaneLayout lc roots A = Some L \<and> map pn_node (ll_nodes L) = chronological lc roots \<and>
    map pn_row (ll_nodes L) = [0 ..< rowCount L] \<and>
    list_all (\<lambda>p. pn_lane p < laneCount L \<and>
      list_ex (\<lambda>lin. lin_lane lin = pn_lane p \<and> startRow lin \<le> of_nat (pn_row p) \<and> pn_row p \<le> endRow lin) (ll_lineages L))
      (ll_nodes L)"
proof -
  let ?all = "chronological lc roots"
  obtain L st E where L: "computeLaneLayout lc roots A = Some L" "ll_nodes L = placed st" "ll_lineages L = lineages st"
      "rowCount L = length ?all" "\<forall>i < length ?all. pn_lane (placed st ! i) < laneCount L"
    and inv: "dots_inv ?all (primaryChildOf A ?all) E (length ?all) st"
    using layout_final[OF assms, of A] by blast
  note len = dots_invD(1)[OF inv]
  have "map pn_node (placed st) = ?all" using dots_invD(2)[OF inv] len by (intro nth_equalityI) simp_all
  moreover have "map pn_row (placed st) = [0 ..< length ?all]" using dots_invD(2)[OF inv] len by (intro nth_equalityI) simp_all
  moreover have "\<forall>i < length ?all. list_ex (\<lambda>lin. lin_lane lin = pn_lane (placed st ! i) \<and>
      startRow lin \<le> of_nat (pn_row (placed st ! i)) \<and> pn_row (placed st ! i) \<le> endRow lin) (lineages st)"
    using dots_invD(2,3)[OF inv] by (auto simp: list_ex_iff)
  ultimately show ?thesis using L len by (auto simp: list_all_length)
qed

theorem layout_complete_witness:
  "\<exists>L. computeLaneLayout code_compare sample_tree {''b''} = Some L \<and>
     map pn_node (ll_nodes L) = chronological code_compare sample_tree"
  using layout_complete[OF sample_timely, of "{''b''}"] by blast

text \<open>
  \<^bold>\<open>Lemma.\<close>  Follow-ups stay on their lane and detours fork to the right: in the layout of such a tree
  the child on the active path, or the newest child when none is, has the lane of its parent, and
  every other child has a lane further right.
\<close>

theorem primary_child_stays:
  assumes "timely lc roots" "computeLaneLayout lc roots A = Some L" "p \<in> set (ll_nodes L)" "q \<in> set (ll_nodes L)"
    and "pn_node q \<in> set (children (pn_node p))"
  shows "if primary_child A (pn_node p) = Some (node_id (pn_node q)) then pn_lane q = pn_lane p else pn_lane p < pn_lane q"
proof -
  let ?all = "chronological lc roots"
  obtain st E where L: "ll_nodes L = placed st" and inv: "dots_inv ?all (primaryChildOf A ?all) E (length ?all) st"
    using layout_final[OF assms(1), of A] assms(2) by auto
  obtain i j where i: "i < length ?all" "p = placed st ! i" and j: "j < length ?all" "q = placed st ! j"
    using assms(3,4) L dots_invD(1)[OF inv] by (auto simp: in_set_conv_nth)
  have n: "pn_node p = ?all ! i" "pn_node q = ?all ! j" using dots_invD(2)[OF inv] i j by auto
  have d: "distinct (map node_id ?all)" using assms(1) chronological_facts(2) by (simp add: timely_def)
  have "primaryChildOf A ?all (node_id (?all ! i)) = primary_child A (?all ! i)"
    using primaryChildOf_node[OF d nth_mem[OF i(1)]] .
  moreover have "child_ok ?all (primaryChildOf A ?all) E (length ?all) st i j"
    using dots_invD(4)[OF inv i(1) j(1)] assms(5) n by simp
  ultimately show ?thesis using i j n by (auto simp: child_ok_def Let_def)
qed

theorem primary_child_stays_witness:
  "\<exists>L p q. computeLaneLayout code_compare sample_tree {''b''} = Some L \<and> p \<in> set (ll_nodes L) \<and> q \<in> set (ll_nodes L) \<and>
     node_id (pn_node q) = ''b'' \<and> pn_lane q = pn_lane p"
proof -
  let ?b = "leaf_node ''b'' ''2'' []" and ?a = "hd sample_tree"
  obtain L where L: "computeLaneLayout code_compare sample_tree {''b''} = Some L"
    "map pn_node (ll_nodes L) = chronological code_compare sample_tree"
    using layout_complete[OF sample_timely, of "{''b''}"] by blast
  have "?a \<in> set (map pn_node (ll_nodes L))" "?b \<in> set (map pn_node (ll_nodes L))"
    unfolding L(2) chronological_facts by (simp_all add: sample_tree_def leaf_node_def forest_def)
  then obtain p q where p: "p \<in> set (ll_nodes L)" "pn_node p = ?a" and q: "q \<in> set (ll_nodes L)" "pn_node q = ?b" by auto
  have "pn_node q \<in> set (children (pn_node p))" by (simp add: p(2) q(2) sample_tree_def leaf_node_def)
  from primary_child_stays[OF sample_timely L(1) p(1) q(1) this] have "pn_lane q = pn_lane p"
    by (simp add: p(2) q(2) primary_child_def sample_tree_def leaf_node_def)
  moreover have "node_id (pn_node q) = ''b''" by (simp add: q(2) leaf_node_def)
  ultimately show ?thesis using L(1) p(1) q(1) by blast
qed

end
