(* ===== verification/Listing.thy ===== *)
theory Listing
  imports Patch HistoryTree
begin

text \<open>
  What the session actor reads of its document, \<^verbatim>\<open>packages/bridge/src/host/session-actor.ts\<close>: the values of
  the pull verb, the listing facts (\<^verbatim>\<open>metadata\<close>) and the summary they contain.  Timestamps are compared
  as JavaScript compares strings, by code units.
\<close>

section \<open>The pull verb\<close>

record PulledValue =
  pulled_entry :: string
  pulled_path :: string
  pulled_value :: jsv
  pulled_live :: bool

definition pull_one :: "jsv \<Rightarrow> string \<times> string \<Rightarrow> PulledValue list" where
  "pull_one doc req =
     (let entry = jget (doc_entries doc) (fst req)
      in if \<not> truthy entry then []
         else let value = resolveFieldPath entry (snd req)
              in if value = JUndef then []
                 else [\<lparr>pulled_entry = fst req, pulled_path = snd req, pulled_value = value,
                        pulled_live = (\<not> isEntrySealed entry)\<rparr>])"

definition pull :: "jsv \<Rightarrow> (string \<times> string) list \<Rightarrow> PulledValue list" where
  "pull doc requests = concat (map (pull_one doc) requests)"

section \<open>Previews\<close>

definition LISTING_PREVIEW_MAX :: nat where
  "LISTING_PREVIEW_MAX = 120"

lemma length_dropWhile_less [termination_simp]: "length (dropWhile P xs) < Suc (length xs)"
  by (simp add: le_imp_less_Suc length_dropWhile_le)

text \<open>\<^verbatim>\<open>text.replace(/\s+/g, " ")\<close>: each run of white space becomes one blank.\<close>

fun squeeze :: "string \<Rightarrow> string" where
  "squeeze [] = []"
| "squeeze (c # cs) = (if js_space c then CHR 32 # squeeze (dropWhile js_space cs) else c # squeeze cs)"

definition clampPreview :: "string \<Rightarrow> string" where
  "clampPreview t =
     (let single = trim (squeeze t)
      in if length single \<le> LISTING_PREVIEW_MAX then single else take (LISTING_PREVIEW_MAX - 1) single @ ellipsis)"

fun extractFirstText :: "jsv list \<Rightarrow> string option" where
  "extractFirstText [] = None"
| "extractFirstText (b # bs) =
     (if jget b ''type'' = JStr ''text'' \<and> truthy (jget b ''text'') then Some (str_of (jget b ''text''))
      else extractFirstText bs)"

section \<open>The summary\<close>

definition ts_less :: "string \<Rightarrow> string \<Rightarrow> bool" where
  "ts_less a b \<longleftrightarrow> code_compare a b < 0"

text \<open>The variables of the loop of \<^verbatim>\<open>documentSummary\<close>; \<open>last_ts\<close> is undefined exactly while \<open>last_text\<close> is.\<close>

record Summary =
  first_text :: "string option"
  first_ts :: string
  last_text :: "(string \<times> string) option"
  last_activity :: "string option"

definition noSummary :: Summary where
  "noSummary = \<lparr>first_text = None, first_ts = [], last_text = None, last_activity = None\<rparr>"

definition summary_activity :: "string \<Rightarrow> Summary \<Rightarrow> Summary" where
  "summary_activity ts s =
     (if ts \<noteq> [] \<and> (case last_activity s of None \<Rightarrow> True | Some a \<Rightarrow> a = [] \<or> ts_less a ts)
      then s\<lparr>last_activity := Some ts\<rparr> else s)"

definition summary_text :: "jsv \<Rightarrow> string \<Rightarrow> string \<Rightarrow> Summary \<Rightarrow> Summary" where
  "summary_text entry ts t s =
     (let s1 = (if jget entry ''role'' = JStr ''user'' \<and> (first_text s = None \<or> first_ts s = [] \<or> ts_less ts (first_ts s))
                then s\<lparr>first_text := Some t, first_ts := ts\<rparr> else s)
      in if (case last_text s1 of None \<Rightarrow> True | Some (_, l) \<Rightarrow> \<not> ts_less ts l) then s1\<lparr>last_text := Some (t, ts)\<rparr> else s1)"

definition summary_step :: "Summary \<Rightarrow> jsv \<Rightarrow> Summary" where
  "summary_step s entry =
     (let ts = str_of (coalesce (jget entry ''timestamp'') (JStr ''''));
          s1 = summary_activity ts s
      in if jget entry ''kind'' \<noteq> JStr ''message'' then s1
         else (case extractFirstText (arr_of (jget entry ''content'')) of
                 None \<Rightarrow> s1 | Some t \<Rightarrow> summary_text entry ts t s1))"

definition summarize :: "jsv list \<Rightarrow> Summary" where
  "summarize entries = foldl summary_step noSummary entries"

record ListingSummary =
  firstMessageText :: "string option"
  lastMessageText :: "string option"
  lastActivityAt :: "string option"

definition documentSummary :: "jsv \<Rightarrow> ListingSummary" where
  "documentSummary doc =
     (let s = summarize (js_values (doc_entries doc))
      in \<lparr>firstMessageText = map_option clampPreview (first_text s),
          lastMessageText = map_option (clampPreview \<circ> fst) (last_text s), lastActivityAt = last_activity s\<rparr>)"

text \<open>The facts of \<^verbatim>\<open>metadata()\<close> that come from the document; a false name or count is left out.\<close>

record ActorMetadata =
  md_streaming :: jsv
  md_name :: jsv
  md_count :: jsv
  md_summary :: ListingSummary

definition actor_metadata :: "jsv \<Rightarrow> ActorMetadata" where
  "actor_metadata doc =
     (let st = doc_status doc; keep = (\<lambda>v. if truthy v then v else JUndef)
      in \<lparr>md_streaming = jget st ''isStreaming'', md_name = keep (jget st ''name''),
          md_count = keep (jget (jget st ''stats'') ''messages''), md_summary = documentSummary doc\<rparr>)"

section \<open>Previews are one line\<close>

definition tidy :: "string \<Rightarrow> bool" where
  "tidy s \<longleftrightarrow> squeeze s = s"

lemma js_space_blank [simp]: "js_space CHR 32" "\<not> js_space CHR 133"
  by (simp_all add: js_space_def)

lemma squeeze_blank: "c \<in> set (squeeze s) \<Longrightarrow> js_space c \<Longrightarrow> c = CHR 32"
  by (induction s rule: squeeze.induct) (auto split: if_splits)

lemma squeeze_hd: "s = [] \<or> \<not> js_space (hd s) \<Longrightarrow> squeeze s = [] \<or> \<not> js_space (hd (squeeze s))"
  by (cases s) auto

lemma dropWhile_hd: "dropWhile js_space s = [] \<or> \<not> js_space (hd (dropWhile js_space s))"
  by (induction s) auto

lemma dropWhile_id: "s = [] \<or> \<not> js_space (hd s) \<Longrightarrow> dropWhile js_space s = s"
  by (cases s) auto

lemma tidy_squeeze: "tidy (squeeze s)"
proof (induction s rule: squeeze.induct)
  case (2 c cs)
  show ?case
  proof (cases "js_space c")
    case True
    have "dropWhile js_space (squeeze (dropWhile js_space cs)) = squeeze (dropWhile js_space cs)"
      by (rule dropWhile_id[OF squeeze_hd[OF dropWhile_hd]])
    then show ?thesis using 2(1)[OF True] True by (simp add: tidy_def)
  qed (use 2 in \<open>simp add: tidy_def\<close>)
qed (simp add: tidy_def)

text \<open>A tidy string is one whose blanks are single and plain; parts of it are tidy too.\<close>

lemma tidy_Cons: "tidy (c # cs) \<longleftrightarrow> tidy cs \<and> (js_space c \<longrightarrow> c = CHR 32 \<and> (cs = [] \<or> \<not> js_space (hd cs)))"
proof (cases "js_space c")
  case True
  have "tidy cs \<and> c = CHR 32 \<and> (cs = [] \<or> \<not> js_space (hd cs))" if "tidy (c # cs)"
  proof -
    have e: "c = CHR 32" "squeeze (dropWhile js_space cs) = cs" using that True by (simp_all add: tidy_def)
    have h: "cs = [] \<or> \<not> js_space (hd cs)" using squeeze_hd[OF dropWhile_hd[of cs]] e(2) by simp
    then show ?thesis using e dropWhile_id[OF h] by (simp add: tidy_def)
  qed
  moreover have "tidy (c # cs)" if "tidy cs" "c = CHR 32" "cs = [] \<or> \<not> js_space (hd cs)"
    using that dropWhile_id[OF that(3)] by (simp add: tidy_def)
  ultimately show ?thesis using True by blast
qed (simp add: tidy_def)

lemma tidy_Nil [simp]: "tidy []"
  by (simp add: tidy_def)

lemma tidy_append: "tidy (xs @ ys) \<Longrightarrow> tidy xs \<and> tidy ys"
proof (induction xs)
  case (Cons x xs)
  then show ?case by (cases xs) (auto simp: tidy_Cons)
qed simp

lemma tidy_snoc: "tidy xs \<Longrightarrow> \<not> js_space c \<Longrightarrow> tidy (xs @ [c])"
proof (induction xs)
  case (Cons x xs)
  then show ?case by (cases xs) (auto simp: tidy_Cons)
qed (simp add: tidy_Cons)

lemma trim_part: "\<exists>a b. s = a @ trim s @ b"
proof -
  let ?d = "dropWhile js_space s"
  have "s = takeWhile js_space s @ ?d" by simp
  moreover have "?d = rev (dropWhile js_space (rev ?d)) @ rev (takeWhile js_space (rev ?d))"
    by (simp flip: rev_append)
  ultimately show ?thesis unfolding trim_def by (metis append_assoc)
qed

lemma trim_last: "trim s \<noteq> [] \<Longrightarrow> \<not> js_space (last (trim s))"
  using dropWhile_hd[of "rev (dropWhile js_space s)"] by (auto simp: trim_def last_rev)

lemma trim_hd: "trim s \<noteq> [] \<Longrightarrow> \<not> js_space (hd (trim s))"
proof -
  assume ne: "trim s \<noteq> []"
  let ?d = "dropWhile js_space s"
  have "?d = trim s @ rev (takeWhile js_space (rev ?d))" unfolding trim_def by (simp flip: rev_append)
  then have "hd ?d = hd (trim s)" "?d \<noteq> []" using ne by (metis hd_append2, metis Nil_is_append_conv)
  then show ?thesis using dropWhile_hd[of s] by auto
qed

lemma trim_id: "s = [] \<or> \<not> js_space (hd s) \<and> \<not> js_space (last s) \<Longrightarrow> trim s = s"
proof -
  assume a: "s = [] \<or> \<not> js_space (hd s) \<and> \<not> js_space (last s)"
  then have d: "dropWhile js_space s = s" by (intro dropWhile_id) auto
  have "dropWhile js_space (rev s) = rev s" using a by (intro dropWhile_id) (auto simp: hd_rev)
  then show ?thesis by (simp add: trim_def d)
qed

lemma clampPreview_shape:
  "tidy (clampPreview t) \<and> trim (clampPreview t) = clampPreview t \<and> length (clampPreview t) \<le> LISTING_PREVIEW_MAX"
proof -
  let ?s = "trim (squeeze t)"
  obtain a b where "squeeze t = a @ ?s @ b" using trim_part by blast
  then have s: "tidy ?s" using tidy_squeeze[of t] tidy_append by metis
  show ?thesis
  proof (cases "length ?s \<le> LISTING_PREVIEW_MAX")
    case True
    have "trim ?s = ?s" using trim_id trim_hd trim_last by blast
    then show ?thesis using True s by (simp add: clampPreview_def Let_def)
  next
    case False
    let ?c = "take (LISTING_PREVIEW_MAX - 1) ?s"
    have c: "tidy ?c" using s tidy_append[of ?c "drop (LISTING_PREVIEW_MAX - 1) ?s"] by simp
    have ne: "?s \<noteq> []" "?c \<noteq> []" using False by (auto simp: LISTING_PREVIEW_MAX_def)
    then have "hd (?c @ ellipsis) = hd ?s" by (cases ?s) (auto simp: LISTING_PREVIEW_MAX_def)
    then have "trim (?c @ ellipsis) = ?c @ ellipsis"
      using trim_hd[OF ne(1)] by (intro trim_id) (simp add: ellipsis_def)
    moreover have "tidy (?c @ ellipsis)" unfolding ellipsis_def by (rule tidy_snoc[OF c]) simp
    ultimately show ?thesis using False by (simp add: clampPreview_def ellipsis_def LISTING_PREVIEW_MAX_def)
  qed
qed

text \<open>
  \<^bold>\<open>Lemma.\<close>  A preview is one line of at most 120 characters: its only white space is single blanks
  between words, and clamping it again changes nothing.
\<close>

theorem preview_one_line:
  "length (clampPreview t) \<le> 120 \<and> list_all (\<lambda>c. js_space c = (c = CHR 32)) (clampPreview t) \<and>
   clampPreview (clampPreview t) = clampPreview t"
proof -
  note sh = clampPreview_shape[of t]
  have "js_space c \<longleftrightarrow> c = CHR 32" if "c \<in> set (clampPreview t)" for c
    using that sh squeeze_blank[of c "clampPreview t"] by (auto simp: tidy_def)
  then show ?thesis
    using sh clampPreview_def[of "clampPreview t"] by (simp add: list_all_iff tidy_def LISTING_PREVIEW_MAX_def)
qed

section \<open>The summary is exact\<close>

definition entry_ts :: "jsv \<Rightarrow> string" where
  "entry_ts e = str_of (coalesce (jget e ''timestamp'') (JStr ''''))"

definition entry_text :: "jsv \<Rightarrow> string option" where
  "entry_text e =
     (if jget e ''kind'' = JStr ''message'' then extractFirstText (arr_of (jget e ''content'')) else None)"

definition user_text :: "jsv \<Rightarrow> string option" where
  "user_text e = (if jget e ''role'' = JStr ''user'' then entry_text e else None)"

lemma ts_order: "\<not> ts_less a a" "ts_less a b \<Longrightarrow> \<not> ts_less b a"
  "\<not> ts_less b a \<Longrightarrow> \<not> ts_less c b \<Longrightarrow> \<not> ts_less c a" "ts_less a b \<Longrightarrow> \<not> ts_less c b \<Longrightarrow> ts_less a c"
  "\<not> ts_less b a \<Longrightarrow> ts_less b c \<Longrightarrow> ts_less a c"
proof -
  have c: "code_compare a a = 0" "code_compare a b < 0 \<longleftrightarrow> 0 < code_compare b a"
    "code_compare a b \<le> 0 \<Longrightarrow> code_compare b c \<le> 0 \<Longrightarrow> code_compare a c \<le> 0" for a b c
    using code_compare_collates unfolding collates_def by blast+
  have n: "\<not> ts_less b a \<longleftrightarrow> code_compare a b \<le> 0" for a b using c(2)[of b a] by (auto simp: ts_less_def)
  show "\<not> ts_less a a" using c(1) by (simp add: ts_less_def)
  show "ts_less a b \<Longrightarrow> \<not> ts_less b a" using c(2)[of a b] c(2)[of b a] by (auto simp: ts_less_def)
  show "\<not> ts_less b a \<Longrightarrow> \<not> ts_less c b \<Longrightarrow> \<not> ts_less c a" using c(3)[of a b c] by (simp add: n)
  show "ts_less a b \<Longrightarrow> \<not> ts_less c b \<Longrightarrow> ts_less a c" using c(3)[of b c a] n[of c b] n[of a c] n[of a b] by blast
  show "\<not> ts_less b a \<Longrightarrow> ts_less b c \<Longrightarrow> ts_less a c" using c(3)[of c a b] n[of b a] n[of a c] n[of b c] by blast
qed

text \<open>
  The latest timestamp; the text of the latest message with a text, the last one of equals; the text
  of the earliest user message with a text, the first one of equals.
\<close>

definition latest_ts :: "jsv list \<Rightarrow> string option \<Rightarrow> bool" where
  "latest_ts es w = (case w of
     None \<Rightarrow> \<forall>e \<in> set es. entry_ts e = []
   | Some a \<Rightarrow> a \<noteq> [] \<and> a \<in> entry_ts ` set es \<and> (\<forall>e \<in> set es. entry_ts e \<noteq> [] \<longrightarrow> \<not> ts_less a (entry_ts e)))"

definition latest_text :: "jsv list \<Rightarrow> (string \<times> string) option \<Rightarrow> bool" where
  "latest_text es w = (case w of
     None \<Rightarrow> \<forall>e \<in> set es. entry_text e = None
   | Some (t, l) \<Rightarrow> \<exists>i < length es. entry_text (es ! i) = Some t \<and> entry_ts (es ! i) = l \<and>
       (\<forall>j < length es. entry_text (es ! j) \<noteq> None \<longrightarrow>
          \<not> ts_less l (entry_ts (es ! j)) \<and> (i < j \<longrightarrow> ts_less (entry_ts (es ! j)) l)))"

definition earliest_user :: "jsv list \<Rightarrow> string option \<Rightarrow> string \<Rightarrow> bool" where
  "earliest_user es w f = (case w of
     None \<Rightarrow> \<forall>e \<in> set es. user_text e = None
   | Some t \<Rightarrow> \<exists>i < length es. user_text (es ! i) = Some t \<and> entry_ts (es ! i) = f \<and>
       (\<forall>j < length es. user_text (es ! j) \<noteq> None \<longrightarrow>
          \<not> ts_less (entry_ts (es ! j)) f \<and> (j < i \<longrightarrow> ts_less f (entry_ts (es ! j)))))"

lemma summary_activity_other [simp]:
  "last_text (summary_activity ts s) = last_text s" "first_text (summary_activity ts s) = first_text s"
  "first_ts (summary_activity ts s) = first_ts s"
  by (simp_all add: summary_activity_def)

lemma summary_text_parts:
  "last_activity (summary_text e ts t s) = last_activity s"
  "last_text (summary_text e ts t s) =
     (if (case last_text s of None \<Rightarrow> True | Some (_, l) \<Rightarrow> \<not> ts_less ts l) then Some (t, ts) else last_text s)"
  "first_text (summary_text e ts t s) =
     (if jget e ''role'' = JStr ''user'' \<and> (first_text s = None \<or> first_ts s = [] \<or> ts_less ts (first_ts s))
      then Some t else first_text s)"
  "first_ts (summary_text e ts t s) =
     (if jget e ''role'' = JStr ''user'' \<and> (first_text s = None \<or> first_ts s = [] \<or> ts_less ts (first_ts s))
      then ts else first_ts s)"
  by (auto simp: summary_text_def Let_def)

lemma summary_step_eq:
  "summary_step s e =
     (case entry_text e of None \<Rightarrow> summary_activity (entry_ts e) s
      | Some t \<Rightarrow> summary_text e (entry_ts e) t (summary_activity (entry_ts e) s))"
  by (simp add: summary_step_def entry_text_def Let_def flip: entry_ts_def)

lemma summary_step_parts:
  "last_activity (summary_step s e) = last_activity (summary_activity (entry_ts e) s)"
  "last_text (summary_step s e) =
     (case entry_text e of Some t \<Rightarrow>
        if (case last_text s of None \<Rightarrow> True | Some (_, l) \<Rightarrow> \<not> ts_less (entry_ts e) l) then Some (t, entry_ts e) else last_text s
      | None \<Rightarrow> last_text s)"
  "first_text (summary_step s e) =
     (case user_text e of Some t \<Rightarrow>
        if first_text s = None \<or> first_ts s = [] \<or> ts_less (entry_ts e) (first_ts s) then Some t else first_text s
      | None \<Rightarrow> first_text s)"
  "first_ts (summary_step s e) =
     (case user_text e of Some t \<Rightarrow>
        if first_text s = None \<or> first_ts s = [] \<or> ts_less (entry_ts e) (first_ts s) then entry_ts e else first_ts s
      | None \<Rightarrow> first_ts s)"
  by (cases "entry_text e"; simp add: summary_step_eq summary_text_parts user_text_def)+

lemma latest_ts_snoc:
  assumes "latest_ts es (last_activity s)"
  shows "latest_ts (es @ [e]) (last_activity (summary_activity (entry_ts e) s))"
proof (cases "last_activity s")
  case None
  then show ?thesis using assms by (auto simp: latest_ts_def summary_activity_def ts_order(1))
next
  case (Some a)
  have a: "a \<noteq> []" "a \<in> entry_ts ` set es" "\<And>x. x \<in> set es \<Longrightarrow> entry_ts x \<noteq> [] \<Longrightarrow> \<not> ts_less a (entry_ts x)"
    using assms Some by (simp_all add: latest_ts_def)
  show ?thesis
  proof (cases "entry_ts e \<noteq> [] \<and> ts_less a (entry_ts e)")
    case True
    have "\<not> ts_less (entry_ts e) (entry_ts x)" if "x \<in> set es" "entry_ts x \<noteq> []" for x
      using ts_order(3)[of "entry_ts x" a "entry_ts e"] ts_order(5) a(3)[OF that] True
        ts_order(2)[OF ] by (metis ts_order(2) ts_order(4))
    then show ?thesis using True Some by (auto simp: latest_ts_def summary_activity_def ts_order(1))
  next
    case False
    then have "summary_activity (entry_ts e) s = s" using Some a(1) by (auto simp: summary_activity_def)
    then show ?thesis using False Some a by (auto simp: latest_ts_def)
  qed
qed

lemma latest_textI:
  "i < length es \<Longrightarrow> entry_text (es ! i) = Some t \<Longrightarrow> entry_ts (es ! i) = l \<Longrightarrow>
   (\<And>j. j < length es \<Longrightarrow> entry_text (es ! j) \<noteq> None \<Longrightarrow>
      \<not> ts_less l (entry_ts (es ! j)) \<and> (i < j \<longrightarrow> ts_less (entry_ts (es ! j)) l)) \<Longrightarrow> latest_text es (Some (t, l))"
  unfolding latest_text_def by auto

lemma latest_text_snoc:
  assumes "latest_text es (last_text s)"
  shows "latest_text (es @ [e]) (last_text (summary_step s e))"
proof (cases "entry_text e")
  case n: None
  then have l: "last_text (summary_step s e) = last_text s" by (simp add: summary_step_parts)
  show ?thesis
  proof (cases "last_text s")
    case (Some w)
    then obtain u l i where w: "last_text s = Some (u, l)" "i < length es" "entry_text (es ! i) = Some u" "entry_ts (es ! i) = l"
      and j: "\<And>j. j < length es \<Longrightarrow> entry_text (es ! j) \<noteq> None \<Longrightarrow>
        \<not> ts_less l (entry_ts (es ! j)) \<and> (i < j \<longrightarrow> ts_less (entry_ts (es ! j)) l)"
      using assms by (cases w) (auto simp: latest_text_def)
    have J: "j < length (es @ [e]) \<Longrightarrow> entry_text ((es @ [e]) ! j) \<noteq> None \<Longrightarrow>
        \<not> ts_less l (entry_ts ((es @ [e]) ! j)) \<and> (i < j \<longrightarrow> ts_less (entry_ts ((es @ [e]) ! j)) l)" for j
      using j[of j] n by (cases "j < length es") (simp_all add: nth_append less_Suc_eq)
    show ?thesis unfolding l w(1) by (rule latest_textI[of i, OF _ _ _ J]) (use w(2-4) in \<open>simp_all add: nth_append\<close>)
  qed (use assms n l in \<open>simp add: latest_text_def\<close>)
next
  case t: (Some t)
  show ?thesis
  proof (cases "last_text s")
    case None
    then have n: "entry_text (es ! j) = None" if "j < length es" for j using assms that by (simp add: latest_text_def)
    have J: "j < length (es @ [e]) \<Longrightarrow> entry_text ((es @ [e]) ! j) \<noteq> None \<Longrightarrow>
        \<not> ts_less (entry_ts e) (entry_ts ((es @ [e]) ! j)) \<and> (length es < j \<longrightarrow> ts_less (entry_ts ((es @ [e]) ! j)) (entry_ts e))" for j
      using n[of j] ts_order(1) by (cases "j < length es") (simp_all add: nth_append less_Suc_eq)
    have "last_text (summary_step s e) = Some (t, entry_ts e)" using None t by (simp add: summary_step_parts)
    then show ?thesis using latest_textI[of "length es", OF _ _ _ J] t by simp
  next
    case (Some w)
    then obtain u l i where w: "last_text s = Some (u, l)" "i < length es" "entry_text (es ! i) = Some u" "entry_ts (es ! i) = l"
      and j: "\<And>j. j < length es \<Longrightarrow> entry_text (es ! j) \<noteq> None \<Longrightarrow>
        \<not> ts_less l (entry_ts (es ! j)) \<and> (i < j \<longrightarrow> ts_less (entry_ts (es ! j)) l)"
      using assms by (cases w) (auto simp: latest_text_def)
    show ?thesis
    proof (cases "ts_less (entry_ts e) l")
      case True
      have J: "j < length (es @ [e]) \<Longrightarrow> entry_text ((es @ [e]) ! j) \<noteq> None \<Longrightarrow>
          \<not> ts_less l (entry_ts ((es @ [e]) ! j)) \<and> (i < j \<longrightarrow> ts_less (entry_ts ((es @ [e]) ! j)) l)" for j
        using j[of j] True ts_order(2)[OF True] by (cases "j < length es") (simp_all add: nth_append less_Suc_eq)
      have "last_text (summary_step s e) = Some (u, l)" using True w t by (simp add: summary_step_parts)
      then show ?thesis
        using latest_textI[of i, OF _ _ _ J] w(2-4) by (simp add: nth_append)
    next
      case False
      have "\<not> ts_less (entry_ts e) (entry_ts ((es @ [e]) ! j))"
        if "j < length (es @ [e])" "entry_text ((es @ [e]) ! j) \<noteq> None" for j
      proof (cases "j < length es")
        case True
        then have "\<not> ts_less l (entry_ts (es ! j))" using j[OF True] that(2) by (simp add: nth_append)
        then show ?thesis using ts_order(3)[of l "entry_ts (es ! j)" "entry_ts e"] False True by (simp add: nth_append)
      next
        case False
        then have "j = length es" using that(1) by simp
        then show ?thesis using ts_order(1) by simp
      qed
      then have J: "j < length (es @ [e]) \<Longrightarrow> entry_text ((es @ [e]) ! j) \<noteq> None \<Longrightarrow>
          \<not> ts_less (entry_ts e) (entry_ts ((es @ [e]) ! j)) \<and> (length es < j \<longrightarrow> ts_less (entry_ts ((es @ [e]) ! j)) (entry_ts e))" for j
        by simp
      have "last_text (summary_step s e) = Some (t, entry_ts e)" using False w t by (simp add: summary_step_parts)
      then show ?thesis using latest_textI[of "length es", OF _ _ _ J] t by simp
    qed
  qed
qed

lemma earliest_userI:
  "i < length es \<Longrightarrow> user_text (es ! i) = Some t \<Longrightarrow> entry_ts (es ! i) = f \<Longrightarrow>
   (\<And>j. j < length es \<Longrightarrow> user_text (es ! j) \<noteq> None \<Longrightarrow>
      \<not> ts_less (entry_ts (es ! j)) f \<and> (j < i \<longrightarrow> ts_less f (entry_ts (es ! j)))) \<Longrightarrow> earliest_user es (Some t) f"
  unfolding earliest_user_def by auto

lemma earliest_user_snoc:
  assumes "earliest_user es (first_text s) (first_ts s)" "list_all (\<lambda>e. entry_ts e \<noteq> []) (es @ [e])"
  shows "earliest_user (es @ [e]) (first_text (summary_step s e)) (first_ts (summary_step s e))"
proof (cases "first_text s")
  case None
  then have n: "user_text (es ! j) = None" if "j < length es" for j using assms(1) that by (simp add: earliest_user_def)
  show ?thesis
  proof (cases "user_text e")
    case (Some t)
    have J: "j < length (es @ [e]) \<Longrightarrow> user_text ((es @ [e]) ! j) \<noteq> None \<Longrightarrow>
        \<not> ts_less (entry_ts ((es @ [e]) ! j)) (entry_ts e) \<and> (j < length es \<longrightarrow> ts_less (entry_ts e) (entry_ts ((es @ [e]) ! j)))" for j
      using n[of j] ts_order(1) by (cases "j < length es") (simp_all add: nth_append less_Suc_eq)
    have "first_text (summary_step s e) = Some t" "first_ts (summary_step s e) = entry_ts e"
      using None Some by (simp_all add: summary_step_parts)
    then show ?thesis using earliest_userI[of "length es", OF _ _ _ J] Some by simp
  qed (use assms(1) None in \<open>simp add: earliest_user_def summary_step_parts\<close>)
next
  case (Some u)
  let ?f = "first_ts s"
  obtain i where w: "i < length es" "user_text (es ! i) = Some u" "entry_ts (es ! i) = ?f"
    and j: "\<And>j. j < length es \<Longrightarrow> user_text (es ! j) \<noteq> None \<Longrightarrow>
        \<not> ts_less (entry_ts (es ! j)) ?f \<and> (j < i \<longrightarrow> ts_less ?f (entry_ts (es ! j)))"
    using assms(1) Some by (auto simp: earliest_user_def)
  have f: "?f \<noteq> []" using assms(2) w(3) nth_mem[OF w(1)] by (auto simp: list_all_iff)
  show ?thesis
  proof (cases "user_text e \<noteq> None \<and> ts_less (entry_ts e) ?f")
    case True
    then obtain t where t: "user_text e = Some t" by auto
    have J: "j < length (es @ [e]) \<Longrightarrow> user_text ((es @ [e]) ! j) \<noteq> None \<Longrightarrow>
        \<not> ts_less (entry_ts ((es @ [e]) ! j)) (entry_ts e) \<and> (j < length es \<longrightarrow> ts_less (entry_ts e) (entry_ts ((es @ [e]) ! j)))" for j
      using j[of j] True ts_order(1) ts_order(2) ts_order(4)[of "entry_ts e" ?f "entry_ts (es ! j)"]
      by (cases "j < length es") (auto simp: nth_append less_Suc_eq)
    have "first_text (summary_step s e) = Some t" "first_ts (summary_step s e) = entry_ts e"
      using True t by (simp_all add: summary_step_parts)
    then show ?thesis using earliest_userI[of "length es", OF _ _ _ J] t by simp
  next
    case False
    have J: "j < length (es @ [e]) \<Longrightarrow> user_text ((es @ [e]) ! j) \<noteq> None \<Longrightarrow>
        \<not> ts_less (entry_ts ((es @ [e]) ! j)) ?f \<and> (j < i \<longrightarrow> ts_less ?f (entry_ts ((es @ [e]) ! j)))" for j
      using j[of j] False w(1) by (cases "j < length es") (auto simp: nth_append less_Suc_eq)
    have "first_text (summary_step s e) = Some u" "first_ts (summary_step s e) = ?f"
      using False f Some by (auto simp: summary_step_parts split: option.split)
    then show ?thesis using earliest_userI[of i, OF _ _ _ J] w by (simp add: nth_append)
  qed
qed

text \<open>
  \<^bold>\<open>Lemma.\<close>  The listing summary of a document whose entries have timestamps is exact: the last
  activity is the latest timestamp, the last text is that of the latest message with a text (the last
  of equals) and the first text that of the earliest user message with a text (the first of equals).
\<close>

theorem summary_exact:
  assumes "list_all (\<lambda>e. entry_ts e \<noteq> []) es"
  shows "latest_ts es (last_activity (summarize es)) \<and> latest_text es (last_text (summarize es)) \<and>
    earliest_user es (first_text (summarize es)) (first_ts (summarize es))"
  using assms
proof (induction es rule: rev_induct)
  case Nil
  then show ?case by (simp add: summarize_def noSummary_def latest_ts_def latest_text_def earliest_user_def)
next
  case (snoc e es)
  let ?s = "summarize es"
  have "summarize (es @ [e]) = summary_step ?s e" by (simp add: summarize_def)
  moreover have "latest_ts (es @ [e]) (last_activity (summary_step ?s e))"
    using latest_ts_snoc[of es ?s e] snoc by (simp add: summary_step_parts)
  ultimately show ?case
    using latest_text_snoc[of es ?s e] earliest_user_snoc[of es ?s e] snoc by simp
qed

definition sample_listing :: "jsv list" where
  "sample_listing =
     [JObj [(''kind'', JStr ''message''), (''role'', JStr ''user''), (''timestamp'', JStr ''2''),
        (''content'', JArr [JObj [(''type'', JStr ''text''), (''text'', JStr ''late'')]])],
      JObj [(''kind'', JStr ''message''), (''role'', JStr ''user''), (''timestamp'', JStr ''1''),
        (''content'', JArr [JObj [(''type'', JStr ''text''), (''text'', JStr ''early'')]])]]"

theorem summary_exact_witness:
  "list_all (\<lambda>e. entry_ts e \<noteq> []) sample_listing \<and> first_text (summarize sample_listing) = Some ''early'' \<and>
   earliest_user sample_listing (Some ''early'') ''1''"
proof -
  have h: "list_all (\<lambda>e. entry_ts e \<noteq> []) sample_listing" by code_simp
  have "first_text (summarize sample_listing) = Some ''early''" "first_ts (summarize sample_listing) = ''1''" by code_simp+
  then show ?thesis using summary_exact[OF h] h by simp
qed

end
