(* ===== verification/Lifecycle.thy ===== *)
theory Lifecycle
  imports Main
begin

text \<open>
  The serialized operations of the host, \<^verbatim>\<open>packages/bridge/src/host/lifecycle-scope.ts\<close>.  The promise chain
  \<^verbatim>\<open>tail\<close> is the list of admitted operations that have not settled: \<^verbatim>\<open>tail.then(operation)\<close> starts the next
  one when the one before has settled.  An operation is a value of any type; when it starts and how
  it settles are steps of the environment.  Tickets number the calls of \<^verbatim>\<open>run\<close> and name their
  promises.
\<close>

section \<open>State and operations\<close>

datatype ScopeState = ScopeOpen | ScopeClosing | ScopeClosed

datatype run_outcome = Fulfilled | Rejected | ScopeRefused

record 'op Scope =
  scope_state :: ScopeState
  drain :: bool
  waiting :: "(nat \<times> 'op) list"
  running :: "(nat \<times> 'op) option"
  nextRun :: nat
  started :: "(nat \<times> 'op) list"
  runOutcomes :: "(nat \<times> run_outcome) list"

definition createLifecycleScope :: "'op Scope" where
  "createLifecycleScope = \<lparr>scope_state = ScopeOpen, drain = False, waiting = [], running = None, nextRun = 0,
     started = [], runOutcomes = []\<rparr>"

definition scope_run :: "'op Scope \<Rightarrow> 'op \<Rightarrow> 'op Scope" where
  "scope_run s operation =
     (if drain s then s\<lparr>nextRun := Suc (nextRun s), runOutcomes := runOutcomes s @ [(nextRun s, ScopeRefused)]\<rparr>
      else s\<lparr>nextRun := Suc (nextRun s), waiting := waiting s @ [(nextRun s, operation)]\<rparr>)"

text \<open>The reaction of \<^verbatim>\<open>tail.then\<close>: the first waiting operation starts.\<close>

definition scope_start :: "'op Scope \<Rightarrow> 'op Scope" where
  "scope_start s =
     (case (running s, waiting s) of
        (None, w # ws) \<Rightarrow> s\<lparr>running := Some w, waiting := ws, started := started s @ [w]\<rparr>
      | _ \<Rightarrow> s)"

text \<open>The running operation settles; a rejection settles its own caller only.\<close>

definition scope_settle :: "'op Scope \<Rightarrow> bool \<Rightarrow> 'op Scope" where
  "scope_settle s ok =
     (case running s of
        None \<Rightarrow> s
      | Some w \<Rightarrow> s\<lparr>running := None, runOutcomes := runOutcomes s @ [(fst w, if ok then Fulfilled else Rejected)]\<rparr>)"

definition scope_close :: "'op Scope \<Rightarrow> 'op Scope" where
  "scope_close s = (if drain s then s else s\<lparr>scope_state := ScopeClosing, drain := True\<rparr>)"

text \<open>The reaction of the drain: everything admitted has settled.\<close>

definition scope_drained :: "'op Scope \<Rightarrow> 'op Scope" where
  "scope_drained s =
     (if drain s \<and> running s = None \<and> waiting s = [] then s\<lparr>scope_state := ScopeClosed\<rparr> else s)"

inductive scope_step :: "'op Scope \<Rightarrow> 'op Scope \<Rightarrow> bool" where
  step_run: "scope_step s (scope_run s operation)"
| step_start: "scope_step s (scope_start s)"
| step_settle: "scope_step s (scope_settle s ok)"
| step_close: "scope_step s (scope_close s)"
| step_drained: "scope_step s (scope_drained s)"

inductive scope_reach :: "'op Scope \<Rightarrow> bool" where
  scope_new: "scope_reach createLifecycleScope"
| scope_next: "scope_reach s \<Longrightarrow> scope_step s s' \<Longrightarrow> scope_reach s'"

inductive_cases scope_stepE: "scope_step s s'"

section \<open>The invariant\<close>

definition settled_runs :: "'op Scope \<Rightarrow> nat list" where
  "settled_runs s = map fst (filter (\<lambda>x. snd x \<noteq> ScopeRefused) (runOutcomes s))"

definition refused_runs :: "'op Scope \<Rightarrow> nat list" where
  "refused_runs s = map fst (filter (\<lambda>x. snd x = ScopeRefused) (runOutcomes s))"

text \<open>
  The tickets in arrival order are those started, those waiting and then those refused: admission
  stops once and for all, and what has started has settled but for the one running.
\<close>

definition scope_inv :: "'op Scope \<Rightarrow> bool" where
  "scope_inv s \<longleftrightarrow> map fst (started s) @ map fst (waiting s) @ refused_runs s = [0 ..< nextRun s] \<and>
     map fst (started s) = settled_runs s @ (case running s of None \<Rightarrow> [] | Some w \<Rightarrow> [fst w]) \<and>
     (refused_runs s \<noteq> [] \<longrightarrow> drain s) \<and> (drain s \<longleftrightarrow> scope_state s \<noteq> ScopeOpen) \<and>
     (scope_state s = ScopeClosed \<longrightarrow> running s = None \<and> waiting s = [])"

lemma scope_inv_new: "scope_inv createLifecycleScope"
  by (simp add: scope_inv_def createLifecycleScope_def settled_runs_def refused_runs_def)

lemma scope_inv_run: "scope_inv s \<Longrightarrow> scope_inv (scope_run s operation)"
  by (auto simp: scope_inv_def scope_run_def settled_runs_def refused_runs_def simp flip: append_assoc)

lemma scope_inv_start: "scope_inv s \<Longrightarrow> scope_inv (scope_start s)"
  by (auto simp: scope_inv_def scope_start_def settled_runs_def refused_runs_def split: option.splits list.splits)

lemma scope_inv_settle: "scope_inv s \<Longrightarrow> scope_inv (scope_settle s ok)"
  by (auto simp: scope_inv_def scope_settle_def settled_runs_def refused_runs_def split: option.splits)

lemma scope_inv_close: "scope_inv s \<Longrightarrow> scope_inv (scope_close s)"
  by (auto simp: scope_inv_def scope_close_def settled_runs_def refused_runs_def)

lemma scope_inv_drained: "scope_inv s \<Longrightarrow> scope_inv (scope_drained s)"
  by (auto simp: scope_inv_def scope_drained_def settled_runs_def refused_runs_def)

lemmas scope_inv_ops = scope_inv_run scope_inv_start scope_inv_settle scope_inv_close scope_inv_drained

lemma reach_scope_inv: "scope_reach s \<Longrightarrow> scope_inv s"
  by (induction rule: scope_reach.induct) (auto intro: scope_inv_new scope_inv_ops elim!: scope_stepE)

section \<open>The drain ends\<close>

text \<open>Settling the running operation and starting the next, with given results, until nothing is left.\<close>

fun run_out :: "'op Scope \<Rightarrow> bool list \<Rightarrow> 'op Scope" where
  "run_out s [] = scope_drained s"
| "run_out s (ok # oks) = run_out (scope_settle (scope_start s) ok) oks"

definition unsettled :: "'op Scope \<Rightarrow> nat" where
  "unsettled s = length (waiting s) + (if running s = None then 0 else 1)"

lemma drain_settle: "drain (scope_settle (scope_start s) ok) = drain s"
  by (simp add: scope_settle_def scope_start_def split: option.split list.split)

lemma unsettled_settle: "unsettled (scope_settle (scope_start s) ok) = unsettled s - 1"
  by (auto simp: unsettled_def scope_settle_def scope_start_def split: option.split list.split)

lemma run_out_closed: "drain s \<Longrightarrow> unsettled s \<le> length oks \<Longrightarrow> scope_state (run_out s oks) = ScopeClosed"
proof (induction oks arbitrary: s)
  case Nil
  then show ?case by (simp add: scope_drained_def unsettled_def split: if_splits)
next
  case (Cons ok oks)
  then show ?case by (simp add: drain_settle unsettled_settle)
qed

lemma reach_run_out: "scope_reach s \<Longrightarrow> scope_reach (run_out s oks)"
proof (induction oks arbitrary: s)
  case Nil
  show ?case by (simp add: scope_next[OF Nil step_drained])
next
  case (Cons ok oks)
  show ?case
    using Cons.IH[OF scope_next[OF scope_next[OF Cons.prems step_start] step_settle]] by simp
qed

section \<open>Properties\<close>

text \<open>
  \<^bold>\<open>Lemma.\<close>  A lifecycle scope is a serial queue with a terminal close: in every reachable state
  the operations have started in arrival order, one after the other, each settled before the next
  started; a refusal means that close had begun, and in the closed state every admitted operation
  has settled.  From every reachable state after close, settling what is admitted closes the scope.
\<close>

theorem scope_serial:
  assumes "scope_reach s"
  shows "map fst (started s) @ map fst (waiting s) @ refused_runs s = [0 ..< nextRun s] \<and>
    map fst (started s) = settled_runs s @ (case running s of None \<Rightarrow> [] | Some w \<Rightarrow> [fst w]) \<and>
    (scope_state s = ScopeClosed \<longrightarrow> settled_runs s @ refused_runs s = [0 ..< nextRun s]) \<and>
    (\<forall>oks. drain s \<and> length oks = unsettled s \<longrightarrow> scope_state (run_out s oks) = ScopeClosed)"
  using reach_scope_inv[OF assms] run_out_closed[of s] by (auto simp: scope_inv_def)

theorem scope_serial_witness:
  "\<exists>s :: nat Scope. scope_reach s \<and> drain s \<and> unsettled s = 2 \<and> scope_state (run_out s [True, False]) = ScopeClosed"
proof -
  let ?s = "scope_close (scope_run (scope_run createLifecycleScope (7 :: nat)) 8)"
  have r: "scope_reach ?s" by (intro scope_next[OF scope_next[OF scope_next[OF scope_new step_run] step_run] step_close])
  have "drain ?s" "unsettled ?s = 2"
    by (simp_all add: scope_close_def scope_run_def createLifecycleScope_def unsettled_def)
  with r scope_serial[OF r] show ?thesis by (intro exI[of _ ?s]) (auto simp del: run_out.simps)
qed

end
