(* ===== verification/SessionActor.thy ===== *)
theory SessionActor
  imports Lifecycle
begin

text \<open>
  The session actor, \<^verbatim>\<open>packages/bridge/src/host/session-actor.ts\<close>: the closure variables of
  \<^verbatim>\<open>createSessionActor\<close> as a record, its methods as functions and the reactions of its promises as
  steps.  The runtime (\<^verbatim>\<open>Manager\<close>) is seen through what the actor reads of it, which every step
  takes as an argument, and through what the actor calls: the set of connection handles and
  \<^verbatim>\<open>dispose\<close>, which settles either way.  Observers and commands are named by numbers, observation
  records and capabilities by their position in the order of creation.
\<close>

section \<open>State\<close>

datatype ActorPhase = Creating | Live | ActorClosing | ActorClosed

text \<open>What the actor reads of the runtime: the file exists, the document has no entry, its status.\<close>

record Runtime =
  durable :: bool
  no_entries :: bool
  rt_streaming :: bool
  rt_compacting :: bool

record IdlePolicy =
  idleGcMs :: nat
  unflushedIdleGcMs :: nat

definition DEFAULT_POLICY :: IdlePolicy where
  "DEFAULT_POLICY = \<lparr>idleGcMs = 5 * 60000, unflushedIdleGcMs = 30 * 60000\<rparr>"

record Observation =
  obs_observer :: nat
  obs_stopped :: bool

record Capability =
  cap_released :: bool
  cap_owned :: "nat list"

text \<open>Where the asynchronous body of \<^verbatim>\<open>close\<close> waits.\<close>

datatype CloseStage = NotClosing | AwaitMutations | AwaitDispose | AwaitTracked "nat list" | CloseRejected | CloseResolved

datatype command_outcome = CommandRefused | CommandFailed | CommandDone

record 'op Actor =
  actor_phase :: ActorPhase
  liveCapabilities :: int
  idleTimer :: "nat option"
  mutations :: "'op Scope"
  tracked :: "nat list"
  nextCommand :: nat
  commandOutcomes :: "(nat \<times> command_outcome) list"
  observed :: "Observation list"
  liveObservations :: "nat list"
  capabilities :: "Capability list"
  connections :: "nat list"
  lastStreaming :: bool
  idleCalls :: nat
  streamingCalls :: nat
  disposeCalls :: nat
  closeStage :: CloseStage

definition createSessionActor :: "Runtime \<Rightarrow> 'op Actor" where
  "createSessionActor m = \<lparr>actor_phase = Live, liveCapabilities = 0, idleTimer = None,
     mutations = createLifecycleScope, tracked = [], nextCommand = 0, commandOutcomes = [], observed = [],
     liveObservations = [], capabilities = [], connections = [], lastStreaming = rt_streaming m,
     idleCalls = 0, streamingCalls = 0, disposeCalls = 0, closeStage = NotClosing\<rparr>"

section \<open>Idle collection\<close>

definition cancelIdle :: "'op Actor \<Rightarrow> 'op Actor" where
  "cancelIdle a = a\<lparr>idleTimer := None\<rparr>"

definition armIdle :: "IdlePolicy \<Rightarrow> Runtime \<Rightarrow> 'op Actor \<Rightarrow> 'op Actor" where
  "armIdle p m a =
     (if actor_phase a \<noteq> Live \<or> liveCapabilities a > 0 \<or> idleTimer a \<noteq> None then a
      else a\<lparr>idleTimer := Some (if durable m \<or> no_entries m then idleGcMs p else unflushedIdleGcMs p)\<rparr>)"

definition maybeCollect :: "IdlePolicy \<Rightarrow> Runtime \<Rightarrow> 'op Actor \<Rightarrow> 'op Actor" where
  "maybeCollect p m a =
     (if actor_phase a \<noteq> Live \<or> liveCapabilities a > 0 then a
      else if rt_streaming m \<or> rt_compacting m then armIdle p m a
      else a\<lparr>idleCalls := Suc (idleCalls a)\<rparr>)"

text \<open>The callback of the timer.\<close>

definition idle_fires :: "IdlePolicy \<Rightarrow> Runtime \<Rightarrow> 'op Actor \<Rightarrow> 'op Actor" where
  "idle_fires p m a = (if idleTimer a = None then a else maybeCollect p m (a\<lparr>idleTimer := None\<rparr>))"

text \<open>The patch listener: one call of the hook per transition of the streaming flag.\<close>

definition actor_onPatch :: "Runtime \<Rightarrow> 'op Actor \<Rightarrow> 'op Actor" where
  "actor_onPatch m a =
     (if rt_streaming m \<noteq> lastStreaming a
      then a\<lparr>lastStreaming := rt_streaming m, streamingCalls := Suc (streamingCalls a)\<rparr> else a)"

section \<open>Observations\<close>

definition stop_observation :: "nat \<Rightarrow> 'op Actor \<Rightarrow> 'op Actor" where
  "stop_observation i a =
     (if obs_stopped (observed a ! i) then a
      else a\<lparr>observed := (observed a)[i := (observed a ! i)\<lparr>obs_stopped := True\<rparr>],
             liveObservations := removeAll i (liveObservations a),
             connections := removeAll (obs_observer (observed a ! i)) (connections a)\<rparr>)"

definition installObservation :: "nat \<Rightarrow> 'op Actor \<Rightarrow> 'op Actor" where
  "installObservation h a =
     a\<lparr>observed := observed a @ [\<lparr>obs_observer = h, obs_stopped = False\<rparr>],
       liveObservations := liveObservations a @ [length (observed a)]\<rparr>"

section \<open>Admission\<close>

text \<open>The admission surface of the registration, or of a capability.\<close>

datatype Handle = Admission | Cap nat

fun admissible :: "Handle \<Rightarrow> 'op Actor \<Rightarrow> bool" where
  "admissible Admission a \<longleftrightarrow> actor_phase a = Live"
| "admissible (Cap c) a \<longleftrightarrow> \<not> cap_released (capabilities a ! c) \<and> actor_phase a = Live"

text \<open>\<open>throws\<close>: the operation throws before it returns its promise; it is then not tracked.\<close>

definition commandOp :: "Handle \<Rightarrow> bool \<Rightarrow> 'op Actor \<Rightarrow> 'op Actor" where
  "commandOp h throws a =
     (let n = nextCommand a; a' = a\<lparr>nextCommand := Suc n\<rparr>
      in if \<not> admissible h a then a'\<lparr>commandOutcomes := commandOutcomes a @ [(n, CommandRefused)]\<rparr>
         else if throws then a'\<lparr>commandOutcomes := commandOutcomes a @ [(n, CommandFailed)]\<rparr>
         else a'\<lparr>tracked := tracked a @ [n]\<rparr>)"

definition command_settles :: "nat \<Rightarrow> bool \<Rightarrow> 'op Actor \<Rightarrow> 'op Actor" where
  "command_settles n ok a =
     (if n \<in> set (tracked a)
      then a\<lparr>tracked := removeAll n (tracked a),
             commandOutcomes := commandOutcomes a @ [(n, if ok then CommandDone else CommandFailed)]\<rparr> else a)"

definition mutateOp :: "Handle \<Rightarrow> 'op \<Rightarrow> 'op Actor \<Rightarrow> 'op Actor" where
  "mutateOp h operation a =
     (if \<not> admissible h a then a else a\<lparr>mutations := scope_run (mutations a) operation\<rparr>)"

section \<open>Capabilities\<close>

definition capability :: "'op Actor \<Rightarrow> 'op Actor" where
  "capability a =
     (let a' = cancelIdle (a\<lparr>liveCapabilities := liveCapabilities a + 1\<rparr>)
      in a'\<lparr>capabilities := capabilities a @ [\<lparr>cap_released = False, cap_owned = []\<rparr>]\<rparr>)"

text \<open>\<^verbatim>\<open>observe\<close> throws (\<open>None\<close>) on a handle that is not admissible; otherwise it connects the observer.\<close>

definition observe :: "nat \<Rightarrow> nat \<Rightarrow> 'op Actor \<Rightarrow> 'op Actor option" where
  "observe c h a =
     (if cap_released (capabilities a ! c) \<or> actor_phase a \<noteq> Live then None
      else let a' = installObservation h (a\<lparr>connections := List.insert h (connections a)\<rparr>); cap = capabilities a ! c
           in Some (a'\<lparr>capabilities := (capabilities a)[c := cap\<lparr>cap_owned := cap_owned cap @ [length (observed a)]\<rparr>]\<rparr>))"

definition release_observation :: "nat \<Rightarrow> nat \<Rightarrow> 'op Actor \<Rightarrow> 'op Actor" where
  "release_observation c i a =
     (let a' = stop_observation i a; cap = capabilities a ! c
      in a'\<lparr>capabilities := (capabilities a)[c := cap\<lparr>cap_owned := removeAll i (cap_owned cap)\<rparr>]\<rparr>)"

definition release_capability :: "IdlePolicy \<Rightarrow> Runtime \<Rightarrow> nat \<Rightarrow> 'op Actor \<Rightarrow> 'op Actor" where
  "release_capability p m c a =
     (let cap = capabilities a ! c
      in if cap_released cap then a
         else let a' = fold stop_observation (cap_owned cap) a;
                  b = a'\<lparr>capabilities := (capabilities a)[c := \<lparr>cap_released = True, cap_owned = []\<rparr>],
                         liveCapabilities := liveCapabilities a - 1\<rparr>
              in if liveCapabilities b = 0 then armIdle p m b else b)"

section \<open>The terminal boundary\<close>

text \<open>The synchronous part of \<^verbatim>\<open>close\<close>, up to the first \<^verbatim>\<open>await\<close>; later calls join.\<close>

definition actor_close :: "'op Actor \<Rightarrow> 'op Actor" where
  "actor_close a =
     (if closeStage a \<noteq> NotClosing then a
      else cancelIdle (a\<lparr>actor_phase := ActorClosing, mutations := scope_close (mutations a), closeStage := AwaitMutations\<rparr>))"

text \<open>The continuation of \<^verbatim>\<open>close\<close>; \<open>ok\<close> is how \<^verbatim>\<open>manager.dispose()\<close> settles.\<close>

definition close_continues :: "bool \<Rightarrow> 'op Actor \<Rightarrow> 'op Actor" where
  "close_continues ok a =
     (case closeStage a of
        AwaitMutations \<Rightarrow>
          if scope_state (mutations a) = ScopeClosed
          then a\<lparr>disposeCalls := Suc (disposeCalls a), closeStage := AwaitDispose\<rparr> else a
      | AwaitDispose \<Rightarrow> a\<lparr>closeStage := (if ok then AwaitTracked (tracked a) else CloseRejected)\<rparr>
      | AwaitTracked ts \<Rightarrow>
          if list_all (\<lambda>n. n \<notin> set (tracked a)) ts
          then (fold stop_observation (liveObservations a) a)
                 \<lparr>liveObservations := [], actor_phase := ActorClosed, closeStage := CloseResolved\<rparr>
          else a
      | _ \<Rightarrow> a)"

section \<open>Steps\<close>

text \<open>
  A step is a call by a holder of the actor or of a capability, an event of the runtime, or a
  reaction of the event loop.  The runtime a step sees and how a promise settles are arbitrary.
\<close>

inductive actor_step :: "IdlePolicy \<Rightarrow> 'op Actor \<Rightarrow> 'op Actor \<Rightarrow> bool" for p where
  step_capability: "actor_step p a (capability a)"
| step_observe: "c < length (capabilities a) \<Longrightarrow> observe c h a = Some a' \<Longrightarrow> actor_step p a a'"
| step_release_observation:
    "c < length (capabilities a) \<Longrightarrow> i < length (observed a) \<Longrightarrow> actor_step p a (release_observation c i a)"
| step_release: "c < length (capabilities a) \<Longrightarrow> actor_step p a (release_capability p m c a)"
| step_command: "actor_step p a (commandOp h throws a)"
| step_command_settles: "actor_step p a (command_settles n ok a)"
| step_mutate: "actor_step p a (mutateOp h operation a)"
| step_mutation_starts: "actor_step p a (a\<lparr>mutations := scope_start (mutations a)\<rparr>)"
| step_mutation_settles: "actor_step p a (a\<lparr>mutations := scope_settle (mutations a) ok\<rparr>)"
| step_mutations_drained: "actor_step p a (a\<lparr>mutations := scope_drained (mutations a)\<rparr>)"
| step_armIdle: "actor_step p a (armIdle p m a)"
| step_idle_fires: "actor_step p a (idle_fires p m a)"
| step_onPatch: "actor_step p a (actor_onPatch m a)"
| step_actor_close: "actor_step p a (actor_close a)"
| step_close_continues: "actor_step p a (close_continues ok a)"

inductive actor_reach :: "IdlePolicy \<Rightarrow> 'op Actor \<Rightarrow> bool" for p where
  actor_new: "actor_reach p (createSessionActor m)"
| actor_next: "actor_reach p a \<Longrightarrow> actor_step p a a' \<Longrightarrow> actor_reach p a'"

inductive_cases actor_stepE: "actor_step p a a'"

section \<open>Stopping observations\<close>

text \<open>The observation records, the live ones and the handles the runtime delivers to.\<close>

definition obs_inv :: "'op Actor \<Rightarrow> bool" where
  "obs_inv a \<longleftrightarrow> (\<forall>i. i \<in> set (liveObservations a) \<longleftrightarrow> i < length (observed a) \<and> \<not> obs_stopped (observed a ! i)) \<and>
     set (connections a) \<subseteq> (\<lambda>i. obs_observer (observed a ! i)) ` set (liveObservations a)"

lemma stop_observation_other [simp]:
  "actor_phase (stop_observation i a) = actor_phase a" "liveCapabilities (stop_observation i a) = liveCapabilities a"
  "idleTimer (stop_observation i a) = idleTimer a" "mutations (stop_observation i a) = mutations a"
  "tracked (stop_observation i a) = tracked a" "nextCommand (stop_observation i a) = nextCommand a"
  "commandOutcomes (stop_observation i a) = commandOutcomes a" "capabilities (stop_observation i a) = capabilities a"
  "idleCalls (stop_observation i a) = idleCalls a" "disposeCalls (stop_observation i a) = disposeCalls a"
  "closeStage (stop_observation i a) = closeStage a"
  "length (observed (stop_observation i a)) = length (observed a)"
  by (simp_all add: stop_observation_def)

lemma fold_stop_other [simp]:
  "actor_phase (fold stop_observation js a) = actor_phase a"
  "liveCapabilities (fold stop_observation js a) = liveCapabilities a"
  "idleTimer (fold stop_observation js a) = idleTimer a" "mutations (fold stop_observation js a) = mutations a"
  "tracked (fold stop_observation js a) = tracked a" "nextCommand (fold stop_observation js a) = nextCommand a"
  "commandOutcomes (fold stop_observation js a) = commandOutcomes a"
  "capabilities (fold stop_observation js a) = capabilities a"
  "idleCalls (fold stop_observation js a) = idleCalls a" "disposeCalls (fold stop_observation js a) = disposeCalls a"
  "closeStage (fold stop_observation js a) = closeStage a"
  "length (observed (fold stop_observation js a)) = length (observed a)"
  by (induction js arbitrary: a) simp_all

lemma obs_inv_stop:
  assumes "obs_inv a" "i < length (observed a)"
  shows "obs_inv (stop_observation i a)" "set (liveObservations (stop_observation i a)) = set (liveObservations a) - {i}"
proof -
  show "set (liveObservations (stop_observation i a)) = set (liveObservations a) - {i}"
    using assms by (auto simp: stop_observation_def obs_inv_def)
  show "obs_inv (stop_observation i a)"
    using assms by (fastforce simp: stop_observation_def obs_inv_def nth_list_update)
qed

lemma obs_inv_fold_stop:
  "obs_inv a \<Longrightarrow> set js \<subseteq> {..<length (observed a)} \<Longrightarrow>
   obs_inv (fold stop_observation js a) \<and>
   set (liveObservations (fold stop_observation js a)) = set (liveObservations a) - set js"
proof (induction js arbitrary: a)
  case (Cons j js)
  then have "obs_inv (stop_observation j a)" "set js \<subseteq> {..<length (observed (stop_observation j a))}"
    by (auto intro: obs_inv_stop)
  with Cons.IH[of "stop_observation j a"] Cons.prems show ?case by (auto simp: obs_inv_stop(2))
qed simp

lemma obs_inv_no_live: "obs_inv a \<Longrightarrow> liveObservations a = [] \<Longrightarrow> connections a = []"
  by (auto simp: obs_inv_def)

section \<open>The invariant\<close>

definition cap_inv :: "'op Actor \<Rightarrow> bool" where
  "cap_inv a \<longleftrightarrow> liveCapabilities a = int (length (filter (\<lambda>cap. \<not> cap_released cap) (capabilities a))) \<and>
     (\<forall>cap \<in> set (capabilities a). set (cap_owned cap) \<subseteq> {..<length (observed a)} \<and>
        (cap_released cap \<longrightarrow> cap_owned cap = [])) \<and>
     (\<forall>i \<in> set (liveObservations a). \<exists>cap \<in> set (capabilities a). i \<in> set (cap_owned cap))"

definition idle_inv :: "'op Actor \<Rightarrow> bool" where
  "idle_inv a \<longleftrightarrow> (idleTimer a \<noteq> None \<longrightarrow> actor_phase a = Live \<and> liveCapabilities a = 0) \<and>
     (actor_phase a = Live \<and> liveCapabilities a = 0 \<and> capabilities a \<noteq> [] \<longrightarrow> idleTimer a \<noteq> None \<or> idleCalls a > 0)"

definition close_inv :: "'op Actor \<Rightarrow> bool" where
  "close_inv a \<longleftrightarrow> scope_inv (mutations a) \<and> actor_phase a \<noteq> Creating \<and>
     (actor_phase a = Live \<longleftrightarrow> closeStage a = NotClosing) \<and> (actor_phase a = ActorClosed \<longleftrightarrow> closeStage a = CloseResolved) \<and>
     (drain (mutations a) \<longleftrightarrow> closeStage a \<noteq> NotClosing) \<and>
     (closeStage a \<noteq> NotClosing \<and> closeStage a \<noteq> AwaitMutations \<longrightarrow> scope_state (mutations a) = ScopeClosed) \<and>
     disposeCalls a = (if closeStage a = NotClosing \<or> closeStage a = AwaitMutations then 0 else 1) \<and>
     (\<forall>ts. closeStage a = AwaitTracked ts \<longrightarrow> set (tracked a) \<subseteq> set ts) \<and>
     (closeStage a = CloseResolved \<longrightarrow> tracked a = [] \<and> liveObservations a = [])"

definition command_inv :: "'op Actor \<Rightarrow> bool" where
  "command_inv a \<longleftrightarrow> distinct (tracked a) \<and> distinct (map fst (commandOutcomes a)) \<and>
     set (tracked a) \<inter> fst ` set (commandOutcomes a) = {} \<and>
     set (tracked a) \<union> fst ` set (commandOutcomes a) = {..<nextCommand a}"

definition actor_inv :: "'op Actor \<Rightarrow> bool" where
  "actor_inv a \<longleftrightarrow> obs_inv a \<and> cap_inv a \<and> idle_inv a \<and> close_inv a \<and> command_inv a"

lemmas actor_inv_defs = actor_inv_def obs_inv_def cap_inv_def idle_inv_def close_inv_def command_inv_def

lemma actor_inv_new: "actor_inv (createSessionActor m)"
  using scope_inv_new by (auto simp: actor_inv_defs createSessionActor_def) (simp add: createLifecycleScope_def)

lemma actor_inv_armIdle: "actor_inv a \<Longrightarrow> actor_inv (armIdle p m a)"
  by (auto simp: actor_inv_defs armIdle_def)

lemma actor_inv_capability: "actor_inv a \<Longrightarrow> actor_inv (capability a)"
  unfolding actor_inv_def
  by (auto simp: obs_inv_def cap_inv_def idle_inv_def close_inv_def command_inv_def capability_def cancelIdle_def Let_def)

lemma actor_inv_onPatch: "actor_inv a \<Longrightarrow> actor_inv (actor_onPatch m a)"
  by (auto simp: actor_inv_defs actor_onPatch_def)

lemma actor_inv_idle_fires: "actor_inv a \<Longrightarrow> actor_inv (idle_fires p m a)"
  by (auto simp: actor_inv_defs idle_fires_def maybeCollect_def armIdle_def)

lemma actor_inv_commands:
  assumes "actor_inv a" "command_inv (a\<lparr>tracked := t, nextCommand := n, commandOutcomes := os\<rparr>)"
    "set t \<subseteq> set (tracked a) \<or> actor_phase a = Live"
  shows "actor_inv (a\<lparr>tracked := t, nextCommand := n, commandOutcomes := os\<rparr>)"
proof -
  have "close_inv (a\<lparr>tracked := t, nextCommand := n, commandOutcomes := os\<rparr>)"
    using assms(1,3) by (fastforce simp: actor_inv_def close_inv_def)
  moreover have "obs_inv (a\<lparr>tracked := t, nextCommand := n, commandOutcomes := os\<rparr>) = obs_inv a"
    "cap_inv (a\<lparr>tracked := t, nextCommand := n, commandOutcomes := os\<rparr>) = cap_inv a"
    "idle_inv (a\<lparr>tracked := t, nextCommand := n, commandOutcomes := os\<rparr>) = idle_inv a"
    by (simp_all add: obs_inv_def cap_inv_def idle_inv_def)
  ultimately show ?thesis
    using assms(1,2) by (simp add: actor_inv_def)
qed

lemma admissible_live: "admissible h a \<Longrightarrow> actor_phase a = Live"
  by (cases h) auto

lemma command_inv_admit:
  assumes "command_inv a" "n = nextCommand a"
  shows "command_inv (a\<lparr>tracked := tracked a @ [n], nextCommand := Suc n\<rparr>)"
    "command_inv (a\<lparr>nextCommand := Suc n, commandOutcomes := commandOutcomes a @ [(n, r)]\<rparr>)"
proof -
  have "set (tracked a) \<union> fst ` set (commandOutcomes a) = {..<n}" using assms by (simp add: command_inv_def)
  then have "n \<notin> set (tracked a)" "n \<notin> fst ` set (commandOutcomes a)"
    by (metis UnCI lessThan_iff less_irrefl)+
  then show "command_inv (a\<lparr>tracked := tracked a @ [n], nextCommand := Suc n\<rparr>)"
    "command_inv (a\<lparr>nextCommand := Suc n, commandOutcomes := commandOutcomes a @ [(n, r)]\<rparr>)"
    using assms by (simp_all add: command_inv_def lessThan_Suc)
qed

lemma commandOp_eq:
  "commandOp h throws a =
     (let n = nextCommand a in
      if admissible h a \<and> \<not> throws
      then a\<lparr>tracked := tracked a @ [n], nextCommand := Suc n, commandOutcomes := commandOutcomes a\<rparr>
      else a\<lparr>tracked := tracked a, nextCommand := Suc n,
             commandOutcomes := commandOutcomes a @ [(n, if admissible h a then CommandFailed else CommandRefused)]\<rparr>)"
  by (simp add: commandOp_def Let_def)

lemma actor_inv_commandOp: "actor_inv a \<Longrightarrow> actor_inv (commandOp h throws a)"
proof -
  assume inv: "actor_inv a"
  then have c: "command_inv a" by (simp add: actor_inv_def)
  show ?thesis
  proof (cases "admissible h a \<and> \<not> throws")
    case True
    have "actor_inv (a\<lparr>tracked := tracked a @ [nextCommand a], nextCommand := Suc (nextCommand a),
        commandOutcomes := commandOutcomes a\<rparr>)"
      by (rule actor_inv_commands[OF inv]) (use command_inv_admit(1)[OF c refl] True admissible_live in auto)
    then show ?thesis using True by (simp add: commandOp_eq Let_def)
  next
    case False
    from False actor_inv_commands[OF inv, where t = "tracked a"] command_inv_admit(2)[OF c refl]
    show ?thesis by (auto simp: commandOp_eq Let_def)
  qed
qed

lemma actor_inv_command_settles:
  assumes "actor_inv a"
  shows "actor_inv (command_settles n ok a)"
proof (cases "n \<in> set (tracked a)")
  case True
  let ?t = "removeAll n (tracked a)" and ?os = "commandOutcomes a @ [(n, if ok then CommandDone else CommandFailed)]"
  have "command_inv a" using assms by (simp add: actor_inv_def)
  then have "command_inv (a\<lparr>tracked := ?t, nextCommand := nextCommand a, commandOutcomes := ?os\<rparr>)"
    using True unfolding command_inv_def by (simp add: distinct_removeAll) blast
  from actor_inv_commands[OF assms this] True show ?thesis
    by (simp add: command_settles_def)
qed (simp add: command_settles_def assms)

lemma scope_parts [simp]:
  "drain (scope_start s) = drain s" "drain (scope_settle s ok) = drain s" "drain (scope_drained s) = drain s"
  "drain (scope_run s operation) = drain s"
  by (simp_all add: scope_start_def scope_settle_def scope_drained_def scope_run_def split: option.split list.split)

lemma scope_state_parts [simp]:
  "scope_state (scope_start s) = scope_state s" "scope_state (scope_settle s ok) = scope_state s"
  "scope_state (scope_run s operation) = scope_state s"
  "scope_state s = ScopeClosed \<Longrightarrow> scope_state (scope_drained s) = ScopeClosed"
  by (simp_all add: scope_start_def scope_settle_def scope_drained_def scope_run_def split: option.split list.split)

lemma actor_inv_mutations:
  assumes "actor_inv a" "scope_inv s" "drain s = drain (mutations a)"
    "scope_state (mutations a) = ScopeClosed \<Longrightarrow> scope_state s = ScopeClosed"
  shows "actor_inv (a\<lparr>mutations := s\<rparr>)"
  using assms by (auto simp: actor_inv_defs)

lemma actor_inv_scope: "actor_inv a \<Longrightarrow> scope_inv (mutations a)"
  by (simp add: actor_inv_def close_inv_def)

lemma actor_inv_mutateOp: "actor_inv a \<Longrightarrow> actor_inv (mutateOp h operation a)"
  by (simp add: mutateOp_def actor_inv_mutations actor_inv_scope scope_inv_run)

lemma actor_inv_observe:
  assumes "actor_inv a" "c < length (capabilities a)" "observe c h a = Some a'"
  shows "actor_inv a'"
proof -
  let ?cap = "capabilities a ! c" and ?n = "length (observed a)"
  have nr: "\<not> cap_released ?cap" "actor_phase a = Live"
    and a': "a' = a\<lparr>connections := List.insert h (connections a),
        observed := observed a @ [\<lparr>obs_observer = h, obs_stopped = False\<rparr>],
        liveObservations := liveObservations a @ [?n],
        capabilities := (capabilities a)[c := ?cap\<lparr>cap_owned := cap_owned ?cap @ [?n]\<rparr>]\<rparr>"
    using assms(3) by (auto simp: observe_def installObservation_def Let_def split: if_splits)
  have split: "capabilities a = take c (capabilities a) @ ?cap # drop (Suc c) (capabilities a)"
    using assms(2) by (rule id_take_nth_drop)
  have inv: "obs_inv a" "cap_inv a" using assms(1) by (auto simp: actor_inv_def)
  have "obs_inv a'"
    using inv(1) by (fastforce simp: a' obs_inv_def nth_append)
  moreover have "cap_inv a'"
  proof -
    have m: "cap_owned ?cap \<noteq> [] \<Longrightarrow> set (cap_owned ?cap) \<subseteq> {..<?n}"
      using inv(2) assms(2) by (auto simp: cap_inv_def dest: nth_mem)
    have "cap_inv (a\<lparr>capabilities := take c (capabilities a) @ ?cap # drop (Suc c) (capabilities a)\<rparr>)"
      using inv(2) split by simp
    then show ?thesis
      using nr m assms(2) by (fastforce simp: a' cap_inv_def upd_conv_take_nth_drop)
  qed
  ultimately show ?thesis
    using assms(1) nr by (auto simp: a' actor_inv_def idle_inv_def close_inv_def command_inv_def)
qed

lemma actor_inv_release_observation:
  assumes "actor_inv a" "c < length (capabilities a)" "i < length (observed a)"
  shows "actor_inv (release_observation c i a)"
proof -
  let ?cap = "capabilities a ! c"
  let ?b = "release_observation c i a"
  have inv: "obs_inv a" "cap_inv a" using assms(1) by (auto simp: actor_inv_def)
  note stop = obs_inv_stop[OF inv(1) assms(3)]
  have b: "observed ?b = observed (stop_observation i a)" "connections ?b = connections (stop_observation i a)"
    "liveObservations ?b = liveObservations (stop_observation i a)"
    "capabilities ?b = (capabilities a)[c := ?cap\<lparr>cap_owned := removeAll i (cap_owned ?cap)\<rparr>]"
    "liveCapabilities ?b = liveCapabilities a" "idleTimer ?b = idleTimer a" "actor_phase ?b = actor_phase a"
    "mutations ?b = mutations a" "tracked ?b = tracked a" "nextCommand ?b = nextCommand a" "closeStage ?b = closeStage a"
    "commandOutcomes ?b = commandOutcomes a" "idleCalls ?b = idleCalls a" "disposeCalls ?b = disposeCalls a"
    by (simp_all add: release_observation_def Let_def)
  have "obs_inv ?b" using stop(1) by (simp add: obs_inv_def b)
  moreover have "cap_inv ?b"
  proof -
    have "cap_inv (a\<lparr>capabilities := take c (capabilities a) @ ?cap # drop (Suc c) (capabilities a)\<rparr>)"
      using inv(2) id_take_nth_drop[OF assms(2)] by simp
    then show ?thesis
      using stop(2) assms(2) by (fastforce simp: b cap_inv_def upd_conv_take_nth_drop)
  qed
  moreover have "close_inv ?b"
    using assms(1) stop(2) by (auto simp: actor_inv_def close_inv_def b)
  ultimately show ?thesis
    using assms(1) by (auto simp: actor_inv_def idle_inv_def command_inv_def b)
qed

text \<open>Stopping some of the observations and changing nothing else but what the caller sets.\<close>

lemma fold_stop_inv:
  assumes "actor_inv a" "set js \<subseteq> {..<length (observed a)}"
  shows "actor_inv (fold stop_observation js a)"
proof -
  note stop = obs_inv_fold_stop[OF _ assms(2)]
  have "cap_inv (fold stop_observation js a)" "close_inv (fold stop_observation js a)"
    using assms(1) stop by (auto simp: actor_inv_def cap_inv_def close_inv_def)
  then show ?thesis
    using assms(1) stop by (simp add: actor_inv_def idle_inv_def command_inv_def)
qed

lemma actor_inv_release:
  assumes "actor_inv a" "c < length (capabilities a)"
  shows "actor_inv (release_capability p m c a)"
proof (cases "cap_released (capabilities a ! c)")
  case True
  then show ?thesis using assms by (simp add: release_capability_def)
next
  case nr: False
  let ?cap = "capabilities a ! c"
  let ?s = "fold stop_observation (cap_owned ?cap) a"
  let ?b = "?s\<lparr>capabilities := (capabilities a)[c := \<lparr>cap_released = True, cap_owned = []\<rparr>],
               liveCapabilities := liveCapabilities a - 1\<rparr>"
  have inv: "obs_inv a" "cap_inv a" using assms(1) by (auto simp: actor_inv_def)
  have own: "set (cap_owned ?cap) \<subseteq> {..<length (observed a)}"
    using inv(2) assms(2) by (auto simp: cap_inv_def dest: nth_mem)
  note stop = obs_inv_fold_stop[OF inv(1) own] and s = fold_stop_inv[OF assms(1) own]
  have "cap_inv (a\<lparr>capabilities := take c (capabilities a) @ ?cap # drop (Suc c) (capabilities a)\<rparr>)"
    using inv(2) id_take_nth_drop[OF assms(2)] by simp
  then have "cap_inv ?b"
    using stop nr assms(2) by (fastforce simp: cap_inv_def upd_conv_take_nth_drop)
  moreover have "obs_inv ?b" "close_inv ?b" "command_inv ?b"
    using s by (simp_all add: actor_inv_def obs_inv_def close_inv_def command_inv_def)
  moreover have "idleTimer a = None"
  proof (rule ccontr)
    assume "idleTimer a \<noteq> None"
    then have "liveCapabilities a = 0" using assms(1) by (simp add: actor_inv_def idle_inv_def)
    then have "filter (\<lambda>cap. \<not> cap_released cap) (capabilities a) = []" using inv(2) by (simp add: cap_inv_def)
    then show False using nr assms(2) by (auto simp: filter_empty_conv dest: nth_mem)
  qed
  ultimately have b: "obs_inv ?b" "cap_inv ?b" "close_inv ?b" "command_inv ?b" "idleTimer ?b = None"
    by simp_all
  have r: "release_capability p m c a = (if liveCapabilities ?b = 0 then armIdle p m ?b else ?b)"
    using nr by (simp add: release_capability_def Let_def)
  show ?thesis
  proof (cases "liveCapabilities ?b = 0")
    case True
    have "actor_inv (armIdle p m ?b)"
      using b True by (auto simp: actor_inv_def armIdle_def idle_inv_def obs_inv_def cap_inv_def close_inv_def command_inv_def)
    then show ?thesis using r True by simp
  next
    case False
    have "actor_inv ?b" using b False by (auto simp: actor_inv_def idle_inv_def)
    then show ?thesis using r False by simp
  qed
qed

lemma actor_inv_close: "actor_inv a \<Longrightarrow> actor_inv (actor_close a)"
proof (cases "closeStage a = NotClosing")
  case True
  assume inv: "actor_inv a"
  let ?b = "cancelIdle (a\<lparr>actor_phase := ActorClosing, mutations := scope_close (mutations a), closeStage := AwaitMutations\<rparr>)"
  have "drain (scope_close (mutations a))" by (simp add: scope_close_def)
  then have "close_inv ?b"
    using inv True by (simp add: actor_inv_def close_inv_def cancelIdle_def scope_inv_close)
  moreover have "obs_inv ?b" "cap_inv ?b" "idle_inv ?b" "command_inv ?b"
    using inv by (simp_all add: actor_inv_def obs_inv_def cap_inv_def idle_inv_def command_inv_def cancelIdle_def)
  ultimately show ?thesis using True by (simp add: actor_close_def actor_inv_def)
qed (simp add: actor_close_def)

lemma actor_inv_close_continues:
  assumes "actor_inv a"
  shows "actor_inv (close_continues ok a)"
proof (cases "closeStage a")
  case (AwaitTracked ts)
  let ?s = "fold stop_observation (liveObservations a) a"
  have inv: "obs_inv a" "close_inv a" using assms by (auto simp: actor_inv_def)
  have lv: "set (liveObservations a) \<subseteq> {..<length (observed a)}" using inv(1) by (auto simp: obs_inv_def)
  note stop = obs_inv_fold_stop[OF inv(1) lv] and s = fold_stop_inv[OF assms lv]
  show ?thesis
  proof (cases "list_all (\<lambda>n. n \<notin> set (tracked a)) ts")
    case True
    let ?b = "?s\<lparr>liveObservations := [], actor_phase := ActorClosed, closeStage := CloseResolved\<rparr>"
    have l: "liveObservations ?s = []" using stop by simp
    have "tracked a = []"
      using inv(2) True AwaitTracked by (cases "tracked a") (auto simp: close_inv_def list_all_iff)
    then have "close_inv ?b" using inv(2) AwaitTracked by (simp add: close_inv_def)
    moreover have "obs_inv ?b" "cap_inv ?b" "command_inv ?b"
      using s l by (simp_all add: actor_inv_def obs_inv_def cap_inv_def command_inv_def)
    moreover have "idle_inv ?b"
      using assms AwaitTracked by (auto simp: actor_inv_def idle_inv_def close_inv_def)
    ultimately show ?thesis using True AwaitTracked by (simp add: close_continues_def actor_inv_def)
  qed (use assms AwaitTracked in \<open>auto simp: close_continues_def\<close>)
next
  case AwaitMutations
  then show ?thesis
    using assms by (auto simp: close_continues_def actor_inv_def obs_inv_def cap_inv_def idle_inv_def close_inv_def command_inv_def)
next
  case AwaitDispose
  then show ?thesis
    using assms by (auto simp: close_continues_def actor_inv_def obs_inv_def cap_inv_def idle_inv_def close_inv_def command_inv_def)
qed (use assms in \<open>simp_all add: close_continues_def\<close>)

lemma actor_inv_scope_steps:
  assumes "actor_inv a"
  shows "actor_inv (a\<lparr>mutations := scope_start (mutations a)\<rparr>)"
    "actor_inv (a\<lparr>mutations := scope_settle (mutations a) ok\<rparr>)"
    "actor_inv (a\<lparr>mutations := scope_drained (mutations a)\<rparr>)"
  using assms
  by (simp_all add: actor_inv_mutations actor_inv_scope scope_inv_start scope_inv_settle scope_inv_drained)

lemmas actor_inv_ops = actor_inv_scope_steps actor_inv_capability actor_inv_observe actor_inv_release_observation actor_inv_release
  actor_inv_commandOp actor_inv_command_settles actor_inv_mutateOp actor_inv_armIdle actor_inv_idle_fires
  actor_inv_onPatch actor_inv_close actor_inv_close_continues

lemma actor_inv_step: "actor_step p a a' \<Longrightarrow> actor_inv a \<Longrightarrow> actor_inv a'"
  by (erule actor_stepE)
    (auto intro: actor_inv_ops)

lemma reach_actor_inv: "actor_reach p a \<Longrightarrow> actor_inv a"
  by (induction rule: actor_reach.induct) (auto intro: actor_inv_new actor_inv_step)

section \<open>After close began\<close>

lemma set_fold_connections: "set (connections (fold stop_observation js a)) \<subseteq> set (connections a)"
proof (induction js arbitrary: a)
  case (Cons j js)
  have "set (connections (stop_observation j a)) \<subseteq> set (connections a)" by (auto simp: stop_observation_def)
  with Cons[of "stop_observation j a"] show ?case by simp
qed simp

lemma admitted_parts [simp]:
  "started (scope_start s) @ waiting (scope_start s) = started s @ waiting s"
  "started (scope_settle s ok) = started s" "waiting (scope_settle s ok) = waiting s"
  "started (scope_drained s) = started s" "waiting (scope_drained s) = waiting s"
  by (simp_all add: scope_start_def scope_settle_def scope_drained_def split: option.split list.split)

text \<open>What is left to do once close began: the operations admitted, the commands and the handles.\<close>

definition no_more :: "'op Actor \<Rightarrow> 'op Actor \<Rightarrow> bool" where
  "no_more a b \<longleftrightarrow> actor_phase b \<noteq> Live \<and> set (tracked b) \<subseteq> set (tracked a) \<and>
     set (connections b) \<subseteq> set (connections a) \<and>
     started (mutations b) @ waiting (mutations b) = started (mutations a) @ waiting (mutations a)"

lemma not_admissible: "actor_phase a \<noteq> Live \<Longrightarrow> \<not> admissible h a"
  by (cases h) auto

lemma armIdle_not_live: "actor_phase a \<noteq> Live \<Longrightarrow> armIdle p m a = a"
  by (simp add: armIdle_def)

lemma no_more_release: "actor_phase a \<noteq> Live \<Longrightarrow> no_more a (release_capability p m c a)"
  using set_fold_connections[of "cap_owned (capabilities a ! c)" a]
  by (auto simp: no_more_def release_capability_def Let_def armIdle_not_live)

lemma no_more_close_continues: "actor_phase a \<noteq> Live \<Longrightarrow> no_more a (close_continues ok a)"
  using set_fold_connections[of "liveObservations a" a]
  by (auto simp: no_more_def close_continues_def split: CloseStage.split)

lemma no_more_step:
  assumes "actor_step p a b" "actor_phase a \<noteq> Live" "closeStage a \<noteq> NotClosing"
  shows "no_more a b"
  using assms
proof (cases rule: actor_step.cases)
  case (step_observe c h)
  then show ?thesis using assms(2) by (simp add: observe_def)
next
  case (step_release_observation c i)
  then show ?thesis using assms(2)
    by (auto simp: no_more_def release_observation_def Let_def stop_observation_def)
next
  case (step_idle_fires m)
  then show ?thesis using assms(2) by (simp add: no_more_def idle_fires_def maybeCollect_def)
qed (use assms(2,3) in \<open>auto simp: no_more_def capability_def cancelIdle_def Let_def no_more_release[unfolded no_more_def]
  commandOp_def not_admissible command_settles_def mutateOp_def armIdle_not_live actor_onPatch_def actor_close_def
  no_more_close_continues[unfolded no_more_def]\<close>)

lemma closing_stays:
  assumes "actor_inv a" "actor_step p a b" "closeStage a \<noteq> NotClosing"
  shows "closeStage b \<noteq> NotClosing"
  using no_more_step[OF assms(2)] actor_inv_step[OF assms(2,1)] assms(1,3)
  by (auto simp: actor_inv_def close_inv_def no_more_def)

lemma no_more_trans: "no_more a b \<Longrightarrow> no_more b c \<Longrightarrow> no_more a c"
  by (auto simp: no_more_def)

lemma no_more_steps:
  assumes "actor_inv a" "(actor_step p)\<^sup>*\<^sup>* a b" "closeStage a \<noteq> NotClosing"
  shows "no_more a b \<and> actor_inv b \<and> closeStage b \<noteq> NotClosing"
  using assms(2)
proof (induction rule: rtranclp_induct)
  case base
  then show ?case using assms by (simp add: no_more_def actor_inv_def close_inv_def)
next
  case (step b c)
  then have "actor_phase b \<noteq> Live" by (simp add: no_more_def)
  with step show ?case
    using no_more_step[OF step(2)] closing_stays[OF _ step(2)] actor_inv_step[OF step(2)] no_more_trans by blast
qed

lemma ended_step:
  assumes "actor_step p a b" "actor_phase a \<noteq> Live" "closeStage a = CloseRejected \<or> closeStage a = CloseResolved"
  shows "closeStage b = closeStage a"
  using assms
proof (cases rule: actor_step.cases)
  case (step_observe c h)
  then show ?thesis using assms(2) by (simp add: observe_def)
qed (use assms(2,3) in \<open>auto simp: capability_def cancelIdle_def Let_def release_observation_def release_capability_def
  commandOp_def command_settles_def mutateOp_def armIdle_def idle_fires_def maybeCollect_def actor_onPatch_def
  actor_close_def close_continues_def\<close>)

lemma rejected_steps:
  assumes "actor_inv a" "(actor_step p)\<^sup>*\<^sup>* a b" "closeStage a = CloseRejected"
  shows "closeStage b = CloseRejected"
  using assms(2)
proof (induction rule: rtranclp_induct)
  case (step b c)
  have "actor_phase b \<noteq> Live" using no_more_steps[OF assms(1) step(1)] assms(3) by (simp add: no_more_def)
  then show ?case using ended_step[OF step(2)] step.IH by simp
qed (rule assms(3))

section \<open>Completing a close\<close>

text \<open>
  The rest of a close when \<^verbatim>\<open>dispose\<close> resolves: the mutation line runs out with the given results, the
  runtime is disposed, the tracked commands settle.
\<close>

definition close_out :: "bool list \<Rightarrow> 'op Actor \<Rightarrow> 'op Actor" where
  "close_out oks a =
     (let b = close_continues True (close_continues True (a\<lparr>mutations := run_out (mutations a) oks\<rparr>))
      in close_continues True (fold (\<lambda>n. command_settles n True) (tracked b) b))"

lemma fold_settles [simp]:
  "closeStage (fold (\<lambda>n. command_settles n True) ns b) = closeStage b"
  "set (tracked (fold (\<lambda>n. command_settles n True) ns b)) = set (tracked b) - set ns"
  by (induction ns arbitrary: b) (auto simp: command_settles_def)

lemma close_out_resolves:
  assumes "actor_inv a" "closeStage a \<noteq> NotClosing" "closeStage a \<noteq> CloseRejected"
    "length oks = unsettled (mutations a)"
  shows "closeStage (close_out oks a) = CloseResolved"
proof -
  have d: "drain (mutations a)" using assms(1,2) by (simp add: actor_inv_def close_inv_def)
  then have "scope_state (run_out (mutations a) oks) = ScopeClosed" using assms(4) by (simp add: run_out_closed)
  moreover have "list_all (\<lambda>n. n \<notin> set (tracked (fold (\<lambda>n. command_settles n True) (tracked b) b))) ts" for b :: "'a Actor" and ts
    by (simp add: list_all_iff)
  ultimately show ?thesis
    using assms(2,3) by (cases "closeStage a") (auto simp: close_out_def Let_def close_continues_def)
qed

lemma reach_actor_mutations:
  assumes "actor_reach p a"
  shows "actor_reach p (a\<lparr>mutations := run_out (mutations a) oks\<rparr>)"
  using assms
proof (induction oks arbitrary: a)
  case Nil
  then show ?case using actor_next[OF _ step_mutations_drained] by simp
next
  case (Cons ok oks)
  have "actor_reach p (a\<lparr>mutations := scope_settle (scope_start (mutations a)) ok\<rparr>)"
    using actor_next[OF actor_next[OF Cons.prems step_mutation_starts] step_mutation_settles[of _ _ ok]] by simp
  from Cons.IH[OF this] show ?case by simp
qed

lemma reach_fold_settles: "actor_reach p b \<Longrightarrow> actor_reach p (fold (\<lambda>n. command_settles n True) ns b)"
  by (induction ns arbitrary: b) (auto intro: actor_next[OF _ step_command_settles])

lemma reach_close_out: "actor_reach p a \<Longrightarrow> actor_reach p (close_out oks a)"
  unfolding close_out_def Let_def
  by (intro actor_next[OF _ step_close_continues] reach_fold_settles reach_actor_mutations)

section \<open>Properties\<close>

text \<open>
  \<^bold>\<open>Property C5.\<close>  The terminal boundary of an actor is final: once close began, whatever the holders of the
  actor and of its capabilities call, no command is tracked and no mutation is admitted any more, no
  observer is connected and the runtime is disposed at most once.  When the actor is closed, the
  runtime has been disposed exactly once, nothing is in flight, every admitted mutation has settled
  and nobody is delivered to.
\<close>

theorem actor_terminal:
  assumes "actor_reach p a" "actor_phase a \<noteq> Live" "(actor_step p)\<^sup>*\<^sup>* a b"
  shows "no_more a b \<and> disposeCalls b \<le> 1 \<and>
    (actor_phase b = ActorClosed \<longrightarrow> disposeCalls b = 1 \<and> tracked b = [] \<and> connections b = [] \<and>
       map fst (started (mutations b)) = settled_runs (mutations b) \<and> waiting (mutations b) = [])"
proof -
  have inv: "actor_inv a" using assms(1) by (rule reach_actor_inv)
  then have "closeStage a \<noteq> NotClosing" using assms(2) by (simp add: actor_inv_def close_inv_def)
  from no_more_steps[OF inv assms(3) this]
  have b: "no_more a b" "actor_inv b" by simp_all
  have "connections b = []" if "actor_phase b = ActorClosed"
    using b(2) that obs_inv_no_live[of b] by (simp add: actor_inv_def close_inv_def)
  moreover have "map fst (started (mutations b)) = settled_runs (mutations b)" "waiting (mutations b) = []"
    if "actor_phase b = ActorClosed"
    using b(2) that by (simp_all add: actor_inv_def close_inv_def scope_inv_def)
  ultimately show ?thesis using b by (auto simp: actor_inv_def close_inv_def)
qed

text \<open>
  \<^bold>\<open>Property C14.\<close>  Close completes: from every reachable state in which close began, if the runtime's
  disposal resolves, running the admitted mutations out and settling the tracked commands closes the
  actor.  If the disposal rejects, no sequence of steps ever closes it.
\<close>

theorem actor_close_completes:
  assumes "actor_reach p a" "actor_phase a \<noteq> Live"
  shows "(closeStage a \<noteq> CloseRejected \<longrightarrow> (\<forall>oks. length oks = unsettled (mutations a) \<longrightarrow>
       actor_reach p (close_out oks a) \<and> actor_phase (close_out oks a) = ActorClosed)) \<and>
    (closeStage a = AwaitDispose \<longrightarrow>
       (\<forall>b. (actor_step p)\<^sup>*\<^sup>* (close_continues False a) b \<longrightarrow> actor_phase b = ActorClosing))"
proof -
  have inv: "actor_inv a" using assms(1) by (rule reach_actor_inv)
  have phase: "actor_phase x = ActorClosed \<longleftrightarrow> closeStage x = CloseResolved" if "actor_inv x" for x :: "'a Actor"
    using that by (simp add: actor_inv_def close_inv_def)
  have n: "closeStage a \<noteq> NotClosing" using inv assms(2) by (simp add: actor_inv_def close_inv_def)
  have "actor_phase b = ActorClosing"
    if "closeStage a = AwaitDispose" "(actor_step p)\<^sup>*\<^sup>* (close_continues False a) b" for b
  proof -
    have r: "actor_inv (close_continues False a)" "closeStage (close_continues False a) = CloseRejected"
      by (rule actor_inv_close_continues[OF inv]) (simp add: close_continues_def that(1))
    show ?thesis
      using no_more_steps[OF r(1) that(2)] rejected_steps[OF r(1) that(2) r(2)] r(2)
      by (cases "actor_phase b") (auto simp: actor_inv_def close_inv_def)
  qed
  then show ?thesis
    using close_out_resolves[OF inv n] reach_close_out[OF assms(1)] phase reach_actor_inv by blast
qed

text \<open>
  \<^bold>\<open>Lemma.\<close>  In every reachable state each handle the runtime delivers to belongs to an
  observation that nobody has released, held by a capability that is not released: no event reaches a
  released observer, whichever way it was released.  And no command is settled twice or lost: the
  commands issued are the tracked ones and the settled ones, each once.
\<close>

theorem delivery_only_to_held:
  assumes "actor_reach p a"
  shows "(\<forall>h \<in> set (connections a). \<exists>i < length (observed a). obs_observer (observed a ! i) = h \<and>
       \<not> obs_stopped (observed a ! i) \<and> (\<exists>cap \<in> set (capabilities a). \<not> cap_released cap \<and> i \<in> set (cap_owned cap))) \<and>
    distinct (tracked a @ map fst (commandOutcomes a)) \<and>
    set (tracked a @ map fst (commandOutcomes a)) = {..<nextCommand a}"
proof -
  have inv: "obs_inv a" "cap_inv a" "command_inv a" using reach_actor_inv[OF assms] by (simp_all add: actor_inv_def)
  have "\<exists>i < length (observed a). obs_observer (observed a ! i) = h \<and> \<not> obs_stopped (observed a ! i) \<and>
      (\<exists>cap \<in> set (capabilities a). \<not> cap_released cap \<and> i \<in> set (cap_owned cap))"
    if "h \<in> set (connections a)" for h
  proof -
    have "h \<in> (\<lambda>i. obs_observer (observed a ! i)) ` set (liveObservations a)"
      using inv(1) that by (auto simp only: obs_inv_def)
    then obtain i where i: "i \<in> set (liveObservations a)" "obs_observer (observed a ! i) = h" by blast
    then obtain cap where "cap \<in> set (capabilities a)" "i \<in> set (cap_owned cap)"
      using inv(2) by (auto simp: cap_inv_def)
    moreover from this have "\<not> cap_released cap" using inv(2) by (auto simp: cap_inv_def)
    moreover have "i < length (observed a)" "\<not> obs_stopped (observed a ! i)" using i(1) inv(1) by (simp_all add: obs_inv_def)
    ultimately show ?thesis using i(2) by blast
  qed
  moreover have "distinct (tracked a @ map fst (commandOutcomes a))"
    "set (tracked a @ map fst (commandOutcomes a)) = {..<nextCommand a}"
    using inv(3) by (simp_all add: command_inv_def)
  ultimately show ?thesis by blast
qed

text \<open>
  \<^bold>\<open>Lemma.\<close>  Idle collection is for actors without clients, and forgets none: in every reachable
  state the timer is armed only while the actor is live and no capability is held; a live actor whose
  last capability has been released has the timer armed or has been handed to the registry; and the
  timer hands the actor over only if it is live, held by nobody, neither streaming nor compacting.
\<close>

theorem idle_collection:
  assumes "actor_reach p a"
  shows "(idleTimer a \<noteq> None \<longrightarrow> actor_phase a = Live \<and> list_all cap_released (capabilities a)) \<and>
    (actor_phase a = Live \<and> capabilities a \<noteq> [] \<and> list_all cap_released (capabilities a) \<longrightarrow>
       idleTimer a \<noteq> None \<or> idleCalls a > 0) \<and>
    (idleCalls (idle_fires p m a) \<noteq> idleCalls a \<longrightarrow>
       actor_phase a = Live \<and> list_all cap_released (capabilities a) \<and> \<not> rt_streaming m \<and> \<not> rt_compacting m)"
proof -
  have inv: "idle_inv a" "cap_inv a" using reach_actor_inv[OF assms] by (simp_all add: actor_inv_def)
  have "liveCapabilities a = 0 \<longleftrightarrow> list_all cap_released (capabilities a)"
    using inv(2) by (simp add: cap_inv_def filter_empty_conv list_all_iff)
  moreover have "actor_phase a = Live \<and> liveCapabilities a = 0 \<and> \<not> rt_streaming m \<and> \<not> rt_compacting m"
    if "idleCalls (idle_fires p m a) \<noteq> idleCalls a"
    using that inv(1) by (auto simp: idle_inv_def idle_fires_def maybeCollect_def armIdle_def split: if_splits)
  ultimately show ?thesis using inv(1) by (auto simp: idle_inv_def)
qed

section \<open>Witnesses\<close>

definition rt0 :: Runtime where
  "rt0 = \<lparr>durable = True, no_entries = False, rt_streaming = False, rt_compacting = False\<rparr>"

definition actor0 :: "nat Actor" where
  "actor0 = mutateOp (Cap 0) 7 (commandOp Admission False (capability (createSessionActor rt0)))"

definition closing0 :: "nat Actor" where
  "closing0 = actor_close actor0"

lemma reach_actor0: "actor_reach p actor0" and reach_closing0: "actor_reach p closing0"
proof -
  show r: "actor_reach p actor0"
    unfolding actor0_def
    by (rule actor_next[OF actor_next[OF actor_next[OF actor_new step_capability] step_command] step_mutate])
  show "actor_reach p closing0" unfolding closing0_def by (rule actor_next[OF r step_actor_close])
qed

lemma closing0_parts: "actor_phase closing0 = ActorClosing" "unsettled (mutations closing0) = 1"
  "closeStage closing0 = AwaitMutations" "tracked closing0 = [0]"
  by code_simp+

theorem actor_terminal_witness:
  "actor_phase closing0 = ActorClosing \<and> no_more closing0 (mutateOp Admission 8 (command_settles 0 True closing0))"
  using actor_terminal[OF reach_closing0[of DEFAULT_POLICY] _
      rtranclp_trans[OF r_into_rtranclp[of "actor_step DEFAULT_POLICY", OF step_command_settles]
        r_into_rtranclp[of "actor_step DEFAULT_POLICY", OF step_mutate]]] closing0_parts
  by simp

theorem actor_close_completes_witness:
  "actor_phase closing0 = ActorClosing \<and> tracked closing0 = [0] \<and> actor_phase (close_out [False] closing0) = ActorClosed"
  using actor_close_completes[OF reach_closing0[of DEFAULT_POLICY]] closing0_parts by simp

theorem delivery_only_to_held_witness: "actor_reach DEFAULT_POLICY actor0 \<and> distinct (tracked actor0 @ map fst (commandOutcomes actor0))"
  using delivery_only_to_held[OF reach_actor0[of DEFAULT_POLICY]] reach_actor0 by simp

theorem idle_collection_witness:
  "idleTimer (release_capability DEFAULT_POLICY rt0 0 actor0) = Some 300000 \<and>
   actor_phase (release_capability DEFAULT_POLICY rt0 0 actor0) = Live"
proof -
  have c: "length (capabilities actor0) = 1" by code_simp
  have r: "actor_reach DEFAULT_POLICY (release_capability DEFAULT_POLICY rt0 0 actor0)"
    by (rule actor_next[OF reach_actor0 step_release]) (simp add: c)
  have "idleTimer (release_capability DEFAULT_POLICY rt0 0 actor0) = Some 300000"
    by (simp add: release_capability_def actor0_def rt0_def DEFAULT_POLICY_def mutateOp_def commandOp_def capability_def
        createSessionActor_def cancelIdle_def armIdle_def Let_def)
  with idle_collection[OF r] show ?thesis by simp
qed

end
