(* ===== verification/Registry.thy ===== *)
theory Registry
  imports SessionActor
begin

text \<open>
  The activation registry, \<^verbatim>\<open>packages/bridge/src/host/activation-registry.ts\<close>, around the session actors of
  \<open>SessionActor\<close>, and the target check and the creation of fresh sessions of \<^verbatim>\<open>worker-local.ts\<close>, which use it.
  Activation records and creations are numbered in the order they come into being and are kept in
  lists, because a handle of a record outlives its registration; the indexes of the registry hold
  their numbers.  Every asynchronous method is split at its \<^verbatim>\<open>await\<close>s: the parts in between are
  functions, and the relation \<open>reg_step\<close> interleaves them with the steps of the actors.
\<close>

section \<open>State\<close>

definition addressKey :: "string \<Rightarrow> string \<Rightarrow> string" where
  "addressKey projectId stem = projectId @ CHR 0x00 # stem"

text \<open>\<^verbatim>\<open>collecting\<close>: null, the actor's close is awaited, or the indexes are clean but the promise not cleared.\<close>

datatype CollectStage = NoCollect | CollectClosing | CollectCleaned

record 'op ActivationRecord =
  act_project :: string
  act_stem :: string
  act_session :: string
  act_generation :: nat
  act_actor :: "'op Actor"
  collecting :: CollectStage

text \<open>A creation: for a reserved address, or of a fresh session whose address is not known yet.\<close>

datatype CreationKind = ReservedAt string string | FreshIn string

datatype CreationStage = Building | Refusing | Settled "nat option" | Cleared

record Creation =
  creation_kind :: CreationKind
  creation_stage :: CreationStage

text \<open>Where the shutdown drain waits: for what it must settle, or for the close of the first of a list.\<close>

datatype Drain = NoDrain | DrainSettling "nat list" "nat list" "nat list" | DrainClosing "nat list" | DrainRejected | DrainResolved

record 'op Registry =
  activations :: "'op ActivationRecord list"
  records :: "nat list"
  byAddress :: "string \<rightharpoonup> nat"
  creating :: "Creation list"
  pendingCreation :: "string \<rightharpoonup> nat"
  creationSet :: "nat list"
  sessionOwnerById :: "string \<rightharpoonup> nat \<times> string \<times> string"
  generations :: nat
  disposed :: bool
  disposeDrain :: Drain

definition newRegistry :: "'op Registry" where
  "newRegistry = \<lparr>activations = [], records = [], byAddress = Map.empty, creating = [], pendingCreation = Map.empty,
     creationSet = [], sessionOwnerById = Map.empty, generations = 0, disposed = False, disposeDrain = NoDrain\<rparr>"

definition act_key :: "'op ActivationRecord \<Rightarrow> string" where
  "act_key x = addressKey (act_project x) (act_stem x)"

definition with_actor :: "nat \<Rightarrow> 'op Actor \<Rightarrow> 'op Registry \<Rightarrow> 'op Registry" where
  "with_actor i a r = r\<lparr>activations := (activations r)[i := (activations r ! i)\<lparr>act_actor := a\<rparr>]\<rparr>"

definition with_collecting :: "nat \<Rightarrow> CollectStage \<Rightarrow> 'op Registry \<Rightarrow> 'op Registry" where
  "with_collecting i s r = r\<lparr>activations := (activations r)[i := (activations r ! i)\<lparr>collecting := s\<rparr>]\<rparr>"

definition with_stage :: "nat \<Rightarrow> CreationStage \<Rightarrow> 'op Registry \<Rightarrow> 'op Registry" where
  "with_stage c s r = r\<lparr>creating := (creating r)[c := (creating r ! c)\<lparr>creation_stage := s\<rparr>]\<rparr>"

section \<open>Queries\<close>

definition act_live :: "'op Registry \<Rightarrow> nat \<Rightarrow> bool" where
  "act_live r i \<longleftrightarrow> actor_phase (act_actor (activations r ! i)) = Live"

definition byAddressAny :: "'op Registry \<Rightarrow> string \<Rightarrow> string \<Rightarrow> nat option" where
  "byAddressAny r projectId stem =
     (case byAddress r (addressKey projectId stem) of
        Some i \<Rightarrow> if i \<in> set (records r) then Some i else None | None \<Rightarrow> None)"

definition byAddressLive :: "'op Registry \<Rightarrow> string \<Rightarrow> string \<Rightarrow> nat option" where
  "byAddressLive r projectId stem =
     (case byAddressAny r projectId stem of Some i \<Rightarrow> if act_live r i then Some i else None | None \<Rightarrow> None)"

definition live_activations :: "'op Registry \<Rightarrow> nat list" where
  "live_activations r = filter (act_live r) (records r)"

text \<open>\<^verbatim>\<open>awaitSettled\<close>: wait for the creation in flight (\<open>Inl\<close>), or the record of the address.\<close>

definition awaitSettled :: "'op Registry \<Rightarrow> string \<Rightarrow> string \<Rightarrow> nat + nat option" where
  "awaitSettled r projectId stem =
     (case pendingCreation r (addressKey projectId stem) of
        Some c \<Rightarrow> Inl c | None \<Rightarrow> Inr (byAddressAny r projectId stem))"

section \<open>Creation\<close>

text \<open>One round of \<^verbatim>\<open>reserve\<close>.\<close>

datatype ReserveDecision = ShuttingDown | Existing nat | AwaitCollected nat | JoinCreation nat | StartCreation

definition reserve_decision :: "'op Registry \<Rightarrow> string \<Rightarrow> string \<Rightarrow> ReserveDecision" where
  "reserve_decision r projectId stem =
     (let key = addressKey projectId stem;
          create = (case pendingCreation r key of Some c \<Rightarrow> JoinCreation c | None \<Rightarrow> StartCreation)
      in if disposed r then ShuttingDown
         else case byAddressAny r projectId stem of
             Some i \<Rightarrow> if act_live r i then Existing i
                       else if collecting (activations r ! i) \<noteq> NoCollect then AwaitCollected i else create
           | None \<Rightarrow> create)"

definition start_reserved :: "string \<Rightarrow> string \<Rightarrow> 'op Registry \<Rightarrow> 'op Registry" where
  "start_reserved projectId stem r =
     r\<lparr>creating := creating r @ [\<lparr>creation_kind = ReservedAt projectId stem, creation_stage = Building\<rparr>],
       pendingCreation := (pendingCreation r)(addressKey projectId stem \<mapsto> length (creating r))\<rparr>"

text \<open>\<^verbatim>\<open>runCreation\<close> with the operation of \<^verbatim>\<open>createSession\<close>.\<close>

definition start_fresh :: "string \<Rightarrow> 'op Registry \<Rightarrow> 'op Registry" where
  "start_fresh projectId r =
     r\<lparr>creating := creating r @ [\<lparr>creation_kind = FreshIn projectId, creation_stage = Building\<rparr>],
       creationSet := creationSet r @ [length (creating r)]\<rparr>"

definition register :: "Runtime \<Rightarrow> string \<Rightarrow> string \<Rightarrow> string \<Rightarrow> 'op Registry \<Rightarrow> 'op Registry option" where
  "register m projectId stem sessionId r =
     (if disposed r then None
      else let i = length (activations r) in
        Some (r\<lparr>generations := Suc (generations r),
                activations := activations r @ [\<lparr>act_project = projectId, act_stem = stem, act_session = sessionId,
                  act_generation = Suc (generations r), act_actor = createSessionActor m, collecting = NoCollect\<rparr>],
                records := records r @ [i], byAddress := (byAddress r)(addressKey projectId stem \<mapsto> i),
                sessionOwnerById := (sessionOwnerById r)(sessionId \<mapsto> (i, projectId, stem))\<rparr>))"

definition settle_registration :: "nat \<Rightarrow> 'op Registry option \<Rightarrow> 'op Registry \<Rightarrow> 'op Registry" where
  "settle_registration c res r =
     (case res of None \<Rightarrow> with_stage c Refusing r
      | Some r' \<Rightarrow> with_stage c (Settled (Some (length (activations r)))) r')"

text \<open>The Manager is built: the rest of \<^verbatim>\<open>create\<close>, or of the operation of \<^verbatim>\<open>createSession\<close>.\<close>

definition reserved_built :: "nat \<Rightarrow> string \<Rightarrow> string \<Rightarrow> Runtime \<Rightarrow> string \<Rightarrow> 'op Registry \<Rightarrow> 'op Registry" where
  "reserved_built c projectId stem m sessionId r =
     (case sessionOwnerById r sessionId of
        Some (_, p, s) \<Rightarrow>
          if p \<noteq> projectId \<or> s \<noteq> stem then with_stage c Refusing r
          else settle_registration c (register m projectId stem sessionId r) r
      | None \<Rightarrow> settle_registration c (register m projectId stem sessionId r) r)"

definition fresh_built :: "nat \<Rightarrow> string \<Rightarrow> string \<Rightarrow> Runtime \<Rightarrow> string \<Rightarrow> 'op Registry \<Rightarrow> 'op Registry" where
  "fresh_built c projectId stem m sessionId r =
     (if byAddressAny r projectId stem \<noteq> None then with_stage c Refusing r
      else settle_registration c (register m projectId stem sessionId r) r)"

text \<open>The \<^verbatim>\<open>finally\<close> blocks of \<^verbatim>\<open>reserve\<close> and \<^verbatim>\<open>runCreation\<close>.\<close>

definition creation_cleared :: "nat \<Rightarrow> 'op Registry \<Rightarrow> 'op Registry" where
  "creation_cleared c r =
     (case creation_kind (creating r ! c) of
        ReservedAt p s \<Rightarrow> with_stage c Cleared (r\<lparr>pendingCreation := (pendingCreation r)(addressKey p s := None)\<rparr>)
      | FreshIn p \<Rightarrow> with_stage c Cleared (r\<lparr>creationSet := removeAll c (creationSet r)\<rparr>))"

section \<open>Collection\<close>

definition collect :: "nat \<Rightarrow> 'op Registry \<Rightarrow> 'op Registry" where
  "collect i r =
     (let x = activations r ! i
      in if collecting x \<noteq> NoCollect then r
         else if disposed r then r
         else if actor_phase (act_actor x) \<noteq> Live then r
         else with_collecting i CollectClosing (with_actor i (actor_close (act_actor x)) r))"

text \<open>\<^verbatim>\<open>disposeRecord\<close> after the actor's close has resolved.\<close>

definition release_indexes :: "nat \<Rightarrow> 'op Registry \<Rightarrow> 'op Registry" where
  "release_indexes i r =
     (let x = activations r ! i; key = act_key x
      in r\<lparr>records := removeAll i (records r),
           byAddress := (if byAddress r key = Some i then (byAddress r)(key := None) else byAddress r),
           sessionOwnerById :=
             (case sessionOwnerById r (act_session x) of
                Some (j, _) \<Rightarrow> if j = i then (sessionOwnerById r)(act_session x := None) else sessionOwnerById r
              | None \<Rightarrow> sessionOwnerById r)\<rparr>)"

definition collect_continues :: "nat \<Rightarrow> 'op Registry \<Rightarrow> 'op Registry" where
  "collect_continues i r =
     (let x = activations r ! i
      in case collecting x of
           NoCollect \<Rightarrow> r
         | CollectClosing \<Rightarrow>
             (case closeStage (act_actor x) of
                CloseResolved \<Rightarrow> with_collecting i CollectCleaned (release_indexes i r)
              | CloseRejected \<Rightarrow> with_collecting i NoCollect r
              | _ \<Rightarrow> r)
         | CollectCleaned \<Rightarrow> with_collecting i NoCollect r)"

section \<open>Shutdown\<close>

definition in_flight :: "'op Registry \<Rightarrow> nat \<Rightarrow> bool" where
  "in_flight r c \<longleftrightarrow>
     (case creation_kind (creating r ! c) of
        ReservedAt p s \<Rightarrow> pendingCreation r (addressKey p s) = Some c | FreshIn p \<Rightarrow> c \<in> set (creationSet r))"

definition dispose_registry :: "'op Registry \<Rightarrow> 'op Registry" where
  "dispose_registry r =
     (if disposeDrain r \<noteq> NoDrain then r
      else r\<lparr>disposed := True,
             disposeDrain := DrainSettling
               (filter (\<lambda>i. collecting (activations r ! i) \<noteq> NoCollect) (records r))
               (filter (in_flight r) [0 ..< length (creating r)])
               (filter (\<lambda>i. collecting (activations r ! i) = NoCollect) (records r)),
             records := [], byAddress := Map.empty, pendingCreation := Map.empty, sessionOwnerById := Map.empty\<rparr>)"

text \<open>The loop of the drain over the records to close.\<close>

definition drain_next :: "nat list \<Rightarrow> 'op Registry \<Rightarrow> 'op Registry" where
  "drain_next ids r =
     (case ids of
        [] \<Rightarrow> r\<lparr>disposeDrain := DrainResolved\<rparr>
      | i # _ \<Rightarrow> (with_actor i (actor_close (act_actor (activations r ! i))) r)\<lparr>disposeDrain := DrainClosing ids\<rparr>)"

definition creation_settled :: "'op Registry \<Rightarrow> nat \<Rightarrow> bool" where
  "creation_settled r c \<longleftrightarrow> creation_stage (creating r ! c) \<noteq> Building \<and> creation_stage (creating r ! c) \<noteq> Refusing"

definition drain_continues :: "'op Registry \<Rightarrow> 'op Registry" where
  "drain_continues r =
     (case disposeDrain r of
        DrainSettling as cs closing \<Rightarrow>
          if list_all (\<lambda>i. collecting (activations r ! i) = NoCollect) as \<and> list_all (creation_settled r) cs
          then drain_next closing r else r
      | DrainClosing (i # ids) \<Rightarrow>
          (case closeStage (act_actor (activations r ! i)) of
             CloseResolved \<Rightarrow> drain_next ids r
           | CloseRejected \<Rightarrow> r\<lparr>disposeDrain := DrainRejected\<rparr>
           | _ \<Rightarrow> r)
      | _ \<Rightarrow> r)"

section \<open>Targets\<close>

text \<open>\<^verbatim>\<open>targetOf\<close> and \<^verbatim>\<open>admissionFor\<close>, for targets that name this Worker's registration.\<close>

record SessionTarget =
  tgt_project :: string
  tgt_stem :: string
  tgt_session :: string
  tgt_activation :: nat

definition targetOf :: "'op ActivationRecord \<Rightarrow> SessionTarget" where
  "targetOf x = \<lparr>tgt_project = act_project x, tgt_stem = act_stem x, tgt_session = act_session x,
     tgt_activation = act_generation x\<rparr>"

datatype target_error = TargetClosed | SessionChanged | ReplacedActivation

definition admissionFor :: "'op Registry \<Rightarrow> SessionTarget \<Rightarrow> target_error + nat" where
  "admissionFor r t =
     (case byAddressAny r (tgt_project t) (tgt_stem t) of
        None \<Rightarrow> Inl TargetClosed
      | Some i \<Rightarrow>
          if act_session (activations r ! i) \<noteq> tgt_session t then Inl SessionChanged
          else if act_generation (activations r ! i) \<noteq> tgt_activation t then Inl ReplacedActivation
          else Inr i)"

section \<open>Steps\<close>

text \<open>
  What the environment may do.  An actor takes any step of its own except to be closed, which the
  registry does; a factory returns a Manager with an arbitrary durable id or fails; a fresh session
  has a file name that no creation in flight is for, and a new durable id, as pi allocates them; a
  refused Manager's disposal settles.  \<^verbatim>\<open>createSession\<close> refuses once the Worker's shutdown began.
\<close>

definition building :: "'op Registry \<Rightarrow> nat \<Rightarrow> CreationKind \<Rightarrow> bool" where
  "building r c k \<longleftrightarrow> c < length (creating r) \<and> creating r ! c = \<lparr>creation_kind = k, creation_stage = Building\<rparr>"

inductive reg_step :: "IdlePolicy \<Rightarrow> 'op Registry \<Rightarrow> 'op Registry \<Rightarrow> bool" for p where
  reg_reserve: "reserve_decision r pr s = StartCreation \<Longrightarrow> reg_step p r (start_reserved pr s r)"
| reg_fresh: "\<not> disposed r \<Longrightarrow> reg_step p r (start_fresh pr r)"
| reg_reserved_built: "building r c (ReservedAt pr s) \<Longrightarrow> reg_step p r (reserved_built c pr s m sid r)"
| reg_fresh_built:
    "building r c (FreshIn pr) \<Longrightarrow> pendingCreation r (addressKey pr s) = None \<Longrightarrow> sessionOwnerById r sid = None \<Longrightarrow>
     reg_step p r (fresh_built c pr s m sid r)"
| reg_factory_fails: "building r c k \<Longrightarrow> reg_step p r (with_stage c (Settled None) r)"
| reg_refused:
    "c < length (creating r) \<Longrightarrow> creation_stage (creating r ! c) = Refusing \<Longrightarrow>
     reg_step p r (with_stage c (Settled None) r)"
| reg_cleared:
    "c < length (creating r) \<Longrightarrow> creation_stage (creating r ! c) = Settled res \<Longrightarrow> reg_step p r (creation_cleared c r)"
| reg_collect: "i < length (activations r) \<Longrightarrow> reg_step p r (collect i r)"
| reg_collect_continues: "i < length (activations r) \<Longrightarrow> reg_step p r (collect_continues i r)"
| reg_dispose: "reg_step p r (dispose_registry r)"
| reg_drain: "reg_step p r (drain_continues r)"
| reg_actor:
    "i < length (activations r) \<Longrightarrow> actor_step p (act_actor (activations r ! i)) a \<Longrightarrow>
     (actor_phase (act_actor (activations r ! i)) = Live \<Longrightarrow> actor_phase a = Live) \<Longrightarrow>
     reg_step p r (with_actor i a r)"

inductive reg_reach :: "IdlePolicy \<Rightarrow> 'op Registry \<Rightarrow> bool" for p where
  reg_new: "reg_reach p newRegistry"
| reg_next: "reg_reach p r \<Longrightarrow> reg_step p r r' \<Longrightarrow> reg_reach p r'"

inductive_cases reg_stepE: "reg_step p r r'"

section \<open>The invariant\<close>

text \<open>
  An activation holds its runtime until its actor's close has resolved or rejected; a creation holds
  one, or is about to, until it has settled.
\<close>

definition actor_held :: "'op Actor \<Rightarrow> bool" where
  "actor_held a \<longleftrightarrow> closeStage a \<noteq> CloseResolved \<and> closeStage a \<noteq> CloseRejected"

definition held :: "'op Registry \<Rightarrow> nat \<Rightarrow> bool" where
  "held r i \<longleftrightarrow> i < length (activations r) \<and> actor_held (act_actor (activations r ! i))"

definition busy :: "'op Registry \<Rightarrow> nat \<Rightarrow> bool" where
  "busy r c \<longleftrightarrow> c < length (creating r) \<and> \<not> creation_settled r c"

definition keyOf :: "'op Registry \<Rightarrow> nat \<Rightarrow> string" where
  "keyOf r i = act_key (activations r ! i)"

text \<open>A creation that holds the reservation of an address.\<close>

definition reserves :: "'op Registry \<Rightarrow> nat \<Rightarrow> string \<Rightarrow> bool" where
  "reserves r c k \<longleftrightarrow> c < length (creating r) \<and> creation_stage (creating r ! c) \<noteq> Cleared \<and>
     (case creation_kind (creating r ! c) of ReservedAt p s \<Rightarrow> addressKey p s = k | FreshIn p \<Rightarrow> False)"

definition heap_inv :: "'op Registry \<Rightarrow> bool" where
  "heap_inv r \<longleftrightarrow> set (records r) \<subseteq> {..<length (activations r)} \<and> generations r = length (activations r) \<and>
     (\<forall>i < length (activations r). act_generation (activations r ! i) = Suc i \<and> actor_inv (act_actor (activations r ! i)))"

definition index_inv :: "'op Registry \<Rightarrow> bool" where
  "index_inv r \<longleftrightarrow>
     (\<forall>k i. byAddress r k = Some i \<longrightarrow> i \<in> set (records r) \<and> keyOf r i = k) \<and>
     (\<forall>k c. pendingCreation r k = Some c \<longrightarrow> reserves r c k) \<and>
     (disposed r \<longrightarrow> records r = [] \<and> byAddress r = Map.empty \<and> pendingCreation r = Map.empty \<and> sessionOwnerById r = Map.empty)"

definition excl_inv :: "'op Registry \<Rightarrow> bool" where
  "excl_inv r \<longleftrightarrow>
     (\<forall>i j. held r i \<and> held r j \<and> keyOf r i = keyOf r j \<longrightarrow> i = j) \<and>
     (\<forall>i c. held r i \<and> busy r c \<longrightarrow> \<not> reserves r c (keyOf r i)) \<and>
     (\<forall>c d k. reserves r c k \<and> reserves r d k \<longrightarrow> c = d)"

definition claim_inv :: "'op Registry \<Rightarrow> bool" where
  "claim_inv r \<longleftrightarrow> (\<not> disposed r \<longrightarrow>
     (\<forall>i. held r i \<longrightarrow> byAddress r (keyOf r i) = Some i \<and>
        sessionOwnerById r (act_session (activations r ! i)) =
          Some (i, act_project (activations r ! i), act_stem (activations r ! i))) \<and>
     (\<forall>c k. reserves r c k \<longrightarrow> pendingCreation r k = Some c) \<and>
     (\<forall>c < length (creating r). \<forall>pr. creation_kind (creating r ! c) = FreshIn pr \<and> creation_stage (creating r ! c) \<noteq> Cleared \<longrightarrow>
        c \<in> set (creationSet r)))"

definition collect_inv :: "'op Registry \<Rightarrow> bool" where
  "collect_inv r \<longleftrightarrow>
     (\<forall>i. held r i \<longrightarrow> collecting (activations r ! i) \<noteq> CollectCleaned) \<and>
     (\<forall>i. held r i \<and> i \<in> set (records r) \<and> \<not> act_live r i \<longrightarrow> collecting (activations r ! i) \<noteq> NoCollect)"

definition drain_inv :: "'op Registry \<Rightarrow> bool" where
  "drain_inv r \<longleftrightarrow> (disposed r \<longleftrightarrow> disposeDrain r \<noteq> NoDrain) \<and>
     (case disposeDrain r of
        DrainSettling as cs closing \<Rightarrow> set closing \<subseteq> {..<length (activations r)} \<and>
          (\<forall>i. held r i \<longrightarrow> i \<in> set closing \<or> i \<in> set as \<and> collecting (activations r ! i) \<noteq> NoCollect) \<and>
          (\<forall>c. busy r c \<longrightarrow> c \<in> set cs)
      | DrainClosing ids \<Rightarrow> ids \<noteq> [] \<and> set ids \<subseteq> {..<length (activations r)} \<and>
          (\<forall>i. held r i \<longrightarrow> i \<in> set ids) \<and> (\<forall>c. \<not> busy r c)
      | DrainResolved \<Rightarrow> (\<forall>i. \<not> held r i) \<and> (\<forall>c. \<not> busy r c)
      | _ \<Rightarrow> True)"

definition reg_inv :: "'op Registry \<Rightarrow> bool" where
  "reg_inv r \<longleftrightarrow> heap_inv r \<and> index_inv r \<and> excl_inv r \<and> claim_inv r \<and> collect_inv r \<and> drain_inv r"

lemmas reg_parts = heap_inv_def index_inv_def excl_inv_def claim_inv_def collect_inv_def drain_inv_def

lemma reg_inv_new: "reg_inv newRegistry"
  by (auto simp: reg_inv_def reg_parts newRegistry_def held_def busy_def reserves_def)

section \<open>Updates\<close>

lemma with_actor_simps [simp]:
  "length (activations (with_actor i a r)) = length (activations r)" "records (with_actor i a r) = records r"
  "byAddress (with_actor i a r) = byAddress r" "creating (with_actor i a r) = creating r"
  "pendingCreation (with_actor i a r) = pendingCreation r" "creationSet (with_actor i a r) = creationSet r"
  "sessionOwnerById (with_actor i a r) = sessionOwnerById r" "generations (with_actor i a r) = generations r"
  "disposed (with_actor i a r) = disposed r" "disposeDrain (with_actor i a r) = disposeDrain r"
  by (simp_all add: with_actor_def)

lemma with_collecting_simps [simp]:
  "length (activations (with_collecting i s r)) = length (activations r)" "records (with_collecting i s r) = records r"
  "byAddress (with_collecting i s r) = byAddress r" "creating (with_collecting i s r) = creating r"
  "pendingCreation (with_collecting i s r) = pendingCreation r" "creationSet (with_collecting i s r) = creationSet r"
  "sessionOwnerById (with_collecting i s r) = sessionOwnerById r" "generations (with_collecting i s r) = generations r"
  "disposed (with_collecting i s r) = disposed r" "disposeDrain (with_collecting i s r) = disposeDrain r"
  by (simp_all add: with_collecting_def)

lemma with_stage_simps [simp]:
  "activations (with_stage c s r) = activations r" "records (with_stage c s r) = records r"
  "byAddress (with_stage c s r) = byAddress r" "length (creating (with_stage c s r)) = length (creating r)"
  "pendingCreation (with_stage c s r) = pendingCreation r" "creationSet (with_stage c s r) = creationSet r"
  "sessionOwnerById (with_stage c s r) = sessionOwnerById r" "generations (with_stage c s r) = generations r"
  "disposed (with_stage c s r) = disposed r" "disposeDrain (with_stage c s r) = disposeDrain r"
  by (simp_all add: with_stage_def)

lemma with_actor_nth:
  "i < length (activations r) \<Longrightarrow> activations (with_actor i a r) ! j =
     (if j = i then (activations r ! i)\<lparr>act_actor := a\<rparr> else activations r ! j)"
  by (simp add: with_actor_def)

lemma with_collecting_nth:
  "i < length (activations r) \<Longrightarrow> activations (with_collecting i s r) ! j =
     (if j = i then (activations r ! i)\<lparr>collecting := s\<rparr> else activations r ! j)"
  by (simp add: with_collecting_def)

lemma with_stage_nth:
  "c < length (creating r) \<Longrightarrow> creating (with_stage c s r) ! d =
     (if d = c then (creating r ! c)\<lparr>creation_stage := s\<rparr> else creating r ! d)"
  by (simp add: with_stage_def)

text \<open>The views of the invariant depend on the activations, or on the creations, only.\<close>

lemma creation_views:
  assumes "creating r' = creating r"
  shows "busy r' = busy r" "reserves r' = reserves r"
  using assms by (auto simp: busy_def reserves_def creation_settled_def fun_eq_iff)

lemma activation_views:
  assumes "activations r' = activations r"
  shows "held r' = held r" "keyOf r' = keyOf r" "act_live r' = act_live r"
  using assms by (auto simp: held_def keyOf_def act_live_def fun_eq_iff)

lemma keyOf_with_actor [simp]: "i < length (activations r) \<Longrightarrow> keyOf (with_actor i a r) = keyOf r"
  by (auto simp: keyOf_def with_actor_nth act_key_def fun_eq_iff)

lemma held_with_actor:
  "i < length (activations r) \<Longrightarrow> held (with_actor i a r) j \<longleftrightarrow> (if j = i then actor_held a else held r j)"
  by (auto simp: held_def with_actor_nth)

lemma views_with_collecting [simp]:
  assumes "i < length (activations r)"
  shows "keyOf (with_collecting i s r) = keyOf r" "held (with_collecting i s r) = held r"
    "act_live (with_collecting i s r) = act_live r"
  using assms by (auto simp: keyOf_def held_def act_live_def with_collecting_nth act_key_def fun_eq_iff)

lemma reserves_with_stage:
  "c < length (creating r) \<Longrightarrow> creation_stage (creating r ! c) \<noteq> Cleared \<Longrightarrow>
   reserves (with_stage c s r) d k \<longleftrightarrow> reserves r d k \<and> (d = c \<longrightarrow> s \<noteq> Cleared)"
  by (auto simp: reserves_def with_stage_nth)

lemma busy_with_stage:
  "c < length (creating r) \<Longrightarrow>
   busy (with_stage c s r) d \<longleftrightarrow> (if d = c then s = Building \<or> s = Refusing else busy r d)"
  by (auto simp: busy_def creation_settled_def with_stage_nth)

lemma building_busy: "building r c k \<Longrightarrow> busy r c"
  by (auto simp: building_def busy_def creation_settled_def)

section \<open>Preservation\<close>

lemma reg_inv_with_actor:
  assumes "reg_inv r" "i < length (activations r)" "actor_inv a"
    "actor_held a \<Longrightarrow> actor_held (act_actor (activations r ! i))"
    "i \<in> set (records r) \<Longrightarrow> actor_phase a \<noteq> Live \<Longrightarrow> actor_held a \<Longrightarrow> collecting (activations r ! i) \<noteq> NoCollect"
  shows "reg_inv (with_actor i a r)"
proof -
  let ?r = "with_actor i a r"
  have h: "held ?r j \<Longrightarrow> held r j" for j
    using assms(2,4) held_with_actor[OF assms(2), of a j] by (auto simp: held_def[of r] split: if_splits)
  have v: "busy ?r = busy r" "reserves ?r = reserves r" using creation_views[of ?r r] by simp_all
  have same: "act_session (activations ?r ! j) = act_session (activations r ! j)"
    "act_project (activations ?r ! j) = act_project (activations r ! j)" "act_stem (activations ?r ! j) = act_stem (activations r ! j)"
    "collecting (activations ?r ! j) = collecting (activations r ! j)"
    "act_generation (activations ?r ! j) = act_generation (activations r ! j)" for j
    using assms(2) by (simp_all add: with_actor_nth)
  have "heap_inv ?r" using assms(1-3) by (auto simp: reg_inv_def heap_inv_def with_actor_nth)
  moreover have "index_inv ?r" using assms(1,2) v by (simp add: reg_inv_def index_inv_def)
  moreover have "excl_inv ?r" using assms(1,2) v h by (auto simp: reg_inv_def excl_inv_def)
  moreover have "claim_inv ?r" using assms(1,2) v h by (simp add: reg_inv_def claim_inv_def same)
  moreover have "collect_inv ?r"
  proof -
    have c: "collect_inv r" using assms(1) by (simp add: reg_inv_def)
    have l: "act_live ?r j \<longleftrightarrow> (if j = i then actor_phase a = Live else act_live r j)" for j
      using assms(2) by (simp add: act_live_def with_actor_nth)
    have hi: "held ?r i \<longleftrightarrow> actor_held a" using assms(2) by (simp add: held_with_actor)
    show ?thesis
      unfolding collect_inv_def same l
    proof (intro conjI allI impI)
      fix j assume "held ?r j"
      then show "collecting (activations r ! j) \<noteq> CollectCleaned" using c h[of j] by (simp add: collect_inv_def)
    next
      fix j assume a: "held ?r j \<and> j \<in> set (records ?r) \<and> \<not> (if j = i then actor_phase a = Live else act_live r j)"
      then show "collecting (activations r ! j) \<noteq> NoCollect"
        using c h[of j] assms(5) hi by (cases "j = i") (simp_all add: collect_inv_def)
    qed
  qed
  moreover have "drain_inv ?r"
    using assms(1) v h by (auto simp: reg_inv_def drain_inv_def same split: Drain.splits)
  ultimately show ?thesis by (simp add: reg_inv_def)
qed

lemma reg_inv_with_collecting:
  assumes "reg_inv r" "i < length (activations r)" "held r i \<Longrightarrow> s = CollectClosing"
  shows "reg_inv (with_collecting i s r)"
proof -
  let ?r = "with_collecting i s r"
  have v: "busy ?r = busy r" "reserves ?r = reserves r" using creation_views[of ?r r] by simp_all
  have same: "act_session (activations ?r ! j) = act_session (activations r ! j)"
    "act_project (activations ?r ! j) = act_project (activations r ! j)" "act_stem (activations ?r ! j) = act_stem (activations r ! j)"
    "act_actor (activations ?r ! j) = act_actor (activations r ! j)"
    "act_generation (activations ?r ! j) = act_generation (activations r ! j)"
    "collecting (activations ?r ! j) = (if j = i then s else collecting (activations r ! j))" for j
    using assms(2) by (simp_all add: with_collecting_nth)
  have "heap_inv ?r" using assms(1) by (simp add: reg_inv_def heap_inv_def same)
  moreover have "index_inv ?r = index_inv r" "excl_inv ?r = excl_inv r" "claim_inv ?r = claim_inv r"
    by (simp_all add: index_inv_def excl_inv_def claim_inv_def same v assms(2))
  moreover have "collect_inv ?r"
  proof -
    have "collect_inv r" using assms(1) by (simp add: reg_inv_def)
    then show ?thesis using assms(2,3) unfolding collect_inv_def same by auto
  qed
  moreover have "drain_inv ?r"
  proof -
    have "drain_inv r" using assms(1) by (simp add: reg_inv_def)
    then show ?thesis
      using assms(2,3) unfolding drain_inv_def same v with_collecting_simps views_with_collecting[OF assms(2)]
      by (cases "disposeDrain r") auto
  qed
  ultimately show ?thesis using assms(1) by (simp add: reg_inv_def)
qed

lemma reg_inv_with_stage:
  assumes "reg_inv r" "c < length (creating r)" "creation_stage (creating r ! c) \<noteq> Cleared" "s \<noteq> Cleared"
    "s = Building \<or> s = Refusing \<Longrightarrow> busy r c"
  shows "reg_inv (with_stage c s r)"
proof -
  let ?r = "with_stage c s r"
  have v: "held ?r = held r" "keyOf ?r = keyOf r" "act_live ?r = act_live r" using activation_views[of ?r r] by simp_all
  have rs: "reserves ?r d k = reserves r d k" for d k using assms(2-4) by (simp add: reserves_with_stage)
  have b: "busy ?r d \<Longrightarrow> busy r d" for d using assms(2,5) by (auto simp: busy_with_stage split: if_splits)
  have "heap_inv ?r" "index_inv ?r" "collect_inv ?r"
    using assms(1) v by (simp_all add: reg_inv_def heap_inv_def index_inv_def collect_inv_def rs)
  moreover have "excl_inv ?r" using assms(1) v b by (auto simp: reg_inv_def excl_inv_def rs)
  moreover have "claim_inv ?r" using assms(1-4) v by (auto simp: reg_inv_def claim_inv_def rs with_stage_nth)
  moreover have "drain_inv ?r" using assms(1) v b by (auto simp: reg_inv_def drain_inv_def split: Drain.splits)
  ultimately show ?thesis by (simp add: reg_inv_def)
qed

lemma pending_reserves: "reg_inv r \<Longrightarrow> pendingCreation r k = Some c \<Longrightarrow> reserves r c k"
  unfolding reg_inv_def index_inv_def by blast

lemma reserves_pending: "reg_inv r \<Longrightarrow> \<not> disposed r \<Longrightarrow> reserves r c k \<Longrightarrow> pendingCreation r k = Some c"
  unfolding reg_inv_def claim_inv_def by blast

lemma reserves_once: "reg_inv r \<Longrightarrow> reserves r c k \<Longrightarrow> reserves r d k \<Longrightarrow> c = d"
  unfolding reg_inv_def excl_inv_def by blast

lemma held_once: "reg_inv r \<Longrightarrow> held r i \<Longrightarrow> held r j \<Longrightarrow> keyOf r i = keyOf r j \<Longrightarrow> i = j"
  unfolding reg_inv_def excl_inv_def by blast

lemma held_not_reserved: "reg_inv r \<Longrightarrow> held r i \<Longrightarrow> busy r c \<Longrightarrow> \<not> reserves r c (keyOf r i)"
  unfolding reg_inv_def excl_inv_def by blast

lemma held_addressed: "reg_inv r \<Longrightarrow> \<not> disposed r \<Longrightarrow> held r i \<Longrightarrow> byAddress r (keyOf r i) = Some i"
  unfolding reg_inv_def claim_inv_def by blast

lemma addressed_record: "reg_inv r \<Longrightarrow> byAddress r k = Some i \<Longrightarrow> i \<in> set (records r) \<and> keyOf r i = k"
  unfolding reg_inv_def index_inv_def by blast

lemma held_claims:
  "reg_inv r \<Longrightarrow> \<not> disposed r \<Longrightarrow> held r i \<Longrightarrow> sessionOwnerById r (act_session (activations r ! i)) =
     Some (i, act_project (activations r ! i), act_stem (activations r ! i))"
  unfolding reg_inv_def claim_inv_def by blast

lemma fresh_tracked:
  "reg_inv r \<Longrightarrow> \<not> disposed r \<Longrightarrow> c < length (creating r) \<Longrightarrow> creation_kind (creating r ! c) = FreshIn pr \<Longrightarrow>
   creation_stage (creating r ! c) \<noteq> Cleared \<Longrightarrow> c \<in> set (creationSet r)"
  unfolding reg_inv_def claim_inv_def by blast

lemma reg_inv_cleared:
  assumes "reg_inv r" "c < length (creating r)" "creation_stage (creating r ! c) = Settled res"
  shows "reg_inv (creation_cleared c r)"
proof -
  let ?r = "creation_cleared c r"
  have other: "activations ?r = activations r" "records ?r = records r" "byAddress ?r = byAddress r"
    "sessionOwnerById ?r = sessionOwnerById r" "generations ?r = generations r" "disposed ?r = disposed r"
    "disposeDrain ?r = disposeDrain r" "length (creating ?r) = length (creating r)"
    by (simp_all add: creation_cleared_def split: CreationKind.split)
  have cr: "creating ?r ! d = (if d = c then (creating r ! c)\<lparr>creation_stage := Cleared\<rparr> else creating r ! d)" for d
    using assms(2) by (simp add: creation_cleared_def with_stage_def split: CreationKind.split)
  have rs: "reserves ?r d k \<longleftrightarrow> reserves r d k \<and> d \<noteq> c" for d k by (auto simp: reserves_def other cr)
  have b: "busy ?r d \<longleftrightarrow> busy r d" for d using assms(3) by (auto simp: busy_def creation_settled_def other cr)
  have pend: "pendingCreation ?r k = (if reserves r c k then None else pendingCreation r k)" for k
    using assms(2,3) by (auto simp: creation_cleared_def reserves_def split: CreationKind.split)
  have fresh: "set (creationSet ?r) \<supseteq> set (creationSet r) - {c}"
    by (auto simp: creation_cleared_def split: CreationKind.split)
  have v: "held ?r = held r" "keyOf ?r = keyOf r" "act_live ?r = act_live r"
    using activation_views[of ?r r] other by simp_all
  note p = pending_reserves[OF assms(1)] reserves_pending[OF assms(1)] reserves_once[OF assms(1)]
  have "heap_inv ?r = heap_inv r" "collect_inv ?r = collect_inv r" "drain_inv ?r = drain_inv r"
    by (simp_all add: heap_inv_def collect_inv_def drain_inv_def other v b split: Drain.split)
  moreover have "index_inv ?r"
  proof -
    have "pendingCreation ?r k = Some d \<Longrightarrow> reserves ?r d k" for k d using p(1)[of k d] by (auto simp: pend rs split: if_splits)
    moreover have "disposed r \<Longrightarrow> pendingCreation ?r = Map.empty"
      using assms(1) by (simp add: pend reg_inv_def index_inv_def fun_eq_iff)
    moreover have "index_inv r" using assms(1) by (simp add: reg_inv_def)
    ultimately show ?thesis unfolding index_inv_def other v by blast
  qed
  moreover have "excl_inv ?r" using assms(1) unfolding reg_inv_def excl_inv_def other v b rs by blast
  moreover have "claim_inv ?r"
  proof -
    have "pendingCreation ?r k = Some d" if "reserves ?r d k" "\<not> disposed r" for k d
      using p(2)[of d k] p(3)[of c k d] that by (auto simp: pend rs)
    moreover have "d \<in> set (creationSet ?r)"
      if "d < length (creating r)" "creation_kind (creating ?r ! d) = FreshIn pr" "creation_stage (creating ?r ! d) \<noteq> Cleared"
        "\<not> disposed r" for d pr
    proof -
      have "d \<noteq> c" using that(3) by (auto simp: cr)
      moreover from this have "d \<in> set (creationSet r)"
        using that fresh_tracked[OF assms(1)] by (simp add: cr)
      ultimately show ?thesis using fresh by blast
    qed
    moreover have "claim_inv r" using assms(1) by (simp add: reg_inv_def)
    ultimately show ?thesis unfolding claim_inv_def other v by blast
  qed
  ultimately show ?thesis using assms(1) by (simp add: reg_inv_def)
qed

lemma reg_inv_not_disposed: "reg_inv r \<Longrightarrow> \<not> disposed r \<Longrightarrow> disposeDrain r = NoDrain"
  by (simp add: reg_inv_def drain_inv_def)

lemma reg_inv_start_fresh:
  assumes "reg_inv r" "\<not> disposed r"
  shows "reg_inv (start_fresh pr r)"
proof -
  let ?r = "start_fresh pr r" and ?n = "length (creating r)"
  have other: "activations ?r = activations r" "records ?r = records r" "byAddress ?r = byAddress r"
    "sessionOwnerById ?r = sessionOwnerById r" "generations ?r = generations r" "disposed ?r = disposed r"
    "disposeDrain ?r = disposeDrain r" "pendingCreation ?r = pendingCreation r" "creationSet ?r = creationSet r @ [?n]"
    "creating ?r = creating r @ [\<lparr>creation_kind = FreshIn pr, creation_stage = Building\<rparr>]"
    by (simp_all add: start_fresh_def)
  have v: "held ?r = held r" "keyOf ?r = keyOf r" "act_live ?r = act_live r"
    using activation_views[of ?r r] other by simp_all
  have rs: "reserves ?r d k = reserves r d k" for d k by (auto simp: reserves_def other nth_append)
  have b: "busy ?r d \<and> reserves r d k \<longleftrightarrow> busy r d \<and> reserves r d k" for d k
    by (auto simp: busy_def reserves_def creation_settled_def other nth_append)
  have "heap_inv ?r = heap_inv r" "collect_inv ?r = collect_inv r" "index_inv ?r = index_inv r"
    by (simp_all add: heap_inv_def collect_inv_def index_inv_def other v rs)
  moreover have "excl_inv ?r" using assms(1) b unfolding reg_inv_def excl_inv_def v rs by blast
  moreover have "claim_inv ?r"
    using assms by (auto simp: reg_inv_def claim_inv_def other v rs nth_append less_Suc_eq)
  moreover have "drain_inv ?r" using assms by (simp add: reg_inv_def drain_inv_def other)
  ultimately show ?thesis using assms(1) by (simp add: reg_inv_def)
qed

text \<open>A round of \<^verbatim>\<open>reserve\<close> starts a creation only when nothing holds the address.\<close>

lemma start_creation_free:
  assumes "reg_inv r" "reserve_decision r pr s = StartCreation"
  shows "\<not> disposed r" "pendingCreation r (addressKey pr s) = None" "held r i \<Longrightarrow> keyOf r i \<noteq> addressKey pr s"
proof -
  show d: "\<not> disposed r" and "pendingCreation r (addressKey pr s) = None"
    using assms(2) by (auto simp: reserve_decision_def Let_def split: if_splits option.splits)
  show "keyOf r i \<noteq> addressKey pr s" if h: "held r i"
  proof
    assume k: "keyOf r i = addressKey pr s"
    have "byAddress r (keyOf r i) = Some i" by (rule held_addressed[OF assms(1) d h])
    moreover from this have rec: "i \<in> set (records r)" using addressed_record[OF assms(1)] by blast
    ultimately have "byAddressAny r pr s = Some i" by (simp add: byAddressAny_def k)
    then have "\<not> act_live r i \<and> collecting (activations r ! i) = NoCollect"
      using assms(2) d by (auto simp: reserve_decision_def Let_def split: if_splits option.splits)
    then show False using assms(1) h rec by (auto simp: reg_inv_def collect_inv_def)
  qed
qed

lemma reg_inv_start_reserved:
  assumes "reg_inv r" "reserve_decision r pr s = StartCreation"
  shows "reg_inv (start_reserved pr s r)"
proof -
  let ?r = "start_reserved pr s r" and ?n = "length (creating r)" and ?k = "addressKey pr s"
  note free = start_creation_free[OF assms]
  have other: "activations ?r = activations r" "records ?r = records r" "byAddress ?r = byAddress r"
    "sessionOwnerById ?r = sessionOwnerById r" "generations ?r = generations r" "disposed ?r = disposed r"
    "disposeDrain ?r = disposeDrain r" "pendingCreation ?r = (pendingCreation r)(?k \<mapsto> ?n)" "creationSet ?r = creationSet r"
    "creating ?r = creating r @ [\<lparr>creation_kind = ReservedAt pr s, creation_stage = Building\<rparr>]"
    by (simp_all add: start_reserved_def)
  have v: "held ?r = held r" "keyOf ?r = keyOf r" "act_live ?r = act_live r"
    using activation_views[of ?r r] other by simp_all
  have rs: "reserves ?r d k \<longleftrightarrow> reserves r d k \<or> d = ?n \<and> k = ?k" for d k by (auto simp: reserves_def other nth_append)
  have b: "busy ?r d \<longleftrightarrow> busy r d \<or> d = ?n" for d
    by (auto simp: busy_def creation_settled_def other nth_append)
  note p = reserves_pending[OF assms(1) free(1)] pending_reserves[OF assms(1)]
  have no: "\<not> reserves r d ?k" for d using p(1)[of d ?k] free(2) by auto
  have nn: "\<not> reserves r ?n k" "\<not> busy r ?n" for k by (simp_all add: reserves_def busy_def)
  have "heap_inv ?r = heap_inv r" "collect_inv ?r = collect_inv r"
    by (simp_all add: heap_inv_def collect_inv_def other v)
  moreover have "index_inv ?r"
  proof -
    have "pendingCreation ?r k = Some c \<Longrightarrow> reserves ?r c k" for k c
      using p(2)[of k c] by (auto simp: rs other(8) split: if_splits)
    moreover have "index_inv r" using assms(1) by (simp add: reg_inv_def)
    ultimately show ?thesis using free(1) unfolding index_inv_def other(2,3,4,6) v by blast
  qed
  moreover have "excl_inv ?r"
  proof -
    have "held r i \<Longrightarrow> busy ?r c \<Longrightarrow> \<not> reserves ?r c (keyOf r i)" for i c
      using held_not_reserved[OF assms(1), of i c] free(3)[of i] nn by (auto simp: rs b)
    moreover have "reserves ?r c k \<Longrightarrow> reserves ?r d k \<Longrightarrow> c = d" for c d k
      using reserves_once[OF assms(1), of c k d] no nn by (auto simp: rs)
    ultimately show ?thesis using held_once[OF assms(1)] unfolding excl_inv_def v by blast
  qed
  moreover have "claim_inv ?r"
  proof -
    have "reserves ?r c k \<Longrightarrow> pendingCreation ?r k = Some c" for c k using p(1)[of c k] no by (auto simp: rs other)
    moreover have "c < length (creating ?r) \<Longrightarrow> creation_kind (creating ?r ! c) = FreshIn q \<Longrightarrow>
        creation_stage (creating ?r ! c) \<noteq> Cleared \<Longrightarrow> c \<in> set (creationSet ?r)" for c q
      using fresh_tracked[OF assms(1) free(1), of c q] by (cases "c < ?n") (simp_all add: other nth_append)
    ultimately show ?thesis
      using held_addressed[OF assms(1) free(1)] held_claims[OF assms(1) free(1)] unfolding claim_inv_def v other(1,3,4,6) by blast
  qed
  moreover have "drain_inv ?r" using assms(1) free(1) by (simp add: reg_inv_def drain_inv_def other)
  ultimately show ?thesis using assms(1) by (simp add: reg_inv_def)
qed

lemma register_with_stage:
  "register m pr s sid (with_stage c st r) = map_option (with_stage c st) (register m pr s sid r)"
  by (simp add: register_def with_stage_def Let_def)

lemma reg_inv_register:
  assumes "reg_inv r" "register m pr s sid r = Some r'"
    "\<And>i. held r i \<Longrightarrow> keyOf r i \<noteq> addressKey pr s" "\<And>c. busy r c \<Longrightarrow> \<not> reserves r c (addressKey pr s)"
    "\<And>w. sessionOwnerById r sid = Some w \<Longrightarrow> snd w = (pr, s)"
  shows "reg_inv r'"
proof -
  let ?n = "length (activations r)" and ?k = "addressKey pr s"
  let ?x = "\<lparr>act_project = pr, act_stem = s, act_session = sid, act_generation = Suc (generations r),
      act_actor = createSessionActor m, collecting = NoCollect\<rparr>"
  have d: "\<not> disposed r" and other: "activations r' = activations r @ [?x]" "records r' = records r @ [?n]"
    "byAddress r' = (byAddress r)(?k \<mapsto> ?n)" "sessionOwnerById r' = (sessionOwnerById r)(sid \<mapsto> (?n, pr, s))"
    "generations r' = Suc (generations r)" "disposed r' = disposed r" "disposeDrain r' = disposeDrain r"
    "pendingCreation r' = pendingCreation r" "creationSet r' = creationSet r" "creating r' = creating r"
    using assms(2) by (auto simp: register_def Let_def split: if_splits)
  have v: "busy r' = busy r" "reserves r' = reserves r" using creation_views other(10) by auto
  have k: "keyOf r' i = (if i < ?n then keyOf r i else ?k)" if "i \<le> ?n" for i
    using that by (auto simp: keyOf_def act_key_def other nth_append)
  have h: "held r' i \<longleftrightarrow> held r i \<or> i = ?n" for i
    by (auto simp: held_def other nth_append actor_held_def createSessionActor_def)
  have lt: "held r i \<Longrightarrow> i < ?n" for i by (simp add: held_def)
  have old: "held r i \<Longrightarrow> keyOf r' i = keyOf r i \<and> activations r' ! i = activations r ! i" for i
    using lt[of i] k[of i] by (simp add: other(1) nth_append)
  have n: "activations r' ! ?n = ?x" "keyOf r' ?n = ?k" using k[of ?n] by (simp_all add: other(1))
  have "heap_inv r'"
    using assms(1) by (auto simp: reg_inv_def heap_inv_def other nth_append less_Suc_eq actor_inv_new)
  moreover have "index_inv r'"
  proof -
    have "i \<in> set (records r') \<and> keyOf r' i = a" if "byAddress r' a = Some i" for a i
    proof (cases "a = ?k")
      case True
      then show ?thesis using that n by (simp add: other)
    next
      case False
      then have "i \<in> set (records r)" "keyOf r i = a" using that addressed_record[OF assms(1)] by (simp_all add: other)
      moreover from this have "i < ?n" using assms(1) by (auto simp: reg_inv_def heap_inv_def)
      ultimately show ?thesis using k[of i] by (simp add: other)
    qed
    then show ?thesis using d pending_reserves[OF assms(1)] unfolding index_inv_def v other(6,8) by blast
  qed
  moreover have "excl_inv r'"
  proof -
    have "i = j" if "held r' i" "held r' j" "keyOf r' i = keyOf r' j" for i j
      using that held_once[OF assms(1)] old n assms(3) unfolding h by metis
    moreover have "\<not> reserves r c (keyOf r' i)" if "held r' i" "busy r c" for i c
      using that held_not_reserved[OF assms(1)] old n assms(4) unfolding h by metis
    ultimately show ?thesis using reserves_once[OF assms(1)] unfolding excl_inv_def v by blast
  qed
  moreover have "claim_inv r'"
  proof -
    have "byAddress r' (keyOf r' i) = Some i \<and> sessionOwnerById r' (act_session (activations r' ! i)) =
        Some (i, act_project (activations r' ! i), act_stem (activations r' ! i))" if "held r' i" for i
    proof (cases "i = ?n")
      case True
      then show ?thesis using n by (simp add: other)
    next
      case False
      then have i: "held r i" using that h by simp
      have "keyOf r i \<noteq> ?k" by (rule assms(3)[OF i])
      moreover have "act_session (activations r ! i) \<noteq> sid"
      proof
        assume "act_session (activations r ! i) = sid"
        then have "act_project (activations r ! i) = pr" "act_stem (activations r ! i) = s"
          using held_claims[OF assms(1) d i] assms(5) by auto
        then show False using assms(3)[OF i] by (simp add: keyOf_def act_key_def)
      qed
      ultimately show ?thesis
        using old[OF i] held_addressed[OF assms(1) d i] held_claims[OF assms(1) d i] by (simp add: other)
    qed
    moreover have "c \<in> set (creationSet r')"
      if "c < length (creating r')" "creation_kind (creating r' ! c) = FreshIn q" "creation_stage (creating r' ! c) \<noteq> Cleared" for c q
      using that fresh_tracked[OF assms(1) d, of c q] by (simp add: other)
    ultimately show ?thesis using reserves_pending[OF assms(1) d] unfolding claim_inv_def v other(8) by blast
  qed
  moreover have "collect_inv r'"
  proof -
    have c: "collect_inv r" and hp: "heap_inv r" using assms(1) by (simp_all add: reg_inv_def)
    have "collecting (activations r' ! i) \<noteq> CollectCleaned" if "held r' i" for i
      using that c old[of i] n by (cases "i = ?n") (auto simp: h collect_inv_def)
    moreover have "collecting (activations r' ! i) \<noteq> NoCollect" if "held r' i" "i \<in> set (records r')" "\<not> act_live r' i" for i
    proof -
      have ne: "i \<noteq> ?n" using that(3) n by (auto simp: act_live_def createSessionActor_def)
      then have hi: "held r i" "i \<in> set (records r)" using that h by (auto simp: other)
      moreover have "\<not> act_live r i" using that(3) old[OF hi(1)] by (simp add: act_live_def)
      ultimately show ?thesis using c old[OF hi(1)] by (simp add: collect_inv_def)
    qed
    ultimately show ?thesis unfolding collect_inv_def by blast
  qed
  moreover have "drain_inv r'" using assms(1) d by (simp add: reg_inv_def drain_inv_def other)
  ultimately show ?thesis by (simp add: reg_inv_def)
qed

lemma reg_inv_settle_registration:
  assumes "reg_inv r" "building r c kd"
    "\<And>i. held r i \<Longrightarrow> keyOf r i \<noteq> addressKey pr s" "\<And>d. busy r d \<Longrightarrow> d \<noteq> c \<Longrightarrow> \<not> reserves r d (addressKey pr s)"
    "\<And>w. sessionOwnerById r sid = Some w \<Longrightarrow> snd w = (pr, s)"
  shows "reg_inv (settle_registration c (register m pr s sid r) r)"
proof -
  have b: "c < length (creating r)" "creation_stage (creating r ! c) = Building" using assms(2) by (auto simp: building_def)
  show ?thesis
  proof (cases "register m pr s sid r")
    case None
    then show ?thesis
      using reg_inv_with_stage[OF assms(1) b(1), of Refusing] b building_busy[OF assms(2)]
      by (simp add: settle_registration_def)
  next
    case (Some r')
    let ?st = "Settled (Some (length (activations r)))"
    let ?r = "with_stage c ?st r"
    have inv: "reg_inv ?r" by (rule reg_inv_with_stage[OF assms(1) b(1)]) (use b in auto)
    have v: "held ?r = held r" "keyOf ?r = keyOf r" using activation_views[of ?r r] by simp_all
    have reg: "register m pr s sid ?r = Some (with_stage c ?st r')" by (simp add: register_with_stage Some)
    have "\<not> reserves ?r d (addressKey pr s)" if "busy ?r d" for d
      using that assms(4)[of d] b by (simp add: busy_with_stage reserves_with_stage split: if_splits)
    then have "reg_inv (with_stage c ?st r')"
      by (intro reg_inv_register[OF inv reg]) (simp_all add: v assms(3,5))
    then show ?thesis by (simp add: settle_registration_def Some)
  qed
qed

lemma reg_inv_reserved_built:
  assumes "reg_inv r" "building r c (ReservedAt pr s)"
  shows "reg_inv (reserved_built c pr s m sid r)"
proof -
  have b: "c < length (creating r)" "creation_stage (creating r ! c) = Building" "reserves r c (addressKey pr s)" "busy r c"
    using assms(2) building_busy[OF assms(2)] by (auto simp: building_def reserves_def)
  have refuse: "reg_inv (with_stage c Refusing r)"
    by (rule reg_inv_with_stage[OF assms(1) b(1)]) (use b in auto)
  have settle: "reg_inv (settle_registration c (register m pr s sid r) r)"
    if "\<And>w. sessionOwnerById r sid = Some w \<Longrightarrow> snd w = (pr, s)"
  proof (rule reg_inv_settle_registration[OF assms])
    show "keyOf r i \<noteq> addressKey pr s" if "held r i" for i
      using held_not_reserved[OF assms(1) that b(4)] b(3) by metis
    show "\<not> reserves r d (addressKey pr s)" if "d \<noteq> c" for d
      using reserves_once[OF assms(1) b(3), of d] that by blast
  qed (rule that)
  show ?thesis
    using refuse settle by (auto simp: reserved_built_def split: option.split prod.split)
qed

lemma reg_inv_fresh_built:
  assumes "reg_inv r" "building r c (FreshIn pr)" "pendingCreation r (addressKey pr s) = None" "sessionOwnerById r sid = None"
  shows "reg_inv (fresh_built c pr s m sid r)"
proof -
  have b: "c < length (creating r)" "creation_stage (creating r ! c) = Building" "busy r c"
    using assms(2) building_busy[OF assms(2)] by (auto simp: building_def)
  have refuse: "reg_inv (with_stage c Refusing r)"
    by (rule reg_inv_with_stage[OF assms(1) b(1)]) (use b in auto)
  show ?thesis
  proof (cases "disposed r \<or> byAddressAny r pr s \<noteq> None")
    case True
    then show ?thesis using refuse by (auto simp: fresh_built_def settle_registration_def register_def)
  next
    case False
    then have d: "\<not> disposed r" and a: "byAddressAny r pr s = None" by simp_all
    have "keyOf r i \<noteq> addressKey pr s" if "held r i" for i
    proof
      assume k: "keyOf r i = addressKey pr s"
      have "byAddress r (addressKey pr s) = Some i" using held_addressed[OF assms(1) d that] k by simp
      then show False using a addressed_record[OF assms(1)] by (simp add: byAddressAny_def)
    qed
    moreover have "\<not> reserves r e (addressKey pr s)" for e
      using reserves_pending[OF assms(1) d, of e] assms(3) by auto
    ultimately have "reg_inv (settle_registration c (register m pr s sid r) r)"
      by (intro reg_inv_settle_registration[OF assms(1,2)]) (simp_all add: assms(4))
    then show ?thesis using a by (simp add: fresh_built_def)
  qed
qed

lemma actor_held_close: "actor_held (actor_close a) \<longleftrightarrow> actor_held a"
  by (auto simp: actor_held_def actor_close_def cancelIdle_def)

lemma reg_actor_inv: "reg_inv r \<Longrightarrow> i < length (activations r) \<Longrightarrow> actor_inv (act_actor (activations r ! i))"
  by (simp add: reg_inv_def heap_inv_def)

lemma reg_inv_collect:
  assumes "reg_inv r" "i < length (activations r)"
  shows "reg_inv (collect i r)"
proof -
  let ?x = "activations r ! i"
  let ?c = "with_collecting i CollectClosing r"
  have c: "reg_inv ?c" by (rule reg_inv_with_collecting[OF assms]) simp
  have "with_collecting i CollectClosing (with_actor i a r) = with_actor i a ?c" for a
    using assms(2) by (cases ?x) (simp add: with_collecting_def with_actor_def)
  moreover have "reg_inv (with_actor i (actor_close (act_actor ?x)) ?c)"
    by (rule reg_inv_with_actor[OF c])
      (use assms in \<open>simp_all add: actor_inv_close reg_actor_inv actor_held_close with_collecting_nth\<close>)
  ultimately show ?thesis using assms(1) by (simp add: collect_def Let_def)
qed

lemma reg_inv_release_indexes:
  assumes "reg_inv r" "i < length (activations r)" "\<not> held r i"
  shows "reg_inv (release_indexes i r)"
proof -
  let ?r = "release_indexes i r"
  have other: "activations ?r = activations r" "records ?r = removeAll i (records r)" "creating ?r = creating r"
    "generations ?r = generations r" "disposed ?r = disposed r"
    "disposeDrain ?r = disposeDrain r" "pendingCreation ?r = pendingCreation r" "creationSet ?r = creationSet r"
    by (simp_all add: release_indexes_def Let_def)
  have v: "held ?r = held r" "keyOf ?r = keyOf r" "act_live ?r = act_live r" "busy ?r = busy r" "reserves ?r = reserves r"
    using activation_views[of ?r r] creation_views[of ?r r] other by simp_all
  have a: "byAddress ?r k = (if byAddress r k = Some i \<and> k = keyOf r i then None else byAddress r k)" for k
    by (auto simp: release_indexes_def Let_def keyOf_def)
  have w: "sessionOwnerById r sid = Some (j, x) \<Longrightarrow> j \<noteq> i \<Longrightarrow> sessionOwnerById ?r sid = Some (j, x)" for sid j x
    by (auto simp: release_indexes_def Let_def split: option.splits)
  have "heap_inv ?r" using assms(1) by (auto simp: reg_inv_def heap_inv_def other)
  moreover have "index_inv ?r"
  proof -
    have "j \<in> set (records ?r) \<and> keyOf r j = k" if "byAddress ?r k = Some j" for k j
      using that addressed_record[OF assms(1), of k j] by (auto simp: a other split: if_splits)
    moreover have "disposed r \<Longrightarrow> records ?r = [] \<and> byAddress ?r = Map.empty \<and> pendingCreation r = Map.empty \<and>
        sessionOwnerById ?r = Map.empty"
      using assms(1) by (auto simp: reg_inv_def index_inv_def other release_indexes_def Let_def)
    ultimately show ?thesis using pending_reserves[OF assms(1)] unfolding index_inv_def v other(5,7) by blast
  qed
  moreover have "excl_inv ?r" using assms(1) unfolding reg_inv_def excl_inv_def v by blast
  moreover have "claim_inv ?r"
  proof -
    have "byAddress ?r (keyOf r j) = Some j \<and> sessionOwnerById ?r (act_session (activations r ! j)) =
        Some (j, act_project (activations r ! j), act_stem (activations r ! j))" if "held r j" "\<not> disposed r" for j
    proof -
      have "j \<noteq> i" using that(1) assms(3) by auto
      then show ?thesis
        using held_addressed[OF assms(1) that(2,1)] w[OF held_claims[OF assms(1) that(2,1)]] by (simp add: a)
    qed
    then show ?thesis
      using reserves_pending[OF assms(1)] fresh_tracked[OF assms(1)] unfolding claim_inv_def v other(1,3,5,7,8) by blast
  qed
  moreover have "collect_inv ?r" using assms(1) by (simp add: reg_inv_def collect_inv_def other v)
  moreover have "drain_inv ?r = drain_inv r" by (cases "disposeDrain r") (simp_all add: drain_inv_def other v)
  ultimately show ?thesis using assms(1) by (simp add: reg_inv_def)
qed

lemma held_actor: "i < length (activations r) \<Longrightarrow> held r i \<longleftrightarrow> actor_held (act_actor (activations r ! i))"
  by (simp add: held_def)

lemma reg_inv_collect_continues:
  assumes "reg_inv r" "i < length (activations r)"
  shows "reg_inv (collect_continues i r)"
proof (cases "collecting (activations r ! i)")
  case CollectCleaned
  then have "\<not> held r i" using assms(1) by (auto simp: reg_inv_def collect_inv_def)
  then show ?thesis using reg_inv_with_collecting[OF assms] CollectCleaned by (simp add: collect_continues_def Let_def)
next
  case CollectClosing
  show ?thesis
  proof (cases "held r i")
    case True
    then show ?thesis
      using assms CollectClosing
      by (auto simp: collect_continues_def Let_def held_actor actor_held_def split: CloseStage.split)
  next
    case False
    have "reg_inv (with_collecting i CollectCleaned (release_indexes i r))"
    proof (rule reg_inv_with_collecting)
      have a: "activations (release_indexes i r) = activations r" by (simp add: release_indexes_def Let_def)
      show "reg_inv (release_indexes i r)" by (rule reg_inv_release_indexes[OF assms False])
      show "i < length (activations (release_indexes i r))" using assms(2) a by simp
      show "held (release_indexes i r) i \<Longrightarrow> CollectCleaned = CollectClosing" using False activation_views(1)[OF a] by simp
    qed
    then show ?thesis
      using assms False reg_inv_with_collecting[OF assms, of NoCollect] CollectClosing
      by (auto simp: collect_continues_def Let_def split: CloseStage.split)
  qed
qed (use assms in \<open>simp add: collect_continues_def\<close>)

lemma reg_inv_dispose:
  assumes "reg_inv r"
  shows "reg_inv (dispose_registry r)"
proof (cases "disposeDrain r = NoDrain")
  case True
  let ?r = "dispose_registry r"
  have d: "\<not> disposed r" using assms True by (simp add: reg_inv_def drain_inv_def)
  have other: "activations ?r = activations r" "records ?r = []" "byAddress ?r = Map.empty" "creating ?r = creating r"
    "sessionOwnerById ?r = Map.empty" "generations ?r = generations r" "disposed ?r" "pendingCreation ?r = Map.empty"
    using True by (simp_all add: dispose_registry_def)
  have v: "held ?r = held r" "keyOf ?r = keyOf r" "act_live ?r = act_live r" "busy ?r = busy r" "reserves ?r = reserves r"
    using activation_views[of ?r r] creation_views[of ?r r] other by simp_all
  have "heap_inv ?r" "index_inv ?r" "excl_inv ?r" "claim_inv ?r" "collect_inv ?r"
    using assms by (simp_all add: reg_inv_def heap_inv_def index_inv_def excl_inv_def claim_inv_def collect_inv_def other v)
  moreover have "drain_inv ?r"
  proof -
    have "in_flight r c" "c < length (creating r)" if "busy r c" for c
    proof -
      show c: "c < length (creating r)" using that by (simp add: busy_def)
      have nc: "creation_stage (creating r ! c) \<noteq> Cleared" using that by (auto simp: busy_def creation_settled_def)
      show "in_flight r c"
      proof (cases "creation_kind (creating r ! c)")
        case (ReservedAt p s)
        then have "reserves r c (addressKey p s)" using c nc by (simp add: reserves_def)
        then show ?thesis using reserves_pending[OF assms d] ReservedAt by (simp add: in_flight_def)
      next
        case (FreshIn p)
        then show ?thesis using fresh_tracked[OF assms d c FreshIn nc] by (simp add: in_flight_def)
      qed
    qed
    moreover have "i \<in> set (records r)" if "held r i" for i
      using held_addressed[OF assms d that] addressed_record[OF assms] by blast
    moreover have "set (records r) \<subseteq> {..<length (activations r)}" using assms by (simp add: reg_inv_def heap_inv_def)
    ultimately show ?thesis unfolding drain_inv_def v other(1) using True by (auto simp: dispose_registry_def)
  qed
  ultimately show ?thesis by (simp add: reg_inv_def)
qed (simp add: dispose_registry_def assms)

lemma reg_inv_change_drain:
  assumes "reg_inv r" "disposed r" "drain_inv (r\<lparr>disposeDrain := d\<rparr>)"
  shows "reg_inv (r\<lparr>disposeDrain := d\<rparr>)"
proof -
  let ?r = "r\<lparr>disposeDrain := d\<rparr>"
  have v: "held ?r = held r" "keyOf ?r = keyOf r" "act_live ?r = act_live r" "busy ?r = busy r" "reserves ?r = reserves r"
    using activation_views[of ?r r] creation_views[of ?r r] by simp_all
  have "heap_inv ?r = heap_inv r" "index_inv ?r = index_inv r" "excl_inv ?r = excl_inv r" "claim_inv ?r = claim_inv r"
    "collect_inv ?r = collect_inv r"
    by (simp_all add: heap_inv_def index_inv_def excl_inv_def claim_inv_def collect_inv_def v)
  then show ?thesis using assms by (simp add: reg_inv_def)
qed

lemma reg_inv_drain_next:
  assumes "reg_inv r" "disposed r" "set ids \<subseteq> {..<length (activations r)}" "\<And>i. held r i \<Longrightarrow> i \<in> set ids" "\<And>c. \<not> busy r c"
  shows "reg_inv (drain_next ids r)"
proof (cases ids)
  case Nil
  have "drain_inv (r\<lparr>disposeDrain := DrainResolved\<rparr>)"
    using assms(2,4,5) Nil activation_views[of "r\<lparr>disposeDrain := DrainResolved\<rparr>" r]
      creation_views[of "r\<lparr>disposeDrain := DrainResolved\<rparr>" r]
    by (auto simp: drain_inv_def)
  from reg_inv_change_drain[OF assms(1,2) this] show ?thesis by (simp add: Nil drain_next_def)
next
  case (Cons i js)
  let ?a = "actor_close (act_actor (activations r ! i))"
  let ?r = "with_actor i ?a r"
  have i: "i < length (activations r)" using assms(3) Cons by simp
  have no: "records r = []" using assms(1,2) by (simp add: reg_inv_def index_inv_def)
  have inv: "reg_inv ?r"
    by (rule reg_inv_with_actor[OF assms(1) i])
      (use i assms(1) no in \<open>simp_all add: actor_inv_close reg_actor_inv actor_held_close\<close>)
  let ?d = "?r\<lparr>disposeDrain := DrainClosing ids\<rparr>"
  have "held ?r j \<Longrightarrow> held r j" for j
    using i by (auto simp: held_with_actor actor_held_close held_actor split: if_splits)
  moreover have "busy ?r = busy r" by (rule creation_views) simp
  ultimately have "drain_inv ?d"
    using assms(2-5) Cons activation_views[of ?d ?r] creation_views[of ?d ?r]
    by (simp add: drain_inv_def)
  from reg_inv_change_drain[OF inv _ this] assms(2) show ?thesis by (simp add: Cons drain_next_def)
qed

lemma reg_inv_drain:
  assumes "reg_inv r"
  shows "reg_inv (drain_continues r)"
proof -
  have dr: "drain_inv r" using assms by (simp add: reg_inv_def)
  show ?thesis
  proof (cases "disposeDrain r")
    case (DrainSettling as cs closing)
    then have d: "disposed r" using dr by (simp add: drain_inv_def)
    show ?thesis
    proof (cases "list_all (\<lambda>i. collecting (activations r ! i) = NoCollect) as \<and> list_all (creation_settled r) cs")
      case True
      have "reg_inv (drain_next closing r)"
      proof (rule reg_inv_drain_next[OF assms d])
        show "set closing \<subseteq> {..<length (activations r)}" using dr DrainSettling by (simp add: drain_inv_def)
        show "held r i \<Longrightarrow> i \<in> set closing" for i
          using dr DrainSettling True by (auto simp: drain_inv_def list_all_iff)
        show "\<not> busy r c" for c
          using dr DrainSettling True by (auto simp: drain_inv_def list_all_iff busy_def)
      qed
      then show ?thesis using True DrainSettling by (simp add: drain_continues_def)
    qed (use assms DrainSettling in \<open>auto simp: drain_continues_def\<close>)
  next
    case (DrainClosing ids)
    then obtain i js where ids: "ids = i # js" using dr by (cases ids) (auto simp: drain_inv_def)
    have d: "disposed r" and p: "set ids \<subseteq> {..<length (activations r)}" "\<And>j. held r j \<Longrightarrow> j \<in> set ids" "\<And>c. \<not> busy r c"
      using dr DrainClosing by (simp_all add: drain_inv_def)
    let ?s = "closeStage (act_actor (activations r ! i))"
    have "reg_inv (drain_next js r)" if "?s = CloseResolved"
    proof (rule reg_inv_drain_next[OF assms d])
      show "held r j \<Longrightarrow> j \<in> set js" for j
        using p(2)[of j] that ids by (auto simp: held_def actor_held_def)
    qed (use p ids in auto)
    moreover have "reg_inv (r\<lparr>disposeDrain := DrainRejected\<rparr>)"
      by (rule reg_inv_change_drain[OF assms d]) (simp add: drain_inv_def d)
    ultimately show ?thesis using assms DrainClosing ids
      by (auto simp: drain_continues_def split: CloseStage.split)
  qed (use assms in \<open>simp_all add: drain_continues_def\<close>)
qed

lemma reg_inv_actor:
  assumes "reg_inv r" "i < length (activations r)" "actor_step p (act_actor (activations r ! i)) a"
    "actor_phase (act_actor (activations r ! i)) = Live \<Longrightarrow> actor_phase a = Live"
  shows "reg_inv (with_actor i a r)"
proof -
  let ?b = "act_actor (activations r ! i)"
  have b: "actor_inv ?b" by (rule reg_actor_inv[OF assms(1,2)])
  have held: "actor_held ?b" if "actor_held a"
  proof (rule ccontr)
    assume "\<not> actor_held ?b"
    then have e: "closeStage ?b = CloseRejected \<or> closeStage ?b = CloseResolved" by (auto simp: actor_held_def)
    then have "actor_phase ?b \<noteq> Live" using b by (auto simp: actor_inv_def close_inv_def)
    from ended_step[OF assms(3) this e] e that show False by (auto simp: actor_held_def)
  qed
  moreover have "collecting (activations r ! i) \<noteq> NoCollect"
    if "i \<in> set (records r)" "actor_phase a \<noteq> Live" "actor_held a"
  proof -
    have "held r i" "\<not> act_live r i" using that assms(2,4) held by (auto simp: held_actor act_live_def)
    then show ?thesis using assms(1) that(1) by (simp add: reg_inv_def collect_inv_def)
  qed
  ultimately show ?thesis
    using reg_inv_with_actor[OF assms(1,2) actor_inv_step[OF assms(3) b]] by blast
qed

lemma reg_inv_step: "reg_step p r r' \<Longrightarrow> reg_inv r \<Longrightarrow> reg_inv r'"
proof (induction rule: reg_step.induct)
  case (reg_factory_fails r c k)
  then show ?case by (intro reg_inv_with_stage) (auto simp: building_def)
next
  case (reg_refused c r)
  then show ?case by (intro reg_inv_with_stage) auto
qed (simp_all add: reg_inv_start_reserved reg_inv_start_fresh reg_inv_reserved_built reg_inv_fresh_built
    reg_inv_cleared reg_inv_collect reg_inv_collect_continues reg_inv_dispose reg_inv_drain reg_inv_actor)

lemma reach_reg_inv: "reg_reach p r \<Longrightarrow> reg_inv r"
  by (induction rule: reg_reach.induct) (auto intro: reg_inv_new reg_inv_step)

section \<open>After shutdown began\<close>

lemma built_disposed:
  assumes "disposed r"
  shows "activations (reserved_built c pr s m sid r) = activations r" "activations (fresh_built c pr s m sid r) = activations r"
    "disposed (reserved_built c pr s m sid r)" "disposed (fresh_built c pr s m sid r)"
    "disposeDrain (reserved_built c pr s m sid r) = disposeDrain r" "disposeDrain (fresh_built c pr s m sid r) = disposeDrain r"
  using assms
  by (auto simp: reserved_built_def fresh_built_def settle_registration_def register_def split: option.split prod.split)

lemma cleared_other [simp]:
  "activations (creation_cleared c r) = activations r" "disposed (creation_cleared c r) = disposed r"
  "disposeDrain (creation_cleared c r) = disposeDrain r"
  by (simp_all add: creation_cleared_def split: CreationKind.split)

lemma release_indexes_other [simp]:
  "activations (release_indexes i r) = activations r" "disposed (release_indexes i r) = disposed r"
  "disposeDrain (release_indexes i r) = disposeDrain r"
  by (simp_all add: release_indexes_def Let_def)

lemma collect_continues_other [simp]:
  "length (activations (collect_continues i r)) = length (activations r)"
  "disposed (collect_continues i r) = disposed r" "disposeDrain (collect_continues i r) = disposeDrain r"
  by (simp_all add: collect_continues_def Let_def split: CollectStage.split CloseStage.split)

lemma drain_continues_other [simp]:
  "length (activations (drain_continues r)) = length (activations r)" "disposed (drain_continues r) = disposed r"
  by (simp_all add: drain_continues_def drain_next_def split: Drain.split list.split CloseStage.split)

lemma disposed_step:
  assumes "reg_step p r r'" "disposed r"
  shows "disposed r' \<and> length (activations r') = length (activations r)"
  using assms
proof (induction rule: reg_step.induct)
  case (reg_reserve r pr s)
  then show ?case by (simp add: reserve_decision_def Let_def)
qed (simp_all add: built_disposed collect_def dispose_registry_def Let_def)

lemma disposed_steps:
  assumes "(reg_step p)\<^sup>*\<^sup>* r r'" "disposed r"
  shows "disposed r' \<and> length (activations r') = length (activations r)"
  using assms by (induction rule: rtranclp_induct) (auto dest: disposed_step)

lemma collect_continues_live:
  "i < length (activations r) \<Longrightarrow> act_live (collect_continues i r) j = act_live r j"
  by (auto simp: collect_continues_def Let_def act_live_def with_collecting_nth split: CollectStage.split CloseStage.split)

lemma drain_rejected_step:
  assumes "reg_step p r r'" "disposed r" "disposeDrain r = DrainRejected"
  shows "disposeDrain r' = DrainRejected \<and> (\<forall>i. act_live r i \<longrightarrow> act_live r' i)"
  using assms
proof (induction rule: reg_step.induct)
  case (reg_reserve r pr s)
  then show ?case by (simp add: reserve_decision_def Let_def)
qed (auto simp: built_disposed collect_def dispose_registry_def drain_continues_def Let_def act_live_def with_actor_nth
  collect_continues_live[unfolded act_live_def])

lemma drain_rejected_steps:
  assumes "(reg_step p)\<^sup>*\<^sup>* r r'" "disposed r" "disposeDrain r = DrainRejected"
  shows "disposeDrain r' = DrainRejected \<and> (\<forall>i. act_live r i \<longrightarrow> act_live r' i)"
  using assms(1)
proof (induction rule: rtranclp_induct)
  case (step r1 r2)
  then show ?case using drain_rejected_step[OF step(2)] disposed_steps[OF step(1) assms(2)] by blast
qed (use assms in simp)

section \<open>Properties\<close>

text \<open>The runtimes that exist for an address, of registered activations and of creations.\<close>

definition runtimes_at :: "'op Registry \<Rightarrow> string \<Rightarrow> (nat + nat) list" where
  "runtimes_at r k =
     map Inl (filter (\<lambda>i. held r i \<and> keyOf r i = k) [0 ..< length (activations r)]) @
     map Inr (filter (\<lambda>c. busy r c \<and> reserves r c k) [0 ..< length (creating r)])"

lemma at_most_one: "distinct xs \<Longrightarrow> (\<And>x y. x \<in> set xs \<Longrightarrow> y \<in> set xs \<Longrightarrow> x = y) \<Longrightarrow> length xs \<le> 1"
proof (cases xs)
  case (Cons x ys)
  assume d: "distinct xs" and same: "\<And>x y. x \<in> set xs \<Longrightarrow> y \<in> set xs \<Longrightarrow> x = y"
  have "y = x" if "y \<in> set ys" for y using same[of y x] that Cons by simp
  then have "ys = []" using d Cons by (cases ys) auto
  then show ?thesis using Cons by simp
qed simp

text \<open>
  \<^bold>\<open>Property C4.\<close>  The registry serves an address by one runtime at a time: however opens, closes, idle
  collections, creations and the shutdown interleave, the activations of an address whose actor has
  not ended and the creations that hold its reservation are at most one together.  An open that
  finds nothing to wait for and nothing to join is the only runtime of its address.
\<close>

theorem one_runtime_per_address:
  assumes "reg_reach p r"
  shows "length (runtimes_at r k) \<le> 1 \<and>
    (reserve_decision r pr s = StartCreation \<longrightarrow> runtimes_at r (addressKey pr s) = [])"
proof -
  note inv = reach_reg_inv[OF assms]
  have "length (runtimes_at r k) \<le> 1"
  proof (rule at_most_one)
    show "distinct (runtimes_at r k)" by (auto simp: runtimes_at_def distinct_map)
    fix x y assume "x \<in> set (runtimes_at r k)" "y \<in> set (runtimes_at r k)"
    then show "x = y"
      using held_once[OF inv] held_not_reserved[OF inv] reserves_once[OF inv] by (auto simp: runtimes_at_def)
  qed
  moreover have "runtimes_at r (addressKey pr s) = []" if "reserve_decision r pr s = StartCreation"
    using start_creation_free[OF inv that] reserves_pending[OF inv]
    by (auto simp: runtimes_at_def filter_empty_conv)
  ultimately show ?thesis by blast
qed

lemma session_claims_any:
  "reg_inv r \<Longrightarrow> \<not> disposed r \<Longrightarrow> held r i \<Longrightarrow>
   byAddressAny r (act_project (activations r ! i)) (act_stem (activations r ! i)) = Some i"
  using held_addressed[of r i] addressed_record[of r "keyOf r i" i]
  by (simp add: byAddressAny_def keyOf_def act_key_def)

lemma owner_release_indexes:
  "sessionOwnerById r sid = Some (i, x) \<Longrightarrow> j \<noteq> i \<Longrightarrow> sessionOwnerById (release_indexes j r) sid = Some (i, x)"
  by (auto simp: release_indexes_def Let_def split: option.split)

lemma owner_collect_continues:
  assumes "sessionOwnerById r sid = Some (i, x)" "j \<noteq> i"
  shows "sessionOwnerById (collect_continues j r) sid = Some (i, x)"
  using assms(1) owner_release_indexes[OF assms]
  by (simp add: collect_continues_def Let_def split: CollectStage.split CloseStage.split)

text \<open>
  \<^bold>\<open>Lemma.\<close>  A durable session id is claimed by one address: in every reachable state before
  shutdown each activation whose actor has not ended is the record of its address and holds the claim
  of its session id, so two of them never share an id.  No release of another record, stale or not,
  takes the claim away.
\<close>

theorem session_claims:
  assumes "reg_reach p r" "\<not> disposed r" "held r i"
  shows "byAddressAny r (act_project (activations r ! i)) (act_stem (activations r ! i)) = Some i \<and>
    sessionOwnerById r (act_session (activations r ! i)) =
      Some (i, act_project (activations r ! i), act_stem (activations r ! i)) \<and>
    (\<forall>j. held r j \<and> act_session (activations r ! j) = act_session (activations r ! i) \<longrightarrow> j = i) \<and>
    (\<forall>j < length (activations r). j \<noteq> i \<longrightarrow>
       sessionOwnerById (collect_continues j r) (act_session (activations r ! i)) =
         sessionOwnerById r (act_session (activations r ! i)))"
proof -
  note inv = reach_reg_inv[OF assms(1)] and c = held_claims[OF reach_reg_inv[OF assms(1)] assms(2)]
  have "byAddressAny r (act_project (activations r ! i)) (act_stem (activations r ! i)) = Some i"
    by (rule session_claims_any[OF inv assms(2,3)])
  moreover have "j = i" if "held r j" "act_session (activations r ! j) = act_session (activations r ! i)" for j
    using c[OF that(1)] c[OF assms(3)] unfolding that(2) by (metis option.inject prod.inject)
  moreover have "sessionOwnerById (collect_continues j r) (act_session (activations r ! i)) =
      sessionOwnerById r (act_session (activations r ! i))" if "j \<noteq> i" for j
    unfolding c[OF assms(3)] by (rule owner_collect_continues[OF c[OF assms(3)] that])
  ultimately show ?thesis using c[OF assms(3)] by blast
qed

text \<open>
  \<^bold>\<open>Property C16.\<close>  A target reaches its own activation or none: in every reachable state the target of
  an activation resolves to no other one, however often the address has been registered again; before
  shutdown the target of an activation whose actor has not ended does resolve to it.
\<close>

theorem target_reaches_own:
  assumes "reg_reach p r" "i < length (activations r)"
  shows "(case admissionFor r (targetOf (activations r ! i)) of Inl _ \<Rightarrow> True | Inr j \<Rightarrow> j = i) \<and>
    (\<not> disposed r \<and> held r i \<longrightarrow> admissionFor r (targetOf (activations r ! i)) = Inr i)"
proof -
  note inv = reach_reg_inv[OF assms(1)]
  have g: "j < length (activations r) \<Longrightarrow> act_generation (activations r ! j) = Suc j" for j
    using inv by (simp add: reg_inv_def heap_inv_def)
  have "j < length (activations r)" if "byAddressAny r pr s = Some j" for pr s j
    using that inv by (auto simp: byAddressAny_def reg_inv_def heap_inv_def split: option.splits if_splits)
  then have "case admissionFor r (targetOf (activations r ! i)) of Inl _ \<Rightarrow> True | Inr j \<Rightarrow> j = i"
    using g[OF assms(2)] g
    by (cases "byAddressAny r (act_project (activations r ! i)) (act_stem (activations r ! i))")
      (simp_all add: admissionFor_def targetOf_def)
  moreover have "admissionFor r (targetOf (activations r ! i)) = Inr i" if "\<not> disposed r" "held r i"
    using session_claims_any[OF inv that] by (simp add: admissionFor_def targetOf_def)
  ultimately show ?thesis by blast
qed

text \<open>
  \<^bold>\<open>Property C15.\<close>  Shutdown leaves nothing behind: once it began, no activation is registered, whichever
  creation completes; and when the drain resolves, every actor has ended and every creation has
  settled, its Manager disposed if it was refused.
\<close>

theorem shutdown_complete:
  assumes "reg_reach p r" "disposed r" "(reg_step p)\<^sup>*\<^sup>* r r'"
  shows "length (activations r') = length (activations r) \<and> records r' = [] \<and>
    (disposeDrain r' = DrainResolved \<longrightarrow>
       (\<forall>i < length (activations r'). closeStage (act_actor (activations r' ! i)) \<in> {CloseResolved, CloseRejected}) \<and>
       list_all (creation_settled r') [0 ..< length (creating r')])"
proof -
  have "reg_reach p r'" using assms(3,1) by (induction rule: rtranclp_induct) (auto intro: reg_next)
  then have inv: "reg_inv r'" by (rule reach_reg_inv)
  have d: "disposed r'" "length (activations r') = length (activations r)" using disposed_steps[OF assms(3,2)] by auto
  moreover have "records r' = []" using inv d by (simp add: reg_inv_def index_inv_def)
  moreover have "(\<forall>i. \<not> held r' i) \<and> (\<forall>c. \<not> busy r' c)" if "disposeDrain r' = DrainResolved"
    using inv that by (simp add: reg_inv_def drain_inv_def)
  moreover have "(\<forall>i < length (activations r'). closeStage (act_actor (activations r' ! i)) \<in> {CloseResolved, CloseRejected}) \<and>
      list_all (creation_settled r') [0 ..< length (creating r')]"
    if "(\<forall>i. \<not> held r' i) \<and> (\<forall>c. \<not> busy r' c)"
    using that by (simp add: held_def actor_held_def busy_def list_all_iff)
  ultimately show ?thesis by blast
qed


section \<open>Witnesses\<close>

text \<open>Two sessions of a project, opened and served; then shutdown, where the first disposal rejects.\<close>

definition serving0 :: "nat Registry" where
  "serving0 = reserved_built 1 ''p'' ''b'' rt0 ''s2'' (start_reserved ''p'' ''b''
     (creation_cleared 0 (reserved_built 0 ''p'' ''a'' rt0 ''s1'' (start_reserved ''p'' ''a'' newRegistry))))"

definition draining0 :: "nat Registry" where
  "draining0 = drain_continues (dispose_registry (creation_cleared 1 serving0))"

definition on_actor :: "nat \<Rightarrow> (nat Actor \<Rightarrow> nat Actor) \<Rightarrow> nat Registry \<Rightarrow> nat Registry" where
  "on_actor i f r = with_actor i (f (act_actor (activations r ! i))) r"

definition rejecting :: "nat Actor \<Rightarrow> nat Actor" where
  "rejecting a = close_continues False (close_continues True (a\<lparr>mutations := scope_drained (mutations a)\<rparr>))"

definition stopped0 :: "nat Registry" where
  "stopped0 = drain_continues (on_actor 0 rejecting draining0)"

text \<open>The same registry, where the idle first session is collected and its disposal rejects.\<close>

definition rejected0 :: "nat Registry" where
  "rejected0 = collect_continues 0 (on_actor 0 rejecting (collect 0 serving0))"

lemmas reg_eval = newRegistry_def start_reserved_def reserved_built_def settle_registration_def register_def
  with_stage_def with_actor_def with_collecting_def creation_cleared_def addressKey_def building_def
  reserve_decision_def byAddressAny_def act_live_def createSessionActor_def rt0_def

lemma reach_serving0: "reg_reach p serving0"
  unfolding serving0_def
  by (rule reg_next[OF reg_next[OF reg_next[OF reg_next[OF reg_next[OF reg_new reg_reserve] reg_reserved_built]
      reg_cleared] reg_reserve] reg_reserved_built])
    (simp_all add: reg_eval)

lemma serving0_parts:
  "length (activations serving0) = 2" "\<not> disposed serving0" "closeStage (act_actor (activations serving0 ! 0)) = NotClosing"
  "closeStage (act_actor (activations serving0 ! 1)) = NotClosing" "length (creating serving0) = 2"
  "creation_stage (creating serving0 ! 1) = Settled (Some 1)"
  by (simp_all add: serving0_def reg_eval)

lemma reach_draining0: "reg_reach p draining0"
  unfolding draining0_def
  by (rule reg_next[OF reg_next[OF reg_next[OF reach_serving0 reg_cleared] reg_dispose] reg_drain])
    (use serving0_parts in simp_all)

lemma reach_on_actor:
  assumes "reg_reach p r" "i < length (activations r)" "actor_phase (act_actor (activations r ! i)) \<noteq> Live"
    "actor_step p (act_actor (activations r ! i)) (f (act_actor (activations r ! i)))"
  shows "reg_reach p (on_actor i f r)"
  unfolding on_actor_def by (rule reg_next[OF assms(1) reg_actor[OF assms(2,4)]]) (use assms(3) in simp)

lemma on_actor_nth: "i < length (activations r) \<Longrightarrow>
    act_actor (activations (on_actor i f r) ! i) = f (act_actor (activations r ! i)) \<and>
    length (activations (on_actor i f r)) = length (activations r)"
  by (simp add: on_actor_def with_actor_nth)

lemma reach_rejecting:
  assumes "reg_reach p r" "i < length (activations r)" "actor_phase (act_actor (activations r ! i)) \<noteq> Live"
  shows "reg_reach p (on_actor i rejecting r)"
proof -
  let ?d = "\<lambda>a. a\<lparr>mutations := scope_drained (mutations a)\<rparr>"
  have ph: "actor_phase (close_continues ok a) \<noteq> Live" if "actor_phase a \<noteq> Live" for ok and a :: "nat Actor"
    using that by (simp add: close_continues_def split: CloseStage.split)
  have e: "on_actor i rejecting r = on_actor i (close_continues False) (on_actor i (close_continues True) (on_actor i ?d r))"
    using assms(2) by (simp add: on_actor_def rejecting_def with_actor_def)
  show ?thesis
    unfolding e
    by (intro reach_on_actor step_close_continues step_mutations_drained)
      (use assms ph in \<open>simp_all add: on_actor_nth\<close>)
qed

theorem one_runtime_per_address_witness:
  "reg_reach DEFAULT_POLICY serving0 \<and> length (runtimes_at serving0 (addressKey ''p'' ''a'')) \<le> 1"
  using one_runtime_per_address[OF reach_serving0[of DEFAULT_POLICY]] reach_serving0 by simp

theorem session_claims_witness: "byAddressAny serving0 ''p'' ''b'' = Some 1"
proof -
  have h: "held serving0 1" using serving0_parts by (simp add: held_def actor_held_def)
  have "act_project (activations serving0 ! 1) = ''p''" "act_stem (activations serving0 ! 1) = ''b''"
    by (simp_all add: serving0_def reg_eval)
  then show ?thesis using session_claims[OF reach_serving0[of DEFAULT_POLICY] serving0_parts(2) h] by simp
qed

theorem target_reaches_own_witness: "admissionFor serving0 (targetOf (activations serving0 ! 0)) = Inr 0"
proof -
  have "held serving0 0" by (simp add: held_def actor_held_def serving0_parts)
  then show ?thesis
    using target_reaches_own[OF reach_serving0[of DEFAULT_POLICY], of 0] serving0_parts(1,2) by simp
qed

lemma draining0_parts:
  "disposed draining0" "length (activations draining0) = 2" "actor_phase (act_actor (activations draining0 ! 0)) = ActorClosing"
  "act_live draining0 1" "disposeDrain draining0 = DrainClosing [0, 1]"
  by code_simp+

theorem shutdown_complete_witness:
  "disposed draining0 \<and> records serving0 = [0, 1] \<and> records (collect_continues 1 draining0) = [] \<and>
   length (activations (collect_continues 1 draining0)) = 2"
proof -
  have "(reg_step DEFAULT_POLICY)\<^sup>*\<^sup>* draining0 (collect_continues 1 draining0)"
    by (rule r_into_rtranclp[of "reg_step DEFAULT_POLICY"], rule reg_collect_continues) (simp add: draining0_parts)
  moreover have "records serving0 = [0, 1]" by (simp add: serving0_def reg_eval)
  ultimately show ?thesis
    using shutdown_complete[OF reach_draining0[of DEFAULT_POLICY] draining0_parts(1)] draining0_parts by simp
qed

lemma reach_stopped0: "reg_reach p stopped0"
  unfolding stopped0_def
  by (rule reg_next[OF reach_rejecting[OF reach_draining0] reg_drain]) (simp_all add: draining0_parts)

lemma stopped0_parts: "disposeDrain stopped0 = DrainRejected" "act_live stopped0 1"
  by code_simp+


text \<open>
  After shutdown began \<^verbatim>\<open>awaitSettled\<close> finds nothing at an address whose runtime is not disposed yet,
  so \<^verbatim>\<open>archiveSession\<close> goes on to move the file.
\<close>

lemma settled_during_shutdown:
  "reg_reach p draining0 \<and> awaitSettled draining0 ''p'' ''b'' = Inr None \<and> act_live draining0 1 \<and>
   act_key (activations draining0 ! 1) = addressKey ''p'' ''b''"
proof -
  have "awaitSettled draining0 ''p'' ''b'' = Inr None" "act_key (activations draining0 ! 1) = addressKey ''p'' ''b''"
    by code_simp+
  then show ?thesis using draining0_parts reach_draining0 by simp
qed

text \<open>A collection whose disposal rejects frees the address although its actor never closes.\<close>

lemma rejected_collection_frees_address:
  "reg_reach p rejected0 \<and> reserve_decision rejected0 ''p'' ''a'' = StartCreation \<and>
   actor_phase (act_actor (activations rejected0 ! 0)) = ActorClosing"
proof -
  let ?c = "collect 0 serving0"
  have c: "reg_reach p ?c" by (rule reg_next[OF reach_serving0 reg_collect]) (simp add: serving0_parts)
  have "length (activations ?c) = 2" "actor_phase (act_actor (activations ?c ! 0)) = ActorClosing" by code_simp+
  then have "reg_reach p rejected0"
    unfolding rejected0_def
    by (intro reg_next[OF reach_rejecting[OF c] reg_collect_continues]) (simp_all add: on_actor_def)
  moreover have "reserve_decision rejected0 ''p'' ''a'' = StartCreation"
    "actor_phase (act_actor (activations rejected0 ! 0)) = ActorClosing"
    by code_simp+
  ultimately show ?thesis by simp
qed

end
