(* ===== verification/Title.thy ===== *)
theory Title
  imports Prelude
begin

text \<open>
  The process title, \<^verbatim>\<open>packages/bridge/src/host/process-title.ts\<close>, and the activity it shows, which
  \<^verbatim>\<open>packages/bridge/src/host/manager.ts\<close> tracks from the events of an agent run.  The module variables
  are a record, the clock and the moment a timer fires are arguments, and strings are 8-bit, of which
  the upper half takes two bytes in UTF-8.
\<close>

section \<open>Activity\<close>

datatype SessionPhase = PIdle | PWait | PThink | PStream | PTool | PCompact | PRetry

record SessionActivity =
  sa_phase :: SessionPhase
  sa_tool :: "string option"
  sa_recoverable :: bool

record ActivityFacts =
  f_phase :: SessionPhase
  f_tool :: "string option"
  f_streaming :: bool
  f_compacting :: bool
  f_toolRunning :: bool
  f_recoverable :: bool

definition resolveActivity :: "ActivityFacts \<Rightarrow> SessionActivity" where
  "resolveActivity f =
     (if f_compacting f then \<lparr>sa_phase = PCompact, sa_tool = None, sa_recoverable = f_recoverable f\<rparr>
      else if f_toolRunning f then \<lparr>sa_phase = PTool, sa_tool = f_tool f, sa_recoverable = f_recoverable f\<rparr>
      else if \<not> f_streaming f then \<lparr>sa_phase = PIdle, sa_tool = None, sa_recoverable = f_recoverable f\<rparr>
      else let decayed = f_phase f = PIdle \<or> f_phase f = PCompact \<or> f_phase f = PTool
           in \<lparr>sa_phase = (if decayed then PWait else f_phase f), sa_tool = None, sa_recoverable = f_recoverable f\<rparr>)"

text \<open>The events the Manager reads; a message update carries the type of its delta.\<close>

datatype ActivityEvent =
    AgentStart | TurnStart | MessageStart | MessageUpdate string | ToolStart string string | ToolEnd string
  | CompactionStart | CompactionEnd | AutoRetryStart | AutoRetryEnd | TurnEnd | AgentEnd | AgentSettled | OtherEvent

record ActivityTracker =
  tr_phase :: SessionPhase
  tr_phaseTool :: "string option"
  tr_activeTool :: "string option"
  tr_inFlight :: "string list"
  tr_notified :: "(SessionPhase \<times> string option) list"

definition newTracker :: ActivityTracker where
  "newTracker = \<lparr>tr_phase = PIdle, tr_phaseTool = None, tr_activeTool = None, tr_inFlight = [], tr_notified = []\<rparr>"

definition setPhase :: "SessionPhase \<Rightarrow> string option \<Rightarrow> ActivityTracker \<Rightarrow> ActivityTracker" where
  "setPhase n tool t =
     (let t1 = (if n = PTool \<and> tool \<noteq> None then t\<lparr>tr_activeTool := tool\<rparr> else t);
          t2 = (if n = PTool \<and> tool = None \<and> tr_phase t1 \<noteq> PTool then t1\<lparr>tr_activeTool := None\<rparr> else t1)
      in if n = tr_phase t2 \<and> tool = tr_phaseTool t2 then t2
         else t2\<lparr>tr_phase := n, tr_phaseTool := tool, tr_notified := tr_notified t2 @ [(n, tool)]\<rparr>)"

fun trackActivity :: "ActivityEvent \<Rightarrow> ActivityTracker \<Rightarrow> ActivityTracker" where
  "trackActivity (MessageUpdate delta) t =
     (if starts_with delta ''thinking'' then setPhase PThink None t
      else if starts_with delta ''text'' then setPhase PStream None t
      else if starts_with delta ''toolcall'' then setPhase PTool None t else t)"
| "trackActivity (ToolStart _ name) t = setPhase PTool (Some name) t"
| "trackActivity (ToolEnd _) t = setPhase PWait None (t\<lparr>tr_activeTool := None\<rparr>)"
| "trackActivity CompactionStart t = setPhase PCompact None t"
| "trackActivity AutoRetryStart t = setPhase PRetry None t"
| "trackActivity AgentSettled t = setPhase PIdle None t"
| "trackActivity OtherEvent t = t"
| "trackActivity _ t = setPhase PWait None t"

text \<open>The part of \<^verbatim>\<open>processEvent\<close> on the tools in flight, then the phase.\<close>

definition track_event :: "ActivityEvent \<Rightarrow> ActivityTracker \<Rightarrow> ActivityTracker" where
  "track_event e t =
     trackActivity e
       (case e of
          ToolStart i _ \<Rightarrow> t\<lparr>tr_inFlight := List.insert i (tr_inFlight t)\<rparr>
        | ToolEnd i \<Rightarrow> t\<lparr>tr_inFlight := removeAll i (tr_inFlight t)\<rparr>
        | _ \<Rightarrow> t)"

text \<open>\<^verbatim>\<open>Manager.activity()\<close>, given the flags of the document's status.\<close>

definition manager_activity :: "bool \<Rightarrow> bool \<Rightarrow> bool \<Rightarrow> ActivityTracker \<Rightarrow> SessionActivity" where
  "manager_activity streaming compacting recoverable t =
     resolveActivity \<lparr>f_phase = tr_phase t,
       f_tool = (if tr_activeTool t \<noteq> None then tr_activeTool t else tr_phaseTool t), f_streaming = streaming,
       f_compacting = compacting, f_toolRunning = (tr_inFlight t \<noteq> []), f_recoverable = recoverable\<rparr>"

section \<open>Titles\<close>

record WorkerTitle =
  wt_projects :: "string list"
  wt_sessions :: "SessionActivity list"
  wt_up :: bool

text \<open>What is reported of the daemon (how many Workers it routes) and of the Worker.\<close>

type_synonym TitleState = "nat option \<times> WorkerTitle option"

definition BASE_TITLE :: string where "BASE_TITLE = ''pi-bridge''"

definition TOOL_NAME_WIDTH :: nat where "TOOL_NAME_WIDTH = 16"

definition NAMES_SHOWN :: nat where "NAMES_SHOWN = 3"

definition byteLength :: "string \<Rightarrow> nat" where
  "byteLength s = sum_list (map (\<lambda>c. if (of_char c :: nat) < 128 then 1 else 2) s)"

fun phase_name :: "SessionPhase \<Rightarrow> string" where
  "phase_name PIdle = ''idle''" | "phase_name PWait = ''wait''" | "phase_name PThink = ''think''"
| "phase_name PStream = ''stream''" | "phase_name PTool = ''tool''" | "phase_name PCompact = ''compact''"
| "phase_name PRetry = ''retry''"

fun PHASE_RANK :: "SessionPhase \<Rightarrow> nat" where
  "PHASE_RANK PTool = 6" | "PHASE_RANK PStream = 5" | "PHASE_RANK PThink = 4" | "PHASE_RANK PWait = 3"
| "PHASE_RANK PCompact = 3" | "PHASE_RANK PRetry = 3" | "PHASE_RANK PIdle = 0"

definition rank :: "SessionActivity \<Rightarrow> nat" where
  "rank s = (if sa_phase s = PIdle \<and> sa_recoverable s then 1 else PHASE_RANK (sa_phase s))"

definition clampTool :: "string \<Rightarrow> string" where
  "clampTool name = (if length name \<le> TOOL_NAME_WIDTH then name else take TOOL_NAME_WIDTH name)"

definition furthest :: "SessionActivity list \<Rightarrow> SessionActivity option" where
  "furthest ss =
     foldl (\<lambda>best s. if (case best of None \<Rightarrow> True | Some b \<Rightarrow> rank s > rank b) then Some s else best) None ss"

definition phaseToken :: "WorkerTitle \<Rightarrow> string" where
  "phaseToken w =
     (if \<not> wt_up w then ''offline''
      else case furthest (wt_sessions w) of
          None \<Rightarrow> ''idle''
        | Some b \<Rightarrow>
            if sa_phase b = PTool then (case sa_tool b of None \<Rightarrow> ''tool'' | Some name \<Rightarrow> ''tool '' @ clampTool name)
            else if sa_phase b = PIdle \<and> sa_recoverable b then ''recover''
            else phase_name (sa_phase b))"

fun comma_join :: "string list \<Rightarrow> string" where
  "comma_join [] = []" | "comma_join [s] = s" | "comma_join (s # ss) = s @ CHR '','' # comma_join ss"

definition namesToken :: "string list \<Rightarrow> string option" where
  "namesToken projects =
     (if projects = [] then None
      else let shown = comma_join (take NAMES_SHOWN projects)
           in Some (if length projects > NAMES_SHOWN then shown @ ''+'' @ nat_str (length projects - NAMES_SHOWN) else shown))"

definition formatProcessTitle :: "TitleState \<Rightarrow> string list" where
  "formatProcessTitle st =
     (case st of
        (dm, Some served) \<Rightarrow>
          let role = (if dm \<noteq> None then ''daemon+worker'' else ''worker''); phase = phaseToken served
          in (case namesToken (wt_projects served) of
                Some names \<Rightarrow> [BASE_TITLE @ ''@'' @ names @ '': '' @ role @ '', '' @ phase] | None \<Rightarrow> []) @
             [BASE_TITLE @ '': '' @ role @ '', '' @ phase, BASE_TITLE @ '': '' @ role]
      | (Some count, None) \<Rightarrow>
          [BASE_TITLE @ '': daemon, '' @ (if count = 0 then ''wait'' else ''serve '' @ nat_str count), BASE_TITLE @ '': daemon'']
      | (None, None) \<Rightarrow> []) @ [BASE_TITLE]"

fun fitProcessTitle :: "string list \<Rightarrow> nat \<Rightarrow> string" where
  "fitProcessTitle [] width = take (max 1 width) BASE_TITLE"
| "fitProcessTitle (candidate # cs) width = (if byteLength candidate \<le> width then candidate else fitProcessTitle cs width)"

definition commandLineBudget :: "string \<Rightarrow> string list \<Rightarrow> nat" where
  "commandLineBudget argv0 rest = foldl (\<lambda>b arg. b + byteLength arg + 1) (byteLength argv0) rest"

section \<open>Writing the title\<close>

definition THROTTLE_MS :: nat where "THROTTLE_MS = 250"

datatype TitleMode = ModeOff | ModeFixed | ModeLive

text \<open>\<open>due\<close> is when the pending timer may fire; \<open>commits\<close> are the times of all calls of \<^verbatim>\<open>commit\<close>.\<close>

record Writer =
  mode :: TitleMode
  budget :: nat
  reported :: TitleState
  title_written :: string
  lastWriteAt :: "nat option"
  due :: "nat option"
  commits :: "nat list"
  clock :: nat

definition commit :: "nat \<Rightarrow> Writer \<Rightarrow> Writer" where
  "commit now w =
     (let nxt = fitProcessTitle (formatProcessTitle (reported w)) (budget w);
          w' = w\<lparr>lastWriteAt := Some now, commits := commits w @ [now]\<rparr>
      in if nxt = title_written w then w' else w'\<lparr>title_written := nxt\<rparr>)"

definition schedule :: "nat \<Rightarrow> Writer \<Rightarrow> Writer" where
  "schedule now w =
     (if mode w \<noteq> ModeLive then w
      else if due w \<noteq> None then w
      else case lastWriteAt w of
          None \<Rightarrow> commit now w
        | Some l \<Rightarrow> if l + THROTTLE_MS - now = 0 then commit now w else w\<lparr>due := Some (l + THROTTLE_MS)\<rparr>)"

definition setDaemonTitle :: "nat option \<Rightarrow> nat \<Rightarrow> Writer \<Rightarrow> Writer" where
  "setDaemonTitle st now w = schedule now (w\<lparr>reported := (st, snd (reported w))\<rparr>)"

definition setWorkerTitle :: "WorkerTitle option \<Rightarrow> nat \<Rightarrow> Writer \<Rightarrow> Writer" where
  "setWorkerTitle st now w = schedule now (w\<lparr>reported := (fst (reported w), st)\<rparr>)"

definition timer_fires :: "nat \<Rightarrow> Writer \<Rightarrow> Writer" where
  "timer_fires now w = commit now (w\<lparr>due := None\<rparr>)"

section \<open>Bootstrap\<close>

definition TITLE_WIDTH :: nat where "TITLE_WIDTH = 96"

definition inspects :: "string \<Rightarrow> bool" where
  "inspects arg \<longleftrightarrow> arg = ''--inspect'' \<or> arg = ''--inspect-brk'' \<or> starts_with arg ''--inspect='' \<or>
     starts_with arg ''--inspect-brk=''"

text \<open>The padded argument of the re-exec, if there is one; \<open>can_exec\<close>: \<^verbatim>\<open>execve\<close> exists and succeeds.\<close>

definition widenTitleBudget :: "bool \<Rightarrow> string list \<Rightarrow> string \<Rightarrow> string list \<Rightarrow> string option" where
  "widenTitleBudget can_exec execArgv argv0 rest =
     (if commandLineBudget argv0 rest \<ge> TITLE_WIDTH then None
      else if \<not> can_exec then None
      else if list_ex inspects execArgv then None
      else Some (BASE_TITLE @ replicate (TITLE_WIDTH - length BASE_TITLE) CHR 32))"

text \<open>The outcome: a title and no state, an outside choice, a re-exec, or a live writer.\<close>

datatype Boot = BootOff "string option" | BootFixed | BootExec string | BootLive Writer

definition bootstrapProcessTitle ::
  "bool \<Rightarrow> bool \<Rightarrow> bool \<Rightarrow> string list \<Rightarrow> string \<Rightarrow> string \<Rightarrow> string list \<Rightarrow> Boot" where
  "bootstrapProcessTitle enabled padded can_exec execArgv current argv0 rest =
     (let width = commandLineBudget argv0 rest; base = fitProcessTitle [BASE_TITLE] width
      in if \<not> enabled then BootOff (if current = argv0 then Some base else None)
         else if \<not> padded \<and> current \<noteq> argv0 then BootFixed
         else case (if padded then None else widenTitleBudget can_exec execArgv argv0 rest) of
             Some a \<Rightarrow> BootExec a
           | None \<Rightarrow> BootLive \<lparr>mode = ModeLive, budget = width, reported = (None, None), title_written = base,
                       lastWriteAt = None, due = None, commits = [], clock = 0\<rparr>)"

lemma commandLineBudget_ge: "byteLength argv0 \<le> commandLineBudget argv0 rest"
proof -
  have "b \<le> foldl (\<lambda>b arg. b + byteLength arg + 1) b rest" for b
  proof (induction rest arbitrary: b)
    case (Cons a rest)
    show ?case using Cons.IH[of "b + byteLength a + 1"] by simp
  qed simp
  then show ?thesis by (simp add: commandLineBudget_def)
qed

text \<open>A re-exec happens once, and leaves a writer with the full width.\<close>

lemma reexec_widens:
  assumes "bootstrapProcessTitle True False can_exec execArgv current argv0 rest = BootExec a"
  shows "\<exists>w. bootstrapProcessTitle True True can_exec' execArgv' current' a rest = BootLive w \<and> TITLE_WIDTH \<le> budget w"
proof -
  have "a = BASE_TITLE @ replicate (TITLE_WIDTH - length BASE_TITLE) CHR 32"
    using assms by (auto simp: bootstrapProcessTitle_def widenTitleBudget_def Let_def split: if_splits)
  moreover have "byteLength (BASE_TITLE @ replicate (TITLE_WIDTH - length BASE_TITLE) CHR 32) = TITLE_WIDTH"
    by (simp add: byteLength_def BASE_TITLE_def TITLE_WIDTH_def sum_list_replicate)
  ultimately have "TITLE_WIDTH \<le> commandLineBudget a rest" using commandLineBudget_ge[of a rest] by simp
  then show ?thesis by (simp add: bootstrapProcessTitle_def Let_def)
qed

section \<open>Fitting\<close>

lemma byteLength_append [simp]: "byteLength (a @ b) = byteLength a + byteLength b"
  by (simp add: byteLength_def)

lemma byteLength_Cons: "byteLength [] = 0" "byteLength (c # s) = (if (of_char c :: nat) < 128 then 1 else 2) + byteLength s"
  by (simp_all add: byteLength_def)

lemma byteLength_BASE: "byteLength BASE_TITLE = 9" "length BASE_TITLE = 9"
  by (code_simp, simp add: BASE_TITLE_def)

lemma byteLength_take_BASE: "byteLength (take n BASE_TITLE) = min n 9"
proof -
  have "byteLength (take n xs) = min n (length xs)" if "list_all (\<lambda>c. (of_char c :: nat) < 128) xs" for xs
    using that by (induction xs arbitrary: n) (auto simp: byteLength_def take_Cons split: nat.split)
  moreover have "list_all (\<lambda>c. (of_char c :: nat) < 128) BASE_TITLE" by code_simp
  ultimately show ?thesis by (simp add: byteLength_BASE)
qed

lemma fit_bound: "byteLength (fitProcessTitle cs width) \<le> max 1 width"
  by (induction cs width rule: fitProcessTitle.induct) (auto simp: byteLength_take_BASE)

text \<open>Among candidates of falling length the first that fits is the longest that fits.\<close>

lemma fit_longest:
  "sorted_wrt (\<lambda>a b. byteLength b \<le> byteLength a) cs \<Longrightarrow> c \<in> set cs \<Longrightarrow> byteLength c \<le> width \<Longrightarrow>
   byteLength c \<le> byteLength (fitProcessTitle cs width) \<and> fitProcessTitle cs width \<in> set cs"
  by (induction cs width rule: fitProcessTitle.induct) auto

lemma format_falls: "sorted_wrt (\<lambda>a b. byteLength b \<le> byteLength a) (formatProcessTitle st)"
  by (auto simp: formatProcessTitle_def byteLength_Cons Let_def split: prod.split option.split)

text \<open>
  \<^bold>\<open>Lemma.\<close>  A title fits the writable width: whatever is reported, the title written has at most
  as many bytes as the command line (one at least), and it is the longest of the candidates that fit,
  whole, whenever the base title fits.
\<close>

theorem title_fits:
  "byteLength (fitProcessTitle (formatProcessTitle st) width) \<le> max 1 width \<and>
   (9 \<le> width \<longrightarrow> fitProcessTitle (formatProcessTitle st) width \<in> set (formatProcessTitle st)) \<and>
   (\<forall>c \<in> set (formatProcessTitle st). byteLength c \<le> width \<longrightarrow>
      byteLength c \<le> byteLength (fitProcessTitle (formatProcessTitle st) width))"
proof -
  note longest = fit_longest[OF format_falls[of st]]
  have "BASE_TITLE \<in> set (formatProcessTitle st)" by (simp add: formatProcessTitle_def)
  then show ?thesis using fit_bound longest byteLength_BASE(1) by (metis (no_types))
qed

theorem title_fits_witness:
  "fitProcessTitle (formatProcessTitle (Some 2, None)) 20 = ''pi-bridge: daemon'' \<and>
   byteLength (fitProcessTitle (formatProcessTitle (Some 2, None)) 20) \<le> 20"
proof -
  have "fitProcessTitle (formatProcessTitle (Some 2, None)) 20 = ''pi-bridge: daemon''" by code_simp
  then show ?thesis using title_fits[of "(Some 2, None)" 20] by simp
qed

section \<open>The word for a worker\<close>

lemma furthest_max:
  "case furthest ss of None \<Rightarrow> ss = [] | Some b \<Rightarrow> b \<in> set ss \<and> (\<forall>s \<in> set ss. rank s \<le> rank b)"
proof (induction ss rule: rev_induct)
  case (snoc s ss)
  have "furthest (ss @ [s]) =
      (if (case furthest ss of None \<Rightarrow> True | Some b \<Rightarrow> rank s > rank b) then Some s else furthest ss)"
    by (simp add: furthest_def)
  with snoc show ?case by (auto split: option.splits)
qed (simp add: furthest_def)

definition at_rest :: "SessionActivity \<Rightarrow> bool" where
  "at_rest s \<longleftrightarrow> sa_phase s = PIdle \<and> \<not> sa_recoverable s"

lemma rank_zero: "rank s = 0 \<longleftrightarrow> at_rest s"
  by (cases "sa_phase s") (auto simp: rank_def at_rest_def)

lemma phaseToken_idle: "wt_up w \<Longrightarrow> phaseToken w = ''idle'' \<longleftrightarrow> list_all at_rest (wt_sessions w)"
proof (cases "furthest (wt_sessions w)")
  case None
  assume "wt_up w"
  then show ?thesis using None furthest_max[of "wt_sessions w"] by (simp add: phaseToken_def)
next
  case (Some b)
  assume up: "wt_up w"
  have b: "b \<in> set (wt_sessions w)" "\<forall>s \<in> set (wt_sessions w). rank s \<le> rank b"
    using furthest_max[of "wt_sessions w"] Some by simp_all
  have "phaseToken w = ''idle'' \<longleftrightarrow> at_rest b"
    using up Some by (cases "sa_phase b") (auto simp: phaseToken_def at_rest_def split: option.split)
  moreover have "at_rest b \<longleftrightarrow> list_all at_rest (wt_sessions w)"
    using b by (auto simp: list_all_iff simp flip: rank_zero)
  ultimately show ?thesis by simp
qed

text \<open>A session as the Manager sees it: streaming, compacting, recoverable, and the tracked events.\<close>

type_synonym SessionState = "bool \<times> bool \<times> bool \<times> ActivityTracker"

definition session_activity :: "SessionState \<Rightarrow> SessionActivity" where
  "session_activity x = (case x of (s, c, r, t) \<Rightarrow> manager_activity s c r t)"

text \<open>
  \<^bold>\<open>Lemma.\<close>  The title does not contradict the documents: a worker whose link is up says idle
  exactly when none of its sessions streams, compacts, runs a tool or needs recovery, whatever events
  each has seen.
\<close>

theorem idle_title_honest:
  "phaseToken \<lparr>wt_projects = ps, wt_sessions = map session_activity xs, wt_up = True\<rparr> = ''idle'' \<longleftrightarrow>
   list_all (\<lambda>(streaming, compacting, recoverable, t).
     \<not> streaming \<and> \<not> compacting \<and> \<not> recoverable \<and> tr_inFlight t = []) xs"
proof -
  have "at_rest (session_activity (s, c, r, t)) \<longleftrightarrow> \<not> s \<and> \<not> c \<and> \<not> r \<and> tr_inFlight t = []" for s c r t
    by (auto simp: session_activity_def manager_activity_def resolveActivity_def at_rest_def Let_def)
  then show ?thesis by (auto simp: phaseToken_idle list_all_iff)
qed

section \<open>Throttling\<close>

text \<open>Reports at growing times; a timer fires when it is due or later.\<close>

inductive writer_step :: "Writer \<Rightarrow> Writer \<Rightarrow> bool" where
  writer_daemon: "clock w \<le> now \<Longrightarrow> writer_step w (setDaemonTitle d now (w\<lparr>clock := now\<rparr>))"
| writer_worker: "clock w \<le> now \<Longrightarrow> writer_step w (setWorkerTitle s now (w\<lparr>clock := now\<rparr>))"
| writer_timer: "clock w \<le> now \<Longrightarrow> due w = Some t \<Longrightarrow> t \<le> now \<Longrightarrow> writer_step w (timer_fires now (w\<lparr>clock := now\<rparr>))"

inductive writer_reach :: "Writer \<Rightarrow> bool" where
  writer_new: "bootstrapProcessTitle enabled padded can_exec execArgv current argv0 rest = BootLive w \<Longrightarrow> writer_reach w"
| writer_next: "writer_reach w \<Longrightarrow> writer_step w w' \<Longrightarrow> writer_reach w'"

definition shown :: "Writer \<Rightarrow> string" where
  "shown w = fitProcessTitle (formatProcessTitle (reported w)) (budget w)"

definition spaced :: "nat list \<Rightarrow> bool" where
  "spaced ts \<longleftrightarrow> (\<forall>i. Suc i < length ts \<longrightarrow> ts ! i + THROTTLE_MS \<le> ts ! Suc i)"

definition writer_inv :: "Writer \<Rightarrow> bool" where
  "writer_inv w \<longleftrightarrow> mode w = ModeLive \<and> spaced (commits w) \<and>
     lastWriteAt w = (if commits w = [] then None else Some (last (commits w))) \<and>
     (case due w of None \<Rightarrow> title_written w = shown w
      | Some t \<Rightarrow> commits w \<noteq> [] \<and> t = last (commits w) + THROTTLE_MS)"

lemma spaced_snoc: "spaced ts \<Longrightarrow> ts = [] \<or> last ts + THROTTLE_MS \<le> t \<Longrightarrow> spaced (ts @ [t])"
proof -
  assume a: "spaced ts" "ts = [] \<or> last ts + THROTTLE_MS \<le> t"
  have "(ts @ [t]) ! i + THROTTLE_MS \<le> (ts @ [t]) ! Suc i" if "Suc i < length (ts @ [t])" for i
  proof (cases "Suc i < length ts")
    case False
    then have "i = length ts - 1" "ts \<noteq> []" using that by auto
    then show ?thesis using a(2) by (simp add: nth_append last_conv_nth)
  qed (use a(1) in \<open>simp add: spaced_def nth_append\<close>)
  then show ?thesis by (simp add: spaced_def)
qed

lemma commit_inv:
  assumes "mode w = ModeLive" "spaced (commits w)" "commits w = [] \<or> last (commits w) + THROTTLE_MS \<le> now" "due w = None"
  shows "writer_inv (commit now w)"
  using assms spaced_snoc[OF assms(2,3)] by (simp add: writer_inv_def commit_def shown_def Let_def)

lemma schedule_inv:
  assumes "mode w = ModeLive" "spaced (commits w)" "lastWriteAt w = (if commits w = [] then None else Some (last (commits w)))"
    "\<And>t. due w = Some t \<Longrightarrow> commits w \<noteq> [] \<and> t = last (commits w) + THROTTLE_MS"
  shows "writer_inv (schedule now w)"
proof (cases "due w")
  case None
  show ?thesis
  proof (cases "commits w = [] \<or> last (commits w) + THROTTLE_MS \<le> now")
    case True
    then have "schedule now w = commit now w" using assms(1,3) None by (auto simp: schedule_def)
    then show ?thesis using commit_inv[OF assms(1,2) True None] by simp
  next
    case False
    then have "schedule now w = w\<lparr>due := Some (last (commits w) + THROTTLE_MS)\<rparr>"
      using assms(1,3) None by (simp add: schedule_def)
    then show ?thesis using False assms(1-3) by (simp add: writer_inv_def)
  qed
next
  case (Some t)
  then have "schedule now w = w" using assms(1) by (simp add: schedule_def)
  then show ?thesis using assms Some by (simp add: writer_inv_def)
qed

lemma report_inv: "writer_inv w \<Longrightarrow> writer_inv (schedule now (w\<lparr>clock := now, reported := r\<rparr>))"
  by (rule schedule_inv) (auto simp: writer_inv_def)

lemma reach_writer_inv: "writer_reach w \<Longrightarrow> writer_inv w"
proof (induction rule: writer_reach.induct)
  case (writer_new enabled padded can_exec execArgv current argv0 rest w)
  then show ?case
    by (auto simp: bootstrapProcessTitle_def writer_inv_def spaced_def shown_def formatProcessTitle_def Let_def
        split: if_splits option.splits)
next
  case (writer_next w w')
  from writer_next(2) writer_next(3) show ?case
  proof (induction rule: writer_step.induct)
    case (writer_timer w now t)
    then show ?case unfolding timer_fires_def by (intro commit_inv) (auto simp: writer_inv_def)
  qed (simp_all add: setDaemonTitle_def setWorkerTitle_def report_inv)
qed

text \<open>
  \<^bold>\<open>Lemma.\<close>  The writer coalesces and loses nothing: in every reachable state two writes are at
  least 250 ms apart, the title shows the latest report unless a timer is pending, and a pending
  timer is due 250 ms after the last write, when it writes the latest report.
\<close>

theorem title_throttled:
  assumes "writer_reach w"
  shows "spaced (commits w) \<and>
    (case due w of None \<Rightarrow> title_written w = shown w
     | Some t \<Rightarrow> commits w \<noteq> [] \<and> t = last (commits w) + THROTTLE_MS \<and>
         title_written (timer_fires t w) = shown (timer_fires t w) \<and> shown (timer_fires t w) = shown w)"
  using reach_writer_inv[OF assms]
  by (auto simp: writer_inv_def timer_fires_def commit_def shown_def Let_def split: option.splits)

definition writer0 :: Writer where
  "writer0 = \<lparr>mode = ModeLive, budget = 9, reported = (None, None), title_written = ''pi-bridge'',
     lastWriteAt = None, due = None, commits = [], clock = 0\<rparr>"

theorem title_throttled_witness:
  "due (setDaemonTitle (Some 1) 150 (setDaemonTitle (Some 0) 100 (writer0\<lparr>clock := 100\<rparr>)\<lparr>clock := 150\<rparr>)) = Some 350 \<and>
   spaced (commits (setDaemonTitle (Some 1) 150 (setDaemonTitle (Some 0) 100 (writer0\<lparr>clock := 100\<rparr>)\<lparr>clock := 150\<rparr>)))"
proof -
  let ?a = "setDaemonTitle (Some 0) 100 (writer0\<lparr>clock := 100\<rparr>)"
  let ?b = "setDaemonTitle (Some 1) 150 (?a\<lparr>clock := 150\<rparr>)"
  have "bootstrapProcessTitle True True False [] [] ''pi-bridge'' [] = BootLive writer0" by code_simp
  then have r: "writer_reach writer0" by (rule writer_new)
  have a: "writer_reach ?a" by (rule writer_next[OF r writer_daemon]) (simp add: writer0_def)
  have c: "clock ?a = 100" "lastWriteAt ?a = Some 100" "due ?a = None" "mode ?a = ModeLive"
    by (simp_all add: setDaemonTitle_def schedule_def commit_def writer0_def Let_def)
  have "writer_reach ?b" by (rule writer_next[OF a writer_daemon]) (simp add: c)
  then have "spaced (commits ?b)" by (rule title_throttled[THEN conjunct1])
  moreover have "due ?b = Some 350"
    by (simp add: setDaemonTitle_def schedule_def commit_def writer0_def THROTTLE_MS_def Let_def)
  ultimately show ?thesis by blast
qed

end
