(* ===== verification/Accounting.thy ===== *)
theory Accounting
  imports JsValue "HOL-Library.Multiset"
begin

text \<open>
  The billing ledger of a session, \<^verbatim>\<open>packages/bridge/src/viewmodel/accounting.ts\<close>.  The map of rows is an
  association list in insertion order; amounts are exact rationals, so sums do not depend on rounding.
\<close>

section \<open>State\<close>

record ModelCostRow =
  row_provider :: string
  row_modelId :: string
  row_cost :: rat
  row_tokens :: rat
  row_input :: rat
  row_output :: rat
  row_cacheRead :: rat
  row_cacheWrite :: rat
  row_requests :: nat

record SessionAccounting =
  acc_cost :: rat
  acc_input :: rat
  acc_output :: rat
  acc_cacheRead :: rat
  acc_cacheWrite :: rat
  acc_requests :: nat
  acc_rows :: "(string \<times> ModelCostRow) list"

definition noAccounting :: SessionAccounting where
  "noAccounting = \<lparr>acc_cost = 0, acc_input = 0, acc_output = 0, acc_cacheRead = 0, acc_cacheWrite = 0,
     acc_requests = 0, acc_rows = []\<rparr>"

section \<open>Operations\<close>

text \<open>How an optional string prints in a template.\<close>

definition template_str :: "jsv \<Rightarrow> string" where
  "template_str v = (if v = JUndef then ''undefined'' else str_of v)"

text \<open>\<open>models\<close> is \<open>None\<close> where the argument is not passed.\<close>

definition billingModelId :: "jsv \<Rightarrow> jsv list option \<Rightarrow> jsv" where
  "billingModelId e models =
     (let reported = jget e ''responseModel''
      in if truthy reported \<and> reported \<noteq> jget e ''model'' then
           (case models of
              None \<Rightarrow> reported
            | Some ms \<Rightarrow>
                if ms = [] \<or> list_ex (\<lambda>m. jget m ''provider'' = jget e ''provider'' \<and> jget m ''id'' = reported) ms
                then reported else jget e ''model'')
         else jget e ''model'')"

definition billed :: "jsv \<Rightarrow> bool" where
  "billed e \<longleftrightarrow> jget e ''kind'' = JStr ''message'' \<and> truthy (jget e ''usage'')"

definition usage_of :: "jsv \<Rightarrow> string \<Rightarrow> rat" where
  "usage_of e k = num_of (jget (jget e ''usage'') k)"

definition cost_of :: "jsv \<Rightarrow> rat" where
  "cost_of e = num_of (jget (jget (jget e ''usage'') ''cost'') ''total'')"

definition row_key :: "jsv list option \<Rightarrow> jsv \<Rightarrow> string" where
  "row_key models e = template_str (jget e ''provider'') @ CHR ''/'' # template_str (billingModelId e models)"

definition new_row :: "jsv list option \<Rightarrow> jsv \<Rightarrow> ModelCostRow" where
  "new_row models e =
     \<lparr>row_provider = str_of (coalesce (jget e ''provider'') (JStr '''')),
      row_modelId = str_of (coalesce (billingModelId e models) (JStr '''')),
      row_cost = 0, row_tokens = 0, row_input = 0, row_output = 0, row_cacheRead = 0, row_cacheWrite = 0, row_requests = 0\<rparr>"

definition add_usage :: "jsv \<Rightarrow> ModelCostRow \<Rightarrow> ModelCostRow" where
  "add_usage e r =
     r\<lparr>row_cost := row_cost r + cost_of e,
       row_tokens := row_tokens r +
         (usage_of e ''input'' + usage_of e ''output'' + usage_of e ''cacheRead'' + usage_of e ''cacheWrite''),
       row_input := row_input r + usage_of e ''input'', row_output := row_output r + usage_of e ''output'',
       row_cacheRead := row_cacheRead r + usage_of e ''cacheRead'',
       row_cacheWrite := row_cacheWrite r + usage_of e ''cacheWrite'', row_requests := Suc (row_requests r)\<rparr>"

fun add_to_row :: "jsv list option \<Rightarrow> jsv \<Rightarrow> (string \<times> ModelCostRow) list \<Rightarrow> (string \<times> ModelCostRow) list" where
  "add_to_row models e [] = [(row_key models e, add_usage e (new_row models e))]"
| "add_to_row models e ((k, r) # rows) =
     (if k = row_key models e then (k, add_usage e r) # rows else (k, r) # add_to_row models e rows)"

definition account_entry :: "jsv list option \<Rightarrow> SessionAccounting \<Rightarrow> jsv \<Rightarrow> SessionAccounting" where
  "account_entry models a e =
     (if \<not> billed e then a
      else a\<lparr>acc_cost := acc_cost a + cost_of e, acc_input := acc_input a + usage_of e ''input'',
             acc_output := acc_output a + usage_of e ''output'',
             acc_cacheRead := acc_cacheRead a + usage_of e ''cacheRead'',
             acc_cacheWrite := acc_cacheWrite a + usage_of e ''cacheWrite'', acc_requests := Suc (acc_requests a),
             acc_rows := add_to_row models e (acc_rows a)\<rparr>)"

definition account_entries :: "jsv list option \<Rightarrow> jsv list \<Rightarrow> SessionAccounting" where
  "account_entries models es = foldl (account_entry models) noAccounting es"

text \<open>The result: the totals, the rows by falling cost, and the hit rate in percent.\<close>

definition sessionAccounting :: "jsv list option \<Rightarrow> jsv \<Rightarrow> SessionAccounting \<times> rat" where
  "sessionAccounting models entries =
     (let a = account_entries models (js_values entries);
          promptTokens = acc_input a + acc_cacheRead a
      in (a\<lparr>acc_rows := sort_key (\<lambda>p. - row_cost (snd p)) (acc_rows a)\<rparr>,
          if promptTokens > 0 then acc_cacheRead a / promptTokens * 100 else 0))"

section \<open>The ledger adds up\<close>

text \<open>What a row holds of the messages billed under its key.\<close>

definition row_exact :: "jsv list \<Rightarrow> ModelCostRow \<Rightarrow> bool" where
  "row_exact es r \<longleftrightarrow> row_cost r = sum_list (map cost_of es) \<and>
     row_input r = sum_list (map (\<lambda>e. usage_of e ''input'') es) \<and>
     row_output r = sum_list (map (\<lambda>e. usage_of e ''output'') es) \<and>
     row_cacheRead r = sum_list (map (\<lambda>e. usage_of e ''cacheRead'') es) \<and>
     row_cacheWrite r = sum_list (map (\<lambda>e. usage_of e ''cacheWrite'') es) \<and>
     row_tokens r = row_input r + row_output r + row_cacheRead r + row_cacheWrite r \<and> row_requests r = length es"

definition under_key :: "jsv list option \<Rightarrow> string \<Rightarrow> jsv list \<Rightarrow> jsv list" where
  "under_key models k es = filter (\<lambda>e. row_key models e = k) es"

definition rows_exact :: "jsv list option \<Rightarrow> jsv list \<Rightarrow> (string \<times> ModelCostRow) list \<Rightarrow> bool" where
  "rows_exact models es rows \<longleftrightarrow> distinct (map fst rows) \<and> set (map fst rows) = row_key models ` set es \<and>
     list_all (\<lambda>(k, r). row_exact (under_key models k es) r) rows"

lemma row_exact_add: "row_exact es r \<Longrightarrow> row_exact (es @ [e]) (add_usage e r)"
  by (simp add: row_exact_def add_usage_def)

lemma row_exact_new: "row_exact [] (new_row models e)"
  by (simp add: row_exact_def new_row_def)

lemma fst_add_to_row:
  "map fst (add_to_row models e rows) =
     (if row_key models e \<in> set (map fst rows) then map fst rows else map fst rows @ [row_key models e])"
  by (induction models e rows rule: add_to_row.induct) auto

lemma in_add_to_row:
  assumes "distinct (map fst rows)" "(k, r) \<in> set (add_to_row models e rows)"
  shows "k \<noteq> row_key models e \<and> (k, r) \<in> set rows \<or>
    k = row_key models e \<and> (\<exists>r0. r = add_usage e r0 \<and> ((k, r0) \<in> set rows \<or> k \<notin> set (map fst rows) \<and> r0 = new_row models e))"
  using assms by (induction models e rows rule: add_to_row.induct) (auto split: if_splits, force+)

lemma rows_exact_add:
  assumes "rows_exact models es rows"
  shows "rows_exact models (es @ [e]) (add_to_row models e rows)"
proof -
  have d: "distinct (map fst rows)" and keys: "set (map fst rows) = row_key models ` set es"
    and ex: "\<And>k r. (k, r) \<in> set rows \<Longrightarrow> row_exact (under_key models k es) r"
    using assms by (auto simp: rows_exact_def list_all_iff)
  have "row_exact (under_key models k (es @ [e])) r" if mem: "(k, r) \<in> set (add_to_row models e rows)" for k r
  proof -
    consider (other) "k \<noteq> row_key models e" "(k, r) \<in> set rows"
      | (old) r0 where "k = row_key models e" "r = add_usage e r0" "(k, r0) \<in> set rows"
      | (new) "k = row_key models e" "k \<notin> set (map fst rows)" "r = add_usage e (new_row models e)"
      using in_add_to_row[OF d mem] by blast
    then show ?thesis
    proof cases
      case other
      then show ?thesis using ex[OF other(2)] by (simp add: under_key_def)
    next
      case old
      then show ?thesis using row_exact_add[OF ex[OF old(3)]] by (simp add: under_key_def)
    next
      case new
      have "row_key models x \<noteq> k" if "x \<in> set es" for x using new(2) keys that by (metis imageI)
      then have "under_key models k es = []" by (simp add: under_key_def filter_empty_conv)
      then show ?thesis using row_exact_add[OF row_exact_new[of models e]] new by (simp add: under_key_def)
    qed
  qed
  moreover have "distinct (map fst (add_to_row models e rows))"
    "set (map fst (add_to_row models e rows)) = row_key models ` set (es @ [e])"
    using d keys by (auto simp: fst_add_to_row)
  ultimately show ?thesis unfolding rows_exact_def list_all_iff by blast
qed

text \<open>
  \<^bold>\<open>Lemma.\<close>  The ledger adds up: the totals are the sums over the messages that carry usage, there is
  one row per billing key, each row sums exactly the messages billed under its key, and so the rows
  sum to the totals.  The rows are in falling order of cost.
\<close>

theorem ledger_adds_up:
  "let es = filter billed (js_values entries); (a, rate) = sessionAccounting models entries
   in acc_cost a = sum_list (map cost_of es) \<and> acc_requests a = length es \<and>
      acc_input a = sum_list (map (\<lambda>e. usage_of e ''input'') es) \<and>
      acc_output a = sum_list (map (\<lambda>e. usage_of e ''output'') es) \<and>
      acc_cacheRead a = sum_list (map (\<lambda>e. usage_of e ''cacheRead'') es) \<and>
      acc_cacheWrite a = sum_list (map (\<lambda>e. usage_of e ''cacheWrite'') es) \<and>
      rows_exact models es (acc_rows a) \<and> sorted (map (\<lambda>p. - row_cost (snd p)) (acc_rows a)) \<and>
      acc_cost a = sum_list (map (row_cost \<circ> snd) (acc_rows a)) \<and>
      acc_requests a = sum_list (map (row_requests \<circ> snd) (acc_rows a))"
proof -
  let ?vs = "js_values entries"
  let ?b = "account_entries models ?vs"
  have step: "let a = account_entries models vs; es = filter billed vs in
      acc_cost a = sum_list (map cost_of es) \<and> acc_requests a = length es \<and>
      acc_input a = sum_list (map (\<lambda>e. usage_of e ''input'') es) \<and>
      acc_output a = sum_list (map (\<lambda>e. usage_of e ''output'') es) \<and>
      acc_cacheRead a = sum_list (map (\<lambda>e. usage_of e ''cacheRead'') es) \<and>
      acc_cacheWrite a = sum_list (map (\<lambda>e. usage_of e ''cacheWrite'') es) \<and>
      rows_exact models es (acc_rows a) \<and>
      acc_cost a = sum_list (map (row_cost \<circ> snd) (acc_rows a)) \<and>
      acc_requests a = sum_list (map (row_requests \<circ> snd) (acc_rows a))" for vs
  proof (induction vs rule: rev_induct)
    case Nil
    then show ?case by (simp add: account_entries_def noAccounting_def rows_exact_def)
  next
    case (snoc e vs)
    have s: "sum_list (map (row_cost \<circ> snd) (add_to_row models e rows)) = sum_list (map (row_cost \<circ> snd) rows) + cost_of e"
      "sum_list (map (row_requests \<circ> snd) (add_to_row models e rows)) = Suc (sum_list (map (row_requests \<circ> snd) rows))" for rows
      by (induction models e rows rule: add_to_row.induct) (auto simp: add_usage_def new_row_def)
    have "account_entries models (vs @ [e]) = account_entry models (account_entries models vs) e"
      by (simp add: account_entries_def)
    then show ?case using snoc rows_exact_add[of models "filter billed vs" _ e]
      by (cases "billed e") (simp_all add: account_entry_def Let_def s[unfolded o_def])
  qed
  have p: "mset (sort_key f rows) = mset rows" for f :: "string \<times> ModelCostRow \<Rightarrow> rat" and rows by simp
  have "rows_exact models es (sort_key f rows) = rows_exact models es rows" for es and f :: "string \<times> ModelCostRow \<Rightarrow> rat" and rows
    using mset_eq_setD[OF p[of f rows]] by (auto simp: rows_exact_def list_all_iff distinct_map)
  moreover have "sum_list (map g (sort_key f rows)) = sum_list (map g rows)"
    for g :: "string \<times> ModelCostRow \<Rightarrow> rat" and f :: "string \<times> ModelCostRow \<Rightarrow> rat" and rows
    by (metis mset_map p sum_mset_sum_list)
  moreover have "sum_list (map g (sort_key f rows)) = sum_list (map g rows)"
    for g :: "string \<times> ModelCostRow \<Rightarrow> nat" and f :: "string \<times> ModelCostRow \<Rightarrow> rat" and rows
    by (metis mset_map p sum_mset_sum_list)
  ultimately show ?thesis using step[of ?vs] by (simp add: sessionAccounting_def Let_def)
qed

end
