(* ===== verification/ViewPath.thy ===== *)
theory ViewPath
  imports HistoryTree "HOL-Library.Char_ord" "HOL-Library.List_Lexorder"
begin

text \<open>
  The rendered path, the walks along parent links of \<^verbatim>\<open>packages/bridge/src/viewmodel/index.ts\<close>: the leaf a
  projection starts from, the fork point of a peek, the keys of a path, the pager of message variants and
  the selection a path inherits.  A walk returns \<open>None\<close> when its links form a cycle.  \<^verbatim>\<open><\<close> on strings is
  the order of their codes, \<open><\<close> on \<open>string\<close>; \<^verbatim>\<open>localeCompare\<close> is the argument \<open>lc\<close>.
\<close>

section \<open>The rendered path\<close>

definition resolveViewLeaf :: "jsv \<Rightarrow> jsv \<Rightarrow> jsv" where
  "resolveViewLeaf doc viewLeafId =
     (if nullish viewLeafId then jget (doc_status doc) ''leafId''
      else if truthy (jget (doc_entries doc) (js_text viewLeafId)) then viewLeafId
      else jget (doc_status doc) ''leafId'')"

text \<open>\<^verbatim>\<open>entries[cursor]?.parentId ?? null\<close>.\<close>

definition parent_link :: "jsv \<Rightarrow> jsv \<Rightarrow> jsv" where
  "parent_link entries cursor =
     (let e = jget entries (js_text cursor) in if nullish e then JNull else coalesce (jget e ''parentId'') JNull)"

definition walk_step :: "jsv \<Rightarrow> jsv \<Rightarrow> (string \<times> jsv) option" where
  "walk_step entries cursor = (if truthy cursor then Some (js_text cursor, parent_link entries cursor) else None)"

partial_function (option) first_shared :: "string set \<Rightarrow> jsv \<Rightarrow> jsv \<Rightarrow> jsv option" where
  "first_shared live entries cursor =
     (if \<not> truthy cursor then Some JNull
      else if js_text cursor \<in> live then Some cursor
      else first_shared live entries (parent_link entries cursor))"

definition computeForkPoint :: "jsv \<Rightarrow> jsv \<Rightarrow> jsv option" where
  "computeForkPoint doc viewLeafId =
     Option.bind (chain (walk_step (doc_entries doc)) (jget (doc_status doc) ''leafId''))
       (\<lambda>live. first_shared (set live) (doc_entries doc) viewLeafId)"

text \<open>The path from the leaf to the root, as the walks collect it; \<^verbatim>\<open>projectLeafPath\<close> reverses it.\<close>

definition path_up :: "jsv \<Rightarrow> jsv \<Rightarrow> (string \<times> jsv) list option" where
  "path_up doc viewLeafId = chain (active_step (doc_entries doc)) (resolveViewLeaf doc viewLeafId)"

definition projectLeafPath :: "jsv \<Rightarrow> jsv \<Rightarrow> jsv list option" where
  "projectLeafPath doc viewLeafId = map_option (\<lambda>p. rev (map snd p)) (path_up doc viewLeafId)"

section \<open>Keys of a path\<close>

definition block_count :: "jsv \<Rightarrow> nat" where
  "block_count e = length (arr_of (jget e ''content''))"

definition leafPathKey :: "jsv \<Rightarrow> jsv \<Rightarrow> string option" where
  "leafPathKey doc viewLeafId =
     map_option (\<lambda>p. join_with ''|'' (map fst p) @ ''::'' @
         join_with '','' (map (nat_str \<circ> block_count \<circ> snd) (filter (\<lambda>(i, e). \<not> isEntrySealed e) p)))
       (path_up doc viewLeafId)"

definition streaming_part :: "string \<Rightarrow> string set option \<Rightarrow> nat \<times> jsv \<Rightarrow> string" where
  "streaming_part leafId expanded ib =
     (let b = snd ib in
      if jget b ''type'' = JStr ''text'' then ''t'' @ nat_str (length (str_of (jget b ''text'')))
      else if jget b ''type'' = JStr ''thinking''
      then let t = str_of (coalesce (jget b ''thinking'') (JStr ''''))
           in case expanded of
                Some x \<Rightarrow> if leafId @ '':b'' @ nat_str (fst ib) \<notin> x then ''k'' @ nat_str (if length t > 0 then 1 else 0)
                          else ''k'' @ nat_str (length t)
              | None \<Rightarrow> ''k'' @ nat_str (length t)
      else ''x'')"

definition leafStreamingKey :: "jsv \<Rightarrow> jsv \<Rightarrow> string set option \<Rightarrow> string" where
  "leafStreamingKey doc viewLeafId expanded =
     (let leafId = resolveViewLeaf doc viewLeafId; entry = jget (doc_entries doc) (js_text leafId)
      in if \<not> truthy leafId \<or> \<not> truthy entry \<or> \<not> kind_is ''message'' entry then ''''
         else join_with ''|'' (map (streaming_part (js_text leafId) expanded) (enumerate 0 (arr_of (jget entry ''content'')))))"

definition text_length :: "jsv \<Rightarrow> nat" where
  "text_length e =
     sum_list (map (\<lambda>b. length (str_of (jget b ''text''))) (filter (\<lambda>b. jget b ''type'' = JStr ''text'') (arr_of (jget e ''content''))))"

definition text_part :: "jsv \<Rightarrow> string list" where
  "text_part e =
     (if kind_is ''message'' e \<and> text_length e > 0 then [str_of (jget e ''id'') @ '':'' @ nat_str (text_length e)] else [])"

definition leafTextKey :: "jsv \<Rightarrow> jsv \<Rightarrow> string option" where
  "leafTextKey doc viewLeafId =
     map_option (\<lambda>p. join_with ''|'' (concat (map (text_part \<circ> snd) p))) (path_up doc viewLeafId)"

section \<open>Variants of a message\<close>

definition sibling_of :: "jsv \<Rightarrow> jsv \<Rightarrow> bool" where
  "sibling_of entry e \<longleftrightarrow> is_user e \<and> jget e ''parentId'' = jget entry ''parentId''"

definition stamp_text :: "jsv \<Rightarrow> string" where
  "stamp_text e = str_of (coalesce (jget e ''timestamp'') (JStr ''''))"

definition computeSiblings :: "collation \<Rightarrow> jsv \<Rightarrow> jsv \<Rightarrow> string list \<times> nat" where
  "computeSiblings lc entry entries =
     (let siblings = sort_by (\<lambda>a b. lc (stamp_text a) (stamp_text b) \<le> 0) (filter (sibling_of entry) (js_values entries));
          ids = map user_id siblings
      in (ids, case List.find (\<lambda>i. ids ! i = user_id entry) [0 ..< length ids] of Some i \<Rightarrow> i | None \<Rightarrow> 0))"

text \<open>The breadth-first collection of a subtree; the set of the source in the order of its insertions.\<close>

definition child_ids :: "jsv list \<Rightarrow> string list \<Rightarrow> string \<Rightarrow> string list" where
  "child_ids vs subtree i =
     map user_id (filter (\<lambda>e. jget e ''parentId'' = JStr i \<and> user_id e \<notin> set subtree) vs)"

function collect_subtree :: "jsv list \<Rightarrow> string list \<Rightarrow> string list \<Rightarrow> string list" where
  "collect_subtree vs subtree [] = subtree"
| "collect_subtree vs subtree (i # queue) =
     (if i \<in> set subtree then collect_subtree vs subtree queue
      else collect_subtree vs (subtree @ [i]) (queue @ child_ids vs (subtree @ [i]) i))"
  by pat_completeness auto
termination
proof (relation "measures [\<lambda>(vs, subtree, queue). card ((set queue \<union> user_id ` set vs) - set subtree),
    \<lambda>(vs, subtree, queue). length queue]", simp)
  fix vs subtree i queue
  let ?m = "\<lambda>subtree queue. card ((set queue \<union> user_id ` set vs) - set subtree)"
  have "?m subtree queue \<le> ?m subtree (i # queue)" by (rule card_mono) auto
  then show "((vs, subtree, queue), vs, subtree, i # queue)
      \<in> measures [\<lambda>(vs, subtree, queue). card ((set queue \<union> user_id ` set vs) - set subtree),
                  \<lambda>(vs, subtree, queue). length queue]" by auto
  assume i: "i \<notin> set subtree"
  have "?m (subtree @ [i]) (queue @ child_ids vs (subtree @ [i]) i) < ?m subtree (i # queue)"
    by (rule psubset_card_mono) (use i in \<open>auto simp: child_ids_def\<close>)
  then show "((vs, subtree @ [i], queue @ child_ids vs (subtree @ [i]) i), vs, subtree, i # queue)
      \<in> measures [\<lambda>(vs, subtree, queue). card ((set queue \<union> user_id ` set vs) - set subtree),
                  \<lambda>(vs, subtree, queue). length queue]" by simp
qed

definition newer :: "jsv \<Rightarrow> string \<times> string \<Rightarrow> string \<Rightarrow> string \<times> string" where
  "newer entries newest i =
     (let e = jget entries i; ts = stamp_text e
      in if truthy e \<and> (snd newest < ts \<or> ts = snd newest \<and> fst newest < i) then (i, ts) else newest)"

definition newestLeafInSubtree :: "string \<Rightarrow> jsv \<Rightarrow> string" where
  "newestLeafInSubtree entryId entries =
     fst (foldl (newer entries) (entryId, '''') (collect_subtree (js_values entries) [] [entryId]))"

section \<open>What a path inherits\<close>

text \<open>The selection an entry records, and the walk that returns the first one.\<close>

definition recorded_model :: "jsv \<Rightarrow> (string \<times> string) option" where
  "recorded_model e =
     (if kind_is ''model_change'' e then Some (str_of (jget e ''provider''), str_of (jget e ''modelId''))
      else if kind_is ''message'' e \<and> jget e ''role'' = JStr ''assistant'' \<and> is_str (jget e ''provider'') \<and>
              is_str (jget e ''model'') \<and> jget e ''provider'' \<noteq> JStr '''' \<and> jget e ''model'' \<noteq> JStr ''''
      then Some (str_of (jget e ''provider''), str_of (jget e ''model'')) else None)"

definition recorded_thinking :: "jsv \<Rightarrow> string option" where
  "recorded_thinking e = (if kind_is ''thinking_level_change'' e then Some (str_of (jget e ''thinkingLevel'')) else None)"

partial_function (option) inherit_from :: "(jsv \<Rightarrow> 'a option) \<Rightarrow> jsv \<Rightarrow> jsv \<Rightarrow> 'a option option" where
  "inherit_from f entries i =
     (if i = JNull then Some None
      else let e = jget entries (js_text i)
           in if \<not> truthy e then Some None
              else case f e of Some m \<Rightarrow> Some (Some m) | None \<Rightarrow> inherit_from f entries (jget e ''parentId''))"

definition inheritModelForPath :: "jsv \<Rightarrow> jsv \<Rightarrow> (string \<times> string) option option" where
  "inheritModelForPath entries leafId = inherit_from recorded_model entries leafId"

definition inheritThinkingLevelForPath :: "jsv \<Rightarrow> jsv \<Rightarrow> string option option" where
  "inheritThinkingLevelForPath entries leafId = inherit_from recorded_thinking entries leafId"

section \<open>Searching sorted seals\<close>

function lower_bound :: "string list \<Rightarrow> string \<Rightarrow> nat \<Rightarrow> nat \<Rightarrow> nat" where
  "lower_bound arr x lo hi =
     (if lo < hi then
        let mid = (lo + hi) div 2
        in if arr ! mid < x then lower_bound arr x (Suc mid) hi else lower_bound arr x lo mid
      else lo)"
  by pat_completeness auto
termination by (relation "measure (\<lambda>(arr, x, lo, hi). hi - lo)") auto

definition lowerBound :: "string list \<Rightarrow> string \<Rightarrow> nat" where
  "lowerBound arr x = lower_bound arr x 0 (length arr)"

section \<open>Walks in a forest\<close>

lemma keyed_parent:
  assumes "keyed_forest rank es" "nullable is_str c"
  shows "nullable is_str (parent_link (JObj es) c)"
  using keyed_forestD(1)[OF assms(1), of "js_text c"]
  by (cases "map_of es (js_text c)") (auto simp: parent_link_def Let_def dest!: nullable_str)

lemma keyed_parent_rank:
  assumes "keyed_forest rank es" "parent_link (JObj es) (JStr k) = JStr p"
  shows "rank p < rank k"
proof -
  obtain e where e: "map_of es k = Some e" "coalesce (jget e ''parentId'') JNull = JStr p"
    using assms(2) by (cases "map_of es k") (auto simp: parent_link_def Let_def split: if_splits)
  then have "jget e ''parentId'' = JStr p" by (cases "jget e ''parentId''") (auto simp: coalesce_def)
  with keyed_forestD(2)[OF assms(1) e(1)] show ?thesis .
qed

definition cursor_rank :: "(string \<Rightarrow> nat) \<Rightarrow> jsv \<Rightarrow> nat" where
  "cursor_rank rank c = (case c of JStr s \<Rightarrow> Suc (rank s) | _ \<Rightarrow> 0)"

text \<open>A walk whose links lead from strings to strings of lower rank returns.\<close>

lemma string_walk_returns:
  assumes "\<And>c x c'. nullable is_str c \<Longrightarrow> step c = Some (x, c') \<Longrightarrow>
      nullable is_str c' \<and> cursor_rank rank c' < cursor_rank rank c" and "nullable is_str c"
  shows "\<exists>xs. chain step c = Some xs"
proof -
  let ?step = "\<lambda>c. if nullable is_str c then step c else None"
  obtain xs where "chain ?step c = Some xs"
    using chain_terminates[of ?step "cursor_rank rank" c] assms(1) by (meson option.distinct(1))
  then have "chain step c = Some xs"
    by (rule chain_cong_on[where S = "Collect (nullable is_str)", rotated 3]) (use assms in \<open>auto split: if_splits\<close>)
  then show ?thesis ..
qed

lemma walk_step_str: "nullable is_str c \<Longrightarrow> walk_step ents c = Some (k, c') \<Longrightarrow> c = JStr k \<and> k \<noteq> [] \<and> c' = parent_link ents c"
  by (auto simp: walk_step_def dest!: nullable_str split: if_splits)

lemma walk_returns:
  assumes "keyed_forest rank es" "nullable is_str c"
  shows "\<exists>xs. chain (walk_step (JObj es)) c = Some xs"
proof (rule string_walk_returns[OF _ assms(2), where rank = rank])
  fix c x c' assume c: "nullable is_str c" and s: "walk_step (JObj es) c = Some (x, c')"
  from walk_step_str[OF c s] have x: "c = JStr x" "c' = parent_link (JObj es) c" by simp_all
  from keyed_parent[OF assms(1) c] have n: "nullable is_str c'" by (simp add: x(2))
  moreover have "cursor_rank rank c' < cursor_rank rank c"
    using nullable_str[OF n] keyed_parent_rank[OF assms(1), of x] x by (auto simp: cursor_rank_def)
  ultimately show "nullable is_str c' \<and> cursor_rank rank c' < cursor_rank rank c" ..
qed

lemma chain_ConsE:
  assumes "chain step c = Some (x # xs)"
  obtains c' where "step c = Some (x, c')" "chain step c' = Some xs"
proof (cases "step c")
  case (Some p)
  then show ?thesis using assms that by (cases p) (auto simp: chain_Some)
qed (use assms in simp)

lemma chain_NilE: "chain step c = Some [] \<Longrightarrow> step c = None"
  by (cases "step c") (auto simp: chain_Some)

lemma walk_suffix:
  assumes "keyed_forest rank es"
  shows "nullable is_str c \<Longrightarrow> chain (walk_step (JObj es)) c = Some (B @ k # C) \<Longrightarrow>
    chain (walk_step (JObj es)) (JStr k) = Some (k # C)"
proof (induction B arbitrary: c)
  case Nil
  then show ?case using walk_step_str by (metis append_Nil chain_ConsE)
next
  case (Cons b B)
  then obtain c' where "walk_step (JObj es) c = Some (b, c')" "chain (walk_step (JObj es)) c' = Some (B @ k # C)"
    by (metis append_Cons chain_ConsE)
  then show ?case using Cons.IH[of c'] keyed_parent[OF assms Cons.prems(1)] walk_step_str[OF Cons.prems(1)] by simp
qed

lemma first_shared_walk:
  assumes "keyed_forest rank es"
  shows "nullable is_str c \<Longrightarrow> chain (walk_step (JObj es)) c = Some V \<Longrightarrow>
    first_shared live (JObj es) c =
      Some (case dropWhile (\<lambda>k. k \<notin> live) V of [] \<Rightarrow> JNull | k # _ \<Rightarrow> JStr k)"
proof (induction V arbitrary: c)
  case Nil
  then have "\<not> truthy c" by (auto dest!: chain_NilE simp: walk_step_def split: if_splits)
  then show ?case by (subst first_shared.simps) simp
next
  case (Cons k V)
  from Cons.prems(2) obtain c' where s: "walk_step (JObj es) c = Some (k, c')" "chain (walk_step (JObj es)) c' = Some V"
    by (rule chain_ConsE)
  note k = walk_step_str[OF Cons.prems(1) s(1)]
  have n: "nullable is_str c'" using k keyed_parent[OF assms Cons.prems(1)] by simp
  from k Cons.IH[OF n s(2)] show ?case by (subst first_shared.simps) simp
qed

text \<open>
  \<^bold>\<open>Property C31.\<close>  The fork point of a peek is where the rendered path leaves the live path: both paths
  end in the same entries from it to the root, and no entry before it on the rendered path is live.
  There is none exactly when the paths share nothing.
\<close>

theorem fork_point_deepest:
  assumes "keyed_forest rank es" "nullable is_str (jget st ''leafId'')" "nullable is_str v"
  shows "\<exists>L V. chain (walk_step (JObj es)) (jget st ''leafId'') = Some L \<and> chain (walk_step (JObj es)) v = Some V \<and>
    (computeForkPoint (mk_doc st es) v = Some JNull \<and> set V \<inter> set L = {} \<or>
     (\<exists>k A B C. computeForkPoint (mk_doc st es) v = Some (JStr k) \<and> V = A @ k # C \<and> L = B @ k # C \<and> set A \<inter> set L = {}))"
proof -
  obtain L V where L: "chain (walk_step (JObj es)) (jget st ''leafId'') = Some L"
    and V: "chain (walk_step (JObj es)) v = Some V" using walk_returns[OF assms(1)] assms(2,3) by blast
  have f: "computeForkPoint (mk_doc st es) v =
      Some (case dropWhile (\<lambda>k. k \<notin> set L) V of [] \<Rightarrow> JNull | k # _ \<Rightarrow> JStr k)"
    using first_shared_walk[OF assms(1,3) V] by (simp add: computeForkPoint_def L)
  show ?thesis
  proof (cases "dropWhile (\<lambda>k. k \<notin> set L) V")
    case Nil
    then have "set V \<inter> set L = {}" by auto
    with L V f Nil show ?thesis by auto
  next
    case (Cons k C)
    define A where "A = takeWhile (\<lambda>k. k \<notin> set L) V"
    have VA: "V = A @ k # C" using takeWhile_dropWhile_id[of "\<lambda>k. k \<notin> set L" V] Cons by (simp add: A_def)
    have "k \<in> set L" using Cons by (metis dropWhile_eq_Cons_conv)
    then obtain B C' where LB: "L = B @ k # C'" by (meson split_list)
    have "C' = C" using walk_suffix[OF assms(1,2)] walk_suffix[OF assms(1,3)] L V LB VA by fastforce
    moreover have "set A \<inter> set L = {}" by (auto simp: A_def dest: set_takeWhileD)
    ultimately show ?thesis using L V f Cons VA LB by auto
  qed
qed

text \<open>The thread with a second answer \<open>d\<close> to the first message.\<close>

definition sample_branches :: props where
  "sample_branches = sample_thread @
     [(''d'', JObj [(''id'', JStr ''d''), (''parentId'', JStr ''a''), (''kind'', JStr ''message''), (''role'', JStr ''assistant''),
        (''provider'', JStr ''p''), (''model'', JStr ''m''), (''timestamp'', JStr ''4''), (''content'', JArr [])])]"

lemma sample_branches_forest: "keyed_forest sample_rank sample_branches"
  by (auto simp: keyed_forest_def sample_branches_def sample_thread_def ranked_parents_def nullable_parents_def
      sample_rank_def nullable_def split: if_splits)

theorem fork_point_deepest_witness:
  "computeForkPoint (mk_doc (JObj [(''leafId'', JStr ''c'')]) sample_branches) (JStr ''d'') = Some (JStr ''a'')"
proof -
  have L: "chain (walk_step (JObj sample_branches)) (JStr ''c'') = Some [''c'', ''b'', ''a'']"
    and V: "chain (walk_step (JObj sample_branches)) (JStr ''d'') = Some [''d'', ''a'']"
    by (simp_all add: chain_Some walk_step_def parent_link_def sample_branches_def sample_thread_def Let_def)
  have "nullable is_str (jget (JObj [(''leafId'', JStr ''c'')]) ''leafId'')" "nullable is_str (JStr ''d'')" by (simp_all add: nullable_def)
  from fork_point_deepest[OF sample_branches_forest this] L V
  obtain k A B C where f: "computeForkPoint (mk_doc (JObj [(''leafId'', JStr ''c'')]) sample_branches) (JStr ''d'') = Some (JStr k)"
    and s: "[''d'', ''a''] = A @ k # C" "[''c'', ''b'', ''a''] = B @ k # C" by auto
  from s(1) have "k = ''a'' \<or> k = ''d''" by (cases A) (auto simp: Cons_eq_append_conv)
  moreover have "k \<in> set [''c'', ''b'', ''a'']" using s(2) by simp
  ultimately show ?thesis using f by auto
qed

section \<open>Inheritance\<close>

text \<open>The reference: the first record in a list of entries.\<close>

fun nearest :: "(jsv \<Rightarrow> 'a option) \<Rightarrow> jsv list \<Rightarrow> 'a option" where
  "nearest f [] = None"
| "nearest f (e # es) = (case f e of Some r \<Rightarrow> Some r | None \<Rightarrow> nearest f es)"

lemma inherit_chain:
  assumes "keyed_forest rank es"
  shows "nullable is_str c \<Longrightarrow> chain (active_step (JObj es)) c = Some p \<Longrightarrow>
    inherit_from f (JObj es) c = Some (nearest f (map snd p))"
proof (induction p arbitrary: c)
  case Nil
  then have "active_step (JObj es) c = None" by (auto dest: chain_NilE)
  then have "c = JNull \<or> \<not> truthy (jget (JObj es) (js_text c))"
    using nullable_str[OF Nil.prems(1)] keyed_forestD(1)[OF assms, of "[]"]
    by (cases "map_of es []") (auto simp: active_step_def Let_def split: if_splits)
  then show ?case by (subst inherit_from.simps) (auto simp: Let_def)
next
  case (Cons x p)
  obtain k e where x: "x = (k, e)" by (cases x)
  from Cons.prems(2) obtain c' where s: "active_step (JObj es) c = Some (x, c')" "chain (active_step (JObj es)) c' = Some p"
    by (rule chain_ConsE)
  then have e: "e = jget (JObj es) (js_text c)" "truthy c" "truthy e" "c' = jget e ''parentId''"
    by (auto simp: active_step_def Let_def x split: if_splits)
  then have "map_of es (js_text c) = Some e" by (auto split: option.splits)
  then have "nullable is_str c'" using keyed_forestD(1)[OF assms] e(4) by blast
  from Cons.IH[OF this s(2)] e show ?case by (subst inherit_from.simps) (auto simp: Let_def x split: option.split)
qed

lemma active_returns:
  assumes "keyed_forest rank es" "nullable is_str c"
  shows "\<exists>p. chain (active_step (JObj es)) c = Some p"
proof (rule string_walk_returns[OF _ assms(2), where rank = rank])
  fix c x c' assume c: "nullable is_str c" and s: "active_step (JObj es) c = Some (x, c')"
  then obtain k e where k: "c = JStr k" "map_of es k = Some e" "c' = jget e ''parentId''"
    by (auto simp: active_step_def Let_def dest!: nullable_str split: if_splits option.splits)
  have n: "nullable is_str c'" using keyed_forestD(1)[OF assms(1) k(2)] k(3) by simp
  moreover have "cursor_rank rank c' < cursor_rank rank c"
    using nullable_str[OF n] keyed_forestD(2)[OF assms(1) k(2)] k by (auto simp: cursor_rank_def)
  ultimately show "nullable is_str c' \<and> cursor_rank rank c' < cursor_rank rank c" ..
qed

text \<open>
  \<^bold>\<open>Lemma.\<close>  A send inherits from its own path only: the model and the thinking level are those of the
  entry nearest to the leaf, on the way to the root, that records one, and there is none when no entry
  of that path does.
\<close>

theorem inherits_nearest_on_path:
  assumes "keyed_forest rank es" "nullable is_str leaf"
  shows "\<exists>p. chain (active_step (JObj es)) leaf = Some p \<and>
    inheritModelForPath (JObj es) leaf = Some (nearest recorded_model (map snd p)) \<and>
    inheritThinkingLevelForPath (JObj es) leaf = Some (nearest recorded_thinking (map snd p))"
proof -
  obtain p where p: "chain (active_step (JObj es)) leaf = Some p" using active_returns[OF assms] by blast
  show ?thesis unfolding inheritModelForPath_def inheritThinkingLevelForPath_def
    by (intro exI[of _ p] conjI p inherit_chain[OF assms p])
qed

theorem inherits_nearest_on_path_witness:
  "inheritModelForPath (JObj sample_branches) (JStr ''d'') = Some (Some (''p'', ''m'')) \<and>
   inheritModelForPath (JObj sample_branches) (JStr ''c'') = Some None"
proof -
  have n: "nullable is_str (JStr ''d'')" "nullable is_str (JStr ''c'')" by (simp_all add: nullable_def)
  have "chain (active_step (JObj sample_branches)) (JStr ''d'') =
      Some [(''d'', jget (JObj sample_branches) ''d''), (''a'', jget (JObj sample_branches) ''a'')]"
    "chain (active_step (JObj sample_branches)) (JStr ''c'') =
      Some [(''c'', jget (JObj sample_branches) ''c''), (''b'', jget (JObj sample_branches) ''b''), (''a'', jget (JObj sample_branches) ''a'')]"
    by (simp_all add: chain_Some active_step_def sample_branches_def sample_thread_def Let_def)
  moreover have "recorded_model (jget (JObj sample_branches) ''d'') = Some (''p'', ''m'')"
    "recorded_model (jget (JObj sample_branches) ''c'') = None" "recorded_model (jget (JObj sample_branches) ''b'') = None"
    "recorded_model (jget (JObj sample_branches) ''a'') = None"
    by (simp_all add: recorded_model_def sample_branches_def sample_thread_def kind_is_def)
  ultimately show ?thesis
    using inherits_nearest_on_path[OF sample_branches_forest n(1)] inherits_nearest_on_path[OF sample_branches_forest n(2)]
    by simp
qed

section \<open>Subtrees\<close>

definition child_of :: "jsv list \<Rightarrow> (string \<times> string) set" where
  "child_of vs = {(p, user_id e) |p e. e \<in> set vs \<and> jget e ''parentId'' = JStr p}"

lemma child_of_list:
  "child_of vs = set (concat (map (\<lambda>e. case jget e ''parentId'' of JStr p \<Rightarrow> [(p, user_id e)] | _ \<Rightarrow> []) vs))"
proof -
  have one: "set (case jget e ''parentId'' of JStr p \<Rightarrow> [(p, user_id e)] | _ \<Rightarrow> []) =
      {(p, user_id e) |p. jget e ''parentId'' = JStr p}" for e
    by (cases "jget e ''parentId''") simp_all
  show ?thesis unfolding child_of_def set_concat set_map image_image one by blast
qed

lemma set_child_ids: "set (child_ids vs seen i) = {c. (i, c) \<in> child_of vs \<and> c \<notin> set seen}"
  by (auto simp: child_ids_def child_of_def)

lemma collect_subtree_reach:
  assumes "child_of vs `` set seen \<subseteq> set seen \<union> set queue" "set seen \<union> set queue \<subseteq> (child_of vs)\<^sup>* `` {i}"
    "i \<in> set seen \<union> set queue"
  shows "set (collect_subtree vs seen queue) = (child_of vs)\<^sup>* `` {i}"
  using assms
proof (induction vs seen queue rule: collect_subtree.induct)
  case (1 vs seen)
  have "(child_of vs)\<^sup>* `` {i} \<subseteq> set seen"
  proof (rule subsetI)
    fix j assume "j \<in> (child_of vs)\<^sup>* `` {i}"
    then have "(i, j) \<in> (child_of vs)\<^sup>*" by simp
    then show "j \<in> set seen" by (induction rule: rtrancl_induct) (use 1 in auto)
  qed
  then show ?case using 1 by auto
next
  case (2 vs seen k queue)
  show ?case
  proof (cases "k \<in> set seen")
    case True
    have "set seen \<union> set (k # queue) = set seen \<union> set queue" using True by auto
    then have "set (collect_subtree vs seen queue) = (child_of vs)\<^sup>* `` {i}"
      using "2.IH"(1)[OF True] "2.prems" by simp
    then show ?thesis using True by simp
  next
    case False
    have k: "(i, k) \<in> (child_of vs)\<^sup>*" using "2.prems"(2) by auto
    have "set (collect_subtree vs (seen @ [k]) (queue @ child_ids vs (seen @ [k]) k)) = (child_of vs)\<^sup>* `` {i}"
    proof (rule "2.IH"(2)[OF False])
      let ?q = "queue @ child_ids vs (seen @ [k]) k"
      have q: "set ?q = set queue \<union> {c. (k, c) \<in> child_of vs \<and> c \<notin> set (seen @ [k])}"
        by (simp only: set_append set_child_ids)
      show "child_of vs `` set (seen @ [k]) \<subseteq> set (seen @ [k]) \<union> set ?q"
        using "2.prems"(1) unfolding q by auto
      have "{c. (k, c) \<in> child_of vs} \<subseteq> (child_of vs)\<^sup>* `` {i}" using k by (auto intro: rtrancl_into_rtrancl)
      then show "set (seen @ [k]) \<union> set ?q \<subseteq> (child_of vs)\<^sup>* `` {i}"
        using "2.prems"(2) unfolding q by auto
      show "i \<in> set (seen @ [k]) \<union> set ?q" using "2.prems"(3) by auto
    qed
    with False show ?thesis by simp
  qed
qed

text \<open>The order the newest entry is taken by: time, then id.\<close>

definition upto_time :: "string \<times> string \<Rightarrow> string \<times> string \<Rightarrow> bool" where
  "upto_time a b \<longleftrightarrow> snd a < snd b \<or> snd a = snd b \<and> fst a \<le> fst b"

lemma upto_time_refl [simp]: "upto_time a a"
  by (simp add: upto_time_def)

lemma upto_time_trans: "upto_time a b \<Longrightarrow> upto_time b c \<Longrightarrow> upto_time a c"
  by (auto simp: upto_time_def)

lemma upto_time_newer:
  "upto_time b (newer ents b i)"
  "truthy (jget ents i) \<Longrightarrow> upto_time (i, stamp_text (jget ents i)) (newer ents b i)"
  "newer ents b i = b \<or> newer ents b i = (i, stamp_text (jget ents i)) \<and> truthy (jget ents i)"
  by (auto simp: upto_time_def newer_def Let_def)

lemma newer_max:
  "upto_time b (foldl (newer ents) b js) \<and>
   (\<forall>i\<in>set js. truthy (jget ents i) \<longrightarrow> upto_time (i, stamp_text (jget ents i)) (foldl (newer ents) b js)) \<and>
   (foldl (newer ents) b js = b \<or>
    (\<exists>i\<in>set js. truthy (jget ents i) \<and> foldl (newer ents) b js = (i, stamp_text (jget ents i))))"
proof (induction js arbitrary: b)
  case (Cons i js)
  let ?b = "newer ents b i"
  note n = upto_time_newer(1)[of b ents i] upto_time_newer(2)[of ents i b] upto_time_newer(3)[of ents b i]
  from Cons[of ?b] have r: "upto_time ?b (foldl (newer ents) ?b js)"
    "\<forall>i\<in>set js. truthy (jget ents i) \<longrightarrow> upto_time (i, stamp_text (jget ents i)) (foldl (newer ents) ?b js)"
    "foldl (newer ents) ?b js = ?b \<or>
       (\<exists>i\<in>set js. truthy (jget ents i) \<and> foldl (newer ents) ?b js = (i, stamp_text (jget ents i)))" by blast+
  have "upto_time b (foldl (newer ents) ?b js)" using n(1) r(1) by (rule upto_time_trans)
  moreover have "truthy (jget ents i) \<Longrightarrow> upto_time (i, stamp_text (jget ents i)) (foldl (newer ents) ?b js)"
    using n(2) r(1) upto_time_trans by blast
  ultimately show ?case using r(2,3) n(3) unfolding foldl_Cons list.set by (metis insert_iff)
qed simp

text \<open>
  \<^bold>\<open>Property C32.\<close>  Switching to another variant of a message lands on the newest entry below it: of the
  message and everything that descends from it none has a later time, ids deciding between equal times.
  Where times rise from parent to child this entry is a leaf.
\<close>

theorem newest_leaf_exact:
  assumes "keyed_forest rank es" "map_of es i = Some e"
  shows "let D = (child_of (js_values (JObj es)))\<^sup>* `` {i}; n = newestLeafInSubtree i (JObj es);
             stamp = (\<lambda>j. (j, stamp_text (jget (JObj es) j)))
         in n \<in> D \<and> (\<forall>j\<in>D. upto_time (stamp j) (stamp n)) \<and>
            ((\<forall>(p, c)\<in>child_of (js_values (JObj es)). snd (stamp p) < snd (stamp c)) \<longrightarrow>
             (\<forall>c. (n, c) \<notin> child_of (js_values (JObj es))))"
proof -
  let ?vs = "js_values (JObj es)" and ?ents = "JObj es"
  let ?D = "(child_of ?vs)\<^sup>* `` {i}" and ?n = "newestLeafInSubtree i ?ents"
  let ?stamp = "\<lambda>j. (j, stamp_text (jget ?ents j))"
  have D: "set (collect_subtree ?vs [] [i]) = ?D" by (rule collect_subtree_reach) auto
  have known: "truthy (jget ?ents j)" if "j \<in> ?D" for j
  proof -
    have "(i, j) \<in> (child_of ?vs)\<^sup>*" using that by simp
    then have "j \<in> set (map fst es)"
    proof (induction rule: rtrancl_induct)
      case base
      then show ?case using map_of_SomeD[OF assms(2)] by force
    next
      case (step p c)
      then obtain k x where kx: "(k, x) \<in> set es" "c = user_id x" by (auto simp: child_of_def js_values_JObj)
      then have "jget x ''id'' = JStr k" using assms(1) by (auto simp: keyed_forest_def list_all_iff)
      then show ?case using kx by (force simp: user_id_def)
    qed
    then obtain x where "map_of es j = Some x" unfolding in_keys_map_of by blast
    with keyed_forestD(1)[OF assms(1) this] show ?thesis by simp
  qed
  let ?m = "foldl (newer ?ents) (i, []) (collect_subtree ?vs [] [i])"
  have m: "\<forall>j\<in>?D. upto_time (?stamp j) ?m" "?m = (i, []) \<or> (\<exists>j\<in>?D. ?m = ?stamp j)"
    using newer_max[of "(i, [])" ?ents "collect_subtree ?vs [] [i]"] known unfolding D by blast+
  have nm: "?n = fst ?m" by (simp add: newestLeafInSubtree_def)
  have i: "i \<in> ?D" by simp
  have n: "?m = ?stamp ?n \<and> ?n \<in> ?D"
  proof (cases "?m = (i, [])")
    case True
    then have "stamp_text (jget ?ents i) = []" using m(1) i by (fastforce simp: upto_time_def)
    then show ?thesis using True nm i by simp
  next
    case False
    then obtain j where "j \<in> ?D" "?m = ?stamp j" using m(2) by blast
    then show ?thesis unfolding nm by simp
  qed
  have "(?n, c) \<notin> child_of ?vs" if up: "\<forall>(p, c)\<in>child_of ?vs. snd (?stamp p) < snd (?stamp c)" for c
  proof
    assume c: "(?n, c) \<in> child_of ?vs"
    have "(i, ?n) \<in> (child_of ?vs)\<^sup>*" using n by blast
    then have "c \<in> ?D" using c by (auto intro: rtrancl_into_rtrancl)
    then have "upto_time (?stamp c) (?stamp ?n)" using m(1) n by metis
    moreover have "snd (?stamp ?n) < snd (?stamp c)" using up c by auto
    ultimately show False by (auto simp: upto_time_def)
  qed
  moreover have "\<forall>j\<in>?D. upto_time (?stamp j) (?stamp ?n)" using m(1) n by metis
  ultimately show ?thesis using n by (simp add: Let_def)
qed

section \<open>Searching\<close>

lemma lower_bound_sorted:
  "sorted arr \<Longrightarrow> lo \<le> hi \<Longrightarrow> hi \<le> length arr \<Longrightarrow> \<forall>i<lo. arr ! i < x \<Longrightarrow>
   \<forall>i. hi \<le> i \<longrightarrow> i < length arr \<longrightarrow> x \<le> arr ! i \<Longrightarrow> lower_bound arr x lo hi = length (takeWhile (\<lambda>s. s < x) arr)"
proof (induction arr x lo hi rule: lower_bound.induct)
  case (1 arr x lo hi)
  show ?case
  proof (cases "lo < hi")
    case False
    then have "lo = hi" using "1.prems" by simp
    then have "takeWhile (\<lambda>s. s < x) arr = take lo arr"
      using "1.prems" by (intro takeWhile_eq_take_P_nth) (auto simp: not_less)
    then show ?thesis using False "1.prems" by (subst lower_bound.simps) simp
  next
    case True
    let ?mid = "(lo + hi) div 2"
    have mid: "lo \<le> ?mid" "?mid < hi" "?mid < length arr" using True "1.prems"(3) by linarith+
    show ?thesis
    proof (cases "arr ! ?mid < x")
      case less: True
      have "arr ! i < x" if "i < Suc ?mid" for i
        using sorted_nth_mono[OF "1.prems"(1), of i ?mid] that mid less by simp
      then have "lower_bound arr x (Suc ?mid) hi = length (takeWhile (\<lambda>s. s < x) arr)"
        using "1.IH"(1)[OF True refl less] "1.prems" mid by simp
      then show ?thesis using True less by (subst lower_bound.simps) (simp add: Let_def)
    next
      case False
      have "x \<le> arr ! i" if "?mid \<le> i" "i < length arr" for i
        using sorted_nth_mono[OF "1.prems"(1) that] False by simp
      then have "lower_bound arr x lo ?mid = length (takeWhile (\<lambda>s. s < x) arr)"
        using "1.IH"(2)[OF True refl False] "1.prems" mid by simp
      then show ?thesis using True False by (subst lower_bound.simps) (simp add: Let_def)
    qed
  qed
qed

lemma lowerBound_sorted:
  "sorted arr \<Longrightarrow> lowerBound arr x = length (takeWhile (\<lambda>s. s < x) arr)"
  unfolding lowerBound_def by (rule lower_bound_sorted) auto

theorem newest_leaf_exact_witness:
  "newestLeafInSubtree ''a'' (JObj sample_branches) = ''d'' \<and>
   (\<forall>c. (''d'', c) \<notin> child_of (js_values (JObj sample_branches)))"
proof -
  have vs: "js_values (JObj sample_branches) = map snd sample_branches"
    by (simp add: sample_branches_def sample_thread_def js_values_def js_entries_def own_entries_plain not_is_index is_digit_def)
  have c: "child_of (js_values (JObj sample_branches)) = {(''a'', ''b''), (''b'', ''c''), (''a'', ''d'')}"
    unfolding vs child_of_list by (simp add: sample_branches_def sample_thread_def user_id_def insert_commute)
  have e: "map_of sample_branches ''a'' = Some (jget (JObj sample_branches) ''a'')"
    by (simp add: sample_branches_def sample_thread_def)
  have t: "stamp_text (jget (JObj sample_branches) ''a'') = ''1''" "stamp_text (jget (JObj sample_branches) ''b'') = ''2''"
    "stamp_text (jget (JObj sample_branches) ''c'') = ''3''" "stamp_text (jget (JObj sample_branches) ''d'') = ''4''"
    by (simp_all add: stamp_text_def sample_branches_def sample_thread_def)
  have o: "''1'' < ''2''" "''2'' < ''3''" "''1'' < ''4''" "''3'' < ''4''" by (simp_all add: less_char_def)
  let ?n = "newestLeafInSubtree ''a'' (JObj sample_branches)"
  have n: "?n \<in> {(''a'', ''b''), (''b'', ''c''), (''a'', ''d'')}\<^sup>* `` {''a''}"
    "\<forall>j\<in>{(''a'', ''b''), (''b'', ''c''), (''a'', ''d'')}\<^sup>* `` {''a''}.
       upto_time (j, stamp_text (jget (JObj sample_branches) j)) (?n, stamp_text (jget (JObj sample_branches) ?n))"
    "\<forall>c. (?n, c) \<notin> {(''a'', ''b''), (''b'', ''c''), (''a'', ''d'')}"
    using newest_leaf_exact[OF sample_branches_forest e] t o by (simp_all add: Let_def c)
  have "?n \<noteq> ''a''" "?n \<noteq> ''b''" using n(3) by auto
  moreover have "?n \<in> {''a'', ''b'', ''c'', ''d''}"
    using n(1) by (auto elim: rtranclE)
  moreover have "?n \<noteq> ''c''"
  proof
    assume "?n = ''c''"
    moreover have "''d'' \<in> {(''a'', ''b''), (''b'', ''c''), (''a'', ''d'')}\<^sup>* `` {''a''}" by auto
    note bspec[OF n(2) this]
    ultimately have "upto_time (''d'', ''4'') (''c'', ''3'')" by (simp only: t)
    then show False by (simp add: upto_time_def less_char_def)
  qed
  ultimately show ?thesis by (auto simp: c)
qed

end
