(* ===== verification/ApplyPatch.thy ===== *)
theory ApplyPatch
  imports HistoryTree
begin

text \<open>
  The display parser of patch envelopes, \<^verbatim>\<open>packages/bridge/src/viewmodel/apply-patch.ts\<close>.  The loops over
  line indexes consume a list of lines; the regular expressions are written out as what they match.
\<close>

section \<open>Text\<close>

abbreviation NL :: char where "NL \<equiv> CHR 10"

fun join_crlf :: "string \<Rightarrow> string" where
  "join_crlf (c # d # s) = (if c = CHR 13 \<and> d = NL then NL # join_crlf s else c # join_crlf (d # s))"
| "join_crlf s = s"

definition normalizePatchText :: "string \<Rightarrow> string" where
  "normalizePatchText t = trim (map (\<lambda>c. if c = CHR 13 then NL else c) (join_crlf t))"

definition word_char :: "char \<Rightarrow> bool" where
  "word_char c \<longleftrightarrow> is_digit c \<or> c = CHR ''_'' \<or> c \<in> set ''abcdefghijklmnopqrstuvwxyzABCDEFGHIJKLMNOPQRSTUVWXYZ''"

definition drop_quote :: "string \<Rightarrow> string" where
  "drop_quote s = (case s of c # r \<Rightarrow> if c = CHR 39 \<or> c = CHR 34 then r else s | [] \<Rightarrow> s)"

text \<open>
  The shortest body that is followed by a newline, the delimiter and white space to the end, and the
  match of the whole expression: of the white space after the opening delimiter the longest part that
  ends in a newline is tried first.
\<close>

definition heredoc_body :: "string \<Rightarrow> string \<Rightarrow> string option" where
  "heredoc_body w s =
     map_option (\<lambda>n. take n s)
       (find (\<lambda>n. starts_with (drop n s) (NL # w) \<and> list_all js_space (drop (Suc n + length w) s)) [0 ..< length s])"

definition heredoc_match :: "string \<Rightarrow> string option" where
  "heredoc_match input =
     (let s1 = (if starts_with input ''cat'' \<and> (case drop 3 input of c # _ \<Rightarrow> js_space c | [] \<Rightarrow> False)
                then dropWhile js_space (drop 3 input) else input)
      in if \<not> starts_with s1 ''<<'' then None
         else let s2 = drop_quote (drop 2 s1); w = takeWhile word_char s2;
                  s3 = drop_quote (dropWhile word_char s2); k = length (takeWhile js_space s3)
              in if w = [] then None
                 else case find (\<lambda>n. s3 ! n = NL \<and> heredoc_body w (drop (Suc n) s3) \<noteq> None) (rev [0 ..< k]) of
                     None \<Rightarrow> None | Some n \<Rightarrow> heredoc_body w (drop (Suc n) s3))"

definition stripHeredoc :: "string \<Rightarrow> string" where
  "stripHeredoc input = (case heredoc_match input of None \<Rightarrow> input | Some b \<Rightarrow> b)"

section \<open>Sections\<close>

record ApplyPatchChunk =
  ck_contexts :: "string list"
  ck_old :: string
  ck_new :: string

datatype ApplyPatchSection =
  AddSection string string | DeleteSection string | UpdateSection string "string option" "ApplyPatchChunk list"

record ApplyPatchParse =
  ap_sections :: "ApplyPatchSection list"
  ap_complete :: bool
  ap_ok :: bool

definition BEGIN_PATCH :: string where "BEGIN_PATCH = ''*** Begin Patch''"
definition END_PATCH :: string where "END_PATCH = ''*** End Patch''"
definition ADD_FILE :: string where "ADD_FILE = ''*** Add File: ''"
definition DELETE_FILE :: string where "DELETE_FILE = ''*** Delete File: ''"
definition UPDATE_FILE :: string where "UPDATE_FILE = ''*** Update File: ''"
definition MOVE_TO :: string where "MOVE_TO = ''*** Move to: ''"

definition lines_text :: "string list \<Rightarrow> string" where
  "lines_text ls = join_with [NL] ls"

definition is_marker :: "string \<Rightarrow> bool" where
  "is_marker l \<longleftrightarrow> starts_with l ''*** ''"

definition is_seek :: "string \<Rightarrow> bool" where
  "is_seek l \<longleftrightarrow> l = ''@@'' \<or> starts_with l ''@@ ''"

definition is_body :: "string \<Rightarrow> bool" where
  "is_body l \<longleftrightarrow> \<not> is_marker l \<and> \<not> is_seek l"

definition seek_contexts :: "string list \<Rightarrow> string list" where
  "seek_contexts ls = map (drop 3) (filter (\<lambda>l. starts_with l ''@@ '') ls)"

text \<open>The old and the new lines of a chunk body, and whether it has a line of the body prefixes.\<close>

fun body_lines :: "string list \<Rightarrow> string list \<times> string list \<times> bool" where
  "body_lines [] = ([], [], False)"
| "body_lines (l # ls) =
     (case body_lines ls of (old, new, saw) \<Rightarrow>
        if starts_with l '' '' then (tl l # old, tl l # new, True)
        else if starts_with l ''-'' then (tl l # old, new, True)
        else if starts_with l ''+'' then (old, tl l # new, True)
        else (old, new, saw))"

definition chunk_of :: "string list \<Rightarrow> string list \<Rightarrow> ApplyPatchChunk list" where
  "chunk_of seeks body =
     (let contexts = seek_contexts seeks
      in case body_lines body of (old, new, saw) \<Rightarrow>
           if saw \<or> contexts \<noteq> [] then [\<lparr>ck_contexts = contexts, ck_old = lines_text old, ck_new = lines_text new\<rparr>] else [])"

lemma length_dropWhile_le' [termination_simp]: "length (dropWhile P xs) < Suc (length xs)"
  by (simp add: le_imp_less_Suc length_dropWhile_le)

lemma length_chunk_rest:
  "\<not> is_marker l \<Longrightarrow> length (dropWhile is_body (dropWhile is_seek (l # ls))) < Suc (length ls)"
proof (cases "is_seek l")
  case True
  then have "length (dropWhile is_body (dropWhile is_seek (l # ls))) \<le> length (dropWhile is_seek ls)"
    by (simp add: length_dropWhile_le)
  then show ?thesis using length_dropWhile_le[of is_seek ls] by linarith
qed (simp add: is_body_def le_imp_less_Suc length_dropWhile_le)

text \<open>The chunks of an update section and the lines that are left.\<close>

function chunk_loop :: "string list \<Rightarrow> ApplyPatchChunk list \<times> string list" where
  "chunk_loop [] = ([], [])"
| "chunk_loop (l # ls) =
     (if is_marker l then ([], l # ls)
      else if trim l = [] then chunk_loop ls
      else let rest = dropWhile is_seek (l # ls)
           in case chunk_loop (dropWhile is_body rest) of (chunks, r) \<Rightarrow>
                (chunk_of (takeWhile is_seek (l # ls)) (takeWhile is_body rest) @ chunks, r))"
  by pat_completeness auto
termination
  by (relation "measure length") (use length_chunk_rest in auto)

declare chunk_loop.simps(2) [simp del]

lemma chunk_loop_blank: "\<not> is_marker l \<Longrightarrow> trim l = [] \<Longrightarrow> chunk_loop (l # ls) = chunk_loop ls"
  by (simp add: chunk_loop.simps(2))

lemma chunk_loop_marker: "is_marker l \<Longrightarrow> chunk_loop (l # ls) = ([], l # ls)"
  by (simp add: chunk_loop.simps(2))

lemma chunk_loop_chunk:
  "\<not> is_marker l \<Longrightarrow> trim l \<noteq> [] \<Longrightarrow> rest = dropWhile is_seek (l # ls) \<Longrightarrow>
   chunk_loop (l # ls) =
     (chunk_of (takeWhile is_seek (l # ls)) (takeWhile is_body rest) @ fst (chunk_loop (dropWhile is_body rest)),
      snd (chunk_loop (dropWhile is_body rest)))"
  by (simp only: chunk_loop.simps(2) Let_def if_False) (simp add: case_prod_beta del: takeWhile.simps dropWhile.simps)

lemma length_chunk_loop: "length (snd (chunk_loop ls)) \<le> length ls"
proof (induction ls rule: chunk_loop.induct)
  case (2 l ls)
  let ?r = "dropWhile is_body (dropWhile is_seek (l # ls))"
  consider "is_marker l" | "\<not> is_marker l" "trim l = []" | "\<not> is_marker l" "trim l \<noteq> []" by blast
  then show ?case
  proof cases
    case 2
    then show ?thesis using "2.IH"(1) by (simp add: chunk_loop_blank)
  next
    case 3
    have "length (snd (chunk_loop ?r)) \<le> length ?r" by (rule "2.IH"(2)[OF 3 refl])
    moreover have "length (l # ls) = Suc (length ls)" by simp
    ultimately show ?thesis unfolding chunk_loop_chunk[OF 3 refl] snd_conv using length_chunk_rest[OF 3(1), of ls] by linarith
  qed (simp add: chunk_loop_marker)
qed simp

definition unplus :: "string \<Rightarrow> string" where
  "unplus l = (if starts_with l ''+'' then tl l else l)"

text \<open>The line of the move after an update header.\<close>

definition move_line :: "string list \<Rightarrow> string option \<times> string list" where
  "move_line ls =
     (case ls of
        m # r \<Rightarrow> if starts_with m MOVE_TO then (Some (drop (length MOVE_TO) m), r) else (None, ls)
      | [] \<Rightarrow> (None, []))"

lemma length_move_line: "length (snd (move_line ls)) \<le> length ls"
  by (simp add: move_line_def split: list.split)

text \<open>The sections and whether the terminator was seen.\<close>

function section_loop :: "string list \<Rightarrow> ApplyPatchSection list \<times> bool" where
  "section_loop [] = ([], False)"
| "section_loop (l # ls) =
     (if starts_with l ADD_FILE then
        (case section_loop (dropWhile (\<lambda>x. \<not> is_marker x) ls) of (ss, fin) \<Rightarrow>
           (AddSection (drop (length ADD_FILE) l) (lines_text (map unplus (takeWhile (\<lambda>x. \<not> is_marker x) ls))) # ss, fin))
      else if starts_with l DELETE_FILE then
        (case section_loop ls of (ss, fin) \<Rightarrow> (DeleteSection (drop (length DELETE_FILE) l) # ss, fin))
      else if starts_with l UPDATE_FILE then
        (case section_loop (snd (chunk_loop (snd (move_line ls)))) of (ss, fin) \<Rightarrow>
           (UpdateSection (drop (length UPDATE_FILE) l) (fst (move_line ls)) (fst (chunk_loop (snd (move_line ls)))) # ss,
            fin))
      else if l = END_PATCH then ([], True)
      else section_loop ls)"
  by pat_completeness auto
termination
proof (relation "measure length", simp_all add: le_imp_less_Suc length_dropWhile_le)
  fix ls
  show "length (snd (chunk_loop (snd (move_line ls)))) < Suc (length ls)"
    using length_chunk_loop[of "snd (move_line ls)"] length_move_line[of ls] by simp
qed

definition parseApplyPatch :: "string \<Rightarrow> ApplyPatchParse" where
  "parseApplyPatch input =
     (let t = stripHeredoc (normalizePatchText input)
      in if \<not> starts_with t BEGIN_PATCH then \<lparr>ap_sections = [], ap_complete = False, ap_ok = False\<rparr>
         else case section_loop (tl (split_on NL t)) of (ss, fin) \<Rightarrow>
             \<lparr>ap_sections = ss, ap_complete = fin, ap_ok = (ss \<noteq> [])\<rparr>)"

text \<open>The paths of the section headers: a header line with at least one character after it.\<close>

definition header_path :: "string \<Rightarrow> string list" where
  "header_path l =
     concat (map (\<lambda>h. if starts_with l h \<and> length h < length l then [drop (length h) l] else [])
       [ADD_FILE, DELETE_FILE, UPDATE_FILE])"

definition extractApplyPatchPaths :: "string \<Rightarrow> string list" where
  "extractApplyPatchPaths input =
     concat (map header_path (split_on NL (stripHeredoc (normalizePatchText input))))"

definition applyPatchInput :: "jsv \<Rightarrow> string option" where
  "applyPatchInput args =
     (case args of
        JStr s \<Rightarrow> Some s
      | JObj _ \<Rightarrow> (case jget args ''input'' of JStr s \<Rightarrow> Some s | _ \<Rightarrow> None)
      | _ \<Rightarrow> None)"

section \<open>Streaming\<close>

lemma dropWhile_more: "dropWhile P xs \<noteq> [] \<Longrightarrow> dropWhile P (xs @ ys) = dropWhile P xs @ ys \<and> takeWhile P (xs @ ys) = takeWhile P xs"
  by (induction xs) auto

lemma chunk_loop_more:
  "snd (chunk_loop ls) \<noteq> [] \<Longrightarrow> chunk_loop (ls @ ys) = (fst (chunk_loop ls), snd (chunk_loop ls) @ ys)"
proof (induction ls rule: chunk_loop.induct)
  case (2 l ls)
  let ?a = "dropWhile is_seek (l # ls)"
  let ?r = "dropWhile is_body ?a"
  consider "is_marker l" | "\<not> is_marker l" "trim l = []" | "\<not> is_marker l" "trim l \<noteq> []" by blast
  then show ?case
  proof cases
    case 2
    then show ?thesis using "2.IH"(1) "2.prems" by (simp add: chunk_loop_blank)
  next
    case 3
    note eq = chunk_loop_chunk[OF 3 refl]
    have ne: "snd (chunk_loop ?r) \<noteq> []" using "2.prems" unfolding eq[of ls] by simp
    then have r: "?r \<noteq> []" by (metis chunk_loop.simps(1) snd_conv)
    then have a: "?a \<noteq> []" by (metis dropWhile.simps(1))
    note s = dropWhile_more[OF a, of ys, unfolded append_Cons] and b = dropWhile_more[OF r, of ys]
    have "chunk_loop (?r @ ys) = (fst (chunk_loop ?r), snd (chunk_loop ?r) @ ys)" by (rule "2.IH"(2)[OF 3 refl ne])
    then show ?thesis
      unfolding append_Cons eq[of ls] eq[of "ls @ ys"] s[THEN conjunct1] s[THEN conjunct2] b[THEN conjunct1] b[THEN conjunct2]
      by simp
  qed (simp add: chunk_loop_marker)
qed simp

lemma move_line_more: "ls \<noteq> [] \<Longrightarrow> move_line (ls @ ys) = (fst (move_line ls), snd (move_line ls) @ ys)"
  by (cases ls) (simp_all add: move_line_def)

text \<open>Sections that are followed by another one are final; the terminator makes the whole parse final.\<close>

definition extends_parse :: "ApplyPatchSection list \<times> bool \<Rightarrow> ApplyPatchSection list \<times> bool \<Rightarrow> bool" where
  "extends_parse a b \<longleftrightarrow> (\<exists>zs. fst b = butlast (fst a) @ zs) \<and> (snd a \<longrightarrow> b = a)"

lemma extends_Cons: "extends_parse a b \<Longrightarrow> extends_parse (s # fst a, snd a) (s # fst b, snd b)"
  by (cases a; cases b; cases "fst a = []") (auto simp: extends_parse_def)

lemma extends_last: "extends_parse ([s], False) b"
  by (simp add: extends_parse_def)

lemma section_loop_eqs:
  "starts_with l ADD_FILE \<Longrightarrow> section_loop (l # ls) =
     (AddSection (drop (length ADD_FILE) l) (lines_text (map unplus (takeWhile (\<lambda>x. \<not> is_marker x) ls))) #
        fst (section_loop (dropWhile (\<lambda>x. \<not> is_marker x) ls)), snd (section_loop (dropWhile (\<lambda>x. \<not> is_marker x) ls)))"
  "\<not> starts_with l ADD_FILE \<Longrightarrow> starts_with l DELETE_FILE \<Longrightarrow> section_loop (l # ls) =
     (DeleteSection (drop (length DELETE_FILE) l) # fst (section_loop ls), snd (section_loop ls))"
  "\<not> starts_with l ADD_FILE \<Longrightarrow> \<not> starts_with l DELETE_FILE \<Longrightarrow> starts_with l UPDATE_FILE \<Longrightarrow> section_loop (l # ls) =
     (UpdateSection (drop (length UPDATE_FILE) l) (fst (move_line ls)) (fst (chunk_loop (snd (move_line ls)))) #
        fst (section_loop (snd (chunk_loop (snd (move_line ls))))), snd (section_loop (snd (chunk_loop (snd (move_line ls))))))"
  "\<not> starts_with l ADD_FILE \<Longrightarrow> \<not> starts_with l DELETE_FILE \<Longrightarrow> \<not> starts_with l UPDATE_FILE \<Longrightarrow>
     section_loop (l # ls) = (if l = END_PATCH then ([], True) else section_loop ls)"
  by (simp_all add: case_prod_beta)

declare section_loop.simps(2) [simp del]

lemma section_loop_extends: "extends_parse (section_loop ls) (section_loop (ls @ ys))"
proof (induction ls rule: section_loop.induct)
  case 1
  then show ?case by (simp add: extends_parse_def)
next
  case (2 l ls)
  consider (add) "starts_with l ADD_FILE" | (del) "\<not> starts_with l ADD_FILE" "starts_with l DELETE_FILE"
    | (upd) "\<not> starts_with l ADD_FILE" "\<not> starts_with l DELETE_FILE" "starts_with l UPDATE_FILE"
    | (other) "\<not> starts_with l ADD_FILE" "\<not> starts_with l DELETE_FILE" "\<not> starts_with l UPDATE_FILE" by blast
  then show ?case
  proof cases
    case add
    let ?d = "dropWhile (\<lambda>x. \<not> is_marker x) ls"
    show ?thesis
    proof (cases "?d = []")
      case True
      show ?thesis unfolding append_Cons section_loop_eqs(1)[OF add] True section_loop.simps(1) fst_conv snd_conv
        by (rule extends_last)
    next
      case False
      have "extends_parse (section_loop ?d) (section_loop (?d @ ys))" by (rule "2.IH"(1)[OF add])
      from extends_Cons[OF this] show ?thesis
        unfolding append_Cons section_loop_eqs(1)[OF add] using dropWhile_more[OF False, of ys] by simp
    qed
  next
    case del
    from extends_Cons[OF "2.IH"(2)[OF del]] show ?thesis unfolding append_Cons section_loop_eqs(2)[OF del] .
  next
    case upd
    let ?m = "snd (move_line ls)"
    show ?thesis
    proof (cases "snd (chunk_loop ?m) = []")
      case True
      then show ?thesis unfolding append_Cons section_loop_eqs(3)[OF upd] by (simp add: extends_last)
    next
      case False
      then have "?m \<noteq> []" by (cases ?m) simp_all
      then have "ls \<noteq> []" by (cases ls) (simp_all add: move_line_def)
      note m = move_line_more[OF this, of ys] and c = chunk_loop_more[OF False, of ys]
      have "extends_parse (section_loop (snd (chunk_loop ?m))) (section_loop (snd (chunk_loop ?m) @ ys))"
        by (rule "2.IH"(3)[OF upd])
      from extends_Cons[OF this] show ?thesis unfolding append_Cons section_loop_eqs(3)[OF upd] by (simp add: m c)
    qed
  next
    case other
    show ?thesis
    proof (cases "l = END_PATCH")
      case False
      then show ?thesis using "2.IH"(4)[OF other False] unfolding append_Cons section_loop_eqs(4)[OF other] by simp
    qed (unfold append_Cons section_loop_eqs(4)[OF other], simp add: extends_parse_def)
  qed
qed

text \<open>
  \<^bold>\<open>Lemma.\<close>  A patch can be shown while it streams in: the sections of the lines that have arrived,
  but for the last, are the first sections of the whole patch, and once the terminator has arrived
  nothing that follows changes the parse.
\<close>

theorem streaming_sections_final:
  "(\<exists>zs. fst (section_loop (ls @ ys)) = butlast (fst (section_loop ls)) @ zs) \<and>
   (snd (section_loop ls) \<longrightarrow> section_loop (ls @ ys) = section_loop ls)"
  using section_loop_extends[of ls ys] by (simp add: extends_parse_def)

theorem streaming_sections_final_witness:
  "snd (section_loop [''*** Delete File: a'', ''*** End Patch'']) \<and>
   section_loop ([''*** Delete File: a'', ''*** End Patch''] @ [''*** Delete File: b'']) =
     section_loop [''*** Delete File: a'', ''*** End Patch'']"
proof -
  have "snd (section_loop [''*** Delete File: a'', ''*** End Patch''])"
    by (simp add: section_loop.simps(2) ADD_FILE_def DELETE_FILE_def UPDATE_FILE_def END_PATCH_def)
  then show ?thesis using streaming_sections_final[of "[''*** Delete File: a'', ''*** End Patch'']" "[''*** Delete File: b'']"] by blast
qed

section \<open>Printing\<close>

text \<open>What a patch says, as its author writes it, and how the display parser shows it.\<close>

datatype DiffLine = Ctx string | Del string | Ins string

datatype PatchFile = PAdd string "string list" | PDelete string
  | PUpdate string "string option" "(string list \<times> DiffLine list) list"

fun print_diff :: "DiffLine \<Rightarrow> string" where
  "print_diff (Ctx s) = CHR '' '' # s" | "print_diff (Del s) = CHR ''-'' # s" | "print_diff (Ins s) = CHR ''+'' # s"

fun old_line :: "DiffLine \<Rightarrow> string list" where
  "old_line (Ctx s) = [s]" | "old_line (Del s) = [s]" | "old_line (Ins s) = []"

fun new_line :: "DiffLine \<Rightarrow> string list" where
  "new_line (Ctx s) = [s]" | "new_line (Del s) = []" | "new_line (Ins s) = [s]"

definition print_chunk :: "string list \<times> DiffLine list \<Rightarrow> string list" where
  "print_chunk c = map (\<lambda>s. ''@@ '' @ s) (fst c) @ map print_diff (snd c)"

fun print_file :: "PatchFile \<Rightarrow> string list" where
  "print_file (PAdd p ls) = (ADD_FILE @ p) # map (\<lambda>l. CHR ''+'' # l) ls"
| "print_file (PDelete p) = [DELETE_FILE @ p]"
| "print_file (PUpdate p mv cks) =
     (UPDATE_FILE @ p) # (case mv of None \<Rightarrow> [] | Some m \<Rightarrow> [MOVE_TO @ m]) @ concat (map print_chunk cks)"

definition print_patch :: "PatchFile list \<Rightarrow> string" where
  "print_patch fs = lines_text (BEGIN_PATCH # concat (map print_file fs) @ [END_PATCH])"

definition show_chunk :: "string list \<times> DiffLine list \<Rightarrow> ApplyPatchChunk" where
  "show_chunk c = \<lparr>ck_contexts = fst c, ck_old = lines_text (concat (map old_line (snd c))),
     ck_new = lines_text (concat (map new_line (snd c)))\<rparr>"

fun show_file :: "PatchFile \<Rightarrow> ApplyPatchSection" where
  "show_file (PAdd p ls) = AddSection p (lines_text ls)"
| "show_file (PDelete p) = DeleteSection p"
| "show_file (PUpdate p mv cks) = UpdateSection p mv (map show_chunk cks)"

text \<open>
  The patches the grammar allows: lines without line breaks; every chunk has a line, every chunk but
  the first a seek marker, and a first chunk without one does not begin with a blank line.
\<close>

definition one_line :: "string \<Rightarrow> bool" where
  "one_line s \<longleftrightarrow> NL \<notin> set s \<and> CHR 13 \<notin> set s"

fun diff_text :: "DiffLine \<Rightarrow> string" where
  "diff_text (Ctx s) = s" | "diff_text (Del s) = s" | "diff_text (Ins s) = s"

definition chunk_ok :: "string list \<times> DiffLine list \<Rightarrow> bool" where
  "chunk_ok c \<longleftrightarrow> snd c \<noteq> [] \<and> (fst c = [] \<longrightarrow> trim (print_diff (hd (snd c))) \<noteq> [])"

definition chunks_ok :: "(string list \<times> DiffLine list) list \<Rightarrow> bool" where
  "chunks_ok cks \<longleftrightarrow> list_all chunk_ok cks \<and> list_all (\<lambda>c. fst c \<noteq> []) (tl cks)"

fun file_ok :: "PatchFile \<Rightarrow> bool" where
  "file_ok (PAdd p ls) \<longleftrightarrow> one_line p \<and> list_all one_line ls"
| "file_ok (PDelete p) \<longleftrightarrow> one_line p"
| "file_ok (PUpdate p mv cks) \<longleftrightarrow> one_line p \<and> (case mv of None \<Rightarrow> True | Some m \<Rightarrow> one_line m) \<and>
     list_all (\<lambda>c. list_all one_line (fst c) \<and> list_all (\<lambda>d. one_line (diff_text d)) (snd c)) cks \<and> chunks_ok cks"

lemma print_diff_kind: "\<not> is_marker (print_diff d)" "\<not> is_seek (print_diff d)" "is_body (print_diff d)"
  by (cases d; simp add: is_body_def is_marker_def is_seek_def)+

lemma body_lines_print:
  "body_lines (map print_diff ds) = (concat (map old_line ds), concat (map new_line ds), ds \<noteq> [])"
proof (induction ds)
  case (Cons d ds)
  then show ?case by (cases d) simp_all
qed simp

lemma takeWhile_split: "list_all P xs \<Longrightarrow> ys = [] \<or> \<not> P (hd ys) \<Longrightarrow> takeWhile P (xs @ ys) = xs \<and> dropWhile P (xs @ ys) = ys"
  by (induction xs) (cases ys; auto)+

lemma seek_print: "is_seek (''@@ '' @ s)" "\<not> is_marker (''@@ '' @ s)" "trim (''@@ '' @ s) \<noteq> []"
proof -
  have "dropWhile js_space (rev (''@@ '' @ s)) \<noteq> []" by (auto simp: dropWhile_eq_Nil_conv js_space_def)
  then show "trim (''@@ '' @ s) \<noteq> []" by (simp add: trim_def js_space_def)
qed (simp_all add: is_seek_def is_marker_def)

lemma chunk_loop_print_chunk:
  assumes "chunk_ok c" "rest \<noteq> []" "\<not> is_body (hd rest)"
  shows "chunk_loop (print_chunk c @ rest) = (show_chunk c # fst (chunk_loop rest), snd (chunk_loop rest))"
proof -
  let ?s = "map (\<lambda>s. ''@@ '' @ s) (fst c)" and ?b = "map print_diff (snd c)"
  have b: "?b \<noteq> []" using assms(1) by (simp add: chunk_ok_def)
  obtain l ls where l: "print_chunk c @ rest = l # ls" using assms(2) by (cases "print_chunk c @ rest") auto
  have hd: "\<not> is_marker l \<and> trim l \<noteq> []"
  proof (cases "fst c")
    case Nil
    then have "l = print_diff (hd (snd c))" using l b by (cases "snd c") (auto simp: print_chunk_def)
    then show ?thesis using assms(1) Nil print_diff_kind(1) by (simp add: chunk_ok_def)
  next
    case (Cons s ss)
    then have "l = ''@@ '' @ s" using l by (simp add: print_chunk_def)
    then show ?thesis using seek_print by simp
  qed
  have "hd (?b @ rest) = print_diff (hd (snd c))" using b by (cases "snd c") simp_all
  then have "list_all is_seek ?s" "\<not> is_seek (hd (?b @ rest))"
    using seek_print(1) print_diff_kind(2) by (simp_all add: list_all_iff)
  from takeWhile_split[OF this(1), of "?b @ rest"] this(2)
  have s: "takeWhile is_seek (l # ls) = ?s" "dropWhile is_seek (l # ls) = ?b @ rest"
    unfolding l[symmetric] print_chunk_def append_assoc by blast+
  have "list_all is_body ?b" using print_diff_kind(3) by (simp add: list_all_iff)
  from takeWhile_split[OF this, of rest] assms(3) have t: "takeWhile is_body (?b @ rest) = ?b" "dropWhile is_body (?b @ rest) = rest"
    by simp_all
  have f: "filter (\<lambda>l. starts_with l ''@@ '') ?s = ?s" by (simp add: filter_id_conv)
  have "seek_contexts ?s = fst c" unfolding seek_contexts_def f by (simp add: o_def)
  then have ck: "chunk_of ?s ?b = [show_chunk c]"
    using b by (simp add: chunk_of_def body_lines_print show_chunk_def Let_def)
  show ?thesis
    unfolding l chunk_loop_chunk[OF hd[THEN conjunct1] hd[THEN conjunct2] refl] s t ck by simp
qed

lemma print_chunk_hd: "chunk_ok c \<Longrightarrow> fst c \<noteq> [] \<Longrightarrow> \<not> is_body (hd (print_chunk c @ rest)) \<and> print_chunk c \<noteq> []"
  using seek_print(1) by (cases "fst c") (auto simp: print_chunk_def is_body_def)

lemma chunk_loop_print:
  assumes "chunks_ok cks" "is_marker m"
  shows "chunk_loop (concat (map print_chunk cks) @ m # ms) = (map show_chunk cks, m # ms)"
  using assms(1)
proof (induction cks)
  case Nil
  then show ?case using assms(2) by (simp add: chunk_loop_marker)
next
  case (Cons c cks)
  let ?rest = "concat (map print_chunk cks) @ m # ms"
  have "chunks_ok cks" using Cons.prems by (cases cks) (auto simp: chunks_ok_def)
  moreover have "?rest \<noteq> [] \<and> \<not> is_body (hd ?rest)"
  proof (cases cks)
    case Nil
    then show ?thesis using assms(2) by (simp add: is_body_def)
  next
    case (Cons d ds)
    then have "chunk_ok d" "fst d \<noteq> []" using Cons.prems by (simp_all add: chunks_ok_def)
    from print_chunk_hd[OF this, of "[]"] show ?thesis by (simp add: Cons)
  qed
  moreover have "chunk_ok c" using Cons.prems by (simp add: chunks_ok_def)
  ultimately show ?case using chunk_loop_print_chunk[of c ?rest] Cons.IH by simp
qed

lemma headers_apart:
  "\<not> starts_with (DELETE_FILE @ p) ADD_FILE" "\<not> starts_with (UPDATE_FILE @ p) ADD_FILE"
  "\<not> starts_with (UPDATE_FILE @ p) DELETE_FILE" "\<not> starts_with END_PATCH ADD_FILE"
  "\<not> starts_with END_PATCH DELETE_FILE" "\<not> starts_with END_PATCH UPDATE_FILE"
  "\<not> starts_with (ADD_FILE @ p) MOVE_TO" "\<not> starts_with (DELETE_FILE @ p) MOVE_TO" "\<not> starts_with (UPDATE_FILE @ p) MOVE_TO"
  "\<not> starts_with END_PATCH MOVE_TO"
  by (simp_all add: ADD_FILE_def DELETE_FILE_def UPDATE_FILE_def END_PATCH_def MOVE_TO_def)

lemma headers_markers:
  "is_marker (ADD_FILE @ p)" "is_marker (DELETE_FILE @ p)" "is_marker (UPDATE_FILE @ p)" "is_marker END_PATCH"
  by (simp_all add: is_marker_def ADD_FILE_def DELETE_FILE_def UPDATE_FILE_def END_PATCH_def)

lemma print_rest:
  "\<exists>m ms. concat (map print_file fs) @ [END_PATCH] = m # ms \<and> is_marker m \<and> \<not> starts_with m MOVE_TO"
proof (cases fs)
  case (Cons f gs)
  then show ?thesis by (cases f) (auto simp: headers_markers headers_apart)
qed (simp add: headers_markers headers_apart)

lemma chunk_line_not_move: "chunk_ok c \<Longrightarrow> \<exists>l ls. print_chunk c = l # ls \<and> \<not> starts_with l MOVE_TO"
proof (cases "fst c")
  case Nil
  assume "chunk_ok c"
  then obtain d ds where "snd c = d # ds" by (cases "snd c") (auto simp: chunk_ok_def)
  then show ?thesis using Nil by (cases d) (simp_all add: print_chunk_def MOVE_TO_def)
qed (simp add: print_chunk_def MOVE_TO_def)

lemma move_line_print:
  assumes "chunks_ok cks" "\<not> starts_with m MOVE_TO"
  shows "move_line ((case mv of None \<Rightarrow> [] | Some t \<Rightarrow> [MOVE_TO @ t]) @ concat (map print_chunk cks) @ m # ms) =
    (mv, concat (map print_chunk cks) @ m # ms)"
proof (cases mv)
  case None
  show ?thesis
  proof (cases cks)
    case (Cons c ds)
    then have "chunk_ok c" using assms(1) by (simp add: chunks_ok_def)
    then show ?thesis using chunk_line_not_move[of c] None Cons by (auto simp: move_line_def)
  qed (use None assms(2) in \<open>simp add: move_line_def\<close>)
qed (simp add: move_line_def)

lemma section_loop_print:
  "list_all file_ok fs \<Longrightarrow> section_loop (concat (map print_file fs) @ [END_PATCH]) = (map show_file fs, True)"
proof (induction fs)
  case Nil
  then show ?case by (simp add: section_loop_eqs(4) headers_apart)
next
  case (Cons f fs)
  obtain m ms where rest: "concat (map print_file fs) @ [END_PATCH] = m # ms" "is_marker m" "\<not> starts_with m MOVE_TO"
    using print_rest by blast
  then have IH: "section_loop (m # ms) = (map show_file fs, True)" using Cons by simp
  have all: "concat (map print_file (f # fs)) @ [END_PATCH] = print_file f @ m # ms" by (simp add: rest(1))
  show ?case
  proof (cases f)
    case (PAdd p ls)
    have "list_all (\<lambda>x. \<not> is_marker x) (map (\<lambda>l. CHR ''+'' # l) ls)" by (simp add: list_all_iff is_marker_def)
    from takeWhile_split[OF this, of "m # ms"] rest(2)
    have t: "takeWhile (\<lambda>x. \<not> is_marker x) (map (\<lambda>l. CHR ''+'' # l) ls @ m # ms) = map (\<lambda>l. CHR ''+'' # l) ls"
      "dropWhile (\<lambda>x. \<not> is_marker x) (map (\<lambda>l. CHR ''+'' # l) ls @ m # ms) = m # ms"
      by simp_all
    have u: "map unplus (map (\<lambda>l. CHR ''+'' # l) ls) = ls" by (simp add: o_def unplus_def)
    have "print_file f @ m # ms = (ADD_FILE @ p) # map (\<lambda>l. CHR ''+'' # l) ls @ m # ms" by (simp add: PAdd)
    then show ?thesis
      unfolding all by (simp only: section_loop_eqs(1)[OF starts_with_append] t u IH) (simp add: PAdd)
  next
    case (PDelete p)
    have "print_file f @ m # ms = (DELETE_FILE @ p) # m # ms" by (simp add: PDelete)
    then show ?thesis
      unfolding all by (simp only: section_loop_eqs(2)[OF headers_apart(1) starts_with_append] IH) (simp add: PDelete)
  next
    case (PUpdate p mv cks)
    then have ok: "chunks_ok cks" using Cons.prems by simp
    note mv = move_line_print[OF ok rest(3), of mv ms] and ck = chunk_loop_print[OF ok rest(2), of ms]
    have "print_file f @ m # ms =
        (UPDATE_FILE @ p) # (case mv of None \<Rightarrow> [] | Some t \<Rightarrow> [MOVE_TO @ t]) @ concat (map print_chunk cks) @ m # ms"
      by (simp add: PUpdate)
    then show ?thesis
      unfolding all
      by (simp only: section_loop_eqs(3)[OF headers_apart(2,3) starts_with_append] mv ck fst_conv snd_conv IH) (simp add: PUpdate)
  qed
qed

section \<open>The whole text\<close>

lemma split_lines_text:
  "ls \<noteq> [] \<Longrightarrow> list_all (\<lambda>l. NL \<notin> set l) ls \<Longrightarrow> split_on NL (lines_text ls) = ls"
proof (induction ls rule: induct_list012)
  case (3 a b ls)
  then show ?case using split_on_append_sep[of NL a "lines_text (b # ls)"] by (simp add: lines_text_def)
qed (simp_all add: lines_text_def)

lemma set_lines_text: "set (lines_text ls) \<subseteq> insert NL (\<Union>(set ` set ls))"
proof (induction ls rule: induct_list012)
  case (3 a b ls)
  then show ?case by (auto simp: lines_text_def)
qed (auto simp: lines_text_def)

lemma join_crlf_id: "CHR 13 \<notin> set s \<Longrightarrow> join_crlf s = s"
  by (induction s rule: join_crlf.induct) auto

lemma one_line_print:
  "file_ok f \<Longrightarrow> list_all one_line (print_file f)"
proof (cases f)
  case (PUpdate p mv cks)
  assume ok: "file_ok f"
  have "one_line (print_diff d)" if "one_line (diff_text d)" for d using that by (cases d) (auto simp: one_line_def)
  then have "list_all one_line (concat (map print_chunk cks))"
    using ok PUpdate by (auto simp: list_all_iff print_chunk_def one_line_def)
  then show ?thesis
    using ok PUpdate by (auto simp: one_line_def UPDATE_FILE_def MOVE_TO_def split: option.split)
qed (auto simp: one_line_def ADD_FILE_def DELETE_FILE_def list_all_iff)

lemma print_patch_lines:
  assumes "list_all file_ok fs"
  shows "split_on NL (print_patch fs) = BEGIN_PATCH # concat (map print_file fs) @ [END_PATCH]"
    "stripHeredoc (normalizePatchText (print_patch fs)) = print_patch fs" "starts_with (print_patch fs) BEGIN_PATCH"
proof -
  let ?ls = "BEGIN_PATCH # concat (map print_file fs) @ [END_PATCH]"
  have "one_line BEGIN_PATCH" "one_line END_PATCH" by (simp_all add: one_line_def BEGIN_PATCH_def END_PATCH_def)
  moreover have "list_all one_line (concat (map print_file fs))"
    using assms one_line_print by (auto simp: list_all_iff)
  ultimately have ol: "list_all one_line ?ls" by simp
  then have "list_all (\<lambda>l. NL \<notin> set l) ?ls" by (auto simp: list_all_iff one_line_def)
  then show "split_on NL (print_patch fs) = ?ls" unfolding print_patch_def by (rule split_lines_text[rotated]) simp
  have cr: "CHR 13 \<notin> set (print_patch fs)"
    using ol set_lines_text[of ?ls] by (auto simp: print_patch_def list_all_iff one_line_def)
  obtain u where u: "print_patch fs = BEGIN_PATCH @ NL # u"
    by (cases "concat (map print_file fs)") (auto simp: print_patch_def lines_text_def)
  then show "starts_with (print_patch fs) BEGIN_PATCH" by simp
  have join_snoc: "\<exists>v. lines_text (xs @ [x]) = v @ x" for xs and x :: string
    by (induction xs rule: induct_list012) (auto simp: lines_text_def)
  obtain v where "print_patch fs = v @ END_PATCH"
    using join_snoc[of "BEGIN_PATCH # concat (map print_file fs)" END_PATCH] by (auto simp: print_patch_def)
  then have v: "last (print_patch fs) = CHR ''h''" by (simp add: END_PATCH_def)
  have "\<not> js_space (hd (print_patch fs))" "\<not> js_space (last (print_patch fs))"
    unfolding v using u by (simp_all add: BEGIN_PATCH_def js_space_def)
  then have "dropWhile js_space (print_patch fs) = print_patch fs"
    "dropWhile js_space (rev (print_patch fs)) = rev (print_patch fs)"
    by (simp_all add: dropWhile_eq_self_iff hd_rev)
  then have "trim (print_patch fs) = print_patch fs" by (simp add: trim_def)
  moreover have "map (\<lambda>c. if c = CHR 13 then NL else c) (print_patch fs) = print_patch fs"
    using cr by (intro map_idI) auto
  ultimately have n: "normalizePatchText (print_patch fs) = print_patch fs"
    by (simp add: normalizePatchText_def join_crlf_id[OF cr])
  have "heredoc_match (print_patch fs) = None" by (simp add: u heredoc_match_def BEGIN_PATCH_def)
  then show "stripHeredoc (normalizePatchText (print_patch fs)) = print_patch fs" by (simp add: n stripHeredoc_def)
qed

text \<open>
  \<^bold>\<open>Property C30.\<close>  Every patch the grammar allows is shown as written: parsing its text gives its
  sections in order, each with its path, its move and the old and new text of each of its chunks, and
  reports the envelope complete.
\<close>

theorem parse_print_patch:
  assumes "list_all file_ok fs"
  shows "parseApplyPatch (print_patch fs) = \<lparr>ap_sections = map show_file fs, ap_complete = True, ap_ok = (fs \<noteq> [])\<rparr>"
  using print_patch_lines[OF assms] section_loop_print[OF assms] by (simp add: parseApplyPatch_def Let_def)

definition sample_patch :: "PatchFile list" where
  "sample_patch = [PAdd ''a'' [''x'', ''''], PUpdate ''b'' (Some ''c'') [([], [Del ''p'', Ins ''q'']), ([''f()''], [Ctx '''', Ins ''r''])],
     PDelete ''d'']"

theorem parse_print_patch_witness:
  "parseApplyPatch (print_patch sample_patch) =
     \<lparr>ap_sections = map show_file sample_patch, ap_complete = True, ap_ok = True\<rparr>"
proof -
  have "list_all file_ok sample_patch" by code_simp
  from parse_print_patch[OF this] show ?thesis by (simp add: sample_patch_def)
qed

end
