(* ===== verification/Actions.thy ===== *)
theory Actions
  imports ApplyPatch
begin

text \<open>
  The texts of actions, from \<^verbatim>\<open>packages/bridge/src/viewmodel/index.ts\<close>: the summary and the header of a
  tool call, the display of a shell command, the kind of a tool and the cycling of models.  Arguments
  are values of the types the tools declare (a path is a string, a limit a number); what the casts of
  the source do with other values is not modelled.
\<close>

section \<open>Paths\<close>

text \<open>\<^verbatim>\<open>cwd\<close> is \<open>None\<close> for null and undefined; the empty string counts as none.\<close>

definition displayPath :: "string \<Rightarrow> string option \<Rightarrow> string" where
  "displayPath rawPath cwd =
     (case cwd of
        Some c \<Rightarrow>
          if c \<noteq> [] \<and> starts_with rawPath c
          then let relative = drop (length c) rawPath in if starts_with relative ''/'' then tl relative else relative
          else rawPath
      | None \<Rightarrow> rawPath)"

definition COMPACT_RESOURCE_FILE_NAMES :: "string list" where
  "COMPACT_RESOURCE_FILE_NAMES = [''AGENTS.override.md'', ''AGENTS.md'', ''AGENTS.MD'', ''CLAUDE.md'', ''CLAUDE.MD'']"

datatype CompactReadClass = SkillRead string | ResourceRead string

definition or_else :: "string \<Rightarrow> string \<Rightarrow> string" where
  "or_else a b = (if a = [] then b else a)"

definition classifyReadPath :: "string \<Rightarrow> string \<Rightarrow> CompactReadClass option" where
  "classifyReadPath rawPath cwd =
     (let base = (if cwd \<noteq> [] \<and> last cwd = CHR ''/'' then butlast cwd else cwd);
          abs = (if starts_with rawPath ''/'' then rawPath else base @ CHR ''/'' # rawPath);
          parts = split_on (CHR ''/'') abs;
          fileName = or_else (last parts) rawPath
      in if fileName = ''SKILL.md'' then Some (SkillRead (or_else (parts ! (length parts - 2)) fileName))
         else if fileName \<in> set COMPACT_RESOURCE_FILE_NAMES then Some (ResourceRead (displayPath abs (Some cwd)))
         else None)"

section \<open>Summaries and headers of tool calls\<close>

text \<open>A property of the arguments; undefined where there is no argument object.\<close>

definition arg :: "jsv \<Rightarrow> string \<Rightarrow> jsv" where
  "arg args k = (if is_obj args \<or> is_arr args then jget args k else JUndef)"

definition path_arg :: "jsv \<Rightarrow> jsv" where
  "path_arg args = coalesce (arg args ''path'') (arg args ''filePath'')"

definition base_name :: "string \<Rightarrow> string" where
  "base_name p = or_else (last (split_on (CHR ''/'') p)) p"

definition has_cwd :: "string option \<Rightarrow> bool" where
  "has_cwd cwd \<longleftrightarrow> cwd \<noteq> None \<and> cwd \<noteq> Some []"

definition display_name :: "jsv \<Rightarrow> string option \<Rightarrow> jsv" where
  "display_name path cwd = (if truthy path \<and> has_cwd cwd then JStr (base_name (str_of path)) else path)"

definition range_end :: "jsv \<Rightarrow> jsv \<Rightarrow> string" where
  "range_end offset limit =
     (if limit \<noteq> JUndef then CHR ''-'' # num_str (num_of offset + num_of limit - 1) else '''')"

definition labelled :: "string \<Rightarrow> jsv \<Rightarrow> string" where
  "labelled name v = (if truthy v then name @ '': '' @ js_text v else name)"

definition first_value :: "jsv \<Rightarrow> jsv" where
  "first_value args =
     (case args of JArr (v # _) \<Rightarrow> v | JObj _ \<Rightarrow> (case js_values args of v # _ \<Rightarrow> v | [] \<Rightarrow> JUndef) | _ \<Rightarrow> JUndef)"

definition patch_paths :: "jsv \<Rightarrow> string list" where
  "patch_paths args = (case applyPatchInput args of Some input \<Rightarrow> extractApplyPatchPaths input | None \<Rightarrow> [])"

definition read_summary :: "string \<Rightarrow> jsv \<Rightarrow> string option \<Rightarrow> string" where
  "read_summary name args cwd =
     (let path = path_arg args; display = display_name path cwd; offset = arg args ''offset'';
          lineRange = (if offset \<noteq> JUndef then '' L'' @ js_text offset @ range_end offset (arg args ''limit'') else '''')
      in case (if truthy path \<and> has_cwd cwd then classifyReadPath (str_of path) (the cwd) else None) of
           Some (SkillRead l) \<Rightarrow> ''[skill] '' @ l @ lineRange
         | Some (ResourceRead l) \<Rightarrow> ''read resource '' @ l @ lineRange
         | None \<Rightarrow> if truthy display then name @ '': '' @ js_text display @ lineRange else name)"

definition makeActionSummary :: "string \<Rightarrow> jsv \<Rightarrow> string option \<Rightarrow> string" where
  "makeActionSummary name args cwd =
     (if name = ''read'' then read_summary name args cwd
      else if name = ''edit'' \<or> name = ''write'' then labelled name (display_name (path_arg args) cwd)
      else if name = ''bash'' \<or> name = ''powershell'' then labelled name (arg args ''command'')
      else if name = ''apply_patch''
      then (case patch_paths args of
              [] \<Rightarrow> name
            | [p] \<Rightarrow> ''patch: '' @ base_name p
            | p # q # ps \<Rightarrow> ''patch: '' @ base_name p @ '' +'' @ nat_str (Suc (length ps)))
      else if name = ''glob'' then labelled ''glob'' (arg args ''pattern'')
      else if name = ''grep'' then labelled ''grep'' (coalesce (arg args ''query'') (arg args ''pattern''))
      else case first_value args of
             JStr v \<Rightarrow> if length v > 60 then name @ '' '' @ take 57 v @ ''...'' else name @ '' '' @ v
           | _ \<Rightarrow> name)"

definition buildActionSummary :: "jsv \<Rightarrow> string" where
  "buildActionSummary block = makeActionSummary (str_of (jget block ''name'')) (jget block ''arguments'') None"

definition or_dot :: "jsv \<Rightarrow> string option \<Rightarrow> string" where
  "or_dot path cwd = (if truthy path then displayPath (str_of path) cwd else ''.'')"

definition limit_text :: "jsv \<Rightarrow> string" where
  "limit_text limit = (if limit \<noteq> JUndef then '' limit '' @ js_text limit else '''')"

definition makeActionHeader :: "string \<Rightarrow> jsv \<Rightarrow> string option \<Rightarrow> string option" where
  "makeActionHeader name args cwd =
     (if name = ''read'' then
        (let path = path_arg args; offset = arg args ''offset''
         in if \<not> truthy path then None
            else Some (displayPath (str_of path) cwd @
              (if offset \<noteq> JUndef then CHR '':'' # js_text offset @ range_end offset (arg args ''limit'') else '''')))
      else if name = ''edit'' \<or> name = ''write'' then
        (let path = path_arg args in if truthy path then Some (displayPath (str_of path) cwd) else None)
      else if name = ''bash'' \<or> name = ''powershell'' then
        (let cmd = arg args ''command'' in if truthy cmd then Some (str_of cmd) else None)
      else if name = ''apply_patch'' then
        (case patch_paths args of [] \<Rightarrow> None | ps \<Rightarrow> Some (join_with '', '' (map (\<lambda>p. displayPath p cwd) ps)))
      else if name = ''grep'' then
        (let pattern = coalesce (arg args ''pattern'') (arg args ''query''); glob = arg args ''glob''
         in if nullish pattern then None
            else Some (CHR ''/'' # js_text pattern @ ''/ in '' @ or_dot (arg args ''path'') cwd @
              (if truthy glob then '' ('' @ js_text glob @ '')'' else '''') @ limit_text (arg args ''limit'')))
      else if name = ''find'' then
        (let pattern = arg args ''pattern''
         in if nullish pattern then None
            else Some (js_text pattern @ '' in '' @ or_dot (arg args ''path'') cwd @ limit_text (arg args ''limit'')))
      else if name = ''ls'' then Some (''ls '' @ or_dot (arg args ''path'') cwd @ limit_text (arg args ''limit''))
      else case first_value args of JStr v \<Rightarrow> if v \<noteq> [] then Some v else None | _ \<Rightarrow> None)"

section \<open>Kinds of tools and models\<close>

datatype ActionKind = KRead | KBash | KWrite | KEdit | KThink
datatype ActionHue = HMutate | HBash | HThink | HRead

definition kindForTool :: "string \<Rightarrow> ActionKind" where
  "kindForTool name =
     (if name = ''bash'' \<or> name = ''powershell'' then KBash else if name = ''write'' then KWrite
      else if name = ''edit'' \<or> name = ''apply_patch'' then KEdit else KRead)"

fun kindHue :: "ActionKind \<Rightarrow> ActionHue" where
  "kindHue KEdit = HMutate"
| "kindHue KWrite = HMutate"
| "kindHue KBash = HBash"
| "kindHue KThink = HThink"
| "kindHue KRead = HRead"

text \<open>A model is its provider and its id; the index is \<open>-1\<close> when the current model is not in the list.\<close>

type_synonym ModelRefLike = "string \<times> string"

definition isModelSelected :: "ModelRefLike \<Rightarrow> ModelRefLike \<Rightarrow> bool" where
  "isModelSelected m r \<longleftrightarrow> fst m = fst r \<and> snd m = snd r"

definition findIndex :: "('a \<Rightarrow> bool) \<Rightarrow> 'a list \<Rightarrow> int" where
  "findIndex P xs = (case List.find (\<lambda>i. P (xs ! i)) [0 ..< length xs] of Some i \<Rightarrow> int i | None \<Rightarrow> - 1)"

text \<open>The remainder of JavaScript, which has the sign of the dividend; \<open>models[-0]\<close> is \<open>models[0]\<close>.\<close>

definition findNextModel :: "ModelRefLike list \<Rightarrow> ModelRefLike \<Rightarrow> bool \<Rightarrow> ModelRefLike option" where
  "findNextModel models current forward =
     (if models = [] then None
      else let idx = findIndex (\<lambda>m. fst m = fst current \<and> snd m = snd current) models; len = int (length models);
               i = (if forward then (idx + 1) mod len
                    else if idx - 1 + len < 0 then - ((- (idx - 1 + len)) mod len) else (idx - 1 + len) mod len)
           in if 0 \<le> i then Some (models ! nat i) else None)"

section \<open>What paths show as\<close>

text \<open>
  \<^bold>\<open>Lemma.\<close>  A path below the working directory shows relative to it, the directory itself as the empty
  string, and any path that does not begin with the directory's characters as it is.  But the test is
  on characters: a path that only extends the name of the directory, such as a sibling's, loses the
  common part as well.
\<close>

theorem displayPath_cases:
  "c \<noteq> [] \<Longrightarrow>
     displayPath (c @ CHR ''/'' # r) (Some c) = r \<and> displayPath c (Some c) = [] \<and>
     (\<not> starts_with p c \<longrightarrow> displayPath p (Some c) = p) \<and>
     (\<not> starts_with s ''/'' \<longrightarrow> displayPath (c @ s) (Some c) = s)"
  using starts_with_append[of c "[]"] by (auto simp: displayPath_def Let_def)

theorem displayPath_cases_witness:
  "displayPath ''/home/bridge/a.ts'' (Some ''/home/bridge'') = ''a.ts'' \<and>
   displayPath ''/home/bridge-old/a.ts'' (Some ''/home/bridge'') = ''-old/a.ts''"
  using displayPath_cases[of "''/home/bridge''" "''a.ts''" "[]" "''-old/a.ts''"] by simp

section \<open>Cycling models\<close>

lemma findIndex_distinct: "distinct xs \<Longrightarrow> i < length xs \<Longrightarrow> findIndex (\<lambda>x. x = xs ! i) xs = int i"
proof -
  assume d: "distinct xs" and i: "i < length xs"
  have "List.find (\<lambda>j. xs ! j = xs ! i) [0 ..< length xs] = Some i"
    using d i by (auto simp: find_Some_iff nth_eq_iff_index_eq intro!: exI[of _ i])
  then show ?thesis by (simp add: findIndex_def)
qed

lemma findNextModel_nth:
  assumes "distinct models" "i < length models"
  shows "findNextModel models (models ! i) True = Some (models ! ((i + 1) mod length models))"
    and "findNextModel models (models ! i) False = Some (models ! ((i + length models - 1) mod length models))"
proof -
  have e: "(\<lambda>m. fst m = fst (models ! i) \<and> snd m = snd (models ! i)) = (\<lambda>m. m = models ! i)" by (auto simp: prod_eq_iff)
  note f = findIndex_distinct[OF assms]
  have ne: "models \<noteq> []" using assms(2) by auto
  have "(int i + 1) mod int (length models) = int ((i + 1) mod length models)" by (simp add: zmod_int add.commute)
  then show "findNextModel models (models ! i) True = Some (models ! ((i + 1) mod length models))"
    unfolding findNextModel_def e f using ne by (simp add: Let_def)
  have p: "int i - 1 + int (length models) = int (i + length models - 1)" using assms(2) by auto
  have "int (i + length models - 1) mod int (length models) = int ((i + length models - 1) mod length models)" by (rule zmod_int[symmetric])
  then show "findNextModel models (models ! i) False = Some (models ! ((i + length models - 1) mod length models))"
    unfolding findNextModel_def e Let_def f p using ne by simp
qed

text \<open>
  \<^bold>\<open>Lemma.\<close>  Cycling through a catalogue without duplicates is a cycle: backward undoes forward, and every
  step stays in the catalogue.
\<close>

theorem cycling_undoes:
  assumes "distinct models" "m \<in> set models"
  shows "\<exists>n. findNextModel models m True = Some n \<and> n \<in> set models \<and> findNextModel models n False = Some m"
proof -
  obtain i where i: "i < length models" "m = models ! i" using assms(2) by (auto simp: in_set_conv_nth)
  let ?j = "(i + 1) mod length models"
  have j: "?j < length models" using i by (intro mod_less_divisor) auto
  have "(?j + length models - 1) mod length models = i"
  proof (cases "i + 1 = length models")
    case True
    then show ?thesis using i by auto
  next
    case False
    then have "?j = i + 1" using i by simp
    then show ?thesis using i by simp
  qed
  then show ?thesis using findNextModel_nth(1)[OF assms(1) i(1)] findNextModel_nth(2)[OF assms(1) j] i j
    by auto
qed

theorem cycling_undoes_witness:
  "\<exists>n. findNextModel [(''p'', ''a''), (''q'', ''a'')] (''q'', ''a'') True = Some n \<and>
     n \<in> set [(''p'', ''a''), (''q'', ''a'')] \<and> findNextModel [(''p'', ''a''), (''q'', ''a'')] n False = Some (''q'', ''a'')"
  by (rule cycling_undoes) simp_all

end
