(* ===== verification/Shell.thy ===== *)
theory Shell
  imports Actions
begin

text \<open>
  The display of a shell command, from \<^verbatim>\<open>packages/bridge/src/viewmodel/index.ts\<close>: the quote-aware scanner
  \<^verbatim>\<open>scanShellPieces\<close> and the decoration \<^verbatim>\<open>beautifyShellCommand\<close>.  The loops over positions consume the
  rest of the text, or the rest of the pieces.  The properties: the pieces are the text, and a
  decoration never changes what a command says.
\<close>

section \<open>Pieces\<close>

datatype PieceKind = PWord | PQuoted | PSep | POther

type_synonym ShellPiece = "PieceKind \<times> string"

definition push_piece :: "ShellPiece list \<Rightarrow> PieceKind \<Rightarrow> string \<Rightarrow> ShellPiece list" where
  "push_piece pieces k t =
     (if t = [] then pieces
      else if pieces \<noteq> [] \<and> fst (last pieces) = k then butlast pieces @ [(k, snd (last pieces) @ t)]
      else pieces @ [(k, t)])"

text \<open>
  What follows an opening quote: the rest of the quoted span and the text after it.  Only double quotes
  have escapes.
\<close>

definition DQUOTE :: char where "DQUOTE = CHR 34"
definition BACKSLASH :: char where "BACKSLASH = CHR 92"

fun quoted_rest :: "char \<Rightarrow> string \<Rightarrow> string \<times> string" where
  "quoted_rest q [] = ([], [])"
| "quoted_rest q (d # s) =
     (if q = DQUOTE \<and> d = BACKSLASH then
        (case s of [] \<Rightarrow> ([d], []) | e # r \<Rightarrow> (d # e # fst (quoted_rest q r), snd (quoted_rest q r)))
      else if d = q then ([d], s)
      else (d # fst (quoted_rest q s), snd (quoted_rest q s)))"

definition ends_word :: "char \<Rightarrow> string \<Rightarrow> bool" where
  "ends_word d s \<longleftrightarrow> js_space d \<or> d = CHR 39 \<or> d = CHR 34 \<or> d = CHR '';'' \<or> d = CHR ''|'' \<or>
     d = CHR ''&'' \<and> starts_with s ''&''"

fun word_rest :: "string \<Rightarrow> string \<times> string" where
  "word_rest [] = ([], [])"
| "word_rest (d # s) =
     (if ends_word d s then ([], d # s)
      else if d = BACKSLASH then
        (case s of [] \<Rightarrow> ([d], []) | e # r \<Rightarrow> (d # e # fst (word_rest r), snd (word_rest r)))
      else (d # fst (word_rest s), snd (word_rest s)))"

text \<open>The piece at the start of a text that is not empty, and the rest.\<close>

definition next_piece :: "char \<Rightarrow> string \<Rightarrow> ShellPiece \<times> string" where
  "next_piece c s =
     (if js_space c then ((POther, c # takeWhile js_space s), dropWhile js_space s)
      else if c = CHR 39 \<or> c = CHR 34 then ((PQuoted, c # fst (quoted_rest c s)), snd (quoted_rest c s))
      else if c = CHR '';'' \<or> c = CHR ''|'' \<or> c = CHR ''&'' \<and> starts_with s ''&''
      then (if (c = CHR ''|'' \<or> c = CHR ''&'') \<and> starts_with s [c] then ((PSep, [c, c]), tl s) else ((PSep, [c]), s))
      else ((PWord, fst (word_rest (c # s))), snd (word_rest (c # s))))"

lemma quoted_rest_append: "fst (quoted_rest q s) @ snd (quoted_rest q s) = s"
proof (induction q s rule: quoted_rest.induct)
  case (2 q d s)
  then show ?case by (cases s) simp_all
qed simp

lemma word_rest_append: "fst (word_rest s) @ snd (word_rest s) = s"
proof (induction s rule: word_rest.induct)
  case (2 d s)
  then show ?case by (cases s) simp_all
qed simp

lemma word_rest_not_Nil: "\<not> ends_word c s \<Longrightarrow> fst (word_rest (c # s)) \<noteq> []"
  by (cases s) simp_all

lemma starts_with_single: "starts_with s [c] \<longleftrightarrow> s \<noteq> [] \<and> hd s = c"
  by (cases s) simp_all

text \<open>A piece and its rest are the text, and a piece is not empty.\<close>

lemma next_piece_text: "snd (fst (next_piece c s)) @ snd (next_piece c s) = c # s \<and> snd (fst (next_piece c s)) \<noteq> []"
proof -
  consider "js_space c" | "\<not> js_space c" "c = CHR 39 \<or> c = CHR 34"
    | "\<not> js_space c" "\<not> (c = CHR 39 \<or> c = CHR 34)" "c = CHR '';'' \<or> c = CHR ''|'' \<or> c = CHR ''&'' \<and> starts_with s ''&''"
    | "\<not> js_space c" "\<not> (c = CHR 39 \<or> c = CHR 34)" "\<not> (c = CHR '';'' \<or> c = CHR ''|'' \<or> c = CHR ''&'' \<and> starts_with s ''&'')"
    by blast
  then show ?thesis
  proof cases
    case 2
    then show ?thesis using quoted_rest_append[of c s] by (simp add: next_piece_def)
  next
    case 3
    have "s \<noteq> [] \<Longrightarrow> hd s = c \<Longrightarrow> c # tl s = s" by (cases s) auto
    then show ?thesis using 3 by (auto simp: next_piece_def starts_with_single)
  next
    case 4
    then have "\<not> ends_word c s" by (auto simp: ends_word_def)
    from word_rest_not_Nil[OF this] word_rest_append[of "c # s"] 4 show ?thesis
      by (auto simp: next_piece_def simp del: word_rest.simps)
  qed (simp add: next_piece_def)
qed

lemma length_next_piece [termination_simp]: "length (snd (next_piece c s)) < Suc (length s)"
proof -
  have "length (c # s) = length (snd (fst (next_piece c s))) + length (snd (next_piece c s))"
    using next_piece_text[of c s] by (metis length_append)
  moreover have "length (snd (fst (next_piece c s))) > 0" using next_piece_text[of c s] by simp
  ultimately show ?thesis by simp
qed

fun scan_loop :: "ShellPiece list \<Rightarrow> string \<Rightarrow> ShellPiece list" where
  "scan_loop pieces [] = pieces"
| "scan_loop pieces (c # s) =
     scan_loop (push_piece pieces (fst (fst (next_piece c s))) (snd (fst (next_piece c s)))) (snd (next_piece c s))"

definition scanShellPieces :: "string \<Rightarrow> ShellPiece list" where
  "scanShellPieces t = scan_loop [] t"

section \<open>Decoration\<close>

datatype ShellCommandSegment = TextSeg string | CmdSeg string | ElideSeg string string

definition pushText :: "ShellCommandSegment list \<Rightarrow> string \<Rightarrow> ShellCommandSegment list" where
  "pushText out t =
     (if t = [] then out
      else case (if out = [] then None else Some (last out)) of
             Some (TextSeg u) \<Rightarrow> butlast out @ [TextSeg (u @ t)]
           | _ \<Rightarrow> out @ [TextSeg t])"

definition texts :: "ShellPiece list \<Rightarrow> string" where
  "texts ps = concat (map snd ps)"

definition is_other :: "ShellPiece \<Rightarrow> bool" where
  "is_other p \<longleftrightarrow> fst p = POther"

definition real_parts :: "string \<Rightarrow> string list" where
  "real_parts w = filter (\<lambda>p. p \<noteq> '''' \<and> p \<noteq> ''.'' \<and> p \<noteq> ''..'') (split_on (CHR ''/'') w)"

definition last_two :: "string list \<Rightarrow> string" where
  "last_two parts = parts ! (length parts - 2) @ CHR ''/'' # last parts"

definition elidePathWord :: "string \<Rightarrow> ShellCommandSegment option" where
  "elidePathWord word =
     (if \<not> starts_with word ''/'' \<and> \<not> starts_with word ''./'' \<and> \<not> starts_with word ''../'' then None
      else if length (real_parts word) \<le> 2 then None
      else Some (ElideSeg (''...'' @ last_two (real_parts word)) word))"

text \<open>
  Rule 1: what a leading \<^verbatim>\<open>cd\<close> with its separator shows as, and the pieces after it; nothing when the
  rule does not apply.
\<close>

definition leading_cd :: "ShellPiece list \<Rightarrow> string option \<Rightarrow> (ShellCommandSegment list \<times> ShellPiece list) option" where
  "leading_cd pieces cwd =
     (case pieces of
        (PWord, w) # ps \<Rightarrow>
          if w \<noteq> ''cd'' then None
          else (case dropWhile is_other ps of
            (PWord, dir) # ps2 \<Rightarrow>
              (case dropWhile is_other ps2 of
                 (PSep, sep) # ps3 \<Rightarrow>
                   (let relative = displayPath dir cwd;
                        before = w @ texts (takeWhile is_other ps);
                        after = texts (takeWhile is_other ps2) @ sep
                    in if relative \<noteq> dir
                       then Some ([ElideSeg (if relative \<noteq> [] then ''cd '' @ relative else ''cd;'') (before @ dir @ after)], ps3)
                       else let parts = real_parts dir; tail = last_two parts
                            in if length parts > 2 \<and> length dir - length tail > 1
                               then Some (pushText (pushText (pushText [] before @ [ElideSeg ellipsis dir]) tail) after, ps3)
                               else None)
               | _ \<Rightarrow> None)
          | _ \<Rightarrow> None)
      | _ \<Rightarrow> None)"

definition BORING_COMMANDS :: "string list" where
  "BORING_COMMANDS =
    [''ls'', ''head'', ''tail'', ''rg'', ''sed'', ''cat'', ''echo'', ''cd'', ''pwd'', ''grep'', ''find'', ''fd'', ''wc'',
     ''sort'', ''uniq'', ''tr'', ''cut'', ''touch'', ''mkdir'', ''rmdir'', ''rm'', ''cp'', ''mv'', ''ln'', ''chmod'', ''chown'',
     ''du'', ''df'', ''ps'', ''kill'', ''which'', ''whereis'', ''file'', ''stat'', ''date'', ''whoami'', ''id'', ''env'',
     ''printenv'', ''export'', ''set'', ''unset'', ''source'', ''alias'', ''sleep'', ''true'', ''false'', ''test'', ''xargs'',
     ''tee'', ''less'', ''more'', ''diff'', ''cmp'', ''md5sum'', ''sha256sum'', ''basename'', ''dirname'', ''realpath'',
     ''readlink'', ''seq'', ''nl'', ''tac'', ''awk'', ''vim'', ''nvim'', ''nano'']"

definition SUBCOMMAND_PARENTS :: "string list" where
  "SUBCOMMAND_PARENTS =
    [''git'', ''npm'', ''pnpm'', ''yarn'', ''bun'', ''deno'', ''cargo'', ''docker'', ''kubectl'', ''helm'', ''terraform'',
     ''pip'', ''pip3'', ''uv'', ''go'', ''brew'', ''apt'', ''apt-get'', ''dnf'', ''yum'', ''systemctl'', ''aws'', ''gcloud'',
     ''az'', ''dotnet'', ''composer'', ''poetry'', ''gem'', ''pi'']"

definition is_letter :: "char \<Rightarrow> bool" where
  "is_letter c \<longleftrightarrow> word_char c \<and> \<not> is_digit c \<and> c \<noteq> CHR ''_''"

definition WORD :: "string \<Rightarrow> bool" where
  "WORD w \<longleftrightarrow> w \<noteq> [] \<and> is_letter (hd w) \<and> list_all (\<lambda>c. word_char c \<or> c = CHR ''.'' \<or> c = CHR ''-'') (tl w)"

definition SUB_WORD :: "string \<Rightarrow> bool" where
  "SUB_WORD w \<longleftrightarrow> w \<noteq> [] \<and> is_letter (hd w) \<and> list_all (\<lambda>c. word_char c \<or> c = CHR ''-'') (tl w)"

text \<open>The subcommand that shares the chip of a command: its text with the white space before it, and the rest.\<close>

definition subcommand :: "string \<Rightarrow> ShellPiece list \<Rightarrow> (string \<times> ShellPiece list) option" where
  "subcommand word ps =
     (case ps of
        (POther, ws) # (PWord, sub) # rest \<Rightarrow>
          if word \<in> set SUBCOMMAND_PARENTS \<and> SUB_WORD sub then Some (ws @ sub, rest) else None
      | _ \<Rightarrow> None)"

lemma length_subcommand [termination_simp]: "subcommand word ps = Some (t, rest) \<Longrightarrow> length rest < Suc (length ps)"
  by (auto simp: subcommand_def split: list.splits prod.splits PieceKind.splits if_splits)

fun decorate :: "ShellCommandSegment list \<Rightarrow> bool \<Rightarrow> ShellPiece list \<Rightarrow> ShellCommandSegment list" where
  "decorate out expectCommand [] = out"
| "decorate out expectCommand ((k, w) # ps) =
     (if k = PSep then decorate (pushText out w) True ps
      else if k \<noteq> PWord then decorate (pushText out w) expectCommand ps
      else case elidePathWord w of
        Some e \<Rightarrow> decorate (out @ [e]) False ps
      | None \<Rightarrow>
          if expectCommand \<and> CHR ''='' \<in> set w then decorate (pushText out w) True ps
          else if expectCommand \<and> WORD w \<and> w \<notin> set BORING_COMMANDS then
            (case subcommand w ps of
               Some (t, rest) \<Rightarrow> decorate (out @ [CmdSeg (w @ t)]) False rest
             | None \<Rightarrow> decorate (out @ [CmdSeg w]) False ps)
          else decorate (pushText out w) False ps)"

definition beautifyShellCommand :: "string \<Rightarrow> string option \<Rightarrow> ShellCommandSegment list" where
  "beautifyShellCommand command cwd =
     (let pieces = scanShellPieces command
      in case leading_cd pieces cwd of
           Some (out, rest) \<Rightarrow> decorate out True rest
         | None \<Rightarrow> decorate [] True pieces)"

section \<open>Pieces are the text\<close>

text \<open>No piece is empty and neighbours differ in kind.\<close>

definition apart :: "ShellPiece list \<Rightarrow> bool" where
  "apart ps \<longleftrightarrow> list_all (\<lambda>p. snd p \<noteq> []) ps \<and> successively (\<lambda>p q. fst p \<noteq> fst q) ps"

lemma texts_simps [simp]: "texts [] = []" "texts (p # ps) = snd p @ texts ps" "texts (ps @ qs) = texts ps @ texts qs"
  by (simp_all add: texts_def)

lemma texts_push_piece: "texts (push_piece ps k t) = texts ps @ t"
proof (cases "ps = []")
  case False
  then have "texts ps = texts (butlast ps) @ snd (last ps)" using texts_simps(3)[of "butlast ps" "[last ps]"] by simp
  then show ?thesis by (simp add: push_piece_def)
qed (simp add: push_piece_def)

lemma apart_push_piece: "apart ps \<Longrightarrow> apart (push_piece ps k t)"
proof (cases "ps = []")
  case False
  then obtain qs q where ps: "ps = qs @ [q]" by (metis append_butlast_last_id)
  assume "apart ps"
  then show ?thesis unfolding ps by (auto simp: apart_def push_piece_def successively_append_iff)
qed (simp add: push_piece_def apart_def)

lemma scan_loop_text: "texts (scan_loop ps s) = texts ps @ s"
proof (induction ps s rule: scan_loop.induct)
  case (2 ps c s)
  have "snd (fst (next_piece c s)) @ snd (next_piece c s) = c # s" using next_piece_text[of c s] by simp
  then show ?case using 2 by (simp add: texts_push_piece)
qed simp

lemma scan_loop_apart: "apart ps \<Longrightarrow> apart (scan_loop ps s)"
  by (induction ps s rule: scan_loop.induct) (simp_all add: apart_push_piece)

text \<open>
  \<^bold>\<open>Property C33.\<close>  The scanner splits every text, unterminated quotes and trailing backslashes included,
  without losing or adding a character: the pieces concatenate to the text, none is empty, and
  neighbouring pieces are of different kinds.
\<close>

theorem scan_pieces_roundtrip:
  "concat (map snd (scanShellPieces t)) = t \<and> apart (scanShellPieces t)"
  using scan_loop_text[of "[]" t] scan_loop_apart[of "[]" t]
  by (simp add: scanShellPieces_def texts_def apart_def)

section \<open>Decorations keep the command\<close>

text \<open>The command text behind a segment: an elided token stands for its original.\<close>

fun seg_text :: "ShellCommandSegment \<Rightarrow> string" where
  "seg_text (TextSeg t) = t"
| "seg_text (CmdSeg t) = t"
| "seg_text (ElideSeg l t) = t"

definition behind :: "ShellCommandSegment list \<Rightarrow> string" where
  "behind out = concat (map seg_text out)"

lemma behind_simps [simp]:
  "behind [] = []" "behind (s # out) = seg_text s @ behind out" "behind (out @ out') = behind out @ behind out'"
  by (simp_all add: behind_def)

lemma behind_pushText [simp]: "behind (pushText out t) = behind out @ t"
proof (cases "out = []")
  case False
  then obtain ss s where out: "out = ss @ [s]" by (metis append_butlast_last_id)
  show ?thesis unfolding out by (cases s) (simp_all add: pushText_def)
qed (simp add: pushText_def)

lemma elidePathWord_text: "elidePathWord w = Some e \<Longrightarrow> seg_text e = w"
  unfolding elidePathWord_def by (metis option.distinct(1) option.inject seg_text.simps(3))

lemma subcommand_text: "subcommand w ps = Some (t, rest) \<Longrightarrow> texts ps = t @ texts rest"
  by (auto simp: subcommand_def split: list.splits prod.splits PieceKind.splits if_splits)

lemma behind_decorate: "behind (decorate out b ps) = behind out @ texts ps"
proof (induction out b ps rule: decorate.induct)
  case (2 out b k w ps)
  consider "k = PSep" | "k \<noteq> PSep" "k \<noteq> PWord" | e where "k = PWord" "elidePathWord w = Some e"
    | "k = PWord" "elidePathWord w = None" by blast
  then show ?case
  proof cases
    case 4
    consider "b \<and> CHR ''='' \<in> set w" | "\<not> (b \<and> CHR ''='' \<in> set w)" "b \<and> WORD w \<and> w \<notin> set BORING_COMMANDS"
      | "\<not> (b \<and> CHR ''='' \<in> set w)" "\<not> (b \<and> WORD w \<and> w \<notin> set BORING_COMMANDS)" by blast
    then show ?thesis
    proof cases
      case 2
      show ?thesis
      proof (cases "subcommand w ps")
        case (Some p)
        obtain t rest where p: "p = (t, rest)" by (cases p)
        show ?thesis using "2.IH" 4 2 Some subcommand_text[of w ps t rest] by (simp add: p)
      qed (use "2.IH" 4 2 in simp)
    next
      case 3
      have "decorate out b ((k, w) # ps) = decorate (pushText out w) False ps" using 4 3 by auto
      then show ?thesis using "2.IH" 4 3 by (simp del: decorate.simps)
    qed (use "2.IH" 4 in simp_all)
  qed (use "2.IH" elidePathWord_text in simp_all)
qed simp

lemma split_white: "ps = takeWhile is_other ps @ dropWhile is_other ps"
  by simp

text \<open>
  \<^bold>\<open>Property C34.\<close>  A decoration never changes what a command says: the texts behind the segments are the
  command, except that a leading change into a deep directory outside the working directory shows the
  last two segments of that directory once more, as plain text after the elided original.
\<close>

theorem beautify_keeps_command:
  "behind (beautifyShellCommand command cwd) = command \<or>
   (\<exists>before dir after rest. command = before @ dir @ after @ rest \<and> starts_with before ''cd'' \<and>
      length (real_parts dir) > 2 \<and> displayPath dir cwd = dir \<and>
      behind (beautifyShellCommand command cwd) = before @ dir @ last_two (real_parts dir) @ after @ rest)"
proof (cases "leading_cd (scanShellPieces command) cwd")
  case None
  have "texts (scanShellPieces command) = command" using scan_loop_text[of "[]"] by (simp add: scanShellPieces_def)
  then show ?thesis using None by (simp add: beautifyShellCommand_def behind_decorate)
next
  case (Some r)
  obtain out rest where r: "r = (out, rest)" by (cases r)
  from Some r obtain ps dir ps2 sep where pieces: "scanShellPieces command = (PWord, ''cd'') # ps"
    "dropWhile is_other ps = (PWord, dir) # ps2" "dropWhile is_other ps2 = (PSep, sep) # rest"
    by (auto simp: leading_cd_def Let_def split: list.splits prod.splits PieceKind.splits if_splits)
  define before where "before = ''cd'' @ texts (takeWhile is_other ps)"
  define after where "after = texts (takeWhile is_other ps2) @ sep"
  have "command = texts (scanShellPieces command)" using scan_loop_text[of "[]"] by (simp add: scanShellPieces_def)
  also have "\<dots> = before @ dir @ after @ texts rest"
    using arg_cong[OF split_white[of ps], of texts] arg_cong[OF split_white[of ps2], of texts]
    by (simp add: pieces before_def after_def)
  finally have c: "command = before @ dir @ after @ texts rest" .
  have b: "behind (beautifyShellCommand command cwd) = behind out @ texts rest"
    using Some by (simp add: beautifyShellCommand_def r behind_decorate)
  show ?thesis
  proof (cases "displayPath dir cwd = dir")
    case False
    then have "behind out = before @ dir @ after"
      using Some by (auto simp: leading_cd_def pieces r before_def after_def Let_def)
    then show ?thesis using b c by simp
  next
    case True
    then have "length (real_parts dir) > 2" and "behind out = before @ dir @ last_two (real_parts dir) @ after"
      using Some by (auto simp: leading_cd_def pieces r before_def after_def Let_def split: if_splits)
    then show ?thesis using b c True by (intro disjI2 exI[of _ before] exI[of _ dir] exI[of _ after] exI[of _ "texts rest"])
        (simp add: before_def starts_with_def)
  qed
qed

end
