(* ===== verification/Blocks.thy ===== *)
theory Blocks
  imports ViewPath Shell GitStamp
begin

text \<open>
  The blocks of assistant turns and their times, from \<^verbatim>\<open>packages/bridge/src/viewmodel/index.ts\<close>: block
  descriptors joined with tool results, reuse of earlier descriptors, the pulls of an action, the
  segments of a turn and the groups its git stamps fold into, and the wall-clock estimates of a turn.
\<close>

section \<open>Block descriptors\<close>

datatype ToolStatus = StPending | StRunning | StDone | StError

record ToolResultSnapshot =
  sn_entryId :: string
  sn_isError :: bool
  sn_durationMs :: jsv

datatype AssistantBlockVM =
    TextBlockVM (blk_entry: string) (blk_index: nat) string bool
  | ThinkActionVM (blk_entry: string) (blk_index: nat) jsv bool bool
  | ToolActionVM (blk_entry: string) (blk_index: nat) string string jsv "ToolResultSnapshot option" string ToolStatus

text \<open>Tool results by call id; a later entry of the document replaces an earlier one.\<close>

definition buildToolResultMap :: "jsv \<Rightarrow> (string \<times> jsv) list" where
  "buildToolResultMap entries =
     foldl (\<lambda>m e. AList.update (str_of (jget e ''toolCallId'')) e m) [] (filter (kind_is ''tool_result'') (js_values entries))"

definition result_snapshot :: "jsv \<Rightarrow> ToolResultSnapshot" where
  "result_snapshot r =
     \<lparr>sn_entryId = str_of (jget r ''id''), sn_isError = truthy (jget r ''isError''),
      sn_durationMs = coalesce (jget r ''durationMs'') JNull\<rparr>"

definition tool_status :: "jsv \<Rightarrow> jsv option \<Rightarrow> ToolStatus" where
  "tool_status block r =
     (case r of
        Some e \<Rightarrow> if \<not> isEntrySealed e then StRunning else if truthy (jget e ''isError'') then StError else StDone
      | None \<Rightarrow> if jget block ''arguments'' \<noteq> JNull then StRunning else StPending)"

definition buildBlockVM :: "string \<Rightarrow> nat \<Rightarrow> jsv \<Rightarrow> bool \<Rightarrow> (string \<times> jsv) list \<Rightarrow> AssistantBlockVM" where
  "buildBlockVM entryId i block isProvisional results =
     (if jget block ''type'' = JStr ''text'' then TextBlockVM entryId i (str_of (jget block ''text'')) isProvisional
      else if jget block ''type'' = JStr ''thinking''
      then ThinkActionVM entryId i (jget block ''thinking'') isProvisional (jget block ''redacted'' = JBool True)
      else if jget block ''type'' = JStr ''toolCall''
      then let r = map_of results (str_of (jget block ''id''))
           in ToolActionVM entryId i (str_of (jget block ''name'')) (str_of (jget block ''id'')) (jget block ''arguments'')
                (map_option result_snapshot r) (buildActionSummary block) (tool_status block r)
      else if jget block ''type'' = JStr ''image'' then TextBlockVM entryId i ''[image output]'' isProvisional
      else TextBlockVM entryId i (''[unsupported '' @ js_text (coalesce (jget block ''type'') (JStr ''content'')) @ '' block]'') isProvisional)"

text \<open>
  Reuse of the previous descriptor.  A collapsed thinking block is compared by emptiness only, so the
  descriptor that is kept may hold an earlier text.
\<close>

definition block_key :: "string \<Rightarrow> nat \<Rightarrow> string" where
  "block_key entryId i = entryId @ CHR '':'' # nat_str i"

definition action_key :: "string \<Rightarrow> nat \<Rightarrow> string" where
  "action_key entryId i = entryId @ '':b'' @ nat_str i"

definition thinking_class :: "jsv \<Rightarrow> nat" where
  "thinking_class t = (if t = JNull then 0 else if length (str_of t) > 0 then 2 else 1)"

fun same_block :: "bool \<Rightarrow> AssistantBlockVM \<Rightarrow> AssistantBlockVM \<Rightarrow> bool" where
  "same_block collapsed (TextBlockVM _ _ t p) (TextBlockVM _ _ t' p') = (t = t' \<and> p = p')"
| "same_block collapsed (ThinkActionVM _ _ t p r) (ThinkActionVM _ _ t' p' r') =
     ((if collapsed then thinking_class t = thinking_class t' else t = t') \<and> p = p' \<and> r = r')"
| "same_block collapsed (ToolActionVM _ _ n c a r s st) (ToolActionVM _ _ n' c' a' r' s' st') =
     (n = n' \<and> c = c' \<and> a = a' \<and> s = s' \<and> st = st' \<and> r = r')"
| "same_block collapsed _ _ = False"

definition reuseBlock :: "(string \<times> AssistantBlockVM) list \<Rightarrow> AssistantBlockVM \<Rightarrow> string set option \<Rightarrow> AssistantBlockVM" where
  "reuseBlock prevBlocks vm expanded =
     (case map_of prevBlocks (block_key (blk_entry vm) (blk_index vm)) of
        None \<Rightarrow> vm
      | Some prev \<Rightarrow>
          let collapsed = (case expanded of None \<Rightarrow> False | Some x \<Rightarrow> action_key (blk_entry vm) (blk_index vm) \<notin> x)
          in if same_block collapsed prev vm then prev else vm)"

section \<open>Pulls\<close>

type_synonym PullRequestItem = "string \<times> string"

definition resultPullPaths :: "string \<Rightarrow> PullRequestItem list" where
  "resultPullPaths r = [(r, ''/entries/'' @ r @ ''/content''), (r, ''/entries/'' @ r @ ''/details'')]"

fun actionPulls :: "AssistantBlockVM \<Rightarrow> bool \<Rightarrow> PullRequestItem list" where
  "actionPulls (ThinkActionVM e i t p redacted) expanded =
     (if redacted then [] else [(e, ''/entries/'' @ e @ ''/content/'' @ nat_str i @ ''/thinking'')])"
| "actionPulls (ToolActionVM e i n c a result s st) expanded =
     (e, ''/entries/'' @ e @ ''/content/'' @ nat_str i @ ''/arguments'') #
     (case result of Some r \<Rightarrow> if expanded then resultPullPaths (sn_entryId r) else [] | None \<Rightarrow> [])"
| "actionPulls (TextBlockVM e i t p) expanded = []"

section \<open>Segments\<close>

fun is_text_block :: "AssistantBlockVM \<Rightarrow> bool" where
  "is_text_block (TextBlockVM _ _ _ _) = True"
| "is_text_block _ = False"

datatype TurnSegment = TextSegment AssistantBlockVM | GroupSegment string "AssistantBlockVM list"

lemma length_dropWhile_Suc [termination_simp]: "length (dropWhile P xs) < Suc (length xs)"
  by (simp add: le_imp_less_Suc length_dropWhile_le)

text \<open>
  The previous result only decides which objects are kept; the value is the same with and without it,
  so it is not an argument here.
\<close>

fun segmentBlocks :: "AssistantBlockVM list \<Rightarrow> TurnSegment list" where
  "segmentBlocks [] = []"
| "segmentBlocks (b # bs) =
     (if is_text_block b then TextSegment b # segmentBlocks bs
      else GroupSegment (block_key (blk_entry b) (blk_index b)) (b # takeWhile (\<lambda>x. \<not> is_text_block x) bs) #
           segmentBlocks (dropWhile (\<lambda>x. \<not> is_text_block x) bs))"

record InlineGitStamp =
  ig_entryId :: string
  ig_timestamp :: string
  ig_identity :: GitIdentity
  ig_subject :: "string option"
  ig_anchor :: GitStampAnchor
  ig_isInitial :: bool
  ig_afterBlockKey :: string

record GroupGitChanges =
  gc_byGroup :: "(string \<times> InlineGitStamp list) list"
  gc_unattached :: "InlineGitStamp list"

text \<open>The maps of the pass over the segments: actions and texts to group keys, and the last group.\<close>

record GroupMaps =
  gm_ofAction :: "(string \<times> string) list"
  gm_beforeText :: "(string \<times> string) list"
  gm_last :: "string option"

definition key_of_block :: "AssistantBlockVM \<Rightarrow> string" where
  "key_of_block b = action_key (blk_entry b) (blk_index b)"

fun map_segment :: "GroupMaps \<Rightarrow> TurnSegment \<Rightarrow> GroupMaps" where
  "map_segment g (GroupSegment key actions) =
     g\<lparr>gm_last := Some key, gm_ofAction := foldl (\<lambda>m s. AList.update (key_of_block s) key m) (gm_ofAction g) actions\<rparr>"
| "map_segment g (TextSegment b) =
     (case gm_last g of
        Some key \<Rightarrow> g\<lparr>gm_beforeText := AList.update (key_of_block b) key (gm_beforeText g)\<rparr>
      | None \<Rightarrow> g)"

definition group_maps :: "TurnSegment list \<Rightarrow> GroupMaps" where
  "group_maps segs = foldl map_segment \<lparr>gm_ofAction = [], gm_beforeText = [], gm_last = None\<rparr> segs"

definition group_of :: "TurnSegment list \<Rightarrow> string \<Rightarrow> string option" where
  "group_of segs k =
     (case map_of (gm_ofAction (group_maps segs)) k of
        Some g \<Rightarrow> Some g | None \<Rightarrow> map_of (gm_beforeText (group_maps segs)) k)"

definition attach_stamp :: "TurnSegment list \<Rightarrow> GroupGitChanges \<Rightarrow> InlineGitStamp \<Rightarrow> GroupGitChanges" where
  "attach_stamp segs g stamp =
     (case group_of segs (ig_afterBlockKey stamp) of
        None \<Rightarrow> g\<lparr>gc_unattached := gc_unattached g @ [stamp]\<rparr>
      | Some key \<Rightarrow>
          g\<lparr>gc_byGroup := AList.update key
              ((case map_of (gc_byGroup g) key of Some l \<Rightarrow> l | None \<Rightarrow> []) @ [stamp]) (gc_byGroup g)\<rparr>)"

definition assignGroupGitChanges :: "TurnSegment list \<Rightarrow> InlineGitStamp list \<Rightarrow> GroupGitChanges" where
  "assignGroupGitChanges segs stamps =
     foldl (attach_stamp segs) \<lparr>gc_byGroup = [], gc_unattached = []\<rparr> stamps"

section \<open>Times\<close>

text \<open>
  Milliseconds since the epoch of a time in the form \<^verbatim>\<open>toISOString\<close> writes, the form of every timestamp
  here (\<^verbatim>\<open>2026-01-31T12:00:00.000Z\<close>); \<open>None\<close> is \<^verbatim>\<open>NaN\<close>.  The other forms \<^verbatim>\<open>Date\<close> accepts are not modelled.
\<close>

definition num_at :: "string \<Rightarrow> nat \<Rightarrow> nat \<Rightarrow> int option" where
  "num_at s i n =
     (let d = take n (drop i s) in if length d = n \<and> list_all is_digit d then Some (int (str_nat d)) else None)"

definition leap_year :: "int \<Rightarrow> bool" where
  "leap_year y \<longleftrightarrow> y mod 4 = 0 \<and> (y mod 100 \<noteq> 0 \<or> y mod 400 = 0)"

definition month_lengths :: "int \<Rightarrow> int list" where
  "month_lengths y = [31, if leap_year y then 29 else 28, 31, 30, 31, 30, 31, 31, 30, 31, 30, 31]"

definition days_to_year :: "int \<Rightarrow> int" where
  "days_to_year y = 365 * (y - 1970) + (y - 1969) div 4 - (y - 1901) div 100 + (y - 1601) div 400"

definition iso_shape :: "string \<Rightarrow> bool" where
  "iso_shape s \<longleftrightarrow> length s = 24 \<and> s ! 4 = CHR ''-'' \<and> s ! 7 = CHR ''-'' \<and> s ! 10 = CHR ''T'' \<and> s ! 13 = CHR '':'' \<and>
     s ! 16 = CHR '':'' \<and> s ! 19 = CHR ''.'' \<and> s ! 23 = CHR ''Z''"

definition iso_ms :: "string \<Rightarrow> int option" where
  "iso_ms s =
     (if \<not> iso_shape s then None
      else do {
        y \<leftarrow> num_at s 0 4; mo \<leftarrow> num_at s 5 2; d \<leftarrow> num_at s 8 2; h \<leftarrow> num_at s 11 2;
        mi \<leftarrow> num_at s 14 2; sec \<leftarrow> num_at s 17 2; ms \<leftarrow> num_at s 20 3;
        if mo < 1 \<or> 12 < mo \<or> d < 1 \<or> month_lengths y ! nat (mo - 1) < d \<or> 23 < h \<or> 59 < mi \<or> 59 < sec then None
        else Some ((((days_to_year y + sum_list (take (nat (mo - 1)) (month_lengths y)) + d - 1) * 24 + h) * 60 + mi) * 60000
               + sec * 1000 + ms)
      })"

definition diffMs :: "string \<Rightarrow> string \<Rightarrow> int option" where
  "diffMs endIso startIso =
     (if endIso = [] \<or> startIso = [] then None
      else do { e \<leftarrow> iso_ms endIso; s \<leftarrow> iso_ms startIso; Some (e - s) })"

text \<open>A reference to a block: its entry and its index.  Entries of a path are told apart by value, as their ids differ.\<close>

type_synonym BlockRef = "jsv \<times> nat"

definition entry_ts :: "jsv \<Rightarrow> string" where
  "entry_ts e = str_of (jget e ''timestamp'')"

definition ref_block :: "BlockRef \<Rightarrow> jsv" where
  "ref_block r = (let bs = arr_of (jget (fst r) ''content'') in if snd r < length bs then bs ! snd r else JUndef)"

text \<open>The seal of the result of a tool call; empty where there is none.\<close>

definition result_seal :: "(string \<times> jsv) list \<Rightarrow> jsv \<Rightarrow> string" where
  "result_seal results block =
     (case map_of results (str_of (jget block ''id'')) of Some tr \<Rightarrow> entry_ts tr | None \<Rightarrow> '''')"

definition is_call :: "jsv \<Rightarrow> bool" where
  "is_call b \<longleftrightarrow> jget b ''type'' = JStr ''toolCall''"

definition later_seal :: "(string \<times> jsv) list \<Rightarrow> string \<Rightarrow> BlockRef \<Rightarrow> string" where
  "later_seal results maxTool r =
     (let b = ref_block r; ts = result_seal results b in if is_call b \<and> maxTool < ts then ts else maxTool)"

text \<open>The chain of generations: the sum of their windows, or nothing when an entry is not sealed.\<close>

function generation_sum :: "(string \<times> jsv) list \<Rightarrow> BlockRef list \<Rightarrow> string \<Rightarrow> int \<Rightarrow> int option" where
  "generation_sum results [] triggerTs totalGen = Some totalGen"
| "generation_sum results (r # rs) triggerTs totalGen =
     (let ts = entry_ts (fst r);
          maxTool = foldl (later_seal results) '''' (r # takeWhile (\<lambda>q. fst q = fst r) rs)
      in if ts = '''' then None
         else generation_sum results (dropWhile (\<lambda>q. fst q = fst r) rs) (if maxTool \<noteq> '''' then maxTool else ts)
                (case diffMs ts triggerTs of Some g \<Rightarrow> if 0 < g then totalGen + g else totalGen | None \<Rightarrow> totalGen))"
  by pat_completeness auto
termination by (relation "measure (\<lambda>(results, rs, t, g). length rs)") (simp_all add: le_imp_less_Suc length_dropWhile_le)

definition computeToolMs :: "BlockRef list \<Rightarrow> (string \<times> jsv) list \<Rightarrow> string \<Rightarrow> string \<Rightarrow> int option" where
  "computeToolMs refs results turnStartedAt endTs =
     (if endTs = '''' then None
      else do {
        total \<leftarrow> diffMs endTs turnStartedAt;
        gen \<leftarrow> generation_sum results refs turnStartedAt 0;
        if 0 \<le> total - gen then Some (total - gen) else None
      })"

section \<open>Segments partition a turn\<close>

fun segment_blocks :: "TurnSegment \<Rightarrow> AssistantBlockVM list" where
  "segment_blocks (TextSegment b) = [b]"
| "segment_blocks (GroupSegment k as) = as"

fun is_group :: "TurnSegment \<Rightarrow> bool" where
  "is_group (GroupSegment _ _) = True"
| "is_group (TextSegment _) = False"

fun good_segment :: "TurnSegment \<Rightarrow> bool" where
  "good_segment (TextSegment b) = is_text_block b"
| "good_segment (GroupSegment k as) =
     (as \<noteq> [] \<and> list_all (\<lambda>b. \<not> is_text_block b) as \<and> k = block_key (blk_entry (hd as)) (blk_index (hd as)))"

lemma segmentBlocks_hd: "bs \<noteq> [] \<Longrightarrow> is_text_block (hd bs) \<Longrightarrow> \<not> is_group (hd (segmentBlocks bs))"
  by (cases bs) simp_all

text \<open>
  \<^bold>\<open>Lemma.\<close>  The segments of a turn are its blocks, in order: a text segment is one text block, a group
  holds actions only and is keyed by its first, and groups are maximal, as no two of them are adjacent.
\<close>

theorem segments_partition:
  "concat (map segment_blocks (segmentBlocks bs)) = bs \<and> list_all good_segment (segmentBlocks bs) \<and>
   successively (\<lambda>s t. \<not> (is_group s \<and> is_group t)) (segmentBlocks bs)"
proof (induction bs rule: segmentBlocks.induct)
  case (2 b bs)
  show ?case
  proof (cases "is_text_block b")
    case True
    then show ?thesis using 2 by (cases "segmentBlocks bs") simp_all
  next
    case False
    let ?r = "dropWhile (\<lambda>x. \<not> is_text_block x) bs"
    have a: "list_all (\<lambda>x. \<not> is_text_block x) (takeWhile (\<lambda>x. \<not> is_text_block x) bs)"
      by (auto simp: list_all_iff dest: set_takeWhileD)
    have "\<not> is_group (hd (segmentBlocks ?r))" if "segmentBlocks ?r \<noteq> []"
    proof (rule segmentBlocks_hd)
      show "?r \<noteq> []" using that by (metis segmentBlocks.simps(1))
      then show "is_text_block (hd ?r)" using hd_dropWhile by blast
    qed
    then show ?thesis using 2 False a takeWhile_dropWhile_id[of "\<lambda>x. \<not> is_text_block x" bs]
      by (cases "segmentBlocks ?r") (auto simp: list_all_iff)
  qed
qed simp

section \<open>Stamps keep their group\<close>

text \<open>The group of each block of a segment list, and the same read off the blocks themselves.\<close>

fun seg_owner :: "string option \<Rightarrow> TurnSegment list \<Rightarrow> (string \<times> string option) list" where
  "seg_owner latest [] = []"
| "seg_owner latest (GroupSegment key as # ss) = map (\<lambda>b. (key_of_block b, Some key)) as @ seg_owner (Some key) ss"
| "seg_owner latest (TextSegment b # ss) = (key_of_block b, latest) # seg_owner latest ss"

fun owner :: "string option \<Rightarrow> string option \<Rightarrow> AssistantBlockVM list \<Rightarrow> (string \<times> string option) list" where
  "owner latest current [] = []"
| "owner latest current (b # bs) =
     (if is_text_block b then (key_of_block b, latest) # owner latest None bs
      else let g = (case current of Some g \<Rightarrow> g | None \<Rightarrow> block_key (blk_entry b) (blk_index b))
           in (key_of_block b, Some g) # owner (Some g) (Some g) bs)"

lemma owner_run:
  "owner (Some g) (Some g) bs =
     map (\<lambda>b. (key_of_block b, Some g)) (takeWhile (\<lambda>x. \<not> is_text_block x) bs) @
     owner (Some g) None (dropWhile (\<lambda>x. \<not> is_text_block x) bs)"
  by (induction bs) (auto simp: Let_def)

lemma seg_owner_segmentBlocks: "seg_owner latest (segmentBlocks bs) = owner latest None bs"
proof (induction bs arbitrary: latest rule: segmentBlocks.induct)
  case (2 b bs)
  then show ?case by (cases "is_text_block b") (simp_all add: Let_def owner_run)
qed simp

lemma keys_owner: "map fst (owner latest current bs) = map key_of_block bs"
  by (induction bs arbitrary: latest current) (simp_all add: Let_def)

lemma owner_append: "\<exists>zs. owner latest current (bs @ cs) = owner latest current bs @ zs"
  by (induction bs arbitrary: latest current) (simp_all add: Let_def)

definition look :: "GroupMaps \<Rightarrow> string \<Rightarrow> string option" where
  "look g k = (case map_of (gm_ofAction g) k of Some x \<Rightarrow> Some x | None \<Rightarrow> map_of (gm_beforeText g) k)"

lemma map_of_fold_update:
  "map_of (foldl (\<lambda>m s. AList.update (f s) v m) al xs) k = (if k \<in> f ` set xs then Some v else map_of al k)"
  by (induction xs arbitrary: al) auto

lemma look_fold:
  "distinct (map fst (seg_owner (gm_last g) ss)) \<Longrightarrow> \<forall>k \<in> fst ` set (seg_owner (gm_last g) ss). look g k = None \<Longrightarrow>
   look (foldl map_segment g ss) k = (case map_of (seg_owner (gm_last g) ss) k of Some r \<Rightarrow> r | None \<Rightarrow> look g k)"
proof (induction "gm_last g" ss arbitrary: g rule: seg_owner.induct)
  case (2 key as ss)
  let ?g = "map_segment g (GroupSegment key as)"
  have l: "look ?g j = (if j \<in> key_of_block ` set as then Some key else look g j)" for j
    by (auto simp: look_def map_of_fold_update split: option.splits)
  have lg: "gm_last ?g = Some key" by simp
  have "look (foldl map_segment ?g ss) k = (case map_of (seg_owner (gm_last ?g) ss) k of Some r \<Rightarrow> r | None \<Rightarrow> look ?g k)"
  proof (rule "2.hyps"(1))
    show "distinct (map fst (seg_owner (gm_last ?g) ss))" using "2.prems"(1) by simp
    show "\<forall>k\<in>fst ` set (seg_owner (gm_last ?g) ss). look ?g k = None"
      using "2.prems" unfolding l lg by (auto simp: image_image)
  qed simp
  note step = this[unfolded l lg]
  have "map_of (map (\<lambda>b. (key_of_block b, Some key)) as) k = (if k \<in> key_of_block ` set as then Some (Some key) else None)"
    by (induction as) auto
  moreover have "k \<in> key_of_block ` set as \<Longrightarrow> map_of (seg_owner (Some key) ss) k = None"
    using "2.prems"(1) by (force simp: map_of_eq_None_iff image_image)
  ultimately show ?case unfolding foldl_Cons step by (auto simp: map_add_def split: option.splits)
next
  case (3 b ss)
  let ?g = "map_segment g (TextSegment b)"
  let ?k = "key_of_block b"
  have none: "look g ?k = None" using "3.prems"(2) by simp
  have l: "look ?g j = (if j = ?k then gm_last g else look g j)" for j
    using none by (auto simp: look_def split: option.splits)
  have lg: "gm_last ?g = gm_last g" by (simp split: option.splits)
  have "look (foldl map_segment ?g ss) k = (case map_of (seg_owner (gm_last ?g) ss) k of Some r \<Rightarrow> r | None \<Rightarrow> look ?g k)"
  proof (rule "3.hyps"(1))
    show "distinct (map fst (seg_owner (gm_last ?g) ss))" using "3.prems"(1) unfolding lg by simp
    show "\<forall>k\<in>fst ` set (seg_owner (gm_last ?g) ss). look ?g k = None"
    proof
      fix j assume j: "j \<in> fst ` set (seg_owner (gm_last ?g) ss)"
      moreover have "?k \<notin> fst ` set (seg_owner (gm_last g) ss)" using "3.prems"(1) by simp
      ultimately have "j \<noteq> ?k" unfolding lg by metis
      have "look g j = None" using j bspec[OF "3.prems"(2)] unfolding lg by simp
      then show "look ?g j = None" using \<open>j \<noteq> ?k\<close> unfolding l by simp
    qed
  qed (rule lg[symmetric])
  note step = this[unfolded l lg]
  have "map_of (seg_owner (gm_last g) ss) ?k = None" using "3.prems"(1) by (simp add: map_of_eq_None_iff)
  then have "map_of (seg_owner (gm_last g) (TextSegment b # ss)) ?k = Some (gm_last g)" by simp
  then show ?case unfolding foldl_Cons step using \<open>map_of (seg_owner (gm_last g) ss) ?k = None\<close>
    by (cases "k = ?k") (simp_all split: option.splits)
qed simp

lemma group_of_owner:
  assumes "distinct (map key_of_block bs)"
  shows "group_of (segmentBlocks bs) k = (case map_of (owner None None bs) k of Some r \<Rightarrow> r | None \<Rightarrow> None)"
proof -
  let ?g = "\<lparr>gm_ofAction = [], gm_beforeText = [], gm_last = None\<rparr>"
  have "group_of (segmentBlocks bs) k = look (foldl map_segment ?g (segmentBlocks bs)) k"
    by (simp only: group_of_def look_def group_maps_def)
  also have "\<dots> = (case map_of (seg_owner (gm_last ?g) (segmentBlocks bs)) k of Some r \<Rightarrow> r | None \<Rightarrow> look ?g k)"
    using assms by (intro look_fold) (simp_all add: seg_owner_segmentBlocks keys_owner look_def)
  also have "look ?g k = None" by (simp add: look_def)
  finally show ?thesis by (simp add: seg_owner_segmentBlocks)
qed

lemma group_of_grows:
  assumes "distinct (map key_of_block (bs @ cs))" "k \<in> key_of_block ` set bs"
  shows "group_of (segmentBlocks (bs @ cs)) k = group_of (segmentBlocks bs) k"
proof -
  obtain zs where z: "owner None None (bs @ cs) = owner None None bs @ zs" using owner_append by blast
  have "k \<in> fst ` set (owner None None bs)" using assms(2) by (metis keys_owner set_map)
  then obtain r where "map_of (owner None None bs) k = Some r" by (metis in_keys_map_of not_None_eq set_map)
  then show ?thesis using assms(1) by (simp add: group_of_owner z map_add_def split: option.splits)
qed

text \<open>
  \<^bold>\<open>Property C28.\<close>  A git stamp never moves to another group: when a turn grows, the stamps that follow one of
  the blocks it already had are assigned exactly as before, whatever blocks were added.
\<close>

theorem stamps_keep_group:
  assumes "distinct (map key_of_block (bs @ cs))" "list_all (\<lambda>s. ig_afterBlockKey s \<in> key_of_block ` set bs) stamps"
  shows "assignGroupGitChanges (segmentBlocks (bs @ cs)) stamps = assignGroupGitChanges (segmentBlocks bs) stamps"
proof -
  have "attach_stamp (segmentBlocks (bs @ cs)) g s = attach_stamp (segmentBlocks bs) g s"
    if "s \<in> set stamps" for g s
    using group_of_grows[OF assms(1), of "ig_afterBlockKey s"] assms(2) that by (simp add: attach_stamp_def list_all_iff)
  then show ?thesis unfolding assignGroupGitChanges_def by (intro foldl_cong) auto
qed

definition sample_blocks :: "AssistantBlockVM list" where
  "sample_blocks = [ToolActionVM ''e'' 0 ''bash'' ''c1'' JNull None ''bash'' StRunning, TextBlockVM ''e'' 1 ''done'' False]"

definition sample_stamp :: "string \<Rightarrow> InlineGitStamp" where
  "sample_stamp k = \<lparr>ig_entryId = ''s'', ig_timestamp = [], ig_identity = \<lparr>commit = None, branch = None\<rparr>, ig_subject = None,
     ig_anchor = TurnEnd, ig_isInitial = False, ig_afterBlockKey = k\<rparr>"

theorem stamps_keep_group_witness:
  "assignGroupGitChanges (segmentBlocks (sample_blocks @ [ThinkActionVM ''f'' 0 JNull False False])) [sample_stamp ''e:b1''] =
   \<lparr>gc_byGroup = [(''e:0'', [sample_stamp ''e:b1''])], gc_unattached = []\<rparr>"
proof -
  have n: "nat_str 0 = ''0''" "nat_str 1 = ''1''" by (simp_all add: nat_str.simps digit_char_def)
  have "assignGroupGitChanges (segmentBlocks (sample_blocks @ [ThinkActionVM ''f'' 0 JNull False False])) [sample_stamp ''e:b1''] =
      assignGroupGitChanges (segmentBlocks sample_blocks) [sample_stamp ''e:b1'']"
    by (rule stamps_keep_group) (simp_all add: sample_blocks_def sample_stamp_def key_of_block_def action_key_def n del: One_nat_def)
  also have "\<dots> = \<lparr>gc_byGroup = [(''e:0'', [sample_stamp ''e:b1''])], gc_unattached = []\<rparr>"
    by (simp add: sample_blocks_def sample_stamp_def assignGroupGitChanges_def attach_stamp_def group_of_def group_maps_def
        key_of_block_def action_key_def block_key_def n del: One_nat_def)
  finally show ?thesis .
qed

lemma attach_fold:
  "map_of (gc_byGroup (foldl (attach_stamp segs) \<lparr>gc_byGroup = [], gc_unattached = []\<rparr> stamps)) k =
     (let l = filter (\<lambda>s. group_of segs (ig_afterBlockKey s) = Some k) stamps in if l = [] then None else Some l) \<and>
   gc_unattached (foldl (attach_stamp segs) \<lparr>gc_byGroup = [], gc_unattached = []\<rparr> stamps) =
     filter (\<lambda>s. group_of segs (ig_afterBlockKey s) = None) stamps"
proof (induction stamps rule: rev_induct)
  case (snoc s stamps)
  then show ?case by (auto simp: attach_stamp_def Let_def split: option.splits if_splits)
qed simp

text \<open>
  \<^bold>\<open>Lemma.\<close>  Every stamp is assigned once and in order: a group holds exactly the stamps that resolve to
  its key, and the stamps that resolve to no group are left over.
\<close>

theorem stamps_assigned_once:
  "map_of (gc_byGroup (assignGroupGitChanges segs stamps)) k =
     (let l = filter (\<lambda>s. group_of segs (ig_afterBlockKey s) = Some k) stamps in if l = [] then None else Some l) \<and>
   gc_unattached (assignGroupGitChanges segs stamps) = filter (\<lambda>s. group_of segs (ig_afterBlockKey s) = None) stamps"
  unfolding assignGroupGitChanges_def by (rule attach_fold)

section \<open>Time in tools\<close>

lemma generation_sum_ge: "generation_sum results refs t g = Some n \<Longrightarrow> g \<le> n"
proof (induction results refs t g arbitrary: n rule: generation_sum.induct)
  case (2 results r rs t g)
  let ?g = "case diffMs (entry_ts (fst r)) t of Some d \<Rightarrow> if 0 < d then g + d else g | None \<Rightarrow> g"
  have "g \<le> ?g" by (auto split: option.split)
  moreover have "?g \<le> n" using "2.prems" "2.IH"[OF refl refl] by (auto simp: Let_def split: if_splits)
  ultimately show ?case by linarith
qed simp

text \<open>
  \<^bold>\<open>Lemma.\<close>  The estimate of the time in tools lies between zero and the span of the turn.
\<close>

theorem tool_time_bounded:
  assumes "computeToolMs refs results turnStartedAt endTs = Some t"
  shows "\<exists>total. diffMs endTs turnStartedAt = Some total \<and> 0 \<le> t \<and> t \<le> total"
  using assms generation_sum_ge[of results refs turnStartedAt 0]
  by (auto simp: computeToolMs_def bind_eq_Some_conv split: if_splits)

end
