(* ===== verification/ProviderError.thy ===== *)
theory ProviderError
  imports HistoryTree
begin

text \<open>
  Provider errors, \<^verbatim>\<open>parseProviderError\<close> of \<^verbatim>\<open>packages/bridge/src/viewmodel/index.ts\<close>: a status, a colon and a JSON
  object inside a string.  \<^verbatim>\<open>JSON.parse\<close> is the argument \<open>parse\<close>, with \<open>None\<close> where it throws.
\<close>

section \<open>The end of an object\<close>

text \<open>The number of characters up to the brace that closes the first one.\<close>

fun scan_json :: "int \<Rightarrow> bool \<Rightarrow> bool \<Rightarrow> string \<Rightarrow> nat option" where
  "scan_json depth inString escaped [] = None"
| "scan_json depth inString escaped (ch # s) =
     (if inString then
        (if escaped then map_option Suc (scan_json depth True False s)
         else if ch = CHR 92 then map_option Suc (scan_json depth True True s)
         else if ch = CHR 34 then map_option Suc (scan_json depth False False s)
         else map_option Suc (scan_json depth True False s))
      else if ch = CHR 34 then map_option Suc (scan_json depth True escaped s)
      else if ch = CHR 123 then map_option Suc (scan_json (depth + 1) False escaped s)
      else if ch = CHR 125 then
        (if depth - 1 = 0 then Some 1 else map_option Suc (scan_json (depth - 1) False escaped s))
      else map_option Suc (scan_json depth False escaped s))"

text \<open>The argument starts at the opening brace.\<close>

definition scanJsonObject :: "string \<Rightarrow> string option" where
  "scanJsonObject t = map_option (\<lambda>n. take n t) (scan_json 0 False False t)"

section \<open>The error\<close>

record ParsedProviderError =
  pe_status :: "nat option"
  pe_message :: string
  pe_attrs :: "(string \<times> string) list"

text \<open>A colon, white space and a brace; the text from the brace on.\<close>

definition after_colon :: "string \<Rightarrow> string option" where
  "after_colon s =
     (case s of
        c # r \<Rightarrow> if c = CHR '':'' \<and> starts_with (dropWhile js_space r) ''{'' then Some (dropWhile js_space r) else None
      | [] \<Rightarrow> None)"

definition three_digits :: "string \<Rightarrow> bool" where
  "three_digits s \<longleftrightarrow> length s \<ge> 3 \<and> list_all is_digit (take 3 s)"

definition status_at :: "string \<Rightarrow> (string \<times> string) option" where
  "status_at s =
     (if three_digits s then map_option (\<lambda>r. (take 3 s, r)) (after_colon (drop 3 s)) else None)"

definition bracketed_at :: "string \<Rightarrow> (string \<times> string) option" where
  "bracketed_at s =
     (if starts_with s ''('' \<and> three_digits (tl s) \<and> starts_with (drop 4 s) '')''
      then map_option (\<lambda>r. (take 3 (tl s), r)) (after_colon (drop 5 s)) else None)"

text \<open>The status and the text from the brace: the shortest prefix on one line is tried first.\<close>

definition line_end :: "char \<Rightarrow> bool" where
  "line_end c \<longleftrightarrow> c = CHR 10 \<or> c = CHR 13"

definition error_match :: "string \<Rightarrow> (string \<times> string) option" where
  "error_match s =
     (case List.find (\<lambda>n. list_all (\<lambda>c. \<not> line_end c) (take n s) \<and> bracketed_at (drop n s) \<noteq> None) [0 ..< length s] of
        Some n \<Rightarrow> bracketed_at (drop n s)
      | None \<Rightarrow> status_at s)"

definition payload_of :: "jsv \<Rightarrow> jsv" where
  "payload_of record = (if is_obj (jget record ''error'') \<and> is_str (jget (jget record ''error'') ''message'')
      then jget record ''error'' else record)"

definition attr_text :: "jsv \<Rightarrow> string" where
  "attr_text v = (case v of JStr s \<Rightarrow> s | _ \<Rightarrow> (case stringify v of Some t \<Rightarrow> t | None \<Rightarrow> ''undefined''))"

definition error_attrs :: "jsv \<Rightarrow> (string \<times> string) list" where
  "error_attrs payload =
     map (\<lambda>(k, v). (k, attr_text v)) (filter (\<lambda>(k, v). k \<noteq> ''message'' \<and> v \<noteq> JUndef) (js_entries payload))"

definition parseProviderError :: "(string \<Rightarrow> jsv option) \<Rightarrow> string \<Rightarrow> ParsedProviderError" where
  "parseProviderError parse errorMessage =
     (let fallback = \<lparr>pe_status = None, pe_message = errorMessage, pe_attrs = []\<rparr>
      in case error_match errorMessage of
           None \<Rightarrow> fallback
         | Some (status, t) \<Rightarrow>
             (case Option.bind (scanJsonObject t) parse of
                None \<Rightarrow> fallback
              | Some record \<Rightarrow>
                  if \<not> is_obj record then fallback
                  else let payload = payload_of record; message = trim (str_of (jget payload ''message''))
                       in if message = [] then fallback
                          else \<lparr>pe_status = Some (str_nat status), pe_message = message, pe_attrs = error_attrs payload\<rparr>))"

section \<open>Scanning the text of a value\<close>

lemma add_compose: "map_option Suc (map_option ((+) n) x) = map_option ((+) (Suc n)) x"
  by (cases x) simp_all

text \<open>A text the scanner passes inside an object, at any depth.\<close>

definition passes :: "string \<Rightarrow> bool" where
  "passes t \<longleftrightarrow> (\<forall>d r. 0 < d \<longrightarrow> scan_json d False False (t @ r) = map_option ((+) (length t)) (scan_json d False False r))"

definition plain_char :: "char \<Rightarrow> bool" where
  "plain_char c \<longleftrightarrow> c \<noteq> CHR 34 \<and> c \<noteq> CHR 92 \<and> c \<noteq> CHR 123 \<and> c \<noteq> CHR 125"

lemma map_option_add_0: "map_option ((+) (0::nat)) x = x"
  by (cases x) simp_all

lemma passes_Nil: "passes []"
  by (simp add: passes_def map_option_add_0)

lemma passes_append: "passes s \<Longrightarrow> passes t \<Longrightarrow> passes (s @ t)"
proof -
  assume p: "passes s" "passes t"
  show ?thesis unfolding passes_def
  proof (intro allI impI)
    fix d :: int and r assume "0 < d"
    then show "scan_json d False False ((s @ t) @ r) = map_option ((+) (length (s @ t))) (scan_json d False False r)"
      using p by (cases "scan_json d False False r") (simp_all add: passes_def)
  qed
qed

lemma passes_plain: "list_all plain_char t \<Longrightarrow> passes t"
proof (induction t)
  case (Cons c t)
  then show ?case by (simp add: passes_def plain_char_def add_compose)
qed (rule passes_Nil)


lemma hex_lower_plain: "n < 16 \<Longrightarrow> hex_lower n \<noteq> CHR 34 \<and> hex_lower n \<noteq> CHR 92"
proof (cases "n < 10")
  case True
  have "is_digit c \<Longrightarrow> c \<noteq> CHR 34 \<and> c \<noteq> CHR 92" for c by (auto simp: is_digit_def)
  then show ?thesis using True is_digit_char by (simp add: hex_lower_def)
next
  case False
  moreover assume "n < 16"
  ultimately have "of_char (hex_lower n) = 87 + n" by (simp add: hex_lower_def)
  then show ?thesis using False by auto
qed

lemma scan_escape:
  "scan_json d True False (escape_char c @ r) = map_option ((+) (length (escape_char c))) (scan_json d True False r)"
proof -
  let ?n = "of_char c :: nat"
  have c: "c \<noteq> CHR 34" if "?n \<noteq> 34" using that by auto
  have b: "c \<noteq> CHR 92" if "?n \<noteq> 92" using that by auto
  have plain: "x \<noteq> CHR 34 \<and> x \<noteq> CHR 92 \<Longrightarrow> scan_json d True False (x # s) = map_option Suc (scan_json d True False s)" for x s
    by simp
  consider "?n \<in> {34, 92, 8, 9, 10, 12, 13}" | "?n \<notin> {34, 92, 8, 9, 10, 12, 13}" "?n < 32" | "?n \<notin> {34, 92, 8, 9, 10, 12, 13}" "\<not> ?n < 32"
    by blast
  then show ?thesis
  proof cases
    case 1
    then show ?thesis by (cases "scan_json d True False r") (auto simp: escape_char_def)
  next
    case 2
    then have h: "hex_lower (?n div 16) \<noteq> CHR 34 \<and> hex_lower (?n div 16) \<noteq> CHR 92"
      "hex_lower (?n mod 16) \<noteq> CHR 34 \<and> hex_lower (?n mod 16) \<noteq> CHR 92" using hex_lower_plain[of "?n div 16"] hex_lower_plain[of "?n mod 16"] by auto
    have e: "escape_char c = CHR 92 # CHR ''u'' # CHR ''0'' # CHR ''0'' # hex_lower (?n div 16) # hex_lower (?n mod 16) # []"
      using 2 by (simp add: escape_char_def Let_def)
    show ?thesis unfolding e using h by (cases "scan_json d True False r") simp_all
  next
    case 3
    then have "escape_char c = [c]" by (simp add: escape_char_def Let_def)
    moreover have "c \<noteq> CHR 34 \<and> c \<noteq> CHR 92" using c b 3 by simp
    ultimately show ?thesis using plain[of c r] by (cases "scan_json d True False r") simp_all
  qed
qed

lemma passes_quote: "passes (quote s)"
proof -
  have str: "scan_json d True False (concat (map escape_char s) @ CHR 34 # r) =
      map_option ((+) (Suc (length (concat (map escape_char s))))) (scan_json d False False r)" for d r
  proof (induction s)
    case Nil
    then show ?case by (cases "scan_json d False False r") simp_all
  next
    case (Cons c s)
    then show ?case by (simp add: scan_escape option.map_comp comp_def add.assoc del: scan_json.simps)
  qed
  show ?thesis unfolding passes_def quote_def
  proof (intro allI impI)
    fix d :: int and r
    have "scan_json d False False (CHR 34 # concat (map escape_char s) @ CHR 34 # r) =
        map_option Suc (scan_json d True False (concat (map escape_char s) @ CHR 34 # r))" by simp
    then show "scan_json d False False (([CHR 34] @ concat (map escape_char s) @ [CHR 34]) @ r) =
        map_option ((+) (length ([CHR 34] @ concat (map escape_char s) @ [CHR 34]))) (scan_json d False False r)"
      by (simp add: str add_compose del: scan_json.simps)
  qed
qed

lemma digit_plain: "is_digit c \<Longrightarrow> plain_char c"
  by (auto simp: is_digit_def plain_char_def)

lemma passes_num: "passes (num_str r)"
proof (rule passes_plain)
  have f: "list_all is_digit (frac_digits n x)" for n x by (induction n x rule: frac_digits.induct) simp_all
  have d: "list_all plain_char t" if "list_all is_digit t" for t using that digit_plain by (auto simp: list_all_iff)
  show "list_all plain_char (num_str r)"
    using d[OF nat_str_digits] d[OF f] by (simp add: num_str_def Let_def) (simp add: plain_char_def)
qed

lemma passes_join: "list_all passes ts \<Longrightarrow> passes (join_with '','' ts)"
proof (induction "'',''" ts rule: join_with.induct)
  case (3 t u ts)
  have "passes (t @ '','' @ join_with '','' (u # ts))"
    using 3 passes_plain[of "'',''"] by (intro passes_append) (simp_all add: plain_char_def)
  then show ?case by simp
qed (simp_all add: passes_Nil)

lemma passes_member: "passes t \<Longrightarrow> passes (member_text (k, t))"
proof -
  assume "passes t"
  then have "passes (quote k @ '':'' @ t)"
    by (intro passes_append passes_quote) (simp_all add: passes_plain plain_char_def)
  then show ?thesis by (simp add: member_text_def)
qed

lemma passes_braces: "passes t \<Longrightarrow> passes ([CHR ''{''] @ t @ [CHR ''}''])"
proof -
  assume p: "passes t"
  show ?thesis unfolding passes_def
  proof (intro allI impI)
    fix d :: int and r assume d: "0 < d"
    have "scan_json d False False (CHR ''{'' # t @ CHR ''}'' # r) = map_option Suc (scan_json (d + 1) False False (t @ CHR ''}'' # r))" by simp
    also have "\<dots> = map_option Suc (map_option ((+) (length t)) (scan_json (d + 1) False False (CHR ''}'' # r)))"
      using p d by (simp add: passes_def)
    also have "scan_json (d + 1) False False (CHR ''}'' # r) = map_option Suc (scan_json d False False r)" using d by simp
    finally show "scan_json d False False (([CHR ''{''] @ t @ [CHR ''}'']) @ r) =
        map_option ((+) (length ([CHR ''{''] @ t @ [CHR ''}'']))) (scan_json d False False r)"
      by (cases "scan_json d False False r") (simp_all del: scan_json.simps)
  qed
qed

lemma passes_json_text: "passes (json_text v)"
proof (induction v rule: json_text.induct)
  case (6 vs)
  then have "passes (join_with '','' (map json_text vs))" by (intro passes_join) (simp add: list_all_iff)
  then show ?case by (simp add: passes_append passes_plain plain_char_def del: append_Cons append_Nil)
next
  case (7 ps)
  then have "passes (join_with '','' (map (\<lambda>p. member_text (fst p, json_text (snd p))) ps))"
    by (intro passes_join) (auto simp: list_all_iff intro!: passes_member)
  then show ?case using passes_braces by simp
qed (simp_all add: passes_quote passes_num passes_plain plain_char_def)

text \<open>
  \<^bold>\<open>Lemma.\<close>  The scanner finds the end of an object whatever the strings in it hold and whatever follows
  it: on the text of an object, followed by anything, it returns exactly that text.
\<close>

theorem scanJsonObject_exact:
  "scanJsonObject (json_text (JObj ps) @ rest) = Some (json_text (JObj ps))"
proof -
  let ?t = "join_with '','' (map (\<lambda>p. member_text (fst p, json_text (snd p))) ps)"
  have p: "passes ?t" by (intro passes_join) (auto simp: list_all_iff intro!: passes_member passes_json_text)
  have "scan_json 0 False False (CHR ''{'' # ?t @ CHR ''}'' # rest) = map_option Suc (scan_json 1 False False (?t @ CHR ''}'' # rest))"
    by simp
  also have "\<dots> = map_option Suc (map_option ((+) (length ?t)) (scan_json 1 False False (CHR ''}'' # rest)))"
    using p by (simp add: passes_def)
  also have "\<dots> = Some (length (json_text (JObj ps)))" by simp
  finally show ?thesis by (simp add: scanJsonObject_def del: scan_json.simps)
qed

section \<open>Reading an error\<close>

lemma bracketed_status:
  assumes "length st = 3" "list_all is_digit st"
  shows "bracketed_at (''('' @ st @ ''): '' @ json_text (JObj ps) @ rest) = Some (st, json_text (JObj ps) @ rest)"
proof -
  obtain a b c where st: "st = [a, b, c]" using assms(1) by (auto simp: numeral_3_eq_3 length_Suc_conv)
  have "\<not> js_space (CHR ''{'')" by (simp add: js_space_def)
  then show ?thesis using assms(2) by (simp add: bracketed_at_def three_digits_def after_colon_def st js_space_def)
qed

lemma error_match_prefixed:
  assumes "length st = 3" "list_all is_digit st" "CHR ''('' \<notin> set before" "list_all (\<lambda>c. \<not> line_end c) before"
  shows "error_match (before @ ''('' @ st @ ''): '' @ json_text (JObj ps) @ rest) = Some (st, json_text (JObj ps) @ rest)"
proof -
  let ?s = "before @ ''('' @ st @ ''): '' @ json_text (JObj ps) @ rest"
  let ?P = "\<lambda>n. list_all (\<lambda>c. \<not> line_end c) (take n ?s) \<and> bracketed_at (drop n ?s) \<noteq> None"
  note b = bracketed_status[OF assms(1,2), of ps rest]
  have "\<not> ?P n" if n: "n < length before" for n
  proof -
    have "drop n ?s = before ! n # drop (Suc n) before @ ''('' @ st @ ''): '' @ json_text (JObj ps) @ rest"
      using n by (simp add: Cons_nth_drop_Suc[symmetric])
    moreover have "before ! n \<noteq> CHR ''(''" using assms(3) n by (metis nth_mem)
    ultimately show ?thesis by (simp add: bracketed_at_def)
  qed
  moreover have "?P (length before)" using assms(4) b by simp
  ultimately have "List.find ?P [0 ..< length ?s] = Some (length before)"
    unfolding find_Some_iff by (intro exI[of _ "length before"]) (simp del: upt_Suc)
  then have "error_match ?s = bracketed_at (drop (length before) ?s)" by (simp only: error_match_def option.case)
  also have "drop (length before) ?s = ''('' @ st @ ''): '' @ json_text (JObj ps) @ rest" by simp
  finally show ?thesis by (simp only: b)
qed


definition sample_error :: props where
  "sample_error = [(''error'', JObj [(''message'', JStr ''too long {''), (''code'', JStr ''limit'')])]"


end
