(* ===== verification/ViewTurns.thy ===== *)
theory ViewTurns
  imports Blocks Recovery ProviderError
begin

text \<open>
  The projection of a document to turns, \<^verbatim>\<open>computeViewModel\<close> of \<^verbatim>\<open>packages/bridge/src/viewmodel/index.ts\<close>.  The
  closure variables of the fold are the record \<open>ViewFold\<close>, its inputs the record \<open>ViewEnv\<close>.  A previous
  view model matters for the blocks only (\<open>reuseBlock\<close>): a turn is reused when all its fields are
  equal, which does not change the value.
\<close>

section \<open>Turns\<close>

record GitTransition =
  gt_entryId :: string
  gt_old :: string
  gt_new :: string
  gt_subject :: "string option"
  gt_timestamp :: string
  gt_anchor :: GitStampAnchor

record TurnRecovery =
  tr_kind :: RecoverableTurnKind
  tr_editTarget :: "(string \<times> nat \<times> string) option"

datatype SystemTurnType =
  TCompaction | TBranchSummary | TModelSwitch | TSystemPrompt | TExtension | TExtensionMessage | TUnknown

record SwitchTo =
  sw_provider :: string
  sw_modelId :: string
  sw_thinkingLevel :: "string option"

record UserTurn =
  ut_text :: string
  ut_images :: "jsv list"
  ut_siblings :: "string list"
  ut_currentSibling :: nat
  ut_timestamp :: string
  ut_thoughtForMs :: "int option"
  ut_git :: "(GitIdentity \<times> string option) option"
  ut_transitions :: "GitTransition list"
  ut_label :: "string option"

record AssistantTurn =
  at_turnKey :: string
  at_blocks :: "AssistantBlockVM list"
  at_model :: jsv
  at_provider :: jsv
  at_usage :: jsv
  at_stopReason :: jsv
  at_errorMessage :: jsv
  at_parsedError :: "ParsedProviderError option"
  at_timestamp :: string
  at_startedAt :: "string option"
  at_totalMs :: "int option"
  at_toolMs :: "int option"
  at_contextPercent :: "rat option"
  at_contextDelta :: "rat option"
  at_gitChanges :: "InlineGitStamp list option"
  at_recovery :: "TurnRecovery option"

record UserBashTurn =
  ub_timestamp :: string
  ub_command :: jsv
  ub_output :: jsv
  ub_exitCode :: jsv
  ub_cancelled :: jsv
  ub_truncated :: jsv
  ub_fullOutputPath :: jsv
  ub_excludeFromContext :: jsv

record GitChangeTurn =
  gd_timestamp :: string
  gd_identity :: GitIdentity
  gd_subject :: "string option"
  gd_anchor :: GitStampAnchor
  gd_isInitial :: bool

text \<open>Every turn has its entry id and its index; a system turn its type, summary, detail and switch.\<close>

datatype TurnVM =
    UserTurnVM (turn_entry: string) (turn_index: nat) UserTurn
  | AssistantTurnVM (turn_entry: string) (turn_index: nat) AssistantTurn
  | SystemTurnVM (turn_entry: string) (turn_index: nat) SystemTurnType "string option" "jsv option" "SwitchTo option"
  | UserBashTurnVM (turn_entry: string) (turn_index: nat) UserBashTurn
  | GitChangeTurnVM (turn_entry: string) (turn_index: nat) GitChangeTurn

section \<open>Git transitions\<close>

fun stamp_anchor :: "GitStampData \<Rightarrow> GitStampAnchor" where
  "stamp_anchor (StampV1 a g) = a"
| "stamp_anchor (StampV2 a g s) = a"

fun stamp_identity :: "GitStampData \<Rightarrow> GitIdentity" where
  "stamp_identity (StampV1 a g) = g"
| "stamp_identity (StampV2 a g s) = g"

fun stamp_subject :: "GitStampData \<Rightarrow> string option" where
  "stamp_subject (StampV1 a g) = None"
| "stamp_subject (StampV2 a g s) = s"

definition is_stamp_entry :: "jsv \<Rightarrow> bool" where
  "is_stamp_entry e \<longleftrightarrow> kind_is ''custom'' e \<and> jget e ''customType'' = JStr GIT_STAMP_CUSTOM_TYPE"

record Transitions =
  ts_byTurn :: "(string \<times> GitTransition list) list"
  ts_user :: "string option"
  ts_prev :: "string option"

definition new_transition :: "jsv \<Rightarrow> string \<Rightarrow> string \<Rightarrow> GitStampData \<Rightarrow> GitTransition" where
  "new_transition e old new stamp =
     \<lparr>gt_entryId = user_id e, gt_old = old, gt_new = new, gt_subject = stamp_subject stamp, gt_timestamp = entry_ts e,
      gt_anchor = stamp_anchor stamp\<rparr>"

definition transition_step :: "Transitions \<Rightarrow> jsv \<Rightarrow> Transitions" where
  "transition_step t e =
     (if is_user e then t\<lparr>ts_user := Some (user_id e)\<rparr>
      else if \<not> is_stamp_entry e then t
      else case parseGitStampEntry e of
        None \<Rightarrow> t
      | Some stamp \<Rightarrow>
          (case (ts_user t, ts_prev t, commit (stamp_identity stamp)) of
             (Some u, Some old, Some new) \<Rightarrow>
               if new \<noteq> old
               then t\<lparr>ts_byTurn := AList.update u
                         ((case map_of (ts_byTurn t) u of Some l \<Rightarrow> l | None \<Rightarrow> []) @ [new_transition e old new stamp])
                         (ts_byTurn t)\<rparr>
               else t
           | _ \<Rightarrow> t)\<lparr>ts_prev := commit (stamp_identity stamp)\<rparr>)"

definition computeTurnTransitions :: "jsv list \<Rightarrow> (string \<times> GitTransition list) list" where
  "computeTurnTransitions path = ts_byTurn (foldl transition_step \<lparr>ts_byTurn = [], ts_user = None, ts_prev = None\<rparr> path)"

section \<open>The inputs and the state of the fold\<close>

record ViewEnv =
  ve_entries :: jsv
  ve_results :: "(string \<times> jsv) list"
  ve_transitions :: "(string \<times> GitTransition list) list"
  ve_labels :: "(string \<times> string) list"
  ve_recovery :: "RecoverableTurnInfo option"
  ve_models :: "jsv list"
  ve_seals :: "string list"
  ve_prevBlocks :: "(string \<times> AssistantBlockVM) list"
  ve_expanded :: "string set option"
  ve_lc :: collation
  ve_parse :: "string \<Rightarrow> jsv option"

record ViewFold =
  vf_turns :: "TurnVM list"
  vf_pending :: "BlockRef list"
  vf_switch :: "(string \<times> SwitchTo) option"
  vf_prevSeal :: string
  vf_anchor :: string
  vf_reading :: "(rat \<times> jsv) option"
  vf_git :: "(GitIdentity \<times> string option) option"
  vf_seen :: bool
  vf_stamps :: "InlineGitStamp list"

definition startFold :: ViewFold where
  "startFold = \<lparr>vf_turns = [], vf_pending = [], vf_switch = None, vf_prevSeal = [], vf_anchor = [], vf_reading = None,
     vf_git = None, vf_seen = False, vf_stamps = []\<rparr>"

section \<open>Context usage\<close>

definition contextWindowOf :: "jsv list \<Rightarrow> jsv \<Rightarrow> jsv \<Rightarrow> rat option" where
  "contextWindowOf models provider model =
     (if \<not> truthy model then None
      else case List.find (\<lambda>m. jget m ''id'' = model \<and> (truthy provider \<longrightarrow> jget m ''provider'' = provider)) models of
             Some m \<Rightarrow> if is_num (jget m ''contextWindow'') \<and> num_of (jget m ''contextWindow'') > 0
                       then Some (num_of (jget m ''contextWindow'')) else None
           | None \<Rightarrow> None)"

definition validUsage :: "jsv \<Rightarrow> jsv option" where
  "validUsage e =
     (let u = jget e ''usage''
      in if jget e ''stopReason'' = JStr ''aborted'' \<or> jget e ''stopReason'' = JStr ''error'' \<or> \<not> truthy u then None
         else if jget u ''input'' = JNum 0 \<and> jget u ''output'' = JNum 0 \<and> jget u ''cacheRead'' = JNum 0 \<and>
                 jget u ''cacheWrite'' = JNum 0 then None
         else Some u)"

definition used_tokens :: "jsv \<Rightarrow> rat" where
  "used_tokens u = num_of (jget u ''input'') + num_of (jget u ''cacheRead'') + num_of (jget u ''cacheWrite'')"

text \<open>The percentage, the change to show, and the reading that is kept; \<open>None\<close> when the usage or the window is unknown.\<close>

definition context_reading :: "jsv list \<Rightarrow> (rat \<times> jsv) option \<Rightarrow> jsv \<Rightarrow> (rat \<times> rat option) option" where
  "context_reading models prev e =
     (case validUsage e of
        None \<Rightarrow> None
      | Some usage \<Rightarrow>
          (case contextWindowOf models (jget e ''provider'') (jget e ''model'') of
             None \<Rightarrow> None
           | Some window \<Rightarrow>
               let percent = used_tokens usage / window * 100;
                   base = (case prev of
                     Some (p, m) \<Rightarrow> if jget e ''model'' \<noteq> JUndef \<and> m = jget e ''model'' then p else percent
                   | None \<Rightarrow> percent);
                   delta = percent - base
               in Some (percent, if delta \<le> - (1 / 2) \<or> 95 / 100 \<le> delta then Some delta else None)))"

section \<open>Builders\<close>

definition text_of_content :: "jsv \<Rightarrow> string" where
  "text_of_content content =
     join_with [CHR 10] (map (\<lambda>c. str_of (jget c ''text'')) (filter (\<lambda>c. jget c ''type'' = JStr ''text'') (arr_of content)))"

definition thought_for :: "string list \<Rightarrow> string \<Rightarrow> int option" where
  "thought_for seals ts =
     (let before = lowerBound seals ts
      in if 0 < before then (case diffMs ts (seals ! (before - 1)) of Some d \<Rightarrow> if 0 \<le> d then Some d else None | None \<Rightarrow> None)
         else None)"

definition buildUserTurn :: "ViewEnv \<Rightarrow> (GitIdentity \<times> string option) option \<Rightarrow> jsv \<Rightarrow> nat \<Rightarrow> TurnVM" where
  "buildUserTurn env git entry i =
     (let siblings = computeSiblings (ve_lc env) entry (ve_entries env)
      in UserTurnVM (user_id entry) i
           \<lparr>ut_text = text_of_content (jget entry ''content''),
            ut_images = filter (\<lambda>c. jget c ''type'' = JStr ''image'') (arr_of (jget entry ''content'')),
            ut_siblings = fst siblings, ut_currentSibling = snd siblings, ut_timestamp = entry_ts entry,
            ut_thoughtForMs = thought_for (ve_seals env) (entry_ts entry), ut_git = git,
            ut_transitions = (case map_of (ve_transitions env) (user_id entry) of Some l \<Rightarrow> l | None \<Rightarrow> []),
            ut_label = map_of (ve_labels env) (user_id entry)\<rparr>)"

text \<open>The window end of a turn, and whether a tool call of it has no sealed result yet.\<close>

definition window_step :: "(string \<times> jsv) list \<Rightarrow> string \<times> bool \<Rightarrow> BlockRef \<Rightarrow> string \<times> bool" where
  "window_step results w r =
     (let b = ref_block r; ts = result_seal results b
      in if \<not> is_call b then w
         else if ts = '''' then (fst w, True) else if fst w < ts then (ts, snd w) else w)"

definition last_sealed_ts :: "BlockRef list \<Rightarrow> string" where
  "last_sealed_ts refs = (case List.find (\<lambda>r. entry_ts (fst r) \<noteq> '''') (rev refs) of Some r \<Rightarrow> entry_ts (fst r) | None \<Rightarrow> '''')"

definition ref_vm :: "ViewEnv \<Rightarrow> BlockRef \<Rightarrow> AssistantBlockVM" where
  "ref_vm env r =
     reuseBlock (ve_prevBlocks env)
       (buildBlockVM (user_id (fst r)) (snd r) (ref_block r) (\<not> isEntrySealed (fst r)) (ve_results env)) (ve_expanded env)"

definition turn_key :: "BlockRef \<Rightarrow> string" where
  "turn_key r = (if snd r = 0 then user_id (fst r) else action_key (user_id (fst r)) (snd r))"

definition buildAssistantTurn :: "ViewEnv \<Rightarrow> BlockRef list \<Rightarrow> nat \<Rightarrow> string \<Rightarrow> rat option \<Rightarrow> rat option \<Rightarrow> InlineGitStamp list \<Rightarrow>
    TurnRecovery option \<Rightarrow> TurnVM" where
  "buildAssistantTurn env refs i startedAt percent delta stamps recovery =
     (let e = fst (last refs);
          w = foldl (window_step (ve_results env)) (entry_ts e, False) refs;
          settled = isEntrySealed e \<and> entry_ts e \<noteq> '''' \<and> \<not> snd w \<and> startedAt \<noteq> '''';
          closing = Suc (snd (last refs)) = length (arr_of (jget e ''content''));
          errorMessage = (if closing then coalesce (jget e ''errorMessage'') JUndef else JUndef)
      in AssistantTurnVM (user_id (fst (hd refs))) i
           \<lparr>at_turnKey = turn_key (hd refs), at_blocks = map (ref_vm env) refs,
            at_model = jget e ''model'', at_provider = jget e ''provider'', at_usage = jget e ''usage'',
            at_stopReason = (if closing then jget e ''stopReason'' else JUndef),
            at_errorMessage = errorMessage,
            at_parsedError = (if truthy errorMessage then Some (parseProviderError (ve_parse env) (str_of errorMessage)) else None),
            at_timestamp = last_sealed_ts refs, at_startedAt = (if startedAt = '''' then None else Some startedAt),
            at_totalMs = (if settled then case diffMs (fst w) startedAt of Some t \<Rightarrow> if 0 \<le> t then Some t else None | None \<Rightarrow> None
                          else None),
            at_toolMs = (if settled then computeToolMs refs (ve_results env) startedAt (fst w) else None),
            at_contextPercent = percent, at_contextDelta = delta,
            at_gitChanges = (if stamps = [] then None else Some stamps), at_recovery = recovery\<rparr>)"

definition buildUserBashTurn :: "jsv \<Rightarrow> nat \<Rightarrow> TurnVM" where
  "buildUserBashTurn entry i =
     UserBashTurnVM (user_id entry) i
       \<lparr>ub_timestamp = entry_ts entry, ub_command = jget entry ''command'', ub_output = jget entry ''output'',
        ub_exitCode = jget entry ''exitCode'', ub_cancelled = jget entry ''cancelled'', ub_truncated = jget entry ''truncated'',
        ub_fullOutputPath = jget entry ''fullOutputPath'', ub_excludeFromContext = jget entry ''excludeFromContext''\<rparr>"

definition buildGitChangeTurn :: "jsv \<Rightarrow> nat \<Rightarrow> GitStampData \<Rightarrow> bool \<Rightarrow> TurnVM" where
  "buildGitChangeTurn entry i stamp isInitial =
     GitChangeTurnVM (user_id entry) i
       \<lparr>gd_timestamp = entry_ts entry, gd_identity = stamp_identity stamp, gd_subject = stamp_subject stamp,
        gd_anchor = stamp_anchor stamp, gd_isInitial = isInitial\<rparr>"

definition strs :: "jsv \<Rightarrow> string list" where
  "strs v = map str_of (arr_of v)"

text \<open>The names a system message sets and removes; the source appends to the arrays it read only when both are empty.\<close>

definition promptChangeSummary :: "jsv \<Rightarrow> string option" where
  "promptChangeSummary entry =
     (let named = strs (jget entry ''sectionNames''); dropped = strs (jget entry ''removedSectionNames'');
          raw = jget entry ''sections'';
          fallback = named = [] \<and> dropped = [] \<and> is_obj raw;
          set = (if fallback then map fst (filter (\<lambda>(k, v). v \<noteq> JNull) (js_entries raw)) else named);
          removed = (if fallback then map fst (filter (\<lambda>(k, v). v = JNull) (js_entries raw)) else dropped);
          parts = (if set \<noteq> [] then [join_with '', '' set] else []) @
                  (if removed \<noteq> [] then [''removed: '' @ join_with '', '' removed] else [])
      in if parts \<noteq> [] then Some (join_with [CHR 32, CHR 183, CHR 32] parts) else None)"

definition buildSystemTurn :: "jsv \<Rightarrow> SystemTurnType \<Rightarrow> string option \<Rightarrow> jsv option \<Rightarrow> nat \<Rightarrow> TurnVM" where
  "buildSystemTurn entry ty summary detail i = SystemTurnVM (user_id entry) i ty summary detail None"

text \<open>The merged switch, with its first entry.  An empty level says that the turn did not change it.\<close>

definition buildSwitchTurn :: "string \<times> SwitchTo \<Rightarrow> nat \<Rightarrow> TurnVM" where
  "buildSwitchTurn d i =
     SystemTurnVM (fst d) i TModelSwitch None None
       (Some ((snd d)\<lparr>sw_thinkingLevel := (if sw_thinkingLevel (snd d) = Some '''' then None else sw_thinkingLevel (snd d))\<rparr>))"

declare buildSystemTurn_def [simp] buildSwitchTurn_def [simp]

section \<open>Flushing\<close>

definition push_turn :: "(nat \<Rightarrow> TurnVM) \<Rightarrow> ViewFold \<Rightarrow> ViewFold" where
  "push_turn build s = s\<lparr>vf_turns := vf_turns s @ [build (length (vf_turns s))]\<rparr>"

definition flushSwitch :: "ViewFold \<Rightarrow> ViewFold" where
  "flushSwitch s =
     (case vf_switch s of
        None \<Rightarrow> s
      | Some d \<Rightarrow> (push_turn (buildSwitchTurn d) s)\<lparr>vf_switch := None\<rparr>)"

text \<open>The last user turn so far.\<close>

definition edit_target :: "TurnVM list \<Rightarrow> (string \<times> nat \<times> string) option" where
  "edit_target turns =
     (case List.find (\<lambda>t. case t of UserTurnVM _ _ _ \<Rightarrow> True | _ \<Rightarrow> False) (rev turns) of
        Some (UserTurnVM e i u) \<Rightarrow> Some (e, i, ut_text u)
      | _ \<Rightarrow> None)"

definition turn_recovery :: "ViewEnv \<Rightarrow> ViewFold \<Rightarrow> TurnRecovery option" where
  "turn_recovery env s =
     (case ve_recovery env of
        None \<Rightarrow> None
      | Some r \<Rightarrow>
          if list_ex (\<lambda>q. user_id (fst q) = info_entryId r) (vf_pending s)
          then Some \<lparr>tr_kind = info_kind r, tr_editTarget = edit_target (vf_turns s)\<rparr> else None)"

definition pending_reading :: "ViewEnv \<Rightarrow> ViewFold \<Rightarrow> (rat \<times> rat option) option" where
  "pending_reading env s =
     (if snd (hd (vf_pending s)) = 0 then context_reading (ve_models env) (vf_reading s) (fst (hd (vf_pending s))) else None)"

definition next_reading :: "ViewEnv \<Rightarrow> ViewFold \<Rightarrow> (rat \<times> jsv) option" where
  "next_reading env s =
     (if snd (hd (vf_pending s)) = 0
      then map_option (\<lambda>r. (fst r, coalesce (jget (fst (hd (vf_pending s))) ''model'') (JStr ''''))) (pending_reading env s)
      else vf_reading s)"

definition flushPending :: "ViewEnv \<Rightarrow> ViewFold \<Rightarrow> ViewFold" where
  "flushPending env s =
     (if vf_pending s = [] then s
      else (push_turn (\<lambda>i. buildAssistantTurn env (vf_pending s) i (vf_anchor s) (map_option fst (pending_reading env s))
                (Option.bind (pending_reading env s) snd) (vf_stamps s) (turn_recovery env s)) s)
             \<lparr>vf_reading := next_reading env s, vf_pending := [], vf_stamps := []\<rparr>)"

section \<open>The fold over the path\<close>

definition flush :: "ViewEnv \<Rightarrow> ViewFold \<Rightarrow> ViewFold" where
  "flush env s = flushPending env (flushSwitch s)"

definition push_ref :: "jsv \<Rightarrow> ViewFold \<Rightarrow> nat \<Rightarrow> ViewFold" where
  "push_ref entry s i =
     s\<lparr>vf_anchor := (if vf_pending s = [] then if 0 < i then entry_ts entry else vf_prevSeal s else vf_anchor s),
       vf_pending := vf_pending s @ [(entry, i)]\<rparr>"

definition dead_stop :: "jsv \<Rightarrow> bool" where
  "dead_stop e \<longleftrightarrow> jget e ''stopReason'' = JStr ''error'' \<or> jget e ''stopReason'' = JStr ''aborted''"

definition synthetic :: "jsv \<Rightarrow> jsv" where
  "synthetic e = jset ''content'' (JArr [JObj [(''type'', JStr ''text''), (''text'', JStr '''')]]) e"

definition add_assistant :: "jsv \<Rightarrow> ViewFold \<Rightarrow> ViewFold" where
  "add_assistant e s =
     (let n = length (arr_of (jget e ''content''))
      in if n = 0 \<and> dead_stop e then push_ref (synthetic e) (flushSwitch s) 0
         else foldl (push_ref e) (flushSwitch s) [0 ..< n])"

definition system_turn :: "ViewEnv \<Rightarrow> jsv \<Rightarrow> SystemTurnType \<Rightarrow> string option \<Rightarrow> jsv option \<Rightarrow> ViewFold \<Rightarrow> ViewFold" where
  "system_turn env e ty summary detail s =
     push_turn (buildSystemTurn e ty summary detail) (flush env s)"

definition no_switch :: SwitchTo where
  "no_switch = \<lparr>sw_provider = '''', sw_modelId = '''', sw_thinkingLevel = Some ''''\<rparr>"

definition add_switch :: "ViewEnv \<Rightarrow> jsv \<Rightarrow> ViewFold \<Rightarrow> ViewFold" where
  "add_switch env e s0 =
     (let s = flushPending env s0;
          (firstId, sw) = (case vf_switch s of None \<Rightarrow> (user_id e, no_switch) | Some p \<Rightarrow> p)
      in s\<lparr>vf_switch := Some (firstId,
             if kind_is ''model_change'' e
             then sw\<lparr>sw_provider := str_of (jget e ''provider''), sw_modelId := str_of (jget e ''modelId'')\<rparr>
             else sw\<lparr>sw_thinkingLevel := Some (str_of (jget e ''thinkingLevel''))\<rparr>)\<rparr>)"

definition inline_stamp :: "jsv \<Rightarrow> GitStampData \<Rightarrow> ViewFold \<Rightarrow> InlineGitStamp" where
  "inline_stamp e stamp s =
     \<lparr>ig_entryId = user_id e, ig_timestamp = entry_ts e, ig_identity = stamp_identity stamp, ig_subject = stamp_subject stamp,
      ig_anchor = stamp_anchor stamp, ig_isInitial = \<not> vf_seen s,
      ig_afterBlockKey = action_key (user_id (fst (last (vf_pending s)))) (snd (last (vf_pending s)))\<rparr>"

definition add_stamp :: "ViewEnv \<Rightarrow> jsv \<Rightarrow> GitStampData \<Rightarrow> ViewFold \<Rightarrow> ViewFold" where
  "add_stamp env e stamp s =
     (if vf_pending s \<noteq> [] \<and> (stamp_anchor stamp = ToolEnd \<or> stamp_anchor stamp = TurnEnd)
      then s\<lparr>vf_stamps := vf_stamps s @ [inline_stamp e stamp s]\<rparr>
      else if stamp_anchor stamp \<noteq> Prompt
      then push_turn (\<lambda>i. buildGitChangeTurn e i stamp (\<not> vf_seen s)) (flush env s)
      else s)
     \<lparr>vf_git := Some (stamp_identity stamp, stamp_subject stamp), vf_seen := True\<rparr>"

definition fold_entry :: "ViewEnv \<Rightarrow> jsv \<Rightarrow> ViewFold \<Rightarrow> ViewFold" where
  "fold_entry env e s =
     (if kind_is ''message'' e then
        if jget e ''role'' = JStr ''assistant'' then add_assistant e s
        else if jget e ''role'' = JStr ''user'' then push_turn (buildUserTurn env (vf_git s) e) (flush env s)
        else if jget e ''role'' = JStr ''system'' then system_turn env e TSystemPrompt (promptChangeSummary e) (Some e) s
        else system_turn env e TUnknown (Some (str_of (jget e ''role''))) (Some e) s
      else if kind_is ''compaction'' e then system_turn env e TCompaction (Some (str_of (jget e ''summary''))) None s
      else if kind_is ''branch_summary'' e then system_turn env e TBranchSummary (Some (str_of (jget e ''summary''))) None s
      else if kind_is ''bash_execution'' e then push_turn (buildUserBashTurn e) (flush env s)
      else if kind_is ''model_change'' e \<or> kind_is ''thinking_level_change'' e then add_switch env e s
      else if kind_is ''custom'' e then
        if jget e ''customType'' = JStr GIT_STAMP_CUSTOM_TYPE
        then (case parseGitStampEntry e of Some stamp \<Rightarrow> add_stamp env e stamp s | None \<Rightarrow> s)
        else system_turn env e TExtension (Some (str_of (jget e ''customType''))) (Some e) s
      else if kind_is ''unknown'' e then system_turn env e TUnknown (Some (str_of (jget e ''sourceType''))) (Some e) s
      else if kind_is ''custom_message'' e then
        if truthy (jget e ''display'')
        then system_turn env e TExtensionMessage
               (Some (or_else (text_of_content (jget e ''content'')) (str_of (jget e ''customType'')))) (Some e) s
        else s
      else if kind_is ''tool_result'' e \<or> kind_is ''label'' e \<or> kind_is ''session_info'' e \<or> kind_is ''internal'' e then s
      else system_turn env e TUnknown (Some (str_of (jget e ''kind''))) (Some e) s)"

definition note_seal :: "jsv \<Rightarrow> ViewFold \<Rightarrow> ViewFold" where
  "note_seal e s = (if entry_ts e = '''' then s else s\<lparr>vf_prevSeal := entry_ts e\<rparr>)"

definition view_step :: "ViewEnv \<Rightarrow> ViewFold \<Rightarrow> jsv \<Rightarrow> ViewFold" where
  "view_step env s e = note_seal e (fold_entry env e s)"

definition view_turns :: "ViewEnv \<Rightarrow> jsv list \<Rightarrow> TurnVM list" where
  "view_turns env path = vf_turns (flushSwitch (flushPending env (foldl (view_step env) startFold path)))"

section \<open>The view model\<close>

record ViewModel =
  vm_turns :: "TurnVM list"
  vm_leafEntryId :: jsv
  vm_forkPointId :: jsv
  vm_pathKey :: string
  vm_streamingKey :: string
  vm_textKey :: string

record ViewModelInput =
  in_document :: jsv
  in_models :: "jsv list"
  in_viewLeafId :: jsv
  in_authoritative :: jsv
  in_expanded :: "string set option"

definition assistant_seals :: "jsv \<Rightarrow> string list" where
  "assistant_seals entries = sort (map entry_ts (filter (\<lambda>e. is_assistant e \<and> entry_ts e \<noteq> '''') (js_values entries)))"

definition view_recovery :: "ViewModelInput \<Rightarrow> RecoverableTurnInfo option option" where
  "view_recovery inp =
     (let st = doc_status (in_document inp)
      in if in_authoritative inp \<noteq> JBool False \<and> \<not> truthy (jget st ''isStreaming'') \<and> \<not> truthy (jget st ''isCompacting'')
         then computeRecoverableTurn (in_document inp) else Some None)"

definition prev_blocks :: "ViewModel option \<Rightarrow> (string \<times> AssistantBlockVM) list" where
  "prev_blocks previous =
     (case previous of
        None \<Rightarrow> []
      | Some vm \<Rightarrow>
          foldl (\<lambda>m b. AList.update (block_key (blk_entry b) (blk_index b)) b m) []
            (concat (map (\<lambda>t. case t of AssistantTurnVM _ _ a \<Rightarrow> at_blocks a | _ \<Rightarrow> []) (vm_turns vm))))"

definition computeViewModel :: "collation \<Rightarrow> (string \<Rightarrow> jsv option) \<Rightarrow> ViewModelInput \<Rightarrow> ViewModel option \<Rightarrow> ViewModel option" where
  "computeViewModel lc parse inp previous =
     (let doc = in_document inp; entries = doc_entries doc; leaf = resolveViewLeaf doc (in_viewLeafId inp)
      in do {
        path \<leftarrow> projectLeafPath doc leaf;
        recovery \<leftarrow> view_recovery inp;
        fork \<leftarrow> (if leaf = JNull \<or> leaf = jget (doc_status doc) ''leafId'' then Some JNull else computeForkPoint doc leaf);
        pathKey \<leftarrow> leafPathKey doc leaf;
        textKey \<leftarrow> leafTextKey doc leaf;
        let env = \<lparr>ve_entries = entries, ve_results = buildToolResultMap entries, ve_transitions = computeTurnTransitions path,
                   ve_labels = resolveLabels lc entries, ve_recovery = recovery, ve_models = in_models inp,
                   ve_seals = assistant_seals entries, ve_prevBlocks = prev_blocks previous, ve_expanded = in_expanded inp,
                   ve_lc = lc, ve_parse = parse\<rparr>
        in Some \<lparr>vm_turns = view_turns env path, vm_leafEntryId = leaf, vm_forkPointId = fork, vm_pathKey = pathKey,
             vm_streamingKey = leafStreamingKey doc leaf (in_expanded inp), vm_textKey = textKey\<rparr>
      })"

section \<open>Turns in the list\<close>

fun turnKeyOf :: "TurnVM \<Rightarrow> string" where
  "turnKeyOf (AssistantTurnVM e i a) = at_turnKey a"
| "turnKeyOf t = turn_entry t"

fun conversational :: "TurnVM \<Rightarrow> bool" where
  "conversational (UserTurnVM _ _ _) = True"
| "conversational (AssistantTurnVM _ _ _) = True"
| "conversational _ = False"

fun is_assistant_turn :: "TurnVM \<Rightarrow> bool" where
  "is_assistant_turn (AssistantTurnVM _ _ _) = True"
| "is_assistant_turn _ = False"

definition latestReplyTurnKey :: "TurnVM list \<Rightarrow> string option" where
  "latestReplyTurnKey turns =
     (case List.find is_assistant_turn (rev turns) of
        Some t \<Rightarrow> Some (turnKeyOf t)
      | None \<Rightarrow> map_option turnKeyOf (List.find conversational (rev turns)))"

text \<open>\<open>fallback\<close> is what the caller's callback returns.\<close>

definition nextFocusedTurnKey :: "TurnVM list \<Rightarrow> string option \<Rightarrow> bool \<Rightarrow> int \<Rightarrow> string option" where
  "nextFocusedTurnKey turns focused forward fallback =
     (let nav = filter conversational turns
      in if nav = [] then None
         else let found = findIndex (\<lambda>t. Some (turnKeyOf t) = focused) nav;
                  idx = (if found = - 1 then fallback else found);
                  step = (if forward then idx + 1 else idx - 1)
              in Some (turnKeyOf (nav ! nat (max 0 (min (int (length nav) - 1) step)))))"

datatype ActivityPhase = PhaseThinking | PhaseTool | PhaseText

fun block_phase :: "AssistantBlockVM list \<Rightarrow> ActivityPhase" where
  "block_phase [] = PhaseText"
| "block_phase (ToolActionVM _ _ _ _ _ _ _ st # bs) = (if st \<noteq> StDone \<and> st \<noteq> StError then PhaseTool else block_phase bs)"
| "block_phase (ThinkActionVM _ _ _ _ redacted # bs) = (if \<not> redacted then PhaseThinking else block_phase bs)"
| "block_phase (TextBlockVM _ _ _ _ # bs) = PhaseText"

definition liveActivityPhase :: "TurnVM list \<Rightarrow> ActivityPhase" where
  "liveActivityPhase turns =
     (if turns = [] then PhaseText
      else case last turns of AssistantTurnVM _ _ a \<Rightarrow> block_phase (rev (at_blocks a)) | _ \<Rightarrow> PhaseText)"

section \<open>What the turns show\<close>

text \<open>The items a turn shows, and those an entry of the path contributes.  Switches and stamps are counted apart.\<close>

datatype Item = UserItem string | BlockItem string nat | SystemItem SystemTurnType string | BashItem string

definition block_item :: "AssistantBlockVM \<Rightarrow> Item" where
  "block_item b = BlockItem (blk_entry b) (blk_index b)"

fun turn_items :: "TurnVM \<Rightarrow> Item list" where
  "turn_items (UserTurnVM e i u) = [UserItem e]"
| "turn_items (AssistantTurnVM e i a) = map block_item (at_blocks a)"
| "turn_items (SystemTurnVM e i ty summary detail sw) = (if ty = TModelSwitch then [] else [SystemItem ty e])"
| "turn_items (UserBashTurnVM e i b) = [BashItem e]"
| "turn_items (GitChangeTurnVM e i g) = []"

definition message_items :: "jsv \<Rightarrow> Item list" where
  "message_items e =
     (let n = length (arr_of (jget e ''content''))
      in if jget e ''role'' = JStr ''assistant''
         then if n = 0 \<and> dead_stop e then [BlockItem (user_id e) 0] else map (BlockItem (user_id e)) [0 ..< n]
         else if jget e ''role'' = JStr ''user'' then [UserItem (user_id e)]
         else if jget e ''role'' = JStr ''system'' then [SystemItem TSystemPrompt (user_id e)]
         else [SystemItem TUnknown (user_id e)])"

definition entry_items :: "jsv \<Rightarrow> Item list" where
  "entry_items e =
     (if kind_is ''message'' e then message_items e
      else if kind_is ''compaction'' e then [SystemItem TCompaction (user_id e)]
      else if kind_is ''branch_summary'' e then [SystemItem TBranchSummary (user_id e)]
      else if kind_is ''bash_execution'' e then [BashItem (user_id e)]
      else if kind_is ''model_change'' e \<or> kind_is ''thinking_level_change'' e then []
      else if kind_is ''custom'' e then
        if jget e ''customType'' = JStr GIT_STAMP_CUSTOM_TYPE then [] else [SystemItem TExtension (user_id e)]
      else if kind_is ''unknown'' e then [SystemItem TUnknown (user_id e)]
      else if kind_is ''custom_message'' e then
        if truthy (jget e ''display'') then [SystemItem TExtensionMessage (user_id e)] else []
      else if kind_is ''tool_result'' e \<or> kind_is ''label'' e \<or> kind_is ''session_info'' e \<or> kind_is ''internal'' e then []
      else [SystemItem TUnknown (user_id e)])"

text \<open>The stamps that are shown: all valid ones but those of a prompt, which show as the identity of the next message.\<close>

fun turn_stamps :: "TurnVM \<Rightarrow> string list" where
  "turn_stamps (AssistantTurnVM e i a) = (case at_gitChanges a of Some l \<Rightarrow> map ig_entryId l | None \<Rightarrow> [])"
| "turn_stamps (GitChangeTurnVM e i g) = [e]"
| "turn_stamps t = []"

definition shown_stamp :: "jsv \<Rightarrow> string list" where
  "shown_stamp e =
     (if \<not> is_stamp_entry e then []
      else case parseGitStampEntry e of
             Some stamp \<Rightarrow> if stamp_anchor stamp \<noteq> Prompt then [user_id e] else []
           | None \<Rightarrow> [])"

definition well_keyed :: "(string \<times> AssistantBlockVM) list \<Rightarrow> bool" where
  "well_keyed m \<longleftrightarrow> list_all (\<lambda>(k, b). k = block_key (blk_entry b) (blk_index b)) m"

lemma last_separator:
  assumes "c \<notin> set s" "c \<notin> set t" "a @ c # s = b @ c # t"
  shows "a = b \<and> s = t"
proof -
  have tw: "takeWhile (\<lambda>x. x \<noteq> c) (rev y @ c # z) = rev y" if "c \<notin> set y" for y z
    using that by (induction y rule: rev_induct) auto
  have "rev s @ c # rev a = rev t @ c # rev b" using arg_cong[OF assms(3), of rev] by simp
  then have "rev s = rev t" using tw[OF assms(1), of "rev a"] tw[OF assms(2), of "rev b"] by metis
  then have "s = t" by simp
  then show ?thesis using assms(3) by (metis append_same_eq)
qed

lemma nat_str_no_colon: "CHR '':'' \<notin> set (nat_str n)"
  using nat_str_chars by (fastforce simp: is_digit_def)

lemma block_key_inject: "block_key a i = block_key b j \<Longrightarrow> a = b \<and> i = j"
  using last_separator[OF nat_str_no_colon nat_str_no_colon, of a i b j]
  unfolding block_key_def by (simp only: nat_str_inject)

lemma reuseBlock_place:
  assumes "well_keyed prev"
  shows "block_item (reuseBlock prev vm expanded) = block_item vm"
proof (cases "map_of prev (block_key (blk_entry vm) (blk_index vm))")
  case (Some b)
  then have "block_key (blk_entry vm) (blk_index vm) = block_key (blk_entry b) (blk_index b)"
    using assms map_of_SomeD[OF Some] by (auto simp: well_keyed_def list_all_iff)
  then have "blk_entry vm = blk_entry b \<and> blk_index vm = blk_index b" by (rule block_key_inject)
  then show ?thesis using Some by (simp add: reuseBlock_def block_item_def Let_def)
qed (simp add: reuseBlock_def)

lemma buildBlockVM_place: "block_item (buildBlockVM e i b p r) = BlockItem e i"
  by (simp add: buildBlockVM_def block_item_def Let_def)

definition ref_item :: "BlockRef \<Rightarrow> Item" where
  "ref_item r = BlockItem (user_id (fst r)) (snd r)"

lemma ref_vm_place: "well_keyed (ve_prevBlocks env) \<Longrightarrow> block_item (ref_vm env r) = ref_item r"
  by (simp add: ref_vm_def reuseBlock_place buildBlockVM_place ref_item_def)

text \<open>What a state shows: its turns, and the blocks and stamps that wait for theirs.\<close>

definition shown_items :: "ViewFold \<Rightarrow> Item list" where
  "shown_items s = concat (map turn_items (vf_turns s)) @ map ref_item (vf_pending s)"

definition shown_stamps :: "ViewFold \<Rightarrow> string list" where
  "shown_stamps s = concat (map turn_stamps (vf_turns s)) @ map ig_entryId (vf_stamps s)"

text \<open>The invariant: turns are numbered, stamps wait only beside blocks, and not both kinds of turn are open.\<close>

definition fold_inv :: "ViewFold \<Rightarrow> bool" where
  "fold_inv s \<longleftrightarrow> map turn_index (vf_turns s) = [0 ..< length (vf_turns s)] \<and> (vf_pending s = [] \<longrightarrow> vf_stamps s = []) \<and>
     (vf_pending s \<noteq> [] \<longrightarrow> vf_switch s = None)"

lemmas fold_defs = shown_items_def shown_stamps_def fold_inv_def push_turn_def

lemma turn_index_buildAssistantTurn [simp]: "turn_index (buildAssistantTurn env refs i a p d st r) = i"
  by (simp add: buildAssistantTurn_def Let_def)

lemma turn_index_builders [simp]:
  "turn_index (buildUserTurn env g e i) = i" "turn_index (buildUserBashTurn e i) = i" "turn_index (buildGitChangeTurn e i stamp b) = i"
  by (simp_all add: buildUserTurn_def buildUserBashTurn_def buildGitChangeTurn_def Let_def)

lemma items_builders [simp]:
  "turn_items (buildUserTurn env g e i) = [UserItem (user_id e)]" "turn_items (buildUserBashTurn e i) = [BashItem (user_id e)]"
  "turn_items (buildGitChangeTurn e i stamp b) = []"
  "turn_stamps (buildUserTurn env g e i) = []" "turn_stamps (buildUserBashTurn e i) = []"
  "turn_stamps (buildGitChangeTurn e i stamp b) = [user_id e]"
  by (simp_all add: buildUserTurn_def buildUserBashTurn_def buildGitChangeTurn_def Let_def)

lemma items_buildAssistantTurn:
  "well_keyed (ve_prevBlocks env) \<Longrightarrow> turn_items (buildAssistantTurn env refs i a p d st r) = map ref_item refs"
  by (simp add: buildAssistantTurn_def Let_def ref_vm_place)

lemma stamps_buildAssistantTurn: "turn_stamps (buildAssistantTurn env refs i a p d st r) = map ig_entryId st"
  by (simp add: buildAssistantTurn_def Let_def)

text \<open>A flush keeps what is shown; afterwards nothing waits.\<close>

lemma flushSwitch_keeps:
  "fold_inv s \<Longrightarrow> fold_inv (flushSwitch s) \<and> shown_items (flushSwitch s) = shown_items s \<and>
     shown_stamps (flushSwitch s) = shown_stamps s \<and> vf_switch (flushSwitch s) = None \<and>
     vf_pending (flushSwitch s) = vf_pending s \<and> vf_stamps (flushSwitch s) = vf_stamps s"
  by (auto simp: flushSwitch_def fold_defs split: option.splits)

lemma flushPending_keeps:
  "well_keyed (ve_prevBlocks env) \<Longrightarrow> fold_inv s \<Longrightarrow>
     fold_inv (flushPending env s) \<and> shown_items (flushPending env s) = shown_items s \<and>
     shown_stamps (flushPending env s) = shown_stamps s \<and> vf_switch (flushPending env s) = vf_switch s \<and>
     vf_pending (flushPending env s) = [] \<and> vf_stamps (flushPending env s) = []"
  by (auto simp: flushPending_def fold_defs items_buildAssistantTurn stamps_buildAssistantTurn)

lemma flush_keeps:
  assumes "well_keyed (ve_prevBlocks env)" "fold_inv s"
  shows "fold_inv (flush env s) \<and> shown_items (flush env s) = shown_items s \<and> shown_stamps (flush env s) = shown_stamps s \<and>
     vf_switch (flush env s) = None \<and> vf_pending (flush env s) = [] \<and> vf_stamps (flush env s) = []"
  using flushSwitch_keeps[OF assms(2)] flushPending_keeps[OF assms(1), of "flushSwitch s"] by (simp add: flush_def)

lemma push_after_flush:
  assumes "well_keyed (ve_prevBlocks env)" "fold_inv s" "\<And>i. turn_index (build i) = i"
  shows "fold_inv (push_turn build (flush env s)) \<and>
     shown_items (push_turn build (flush env s)) = shown_items s @ turn_items (build (length (vf_turns (flush env s)))) \<and>
     shown_stamps (push_turn build (flush env s)) = shown_stamps s @ turn_stamps (build (length (vf_turns (flush env s))))"
  using flush_keeps[OF assms(1,2)] assms(3) by (auto simp: fold_defs)

lemma push_refs:
  "vf_turns (foldl (push_ref e) s is) = vf_turns s" "vf_pending (foldl (push_ref e) s is) = vf_pending s @ map (Pair e) is"
  "vf_switch (foldl (push_ref e) s is) = vf_switch s" "vf_stamps (foldl (push_ref e) s is) = vf_stamps s"
  "vf_git (foldl (push_ref e) s is) = vf_git s" "vf_seen (foldl (push_ref e) s is) = vf_seen s"
  by (induction "is" arbitrary: s) (simp_all add: push_ref_def)

lemma synthetic_id: "kind_is k e \<Longrightarrow> user_id (synthetic e) = user_id e"
  by (cases e) (auto simp: synthetic_def kind_is_def user_id_def)

abbreviation grows_by :: "ViewFold \<Rightarrow> ViewFold \<Rightarrow> Item list \<Rightarrow> string list \<Rightarrow> bool" where
  "grows_by s s' items stamps \<equiv>
     fold_inv s' \<and> shown_items s' = shown_items s @ items \<and> shown_stamps s' = shown_stamps s @ stamps"

lemma add_assistant_keeps:
  assumes "fold_inv s" "kind_is ''message'' e" "jget e ''role'' = JStr ''assistant''"
  shows "grows_by s (add_assistant e s) (message_items e) []"
proof -
  note f = flushSwitch_keeps[OF assms(1)]
  have refs: "grows_by s (foldl (push_ref x) (flushSwitch s) is) (map (BlockItem (user_id x)) is) []" for x "is"
    using f by (auto simp: fold_defs push_refs ref_item_def)
  have one: "foldl (push_ref x) t [0] = push_ref x t 0" for x t by simp
  show ?thesis
    using refs[of "synthetic e" "[0]"] refs[of e "[0 ..< length (arr_of (jget e ''content''))]"] assms(2,3)
    by (simp add: add_assistant_def message_items_def Let_def synthetic_id)
qed

lemma system_turn_keeps:
  assumes "well_keyed (ve_prevBlocks env)" "fold_inv s" "ty \<noteq> TModelSwitch"
  shows "grows_by s (system_turn env e ty summary detail s) [SystemItem ty (user_id e)] []"
  using push_after_flush[OF assms(1,2), of "buildSystemTurn e ty summary detail"] assms(3)
  by (simp add: system_turn_def)

lemma add_switch_keeps:
  assumes "well_keyed (ve_prevBlocks env)" "fold_inv s"
  shows "grows_by s (add_switch env e s) [] []"
  using flushPending_keeps[OF assms] by (auto simp: add_switch_def fold_defs Let_def split: option.splits prod.splits)

lemma add_stamp_keeps:
  assumes "well_keyed (ve_prevBlocks env)" "fold_inv s"
  shows "grows_by s (add_stamp env e stamp s) [] (if stamp_anchor stamp \<noteq> Prompt then [user_id e] else [])"
proof -
  let ?inline = "vf_pending s \<noteq> [] \<and> (stamp_anchor stamp = ToolEnd \<or> stamp_anchor stamp = TurnEnd)"
  have same: "shown_items (s'\<lparr>vf_git := g, vf_seen := b\<rparr>) = shown_items s'" "shown_stamps (s'\<lparr>vf_git := g, vf_seen := b\<rparr>) = shown_stamps s'"
    "fold_inv (s'\<lparr>vf_git := g, vf_seen := b\<rparr>) = fold_inv s'" for s' g b by (simp_all add: fold_defs)
  consider "?inline" | "\<not> ?inline" "stamp_anchor stamp \<noteq> Prompt" | "\<not> ?inline" "stamp_anchor stamp = Prompt" by blast
  then show ?thesis
  proof cases
    case 1
    then have "grows_by s (s\<lparr>vf_stamps := vf_stamps s @ [inline_stamp e stamp s]\<rparr>) [] [user_id e]"
      using assms(2) by (auto simp: fold_defs inline_stamp_def)
    then show ?thesis using 1 by (auto simp: add_stamp_def same)
  next
    case 2
    then show ?thesis using push_after_flush[OF assms, of "\<lambda>i. buildGitChangeTurn e i stamp (\<not> vf_seen s)"]
      by (auto simp: add_stamp_def same)
  next
    case 3
    then show ?thesis using assms(2) by (simp add: add_stamp_def same)
  qed
qed

lemma entry_kinds:
  obtains "kind_is ''message'' e" | "kind_is ''compaction'' e" | "kind_is ''branch_summary'' e" | "kind_is ''bash_execution'' e"
  | "kind_is ''model_change'' e \<or> kind_is ''thinking_level_change'' e" | "kind_is ''custom'' e" | "kind_is ''unknown'' e"
  | "kind_is ''custom_message'' e"
  | "kind_is ''tool_result'' e \<or> kind_is ''label'' e \<or> kind_is ''session_info'' e \<or> kind_is ''internal'' e"
  | "\<not> kind_is ''message'' e" "\<not> kind_is ''compaction'' e" "\<not> kind_is ''branch_summary'' e" "\<not> kind_is ''bash_execution'' e"
    "\<not> kind_is ''model_change'' e" "\<not> kind_is ''thinking_level_change'' e" "\<not> kind_is ''custom'' e" "\<not> kind_is ''unknown'' e"
    "\<not> kind_is ''custom_message'' e" "\<not> kind_is ''tool_result'' e" "\<not> kind_is ''label'' e" "\<not> kind_is ''session_info'' e"
    "\<not> kind_is ''internal'' e"
  by blast

lemma shown_stamp_custom: "\<not> kind_is ''custom'' e \<Longrightarrow> shown_stamp e = []"
  by (simp add: shown_stamp_def is_stamp_entry_def)

lemma fold_entry_keeps:
  assumes "well_keyed (ve_prevBlocks env)" "fold_inv s"
  shows "grows_by s (fold_entry env e s) (entry_items e) (shown_stamp e)"
proof (cases rule: entry_kinds[of e])
  case 1
  note p = push_after_flush[OF assms, of "buildUserTurn env (vf_git s) e"]
  have r: "x = JStr ''assistant'' \<or> x = JStr ''user'' \<or> x = JStr ''system'' \<or> (x \<noteq> JStr ''assistant'' \<and> x \<noteq> JStr ''user'' \<and> x \<noteq> JStr ''system'')"
    for x :: jsv by blast
  show ?thesis using r[of "jget e ''role''"] add_assistant_keeps[OF assms(2) 1] p 1 system_turn_keeps[OF assms]
    by (elim disjE) (simp_all add: fold_entry_def entry_items_def message_items_def shown_stamp_custom kind_is_def)
next
  case 4
  then show ?thesis using push_after_flush[OF assms, of "buildUserBashTurn e"]
    by (simp add: fold_entry_def entry_items_def shown_stamp_custom kind_is_def)
next
  case 5
  then show ?thesis using add_switch_keeps[OF assms, of e]
    by (elim disjE) (simp_all add: fold_entry_def entry_items_def shown_stamp_custom kind_is_def)
next
  case 6
  show ?thesis
  proof (cases "jget e ''customType'' = JStr GIT_STAMP_CUSTOM_TYPE")
    case True
    then show ?thesis using 6 add_stamp_keeps[OF assms, of e] assms(2)
      by (simp add: fold_entry_def entry_items_def shown_stamp_def is_stamp_entry_def kind_is_def split: option.split)
  next
    case False
    then show ?thesis using 6 system_turn_keeps[OF assms]
      by (simp add: fold_entry_def entry_items_def shown_stamp_def is_stamp_entry_def kind_is_def)
  qed
next
  case 9
  then show ?thesis using assms(2)
    by (elim disjE) (simp_all add: fold_entry_def entry_items_def shown_stamp_custom kind_is_def)
qed (use assms(2) system_turn_keeps[OF assms] in
      \<open>simp_all add: fold_entry_def entry_items_def shown_stamp_custom kind_is_def\<close>)

lemma note_seal_same:
  "shown_items (note_seal e s) = shown_items s" "shown_stamps (note_seal e s) = shown_stamps s" "fold_inv (note_seal e s) = fold_inv s"
  by (simp_all add: note_seal_def fold_defs)

lemma view_fold_shows:
  assumes "well_keyed (ve_prevBlocks env)"
  shows "grows_by startFold (foldl (view_step env) startFold path) (concat (map entry_items path)) (concat (map shown_stamp path))"
proof (induction path rule: rev_induct)
  case Nil
  show ?case by (simp add: startFold_def fold_defs)
next
  case (snoc e path)
  let ?s = "foldl (view_step env) startFold path"
  have "foldl (view_step env) startFold (path @ [e]) = note_seal e (fold_entry env e ?s)" by (simp add: view_step_def)
  then show ?case using fold_entry_keeps[OF assms, of ?s e] snoc by (simp add: note_seal_same)
qed

lemma view_shows_path:
  assumes "well_keyed (ve_prevBlocks env)"
  shows "concat (map turn_items (view_turns env path)) = concat (map entry_items path) \<and>
    concat (map turn_stamps (view_turns env path)) = concat (map shown_stamp path) \<and>
    map turn_index (view_turns env path) = [0 ..< length (view_turns env path)]"
proof -
  let ?s = "foldl (view_step env) startFold path"
  have s: "grows_by startFold ?s (concat (map entry_items path)) (concat (map shown_stamp path))" by (rule view_fold_shows[OF assms])
  have p: "fold_inv (flushPending env ?s)" "shown_items (flushPending env ?s) = shown_items ?s"
    "shown_stamps (flushPending env ?s) = shown_stamps ?s" "vf_pending (flushPending env ?s) = []" "vf_stamps (flushPending env ?s) = []"
    using flushPending_keeps[OF assms] s by blast+
  let ?t = "flushSwitch (flushPending env ?s)"
  have "fold_inv ?t" "shown_items ?t = shown_items ?s" "shown_stamps ?t = shown_stamps ?s" "vf_pending ?t = []" "vf_stamps ?t = []"
    using flushSwitch_keeps[OF p(1)] p by simp_all
  then show ?thesis using s by (simp add: view_turns_def fold_defs startFold_def)
qed

text \<open>The blocks of a previous view model are keyed by their place.\<close>

lemma update_subset: "set (AList.update k v al) \<subseteq> insert (k, v) (set al)"
  by (induction al) auto

lemma well_keyed_prev: "well_keyed (prev_blocks previous)"
proof -
  have "well_keyed (foldl (\<lambda>m b. AList.update (block_key (blk_entry b) (blk_index b)) b m) m bs)" if "well_keyed m" for m bs
    using that
  proof (induction bs arbitrary: m)
    case (Cons b bs)
    then have "well_keyed (AList.update (block_key (blk_entry b) (blk_index b)) b m)"
      using update_subset by (fastforce simp: well_keyed_def list_all_iff)
    then show ?case using Cons.IH by simp
  qed simp
  from this[of "[]"] show ?thesis by (simp add: prev_blocks_def well_keyed_def split: option.split)
qed

lemma resolve_twice: "resolveViewLeaf doc (resolveViewLeaf doc v) = resolveViewLeaf doc v"
  by (simp add: resolveViewLeaf_def)

lemma leafPath_returns:
  assumes "keyed_forest rank es" "nullable is_str (jget st ''leafId'')"
  shows "\<exists>p. leafPath (mk_doc st es) = Some p"
proof -
  have "\<exists>xs. chain (leaf_step (mk_doc st es)) (jget st ''leafId'') = Some xs"
  proof (rule string_walk_returns[OF _ assms(2), where rank = rank])
    fix c x c' assume c: "nullable is_str c" and s: "leaf_step (mk_doc st es) c = Some (x, c')"
    then obtain k where k: "c = JStr k" "map_of es k = Some x" "c' = jget x ''parentId''"
      by (auto simp: leaf_step_def Let_def dest!: nullable_str split: if_splits option.splits)
    have n: "nullable is_str c'" using keyed_forestD(1)[OF assms(1) k(2)] k(3) by simp
    moreover have "cursor_rank rank c' < cursor_rank rank c"
      using nullable_str[OF n] keyed_forestD(2)[OF assms(1) k(2)] k by (auto simp: cursor_rank_def)
    ultimately show "nullable is_str c' \<and> cursor_rank rank c' < cursor_rank rank c" ..
  qed
  then show ?thesis by (auto simp: leafPath_def)
qed

text \<open>
  \<^bold>\<open>Property C24.\<close>  The view of a document whose parent links form a forest is always computed, and it shows the
  whole path to its leaf in order: the items of its turns are those of the path's entries, every content
  block once, every message, command, boundary and extension entry once, and every observed git stamp
  once, inside a turn or as its own; whatever view model it is computed from.  Turns are numbered by
  their position.
\<close>

theorem view_model_shows_path:
  assumes "keyed_forest rank es" "in_document inp = mk_doc st es" "nullable is_str (jget st ''leafId'')"
    and "in_viewLeafId inp = JUndef \<or> nullable is_str (in_viewLeafId inp)"
  shows "\<exists>vm p. computeViewModel lc parse inp previous = Some vm \<and> chain (active_step (JObj es)) (vm_leafEntryId vm) = Some p \<and>
    concat (map turn_items (vm_turns vm)) = concat (map (entry_items \<circ> snd) (rev p)) \<and>
    concat (map turn_stamps (vm_turns vm)) = concat (map (shown_stamp \<circ> snd) (rev p)) \<and>
    map turn_index (vm_turns vm) = [0 ..< length (vm_turns vm)]"
proof -
  let ?doc = "mk_doc st es" and ?leaf = "resolveViewLeaf (mk_doc st es) (in_viewLeafId inp)"
  have leaf: "nullable is_str ?leaf" using assms(3,4) by (auto simp: resolveViewLeaf_def)
  obtain p where p: "chain (active_step (JObj es)) ?leaf = Some p" using active_returns[OF assms(1) leaf] by blast
  have up: "path_up ?doc ?leaf = Some p" using p by (simp add: path_up_def resolve_twice)
  have "\<exists>r. view_recovery inp = Some r"
    using leafPath_returns[OF assms(1,3)] assms(2) by (auto simp: view_recovery_def computeRecoverableTurn_def Let_def)
  then obtain r where r: "view_recovery inp = Some r" by blast
  obtain f where f: "computeForkPoint ?doc ?leaf = Some f" using fork_point_deepest[OF assms(1,3) leaf] by blast
  define env where "env = \<lparr>ve_entries = JObj es, ve_results = buildToolResultMap (JObj es),
      ve_transitions = computeTurnTransitions (rev (map snd p)), ve_labels = resolveLabels lc (JObj es), ve_recovery = r,
      ve_models = in_models inp, ve_seals = assistant_seals (JObj es), ve_prevBlocks = prev_blocks previous,
      ve_expanded = in_expanded inp, ve_lc = lc, ve_parse = parse\<rparr>"
  have "\<exists>vm. computeViewModel lc parse inp previous = Some vm \<and> vm_turns vm = view_turns env (rev (map snd p)) \<and> vm_leafEntryId vm = ?leaf"
    by (simp add: computeViewModel_def Let_def assms(2) projectLeafPath_def leafPathKey_def leafTextKey_def up r f env_def)
  moreover have "well_keyed (ve_prevBlocks env)" by (simp add: env_def well_keyed_prev)
  from view_shows_path[OF this, of "rev (map snd p)"] have "concat (map turn_items (view_turns env (rev (map snd p)))) =
      concat (map (entry_items \<circ> snd) (rev p))" "concat (map turn_stamps (view_turns env (rev (map snd p)))) =
      concat (map (shown_stamp \<circ> snd) (rev p))"
    "map turn_index (view_turns env (rev (map snd p))) = [0 ..< length (view_turns env (rev (map snd p)))]"
    by (simp_all add: rev_map[symmetric])
  ultimately show ?thesis using p by metis
qed

theorem view_model_shows_path_witness:
  "\<exists>vm. computeViewModel code_compare (\<lambda>t. None)
       \<lparr>in_document = mk_doc (JObj [(''leafId'', JStr ''c'')]) sample_branches, in_models = [], in_viewLeafId = JUndef,
         in_authoritative = JUndef, in_expanded = None\<rparr> None = Some vm \<and>
     concat (map turn_items (vm_turns vm)) = [UserItem ''a'', UserItem ''c'']"
proof -
  let ?inp = "\<lparr>in_document = mk_doc (JObj [(''leafId'', JStr ''c'')]) sample_branches, in_models = [], in_viewLeafId = JUndef,
         in_authoritative = JUndef, in_expanded = None\<rparr>"
  let ?e = "\<lambda>k. (k, jget (JObj sample_branches) k)"
  have path: "chain (active_step (JObj sample_branches)) (JStr ''c'') = Some [?e ''c'', ?e ''b'', ?e ''a'']"
    by (simp add: chain_Some active_step_def sample_branches_def sample_thread_def Let_def)
  have items: "concat (map (entry_items \<circ> snd) (rev [?e ''c'', ?e ''b'', ?e ''a''])) = [UserItem ''a'', UserItem ''c'']"
    by (simp add: sample_branches_def sample_thread_def entry_items_def message_items_def kind_is_def user_id_def dead_stop_def)
  have n: "nullable is_str (jget (JObj [(''leafId'', JStr ''c'')]) ''leafId'')" by (simp add: nullable_def)
  obtain vm p where vm: "computeViewModel code_compare (\<lambda>t. None) ?inp None = Some vm"
      "chain (active_step (JObj sample_branches)) (vm_leafEntryId vm) = Some p"
      "concat (map turn_items (vm_turns vm)) = concat (map (entry_items \<circ> snd) (rev p))"
    using view_model_shows_path[OF sample_branches_forest _ n, of ?inp code_compare "\<lambda>t. None" None] by auto
  have "vm_leafEntryId vm = JStr ''c''"
    using vm(1) by (auto simp: computeViewModel_def Let_def resolveViewLeaf_def nullish_def split: bind_splits)
  then show ?thesis using vm path items by simp
qed

section \<open>Turn keys are stable\<close>

definition open_keys :: "ViewFold \<Rightarrow> string list" where
  "open_keys s = (if vf_pending s = [] then [] else [turn_key (hd (vf_pending s))]) @
     (case vf_switch s of None \<Rightarrow> [] | Some p \<Rightarrow> [fst p])"

definition keys_of :: "ViewFold \<Rightarrow> string list" where
  "keys_of s = map turnKeyOf (vf_turns s) @ open_keys s"

lemma turnKeyOf_builders [simp]:
  "turnKeyOf (buildUserTurn env g e i) = user_id e" "turnKeyOf (buildUserBashTurn e i) = user_id e"
  "turnKeyOf (buildGitChangeTurn e i stamp b) = user_id e"
  "turnKeyOf (buildAssistantTurn env refs i a p d st r) = turn_key (hd refs)"
  by (simp_all add: buildUserTurn_def buildUserBashTurn_def buildGitChangeTurn_def buildAssistantTurn_def Let_def)

text \<open>What the control flow depends on.\<close>

definition skeleton :: "ViewFold \<Rightarrow> string list \<times> BlockRef list \<times> string option" where
  "skeleton s = (map turnKeyOf (vf_turns s), vf_pending s, map_option fst (vf_switch s))"

lemma skeleton_flushSwitch: "skeleton s = skeleton t \<Longrightarrow> skeleton (flushSwitch s) = skeleton (flushSwitch t)"
  by (cases "vf_switch s"; cases "vf_switch t") (auto simp: skeleton_def flushSwitch_def push_turn_def)

lemma skeleton_flushPending: "skeleton s = skeleton t \<Longrightarrow> skeleton (flushPending env s) = skeleton (flushPending env' t)"
  by (auto simp: skeleton_def flushPending_def push_turn_def)

lemma skeleton_push:
  "skeleton s = skeleton t \<Longrightarrow> (\<And>i j. turnKeyOf (f i) = turnKeyOf (g j)) \<Longrightarrow> skeleton (push_turn f s) = skeleton (push_turn g t)"
  by (auto simp: skeleton_def push_turn_def)

lemma skeleton_push_flush:
  "skeleton s = skeleton t \<Longrightarrow> (\<And>i j. turnKeyOf (f i) = turnKeyOf (g j)) \<Longrightarrow>
   skeleton (push_turn f (flush env s)) = skeleton (push_turn g (flush env' t))"
  unfolding flush_def by (intro skeleton_push skeleton_flushPending skeleton_flushSwitch)

lemma skeleton_push_refs: "skeleton s = skeleton t \<Longrightarrow> skeleton (foldl (push_ref e) s is) = skeleton (foldl (push_ref e) t is)"
  by (simp add: skeleton_def push_refs)

lemma skeleton_add_assistant: "skeleton s = skeleton t \<Longrightarrow> skeleton (add_assistant e s) = skeleton (add_assistant e t)"
  using skeleton_push_refs[OF skeleton_flushSwitch, of s t "synthetic e" "[0]"] skeleton_push_refs[OF skeleton_flushSwitch, of s t e]
  by (simp add: add_assistant_def Let_def)

lemma skeleton_system:
  "skeleton s = skeleton t \<Longrightarrow> skeleton (system_turn env e ty summary detail s) = skeleton (system_turn env' e ty summary detail t)"
  unfolding system_turn_def by (rule skeleton_push_flush) simp_all

lemma skeleton_add_switch: "skeleton s = skeleton t \<Longrightarrow> skeleton (add_switch env e s) = skeleton (add_switch env' e t)"
  using skeleton_flushPending[of s t env env']
  by (cases "vf_switch (flushPending env s)"; cases "vf_switch (flushPending env' t)")
    (auto simp: add_switch_def Let_def skeleton_def)

lemma skeleton_git: "skeleton (s\<lparr>vf_git := g, vf_seen := b\<rparr>) = skeleton s" "skeleton (s\<lparr>vf_stamps := st\<rparr>) = skeleton s"
  by (simp_all add: skeleton_def)

lemma skeleton_add_stamp: "skeleton s = skeleton t \<Longrightarrow> skeleton (add_stamp env e stamp s) = skeleton (add_stamp env' e stamp t)"
proof -
  assume s: "skeleton s = skeleton t"
  then have p: "vf_pending s = vf_pending t" by (simp add: skeleton_def)
  show ?thesis unfolding add_stamp_def skeleton_git p
    using s skeleton_push_flush[OF s, of "\<lambda>i. buildGitChangeTurn e i stamp (\<not> vf_seen s)" "\<lambda>i. buildGitChangeTurn e i stamp (\<not> vf_seen t)" env env']
    by (simp add: skeleton_git)
qed

lemma skeleton_if:
  "skeleton x = skeleton x' \<Longrightarrow> skeleton y = skeleton y' \<Longrightarrow> skeleton (if b then x else y) = skeleton (if b then x' else y')"
  by simp

lemma skeleton_option:
  "(\<And>st. skeleton (f st) = skeleton (g st)) \<Longrightarrow> skeleton x = skeleton y \<Longrightarrow>
   skeleton (case r of Some st \<Rightarrow> f st | None \<Rightarrow> x) = skeleton (case r of Some st \<Rightarrow> g st | None \<Rightarrow> y)"
  by (simp split: option.split)

lemma skeleton_step:
  assumes "skeleton s = skeleton t"
  shows "skeleton (view_step env s e) = skeleton (view_step env' t e)"
proof -
  have n: "skeleton (note_seal e s') = skeleton s'" for s' by (simp add: note_seal_def skeleton_def)
  have u: "skeleton (push_turn (buildUserTurn env g e) (flush env s)) = skeleton (push_turn (buildUserTurn env' g' e) (flush env' t))"
    for g g' by (rule skeleton_push_flush[OF assms]) simp
  have b: "skeleton (push_turn (buildUserBashTurn e) (flush env s)) = skeleton (push_turn (buildUserBashTurn e) (flush env' t))"
    by (rule skeleton_push_flush[OF assms]) simp
  show ?thesis unfolding view_step_def n
    unfolding fold_entry_def
    by (intro skeleton_if skeleton_option assms u b skeleton_add_assistant skeleton_system skeleton_add_switch skeleton_add_stamp)
qed

lemma skeleton_fold: "skeleton s = skeleton t \<Longrightarrow> skeleton (foldl (view_step env) s path) = skeleton (foldl (view_step env') t path)"
proof (induction path arbitrary: s t)
  case (Cons e path)
  show ?case using Cons.IH[OF skeleton_step[OF Cons.prems, of env e env']] by simp
qed simp

lemma keys_skeleton: "skeleton s = skeleton t \<Longrightarrow> keys_of s = keys_of t"
  by (cases "vf_switch s"; cases "vf_switch t") (auto simp: skeleton_def keys_of_def open_keys_def)

lemma keys_flushSwitch: "fold_inv s \<Longrightarrow> keys_of (flushSwitch s) = keys_of s"
  by (cases "vf_switch s") (auto simp: flushSwitch_def keys_of_def open_keys_def fold_inv_def push_turn_def)

lemma keys_flushPending: "fold_inv s \<Longrightarrow> keys_of (flushPending env s) = keys_of s"
  by (auto simp: flushPending_def keys_of_def open_keys_def fold_inv_def push_turn_def)

lemma keys_push_flush:
  assumes "well_keyed (ve_prevBlocks env)" "fold_inv s"
  shows "keys_of (push_turn f (flush env s)) = keys_of s @ [turnKeyOf (f (length (vf_turns (flush env s))))]"
proof -
  have "keys_of (flush env s) = keys_of s"
    using flushSwitch_keeps[OF assms(2)] by (simp add: flush_def keys_flushSwitch[OF assms(2)] keys_flushPending)
  then show ?thesis using flush_keeps[OF assms] by (simp add: keys_of_def open_keys_def push_turn_def)
qed

text \<open>An assistant entry opens a turn when it has a block, or an error to show.\<close>

definition opens :: "jsv \<Rightarrow> bool" where
  "opens e \<longleftrightarrow> arr_of (jget e ''content'') \<noteq> [] \<or> dead_stop e"

lemma keys_add_assistant:
  assumes "fold_inv s" "kind_is ''message'' e"
  shows "keys_of (add_assistant e s) = keys_of s @ (if vf_pending s = [] \<and> opens e then [user_id e] else [])"
proof -
  let ?f = "flushSwitch s" and ?n = "length (arr_of (jget e ''content''))"
  note f = flushSwitch_keeps[OF assms(1)] and k = keys_flushSwitch[OF assms(1)]
  have refs: "keys_of (foldl (push_ref x) ?f (0 # is)) = keys_of s @ (if vf_pending s = [] then [user_id x] else [])" for x "is"
    using f k by (auto simp: keys_of_def open_keys_def push_refs turn_key_def simp del: foldl_Cons)
  consider "?n = 0" "dead_stop e" | "?n = 0" "\<not> dead_stop e" | m where "?n = Suc m" by (metis not0_implies_Suc)
  then show ?thesis
  proof cases
    case 1
    then show ?thesis using refs[of "synthetic e" "[]"] synthetic_id[OF assms(2)] by (simp add: add_assistant_def opens_def)
  next
    case 2
    then show ?thesis by (simp add: add_assistant_def opens_def k)
  next
    case 3
    then have "[0 ..< ?n] = 0 # [1 ..< ?n]" "opens e" by (auto simp: upt_rec opens_def)
    then show ?thesis using refs[of e "[1 ..< ?n]"] 3 by (simp add: add_assistant_def)
  qed
qed

lemma keys_add_switch: "fold_inv s \<Longrightarrow> prefix (keys_of s) (keys_of (add_switch env e s))"
  by (cases "vf_switch s"; cases "vf_pending s = []")
    (auto simp: add_switch_def flushPending_def Let_def keys_of_def open_keys_def push_turn_def fold_inv_def)

lemma keys_same: "keys_of (s\<lparr>vf_git := g, vf_seen := b\<rparr>) = keys_of s" "keys_of (s\<lparr>vf_stamps := st\<rparr>) = keys_of s"
  "keys_of (note_seal e s) = keys_of s"
  by (simp_all add: keys_of_def open_keys_def note_seal_def)

lemma keys_add_stamp:
  "well_keyed (ve_prevBlocks env) \<Longrightarrow> fold_inv s \<Longrightarrow> prefix (keys_of s) (keys_of (add_stamp env e stamp s))"
  by (auto simp: add_stamp_def keys_same keys_push_flush)

lemma prefix_if: "prefix k (keys_of x) \<Longrightarrow> prefix k (keys_of y) \<Longrightarrow> prefix k (keys_of (if b then x else y))"
  by simp

lemma prefix_option:
  "(\<And>st. prefix k (keys_of (f st))) \<Longrightarrow> prefix k (keys_of x) \<Longrightarrow> prefix k (keys_of (case r of Some st \<Rightarrow> f st | None \<Rightarrow> x))"
  by (simp split: option.split)

lemma keys_step:
  assumes "well_keyed (ve_prevBlocks env)" "fold_inv s"
  shows "prefix (keys_of s) (keys_of (view_step env s e))"
proof -
  have p: "prefix (keys_of s) (keys_of (push_turn f (flush env s)))" for f by (simp add: keys_push_flush[OF assms])
  have t: "prefix (keys_of s) (keys_of (system_turn env e ty m d s))" for ty m d by (simp add: system_turn_def p)
  have a: "prefix (keys_of s) (keys_of (if kind_is ''message'' e then if jget e ''role'' = JStr ''assistant'' then add_assistant e s else x else y))"
    if "prefix (keys_of s) (keys_of x)" "prefix (keys_of s) (keys_of y)" for x y
    using that by (simp add: keys_add_assistant[OF assms(2)])
  show ?thesis unfolding view_step_def keys_same fold_entry_def
    by (rule a) (intro prefix_if prefix_option p t keys_add_switch keys_add_stamp assms prefix_order.refl)+
qed

lemma view_fold_inv: "well_keyed (ve_prevBlocks env) \<Longrightarrow> fold_inv (foldl (view_step env) startFold path)"
  using view_fold_shows[of env path] by simp

lemma keys_fold:
  assumes "well_keyed (ve_prevBlocks env)"
  shows "prefix (keys_of (foldl (view_step env) startFold path)) (keys_of (foldl (view_step env) startFold (path @ cs)))"
proof (induction cs rule: rev_induct)
  case (snoc e cs)
  then show ?case
    using keys_step[OF assms view_fold_inv[OF assms, of "path @ cs"], of e] by (auto intro: prefix_order.trans)
qed simp

definition bare :: "ViewEnv \<Rightarrow> ViewEnv" where
  "bare env = env\<lparr>ve_prevBlocks := []\<rparr>"

lemma bare_keyed: "well_keyed (ve_prevBlocks (bare env))"
  by (simp add: bare_def well_keyed_def)

lemma view_keys: "map turnKeyOf (view_turns env path) = keys_of (foldl (view_step (bare env')) startFold path)"
proof -
  let ?s = "foldl (view_step (bare env')) startFold path"
  let ?t = "flushSwitch (flushPending (bare env') ?s)"
  note i = view_fold_inv[OF bare_keyed, of env' path]
  have p: "fold_inv (flushPending (bare env') ?s)" "vf_pending (flushPending (bare env') ?s) = []"
    using flushPending_keeps[OF bare_keyed i] by simp_all
  have "skeleton (flushSwitch (flushPending env (foldl (view_step env) startFold path))) = skeleton ?t"
    by (intro skeleton_flushSwitch skeleton_flushPending skeleton_fold refl)
  then have "map turnKeyOf (view_turns env path) = map turnKeyOf (vf_turns ?t)" by (simp add: view_turns_def skeleton_def)
  also have "\<dots> = keys_of ?t" using flushSwitch_keeps[OF p(1)] p(2) by (simp add: keys_of_def open_keys_def)
  also have "\<dots> = keys_of ?s" using keys_flushSwitch[OF p(1)] keys_flushPending[OF i] by simp
  finally show ?thesis .
qed

text \<open>How the last entry of a path may change while it streams: an assistant entry of the same id that still opens its turn.\<close>

definition streams_to :: "jsv \<Rightarrow> jsv \<Rightarrow> bool" where
  "streams_to e e' \<longleftrightarrow> e' = e \<or> is_assistant e \<and> is_assistant e' \<and> user_id e' = user_id e \<and> (opens e \<longrightarrow> opens e')"

text \<open>
  \<^bold>\<open>Property C25.\<close>  Turn keys are append-only: whatever else changes in the document, when the last entry of the
  path streams on and entries follow, the keys of the turns shown before are the first keys of the turns
  shown after.  No turn is split, renamed or reordered, so focus and rendered state carry over.
\<close>

theorem turn_keys_stable:
  assumes "streams_to e e'"
  shows "prefix (map turnKeyOf (view_turns env (path @ [e]))) (map turnKeyOf (view_turns env' (path @ e' # cs)))"
proof -
  let ?step = "view_step (bare env')"
  let ?s = "foldl ?step startFold path"
  note i = view_fold_inv[OF bare_keyed, of env' path]
  have "prefix (keys_of (?step ?s e)) (keys_of (?step ?s e'))"
  proof (cases "e' = e")
    case False
    then have a: "is_assistant e" "is_assistant e'" "user_id e' = user_id e" "opens e \<longrightarrow> opens e'"
      using assms by (auto simp: streams_to_def)
    have k: "keys_of (?step ?s x) = keys_of ?s @ (if vf_pending ?s = [] \<and> opens x then [user_id x] else [])" if "is_assistant x" for x
      using that keys_add_assistant[OF i, of x]
      by (simp add: view_step_def keys_same fold_entry_def is_assistant_def)
    show ?thesis using a(3,4) by (simp add: k[OF a(1)] k[OF a(2)])
  qed simp
  also have "prefix (keys_of (?step ?s e')) (keys_of (foldl ?step startFold (path @ e' # cs)))"
    using keys_fold[OF bare_keyed, of env' "path @ [e']" cs] by simp
  finally show ?thesis using view_keys[of env "path @ [e]" env'] view_keys[of env' "path @ e' # cs" env'] by simp
qed

definition sample_env :: ViewEnv where
  "sample_env = \<lparr>ve_entries = JObj [], ve_results = [], ve_transitions = [], ve_labels = [], ve_recovery = None, ve_models = [],
     ve_seals = [], ve_prevBlocks = [], ve_expanded = None, ve_lc = code_compare, ve_parse = (\<lambda>t. None)\<rparr>"

text \<open>An answer with a number of text blocks.\<close>

definition sample_answer :: "nat \<Rightarrow> jsv" where
  "sample_answer n = JObj [(''id'', JStr ''a''), (''parentId'', JNull), (''kind'', JStr ''message''), (''role'', JStr ''assistant''),
     (''content'', JArr (replicate n (JObj [(''type'', JStr ''text''), (''text'', JStr ''x'')])))]"

theorem turn_keys_stable_witness:
  "prefix (map turnKeyOf (view_turns sample_env ([] @ [sample_answer 1])))
     (map turnKeyOf (view_turns sample_env ([] @ sample_answer 2 # [sample_answer 3])))"
  by (rule turn_keys_stable)
    (simp add: streams_to_def is_assistant_def kind_is_def user_id_def opens_def sample_answer_def numeral_2_eq_2)

section \<open>Assistant turns are maximal\<close>

definition last_other :: "TurnVM list \<Rightarrow> bool" where
  "last_other ts \<longleftrightarrow> ts = [] \<or> \<not> is_assistant_turn (last ts)"

definition alternating :: "TurnVM list \<Rightarrow> bool" where
  "alternating ts \<longleftrightarrow> successively (\<lambda>t u. \<not> (is_assistant_turn t \<and> is_assistant_turn u)) ts"

text \<open>The last turn is no assistant turn while blocks wait or no switch is open.\<close>

definition merged :: "ViewFold \<Rightarrow> bool" where
  "merged s \<longleftrightarrow> alternating (vf_turns s) \<and> ((vf_pending s \<noteq> [] \<or> vf_switch s = None) \<longrightarrow> last_other (vf_turns s)) \<and>
     (vf_pending s \<noteq> [] \<longrightarrow> vf_switch s = None)"

lemma alternating_snoc: "alternating (ts @ [t]) \<longleftrightarrow> alternating ts \<and> (is_assistant_turn t \<longrightarrow> last_other ts)"
  by (cases "ts = []") (auto simp: alternating_def last_other_def successively_append_iff)

lemma last_other_snoc [simp]: "last_other (ts @ [t]) \<longleftrightarrow> \<not> is_assistant_turn t"
  by (simp add: last_other_def)

lemma is_assistant_builders [simp]:
  "\<not> is_assistant_turn (buildUserTurn env g e i)" "\<not> is_assistant_turn (buildUserBashTurn e i)"
  "\<not> is_assistant_turn (buildGitChangeTurn e i stamp b)" "is_assistant_turn (buildAssistantTurn env refs i a p d st r)"
  by (simp_all add: buildUserTurn_def buildUserBashTurn_def buildGitChangeTurn_def buildAssistantTurn_def Let_def)

lemma merged_flushSwitch:
  "merged s \<Longrightarrow> merged (flushSwitch s) \<and> vf_switch (flushSwitch s) = None"
  by (cases "vf_switch s") (auto simp: flushSwitch_def push_turn_def merged_def alternating_snoc)

lemma merged_flushPending:
  "merged s \<Longrightarrow> alternating (vf_turns (flushPending env s)) \<and> vf_pending (flushPending env s) = [] \<and>
     vf_switch (flushPending env s) = vf_switch s"
  by (auto simp: flushPending_def push_turn_def merged_def alternating_snoc)

lemma merged_push:
  "merged s \<Longrightarrow> \<not> is_assistant_turn (f (length (vf_turns (flush env s)))) \<Longrightarrow> merged (push_turn f (flush env s))"
  using merged_flushPending[of "flushSwitch s" env] merged_flushSwitch[of s]
  by (auto simp: flush_def push_turn_def merged_def alternating_snoc)

lemma merged_add_assistant: "merged s \<Longrightarrow> merged (add_assistant e s)"
proof -
  assume "merged s"
  from merged_flushSwitch[OF this] have "merged (foldl (push_ref x) (flushSwitch s) is)" for x "is"
    by (auto simp: merged_def push_refs)
  from this[of "synthetic e" "[0]"] this[of e] show ?thesis by (simp add: add_assistant_def Let_def)
qed

lemma merged_add_switch: "merged s \<Longrightarrow> merged (add_switch env e s)"
  using merged_flushPending[of s env] by (auto simp: add_switch_def merged_def Let_def split: option.splits prod.splits)

lemma merged_same: "merged (s\<lparr>vf_git := g, vf_seen := b\<rparr>) = merged s" "merged (s\<lparr>vf_stamps := st\<rparr>) = merged s"
  "merged (note_seal e s) = merged s"
  by (simp_all add: merged_def note_seal_def)

lemma merged_add_stamp: "merged s \<Longrightarrow> merged (add_stamp env e stamp s)"
  by (simp add: add_stamp_def merged_same merged_push)

lemma merged_if: "merged x \<Longrightarrow> merged y \<Longrightarrow> merged (if b then x else y)"
  by simp

lemma merged_option: "(\<And>st. merged (f st)) \<Longrightarrow> merged x \<Longrightarrow> merged (case r of Some st \<Rightarrow> f st | None \<Rightarrow> x)"
  by (simp split: option.split)

lemma merged_step: "merged s \<Longrightarrow> merged (view_step env s e)"
proof -
  assume m: "merged s"
  have t: "merged (system_turn env e ty x d s)" for ty x d unfolding system_turn_def by (rule merged_push[OF m]) simp
  have u: "merged (push_turn (buildUserTurn env (vf_git s) e) (flush env s))" "merged (push_turn (buildUserBashTurn e) (flush env s))"
    by (rule merged_push[OF m], simp)+
  show ?thesis unfolding view_step_def merged_same fold_entry_def
    by (intro merged_if merged_option t u m merged_add_assistant merged_add_switch merged_add_stamp)
qed

text \<open>
  \<^bold>\<open>Property C26.\<close>  Consecutive assistant entries make one turn: no two assistant turns are adjacent, whatever
  invisible entries, inline stamps or empty messages lie between them.
\<close>

theorem assistant_turns_maximal:
  "successively (\<lambda>t u. \<not> (is_assistant_turn t \<and> is_assistant_turn u)) (view_turns env path)"
proof -
  let ?s = "foldl (view_step env) startFold path"
  have "merged ?s"
    by (induction path rule: rev_induct) (simp_all add: merged_step, simp add: startFold_def merged_def alternating_def last_other_def)
  from merged_flushPending[OF this, of env] have "alternating (vf_turns (flushSwitch (flushPending env ?s)))"
    by (auto simp: flushSwitch_def push_turn_def alternating_snoc split: option.split)
  then show ?thesis by (simp add: view_turns_def alternating_def)
qed

section \<open>The git identity of a message\<close>

definition stamp_of :: "jsv \<Rightarrow> GitStampData option" where
  "stamp_of e = (if is_stamp_entry e then parseGitStampEntry e else None)"

text \<open>The last valid stamp of a path.\<close>

definition last_stamp :: "jsv list \<Rightarrow> GitStampData option" where
  "last_stamp path = (case filter (\<lambda>e. stamp_of e \<noteq> None) path of [] \<Rightarrow> None | es \<Rightarrow> stamp_of (last es))"

lemma last_stamp_snoc: "last_stamp (path @ [e]) = (case stamp_of e of Some st \<Rightarrow> Some st | None \<Rightarrow> last_stamp path)"
  by (cases "filter (\<lambda>e. stamp_of e \<noteq> None) path") (auto simp: last_stamp_def split: list.split)

definition identity_of :: "GitStampData \<Rightarrow> GitIdentity \<times> string option" where
  "identity_of st = (stamp_identity st, stamp_subject st)"

text \<open>What a user turn must be for the entries before its message.\<close>

definition user_turn_of :: "ViewEnv \<Rightarrow> jsv list \<Rightarrow> TurnVM \<Rightarrow> bool" where
  "user_turn_of env path t \<longleftrightarrow>
     (case t of
        UserTurnVM e i u \<Rightarrow> \<exists>a x b. path = a @ x # b \<and> is_user x \<and>
          t = buildUserTurn env (map_option identity_of (last_stamp a)) x i
      | _ \<Rightarrow> True)"

lemma user_turn_of_more: "user_turn_of env path t \<Longrightarrow> user_turn_of env (path @ [e]) t"
  by (cases t) (fastforce simp: user_turn_of_def)+

lemma user_turn_of_other: "\<forall>e i u. t \<noteq> UserTurnVM e i u \<Longrightarrow> user_turn_of env path t"
  by (cases t) (auto simp: user_turn_of_def)

lemma not_user_turn:
  "user_turn_of env path (buildUserBashTurn e i)" "user_turn_of env path (buildGitChangeTurn e i st b)"
  "user_turn_of env path (buildAssistantTurn env' refs i a p d gs r)" "user_turn_of env path (buildSystemTurn e ty m k i)"
  "user_turn_of env path (buildSwitchTurn sw i)" "user_turn_of env path (SystemTurnVM x i ty m k z)"
  by (simp_all add: user_turn_of_def buildUserBashTurn_def buildGitChangeTurn_def buildAssistantTurn_def Let_def)

text \<open>Steps that keep the user turns and the identity.\<close>

definition turns_inv :: "ViewEnv \<Rightarrow> jsv list \<Rightarrow> ViewFold \<Rightarrow> bool" where
  "turns_inv env path s \<longleftrightarrow> list_all (user_turn_of env path) (vf_turns s)"

lemma turns_more: "turns_inv env path s \<Longrightarrow> turns_inv env (path @ [e]) s"
  by (simp add: turns_inv_def list_all_iff user_turn_of_more)

lemma turns_flushSwitch [intro]: "turns_inv env path s \<Longrightarrow> turns_inv env path (flushSwitch s)"
  by (auto simp: turns_inv_def flushSwitch_def push_turn_def not_user_turn split: option.split)

lemma turns_flushPending [intro]: "turns_inv env path s \<Longrightarrow> turns_inv env path (flushPending env' s)"
  by (auto simp: turns_inv_def flushPending_def push_turn_def not_user_turn)

lemma turns_push: "turns_inv env path s \<Longrightarrow> (\<And>i. user_turn_of env path (f i)) \<Longrightarrow> turns_inv env path (push_turn f (flush env' s))"
  using turns_flushPending[OF turns_flushSwitch, of env path s env'] by (simp add: flush_def turns_inv_def push_turn_def)

lemma git_flush: "vf_git (flushSwitch s) = vf_git s" "vf_git (flushPending env s) = vf_git s" "vf_git (flush env s) = vf_git s"
  "vf_git (push_turn f s) = vf_git s" "vf_git (note_seal e s) = vf_git s"
  by (simp_all add: flush_def flushSwitch_def flushPending_def push_turn_def note_seal_def split: option.split)

lemma git_add:
  "vf_git (add_assistant e s) = vf_git s" "vf_git (system_turn env e ty m d s) = vf_git s" "vf_git (add_switch env e s) = vf_git s"
  "vf_git (add_stamp env e st s) = Some (identity_of st)"
  by (simp_all add: add_assistant_def system_turn_def add_switch_def add_stamp_def push_refs git_flush identity_of_def Let_def
        push_refs[of _ _ "[0]", simplified] split: option.split prod.split)

lemma git_step: "vf_git (view_step env s e) = (case stamp_of e of Some st \<Rightarrow> Some (identity_of st) | None \<Rightarrow> vf_git s)"
  by (cases rule: entry_kinds[of e])
    (auto simp: view_step_def git_flush git_add fold_entry_def stamp_of_def is_stamp_entry_def kind_is_def split: option.split)

lemma turns_other:
  assumes "turns_inv env path s"
  shows "turns_inv env path (add_assistant e s)" "turns_inv env path (system_turn env e ty m d s)"
    "turns_inv env path (add_switch env e s)" "turns_inv env path (add_stamp env e st s)"
    "turns_inv env path (push_turn (buildUserBashTurn e) (flush env s))"
proof -
  note keep = turns_flushSwitch[OF assms] turns_flushPending[OF assms, of env] assms
  show "turns_inv env path (add_assistant e s)"
    using keep by (simp add: add_assistant_def turns_inv_def push_refs push_refs[of _ _ "[0]", simplified] Let_def)
  show "turns_inv env path (system_turn env e ty m d s)"
    unfolding system_turn_def by (intro turns_push assms not_user_turn)
  show "turns_inv env path (add_switch env e s)"
    using keep by (auto simp: add_switch_def turns_inv_def Let_def split: option.split prod.split)
  have "turns_inv env path (push_turn (\<lambda>i. buildGitChangeTurn e i st b) (flush env s))" for b
    by (intro turns_push assms not_user_turn)
  then show "turns_inv env path (add_stamp env e st s)" using assms by (simp add: add_stamp_def turns_inv_def)
  show "turns_inv env path (push_turn (buildUserBashTurn e) (flush env s))" by (intro turns_push assms not_user_turn)
qed

lemma turns_if: "turns_inv env path x \<Longrightarrow> turns_inv env path y \<Longrightarrow> turns_inv env path (if b then x else y)"
  by simp

lemma turns_option:
  "(\<And>st. turns_inv env path (f st)) \<Longrightarrow> turns_inv env path x \<Longrightarrow>
   turns_inv env path (case r of Some st \<Rightarrow> f st | None \<Rightarrow> x)"
  by (simp split: option.split)

lemma turns_step:
  assumes "turns_inv env path s" "vf_git s = map_option identity_of (last_stamp path)"
  shows "turns_inv env (path @ [e]) (view_step env s e)"
proof -
  note t = turns_more[OF assms(1), of e]
  have n: "turns_inv env p (note_seal e s') = turns_inv env p s'" for p s' by (simp add: turns_inv_def note_seal_def)
  have u: "turns_inv env (path @ [e]) (push_turn (buildUserTurn env (vf_git s) e) (flush env s))" if "is_user e"
    by (rule turns_push[OF t]) (use that assms(2) in \<open>auto simp: user_turn_of_def buildUserTurn_def Let_def\<close>)
  have m: "turns_inv env (path @ [e])
      (if kind_is ''message'' e then if jget e ''role'' = JStr ''assistant'' then x
         else if jget e ''role'' = JStr ''user'' then push_turn (buildUserTurn env (vf_git s) e) (flush env s) else y else z)"
    if "turns_inv env (path @ [e]) x" "turns_inv env (path @ [e]) y" "turns_inv env (path @ [e]) z" for x y z
    using that u by (auto simp: is_user_def)
  show ?thesis unfolding view_step_def n fold_entry_def
    by (rule m) (intro turns_if turns_option t turns_other)+
qed

lemma git_fold:
  "turns_inv env path (foldl (view_step env) startFold path) \<and>
   vf_git (foldl (view_step env) startFold path) = map_option identity_of (last_stamp path)"
proof (induction path rule: rev_induct)
  case (snoc e path)
  then show ?case using turns_step[of env path "foldl (view_step env) startFold path" e]
    by (simp add: git_step last_stamp_snoc split: option.split)
qed (simp add: startFold_def turns_inv_def last_stamp_def)

text \<open>
  \<^bold>\<open>Property C27.\<close>  A message shows the git state it was written in: each user turn of the view is built from a user
  entry of the path and the identity and subject of the last valid stamp before it, or from none when no
  stamp comes before; a stamp after the message never reaches it.
\<close>

theorem message_shows_git_before:
  "list_all (\<lambda>t. case t of
     UserTurnVM e i u \<Rightarrow> \<exists>a x b. path = a @ x # b \<and> is_user x \<and> t = buildUserTurn env (map_option identity_of (last_stamp a)) x i
   | _ \<Rightarrow> True) (view_turns env path)"
proof -
  have "turns_inv env path (flushSwitch (flushPending env (foldl (view_step env) startFold path)))"
    using git_fold by blast
  then show ?thesis by (simp add: turns_inv_def list_all_iff view_turns_def user_turn_of_def)
qed

end
