(* ===== verification/WorkerProtocol.thy ===== *)
theory WorkerProtocol
  imports JsonText
begin

text \<open>
  The frames of the link between a daemon and a worker, \<^verbatim>\<open>packages/bridge/src/host/worker-protocol.ts\<close>: requests,
  replies and pushes are told apart by their fields.  A frame is the value that is written as JSON;
  \<^verbatim>\<open>JSON.parse\<close> is the argument \<open>parse\<close>, with \<open>None\<close> where it throws.
\<close>

section \<open>Constants\<close>

definition WORKER_PROTOCOL_VERSION :: nat where "WORKER_PROTOCOL_VERSION = 1"

definition WORKER_REJECTED_CLOSE_CODE :: nat where "WORKER_REJECTED_CLOSE_CODE = 4403"

definition WORKER_HEARTBEAT_INTERVAL_MS :: int where "WORKER_HEARTBEAT_INTERVAL_MS = 5000"

definition WORKER_HEARTBEAT_TIMEOUT_MS :: int where "WORKER_HEARTBEAT_TIMEOUT_MS = 15000"

definition WORKER_PROBE_ID :: string where "WORKER_PROBE_ID = ''probe''"

section \<open>The probe\<close>

definition workerProbeRequest :: string where
  "workerProbeRequest = json_text (JObj [(''id'', JStr WORKER_PROBE_ID), (''verb'', JStr ''ping'')])"

definition isWorkerProbeRequest :: "jsv \<Rightarrow> bool" where
  "isWorkerProbeRequest v \<longleftrightarrow> (is_obj v \<or> is_arr v) \<and> jget v ''id'' = JStr WORKER_PROBE_ID \<and> jget v ''verb'' = JStr ''ping''"

definition workerProbeReply :: "string option \<Rightarrow> string" where
  "workerProbeReply web =
     json_text (JObj [(''id'', JStr WORKER_PROBE_ID), (''ok'', JBool True), (''protocol'', JNum (of_nat WORKER_PROTOCOL_VERSION)),
       (''web'', case web of None \<Rightarrow> JNull | Some u \<Rightarrow> JStr u)])"

section \<open>Telling frames apart\<close>

definition isWorkerRequest :: "jsv \<Rightarrow> bool" where
  "isWorkerRequest v \<longleftrightarrow> (is_obj v \<or> is_arr v) \<and> is_str (jget v ''id'') \<and> is_str (jget v ''kind'') \<and> jget v ''kind'' \<noteq> JStr ''hello''"

definition isWorkerReply :: "jsv \<Rightarrow> bool" where
  "isWorkerReply v \<longleftrightarrow> (is_obj v \<or> is_arr v) \<and> is_str (jget v ''id'') \<and> is_bool (jget v ''ok'') \<and> jget v ''kind'' = JUndef"

definition isWorkerPush :: "jsv \<Rightarrow> bool" where
  "isWorkerPush v \<longleftrightarrow> (is_obj v \<or> is_arr v) \<and> jget v ''id'' = JUndef \<and>
     (jget v ''kind'' = JStr ''hello'' \<or> jget v ''kind'' = JStr ''observation'' \<or> jget v ''kind'' = JStr ''event'' \<or>
      jget v ''kind'' = JStr ''unavailable'')"

definition parseWorkerFrame :: "(string \<Rightarrow> jsv option) \<Rightarrow> string \<Rightarrow> jsv option" where
  "parseWorkerFrame parse s =
     (case parse s of
        None \<Rightarrow> None
      | Some v \<Rightarrow> if isWorkerRequest v \<or> isWorkerReply v \<or> isWorkerPush v then Some v else None)"

definition requestTarget :: "jsv \<Rightarrow> jsv" where
  "requestTarget request = (if jhas request ''target'' then jget request ''target'' else JNull)"

section \<open>The frames the program builds\<close>

definition reply_ok :: "string \<Rightarrow> jsv \<Rightarrow> jsv" where
  "reply_ok i result = JObj [(''id'', JStr i), (''ok'', JBool True), (''result'', result)]"

definition reply_error :: "string \<Rightarrow> string \<Rightarrow> jsv" where
  "reply_error i message = JObj [(''id'', JStr i), (''ok'', JBool False), (''error'', JStr message)]"

definition hello_push :: "jsv \<Rightarrow> jsv \<Rightarrow> jsv" where
  "hello_push registration info =
     JObj [(''kind'', JStr ''hello''), (''protocol'', JNum (of_nat WORKER_PROTOCOL_VERSION)), (''registration'', registration),
       (''info'', info)]"

definition observation_push :: "string \<Rightarrow> jsv \<Rightarrow> jsv" where
  "observation_push observation frame =
     JObj [(''kind'', JStr ''observation''), (''observation'', JStr observation), (''frame'', frame)]"

definition event_push :: "jsv \<Rightarrow> jsv" where
  "event_push event = JObj [(''kind'', JStr ''event''), (''event'', event)]"

definition unavailable_push :: "string \<Rightarrow> jsv" where
  "unavailable_push reason = JObj [(''kind'', JStr ''unavailable''), (''reason'', JStr reason)]"

text \<open>
  A frame has one class: no value is two of a request, a reply and a push, and the frames of either end
  are recognised as what they are.
\<close>

lemma frame_classes_disjoint:
  "\<not> (isWorkerRequest v \<and> isWorkerReply v)" "\<not> (isWorkerRequest v \<and> isWorkerPush v)" "\<not> (isWorkerReply v \<and> isWorkerPush v)"
  by (auto simp: isWorkerRequest_def isWorkerReply_def isWorkerPush_def)

lemma frame_classes:
  "isWorkerReply (reply_ok i r)" "isWorkerReply (reply_error i m)" "isWorkerPush (hello_push g f)"
  "isWorkerPush (observation_push ob fr)" "isWorkerPush (event_push ev)" "isWorkerPush (unavailable_push m)"
  by (simp_all add: isWorkerReply_def isWorkerPush_def reply_ok_def reply_error_def hello_push_def observation_push_def
        event_push_def unavailable_push_def)

lemma probe_apart:
  "isWorkerProbeRequest v \<Longrightarrow> jget v ''kind'' = JUndef \<Longrightarrow> jget v ''ok'' = JUndef \<Longrightarrow>
   \<not> isWorkerRequest v \<and> \<not> isWorkerReply v \<and> \<not> isWorkerPush v"
  by (auto simp: isWorkerProbeRequest_def isWorkerRequest_def isWorkerReply_def isWorkerPush_def)

end
