(* ===== verification/WorkerServer.thy ===== *)
theory WorkerServer
  imports WorkerProtocol
begin

text \<open>
  The worker's end of the link, \<^verbatim>\<open>packages/bridge/src/host/worker-server.ts\<close>: the closure variables of one
  \<^verbatim>\<open>serveWorkerConnection\<close> as a record, its handlers as functions, every asynchronous function cut at its
  awaits.  The service is the environment: its promises settle with any value in any order, its frames and
  events come at any time.  A handle is an observation the service returned, numbered in the order of
  its acquisition; a ticket is an admitted request, numbered likewise.
\<close>

section \<open>State\<close>

text \<open>
  Where the dispatch of a request waits: an acquisition (\<^verbatim>\<open>observeSession\<close>, \<^verbatim>\<open>createSession\<close>) with the object that
  may cancel it, the release of an acquisition nobody owns any more, a call of the service whose result
  is sent or not, a release of what is not held, a throw before any \<^verbatim>\<open>await\<close>; and that its promise has settled.
\<close>

datatype Stage =
    Acquiring string nat
  | Discarding
  | Calling bool
  | Passing
  | Throwing string
  | WorkDone

record Work =
  wk_id :: string
  wk_stage :: Stage

record ServiceHandle =
  sh_observation :: string
  sh_releases :: nat

datatype ShutdownStage = NoShutdown | Draining string "nat list" | Disposing string | ShutdownDone

text \<open>\<open>sv_sent\<close> are the frames sent, a reply with the ticket of its request.\<close>

record ServerLink =
  sv_observations :: "(string \<times> nat) list"
  sv_acquiring :: "(string \<times> nat) list"
  sv_cancelled :: "bool list"
  sv_inflight :: "nat list"
  sv_works :: "Work list"
  sv_handles :: "ServiceHandle list"
  sv_subscribed :: bool
  sv_accepting :: bool
  sv_closed :: bool
  sv_serving :: bool
  sv_heartbeat :: bool
  sv_lastPong :: int
  sv_sent :: "(nat option \<times> jsv) list"
  sv_ending :: nat
  sv_terminates :: nat
  sv_shutdown :: ShutdownStage
  sv_disposes :: nat

definition serve_start :: ServerLink where
  "serve_start = \<lparr>sv_observations = [], sv_acquiring = [], sv_cancelled = [], sv_inflight = [], sv_works = [], sv_handles = [],
     sv_subscribed = False, sv_accepting = True, sv_closed = False, sv_serving = False, sv_heartbeat = False, sv_lastPong = 0,
     sv_sent = [], sv_ending = 0, sv_terminates = 0, sv_shutdown = NoShutdown, sv_disposes = 0\<rparr>"

section \<open>Sending and releasing\<close>

definition send :: "nat option \<Rightarrow> jsv \<Rightarrow> ServerLink \<Rightarrow> ServerLink" where
  "send n frame s = (if sv_closed s then s else s\<lparr>sv_sent := sv_sent s @ [(n, frame)]\<rparr>)"

definition replyOk :: "nat option \<Rightarrow> string \<Rightarrow> jsv \<Rightarrow> ServerLink \<Rightarrow> ServerLink" where
  "replyOk n i result s = send n (reply_ok i result) s"

definition replyError :: "nat option \<Rightarrow> string \<Rightarrow> string \<Rightarrow> ServerLink \<Rightarrow> ServerLink" where
  "replyError n i message s = send n (reply_error i message) s"

text \<open>The sink of an observation, called by the service.\<close>

definition sink_frame :: "string \<Rightarrow> jsv \<Rightarrow> ServerLink \<Rightarrow> ServerLink" where
  "sink_frame observation frame s =
     send None (observation_push observation frame)
       (if jget frame ''kind'' = JStr ''closed'' then s\<lparr>sv_observations := AList.delete observation (sv_observations s)\<rparr> else s)"

definition call_release :: "nat \<Rightarrow> ServerLink \<Rightarrow> ServerLink" where
  "call_release h s =
     s\<lparr>sv_handles := (sv_handles s)[h := (sv_handles s ! h)\<lparr>sh_releases := Suc (sh_releases (sv_handles s ! h))\<rparr>]\<rparr>"

text \<open>Up to the \<^verbatim>\<open>await\<close> of the release, if there is one.\<close>

definition releaseObservation :: "string \<Rightarrow> ServerLink \<Rightarrow> ServerLink" where
  "releaseObservation observation s =
     (case map_of (sv_observations s) observation of
        None \<Rightarrow> s
      | Some h \<Rightarrow> call_release h (s\<lparr>sv_observations := AList.delete observation (sv_observations s)\<rparr>))"

definition endConnection :: "ServerLink \<Rightarrow> ServerLink" where
  "endConnection s0 =
     (let s = s0\<lparr>sv_accepting := False\<rparr>
      in if sv_closed s then s
         else fold call_release (map snd (sv_observations s))
                (s\<lparr>sv_closed := True, sv_subscribed := False,
                   sv_cancelled := fold (\<lambda>t c. c[t := True]) (map snd (sv_acquiring s)) (sv_cancelled s),
                   sv_observations := []\<rparr>))"

section \<open>Requests\<close>

text \<open>The calls of the service that need no state, with their arguments, and whether the result is sent.\<close>

definition service_call :: "jsv \<Rightarrow> (string \<times> jsv list \<times> bool) option" where
  "service_call r =
     (let a = jget r
      in map_of
        [(''prompt'', (''prompt'', [a ''target'', a ''text'', a ''images'', a ''model'', a ''thinkingLevel''], False)),
         (''abort'', (''abort'', [a ''target''], False)),
         (''discardSteer'', (''discardSteer'', [a ''target''], False)),
         (''renameSession'', (''renameSession'', [a ''target'', a ''name''], False)),
         (''setLabel'', (''setLabel'', [a ''target'', a ''entryId'', a ''label''], False)),
         (''navigate'', (''navigate'', [a ''target'', a ''entryId''], False)),
         (''recoverTurn'', (''recoverTurn'', [a ''target''], True)),
         (''closeSession'', (''closeSession'', [a ''address''], False)),
         (''archiveSession'', (''archiveSession'', [a ''address''], False)),
         (''listSessions'', (''listSessions'', [a ''projectId'', a ''max'', coalesce (a ''cursor'') JNull], True)),
         (''listActiveSessions'', (''listActiveSessions'', [], True)),
         (''info'', (''info'', [], True)),
         (''setPinnedModels'', (''setPinnedModels'', [a ''models''], False)),
         (''listFiles'', (''listFiles'', [a ''prefix'', a ''projectId''], True)),
         (''readFile'', (''readFile'', [a ''path'', a ''state''], True)),
         (''listDirectory'', (''listDirectory'', [a ''path'', a ''state''], True)),
         (''gitShow'', (''gitShow'', [a ''commit'', a ''cwd''], True)),
         (''gitBase'', (''gitBase'', [a ''directory'', a ''commit''], True)),
         (''gitDiff'', (''gitDiff'', [a ''directory'', a ''oldState'', a ''newState''], True))]
        (str_of (a ''kind'')))"

definition acquires :: "jsv \<Rightarrow> bool" where
  "acquires r \<longleftrightarrow> jget r ''kind'' = JStr ''observeSession'' \<or> jget r ''kind'' = JStr ''createSession''"

definition observation_of :: "jsv \<Rightarrow> string" where
  "observation_of r = str_of (jget r ''observation'')"

text \<open>The synchronous part of the dispatch: the state and where it waits.\<close>

definition dispatch :: "jsv \<Rightarrow> ServerLink \<Rightarrow> ServerLink \<times> Stage" where
  "dispatch r s =
     (if acquires r then
        (s\<lparr>sv_acquiring := AList.update (observation_of r) (length (sv_cancelled s)) (sv_acquiring s),
           sv_cancelled := sv_cancelled s @ [False]\<rparr>, Acquiring (observation_of r) (length (sv_cancelled s)))
      else if jget r ''kind'' = JStr ''releaseObservation'' then
        (releaseObservation (observation_of r) s,
         if map_of (sv_observations s) (observation_of r) = None then Passing else Calling False)
      else if jget r ''kind'' = JStr ''pull'' then
        (s, if map_of (sv_observations s) (observation_of r) = None then Throwing ''observation is not active'' else Calling True)
      else case service_call r of
             Some (m, args, result) \<Rightarrow> (s, Calling result)
           | None \<Rightarrow> (s, Throwing (''unknown worker request: '' @ js_text (jget r ''kind''))))"

definition admit :: "jsv \<Rightarrow> ServerLink \<Rightarrow> ServerLink" where
  "admit r s =
     (let (s', st) = dispatch r s; n = length (sv_works s)
      in s'\<lparr>sv_works := sv_works s @ [\<lparr>wk_id = str_of (jget r ''id''), wk_stage = st\<rparr>], sv_inflight := sv_inflight s @ [n]\<rparr>)"

text \<open>The message handler, on the parsed frame.\<close>

definition on_message :: "jsv option \<Rightarrow> ServerLink \<Rightarrow> ServerLink" where
  "on_message frame s =
     (case frame of
        None \<Rightarrow> s
      | Some r \<Rightarrow>
          if \<not> jhas r ''id'' then s
          else if \<not> sv_accepting s \<or> sv_closed s then s
          else if jget r ''kind'' = JStr ''shutdown''
          then s\<lparr>sv_accepting := False, sv_shutdown := Draining (str_of (jget r ''id'')) (sv_inflight s)\<rparr>
          else admit r s)"

section \<open>Continuations\<close>

definition set_stage :: "nat \<Rightarrow> Stage \<Rightarrow> ServerLink \<Rightarrow> ServerLink" where
  "set_stage n st s = s\<lparr>sv_works := (sv_works s)[n := (sv_works s ! n)\<lparr>wk_stage := st\<rparr>]\<rparr>"

text \<open>The service returned an observation, a new handle: it is installed, or released when the connection is gone.\<close>

definition acquired :: "nat \<Rightarrow> jsv \<Rightarrow> ServerLink \<Rightarrow> ServerLink" where
  "acquired n target s0 =
     (case wk_stage (sv_works s0 ! n) of
        Acquiring observation t \<Rightarrow>
          let h = length (sv_handles s0);
              s = s0\<lparr>sv_handles := sv_handles s0 @ [\<lparr>sh_observation = observation, sh_releases = 0\<rparr>],
                     sv_acquiring := AList.delete observation (sv_acquiring s0)\<rparr>
          in if sv_cancelled s ! t \<or> sv_closed s then set_stage n Discarding (call_release h s)
             else set_stage n WorkDone
                    (replyOk (Some n) (wk_id (sv_works s ! n)) target
                       (s\<lparr>sv_observations := AList.update observation h (sv_observations s)\<rparr>))
      | _ \<Rightarrow> s0)"

text \<open>A promise of the service settled otherwise: with a value, or with the message of an error.\<close>

definition work_settles :: "nat \<Rightarrow> string + jsv \<Rightarrow> ServerLink \<Rightarrow> ServerLink" where
  "work_settles n outcome s =
     (let i = wk_id (sv_works s ! n)
      in case wk_stage (sv_works s ! n) of
           Acquiring observation t \<Rightarrow>
             (case outcome of
                Inl e \<Rightarrow> set_stage n WorkDone
                           (replyError (Some n) i e (s\<lparr>sv_acquiring := AList.delete observation (sv_acquiring s)\<rparr>))
              | Inr v \<Rightarrow> acquired n v s)
         | Discarding \<Rightarrow> set_stage n WorkDone s
         | Calling result \<Rightarrow>
             (case outcome of
                Inl e \<Rightarrow> set_stage n WorkDone (replyError (Some n) i e s)
              | Inr v \<Rightarrow> set_stage n WorkDone (replyOk (Some n) i (if result then v else JNull) s))
         | Passing \<Rightarrow> set_stage n WorkDone (replyOk (Some n) i JNull s)
         | Throwing e \<Rightarrow> set_stage n WorkDone (replyError (Some n) i e s)
         | WorkDone \<Rightarrow> s)"

text \<open>The reaction that takes a settled request out of the set.\<close>

definition work_leaves :: "nat \<Rightarrow> ServerLink \<Rightarrow> ServerLink" where
  "work_leaves n s =
     (if n < length (sv_works s) \<and> wk_stage (sv_works s ! n) = WorkDone then s\<lparr>sv_inflight := removeAll n (sv_inflight s)\<rparr> else s)"

text \<open>The body of a shutdown: drain, dispose, reply, end.\<close>

definition shutdown_continues :: "ServerLink \<Rightarrow> ServerLink" where
  "shutdown_continues s =
     (case sv_shutdown s of
        Draining i ns \<Rightarrow>
          if list_all (\<lambda>n. wk_stage (sv_works s ! n) = WorkDone) ns
          then s\<lparr>sv_shutdown := Disposing i, sv_disposes := Suc (sv_disposes s)\<rparr> else s
      | Disposing i \<Rightarrow> endConnection (replyOk None i JNull (s\<lparr>sv_shutdown := ShutdownDone\<rparr>))
      | _ \<Rightarrow> s)"

section \<open>The handshake, events and the heartbeat\<close>

text \<open>\<^verbatim>\<open>service.info()\<close> settles; without it the connection is closed before it serves.\<close>

definition info_settles :: "jsv \<Rightarrow> string + jsv \<Rightarrow> int \<Rightarrow> ServerLink \<Rightarrow> ServerLink" where
  "info_settles registration outcome now s =
     (if sv_serving s \<or> sv_closed s then s
      else case outcome of
             Inl e \<Rightarrow> s\<lparr>sv_closed := True\<rparr>
           | Inr info \<Rightarrow>
               (send None (hello_push registration info) s)
                 \<lparr>sv_subscribed := True, sv_lastPong := now, sv_heartbeat := True, sv_serving := True\<rparr>)"

definition on_service_event :: "jsv \<Rightarrow> ServerLink \<Rightarrow> ServerLink" where
  "on_service_event event s =
     (if \<not> sv_subscribed s then s
      else if jget event ''kind'' = JStr ''unavailable''
      then endConnection (send None (unavailable_push (str_of (jget event ''reason''))) s)
      else send None (event_push event) s)"

definition on_pong :: "int \<Rightarrow> ServerLink \<Rightarrow> ServerLink" where
  "on_pong now s = s\<lparr>sv_lastPong := now\<rparr>"

text \<open>A tick of the interval: the connection ends, and the socket is terminated when that has settled.\<close>

definition heartbeat_tick :: "int \<Rightarrow> int \<Rightarrow> ServerLink \<Rightarrow> ServerLink" where
  "heartbeat_tick timeoutMs now s =
     (if \<not> sv_heartbeat s then s
      else if now - sv_lastPong s > timeoutMs then (endConnection s)\<lparr>sv_ending := Suc (sv_ending s)\<rparr> else s)"

definition ending_settles :: "ServerLink \<Rightarrow> ServerLink" where
  "ending_settles s =
     (if sv_ending s = 0 then s else s\<lparr>sv_ending := sv_ending s - 1, sv_terminates := Suc (sv_terminates s)\<rparr>)"

section \<open>Steps\<close>

text \<open>
  The peer names every observation it acquires by a fresh id (\<^verbatim>\<open>randomUUID\<close>): \<open>used\<close> are the ids it has used.
\<close>

definition used_observations :: "ServerLink \<Rightarrow> string set" where
  "used_observations s = sh_observation ` set (sv_handles s) \<union> {ob. \<exists>w \<in> set (sv_works s). \<exists>t. wk_stage w = Acquiring ob t}"

inductive srv_step :: "ServerLink \<Rightarrow> ServerLink \<Rightarrow> bool" where
  srv_info: "srv_step s (info_settles registration outcome now s)"
| srv_message:
    "sv_serving s \<Longrightarrow> (\<forall>r. frame = Some r \<and> acquires r \<longrightarrow> observation_of r \<notin> used_observations s) \<Longrightarrow>
     srv_step s (on_message frame s)"
| srv_settles: "n < length (sv_works s) \<Longrightarrow> srv_step s (work_settles n outcome s)"
| srv_leaves: "srv_step s (work_leaves n s)"
| srv_shutdown: "srv_step s (shutdown_continues s)"
| srv_sink: "srv_step s (sink_frame observation frame s)"
| srv_event: "srv_step s (on_service_event event s)"
| srv_pong: "srv_step s (on_pong now s)"
| srv_tick: "srv_step s (heartbeat_tick timeoutMs now s)"
| srv_ending: "srv_step s (ending_settles s)"
| srv_close: "sv_serving s \<Longrightarrow> srv_step s (endConnection s)"

inductive srv_reach :: "ServerLink \<Rightarrow> bool" where
  srv_new: "srv_reach serve_start"
| srv_next: "srv_reach s \<Longrightarrow> srv_step s s' \<Longrightarrow> srv_reach s'"

inductive_cases srv_stepE: "srv_step s s'"

section \<open>Parts of the state a function leaves alone\<close>

lemma send_parts [simp]:
  "sv_observations (send n f s) = sv_observations s" "sv_acquiring (send n f s) = sv_acquiring s"
  "sv_cancelled (send n f s) = sv_cancelled s" "sv_inflight (send n f s) = sv_inflight s" "sv_works (send n f s) = sv_works s"
  "sv_handles (send n f s) = sv_handles s" "sv_accepting (send n f s) = sv_accepting s" "sv_closed (send n f s) = sv_closed s"
  "sv_serving (send n f s) = sv_serving s" "sv_heartbeat (send n f s) = sv_heartbeat s" "sv_shutdown (send n f s) = sv_shutdown s"
  "sv_disposes (send n f s) = sv_disposes s" "sv_sent (send n f s) = sv_sent s @ (if sv_closed s then [] else [(n, f)])"
  by (simp_all add: send_def)

lemma call_release_parts [simp]:
  "sv_observations (call_release h s) = sv_observations s" "sv_acquiring (call_release h s) = sv_acquiring s"
  "sv_cancelled (call_release h s) = sv_cancelled s" "sv_inflight (call_release h s) = sv_inflight s"
  "sv_works (call_release h s) = sv_works s" "sv_accepting (call_release h s) = sv_accepting s"
  "sv_closed (call_release h s) = sv_closed s" "sv_serving (call_release h s) = sv_serving s"
  "sv_heartbeat (call_release h s) = sv_heartbeat s" "sv_sent (call_release h s) = sv_sent s"
  "sv_shutdown (call_release h s) = sv_shutdown s" "sv_disposes (call_release h s) = sv_disposes s"
  by (simp_all add: call_release_def)

lemma fold_release_parts [simp]:
  "sv_observations (fold call_release hs s) = sv_observations s" "sv_acquiring (fold call_release hs s) = sv_acquiring s"
  "sv_cancelled (fold call_release hs s) = sv_cancelled s" "sv_inflight (fold call_release hs s) = sv_inflight s"
  "sv_works (fold call_release hs s) = sv_works s" "sv_accepting (fold call_release hs s) = sv_accepting s"
  "sv_closed (fold call_release hs s) = sv_closed s" "sv_serving (fold call_release hs s) = sv_serving s"
  "sv_heartbeat (fold call_release hs s) = sv_heartbeat s" "sv_sent (fold call_release hs s) = sv_sent s"
  "sv_shutdown (fold call_release hs s) = sv_shutdown s" "sv_disposes (fold call_release hs s) = sv_disposes s"
  by (induction hs arbitrary: s) simp_all

text \<open>The number of releases of a handle, and its observation.\<close>

definition releases :: "ServerLink \<Rightarrow> nat \<Rightarrow> nat" where
  "releases s h = sh_releases (sv_handles s ! h)"

definition observation_at :: "ServerLink \<Rightarrow> nat \<Rightarrow> string" where
  "observation_at s h = sh_observation (sv_handles s ! h)"

lemma sh_observation_update: "map sh_observation (hs[h := (hs ! h)\<lparr>sh_releases := n\<rparr>]) = map sh_observation hs"
proof (cases "h < length hs")
  case True
  then show ?thesis by (simp add: map_update list_update_same_conv)
next
  case False
  then show ?thesis by (simp add: list_update_beyond)
qed

lemma call_release_observations: "map sh_observation (sv_handles (call_release h s)) = map sh_observation (sv_handles s)"
  by (simp add: call_release_def sh_observation_update)

lemma call_release_length [simp]: "length (sv_handles (call_release h s)) = length (sv_handles s)"
  by (simp add: call_release_def)

lemma releases_call_release:
  "h < length (sv_handles s) \<Longrightarrow> releases (call_release h s) j = (if j = h then Suc (releases s j) else releases s j)"
  by (simp add: call_release_def releases_def nth_list_update)

lemma fold_release_observations: "map sh_observation (sv_handles (fold call_release hs s)) = map sh_observation (sv_handles s)"
  by (induction hs arbitrary: s) (simp_all add: call_release_observations)

lemma fold_release_length [simp]: "length (sv_handles (fold call_release hs s)) = length (sv_handles s)"
  by (induction hs arbitrary: s) simp_all

lemma releases_fold_release:
  "set hs \<subseteq> {..<length (sv_handles s)} \<Longrightarrow> releases (fold call_release hs s) j = releases s j + count_list hs j"
  by (induction hs arbitrary: s) (auto simp: releases_call_release)

section \<open>Every observation is released\<close>

definition ended :: "ServerLink \<Rightarrow> string \<Rightarrow> bool" where
  "ended s ob \<longleftrightarrow> list_ex (\<lambda>p. \<exists>frame. snd p = observation_push ob frame \<and> jget frame ''kind'' = JStr ''closed'') (sv_sent s)"

definition handle_inv :: "ServerLink \<Rightarrow> bool" where
  "handle_inv s \<longleftrightarrow> distinct (map fst (sv_observations s)) \<and> distinct (map sh_observation (sv_handles s)) \<and>
     (\<forall>(ob, h) \<in> set (sv_observations s). h < length (sv_handles s) \<and> observation_at s h = ob \<and> releases s h = 0) \<and>
     (\<forall>h < length (sv_handles s). releases s h = 0 \<and> (observation_at s h, h) \<in> set (sv_observations s) \<or>
        releases s h = 0 \<and> ended s (observation_at s h) \<or> releases s h = 1) \<and>
     (sv_closed s \<longrightarrow> sv_observations s = [])"

definition acquiring_inv :: "ServerLink \<Rightarrow> bool" where
  "acquiring_inv s \<longleftrightarrow>
     (\<forall>n < length (sv_works s). \<forall>ob t. wk_stage (sv_works s ! n) = Acquiring ob t \<longrightarrow> ob \<notin> sh_observation ` set (sv_handles s) \<and>
        (\<forall>m < length (sv_works s). \<forall>u. wk_stage (sv_works s ! m) = Acquiring ob u \<longrightarrow> m = n))"

lemma handle_inv_view:
  "sv_observations s' = sv_observations s \<Longrightarrow> sv_handles s' = sv_handles s \<Longrightarrow> sv_closed s' = sv_closed s \<Longrightarrow>
   set (sv_sent s) \<subseteq> set (sv_sent s') \<Longrightarrow> handle_inv s \<Longrightarrow> handle_inv s'"
  by (auto simp: handle_inv_def releases_def observation_at_def ended_def list_ex_iff) blast+


lemma observation_at_append:
  "h < length (sv_handles s) \<Longrightarrow> observation_at (s\<lparr>sv_handles := sv_handles s @ hs\<rparr>) h = observation_at s h"
  "h < length (sv_handles s) \<Longrightarrow> releases (s\<lparr>sv_handles := sv_handles s @ hs\<rparr>) h = releases s h"
  by (simp_all add: observation_at_def releases_def nth_append)

lemma observation_at_map: "h < length (sv_handles s) \<Longrightarrow> observation_at s h = map sh_observation (sv_handles s) ! h"
  by (simp add: observation_at_def)

lemma observation_at_cong:
  "map sh_observation (sv_handles s') = map sh_observation (sv_handles s) \<Longrightarrow> h < length (sv_handles s) \<Longrightarrow>
   observation_at s' h = observation_at s h"
  by (metis length_map observation_at_map)

lemma handle_invD:
  assumes "handle_inv s"
  shows "(ob, h) \<in> set (sv_observations s) \<Longrightarrow> h < length (sv_handles s) \<and> observation_at s h = ob \<and> releases s h = 0"
    and "h < length (sv_handles s) \<Longrightarrow> releases s h = 0 \<and> (observation_at s h, h) \<in> set (sv_observations s) \<or>
        releases s h = 0 \<and> ended s (observation_at s h) \<or> releases s h = 1"
    and "sv_closed s \<Longrightarrow> sv_observations s = []"
  using assms by (auto simp: handle_inv_def)

lemma handle_at_once:
  assumes "handle_inv s" "i < length (sv_handles s)" "j < length (sv_handles s)" "observation_at s i = observation_at s j"
  shows "i = j"
  using assms nth_eq_iff_index_eq[of "map sh_observation (sv_handles s)" i j] by (simp add: handle_inv_def observation_at_def)

lemma handle_inv_sink: "handle_inv s \<Longrightarrow> handle_inv (sink_frame ob frame s)"
proof (cases "jget frame ''kind'' = JStr ''closed'' \<and> \<not> sv_closed s")
  case True
  assume i: "handle_inv s"
  let ?s = "sink_frame ob frame s"
  have same: "sv_handles ?s = sv_handles s" "sv_observations ?s = AList.delete ob (sv_observations s)" "\<not> sv_closed ?s"
    using True by (simp_all add: sink_frame_def)
  have e: "ended ?s x" if "ended s x \<or> x = ob" for x using that True by (auto simp: ended_def sink_frame_def)
  have v: "observation_at ?s h = observation_at s h" "releases ?s h = releases s h" for h
    by (simp_all add: observation_at_def releases_def same)
  have d: "(x, h) \<in> set (AList.delete ob (sv_observations s)) \<longleftrightarrow> (x, h) \<in> set (sv_observations s) \<and> x \<noteq> ob" for x h
    by (auto simp: AList.delete_eq)
  show ?thesis using i e unfolding handle_inv_def same v
    by (auto simp: d distinct_removeAll same)
next
  case False
  assume i: "handle_inv s"
  then have "sv_closed s \<longrightarrow> sv_observations s = []" by (simp add: handle_inv_def)
  with False have "sv_observations (sink_frame ob frame s) = sv_observations s" by (auto simp: sink_frame_def)
  then show ?thesis using i by (intro handle_inv_view[of "sink_frame ob frame s" s]) (auto simp: sink_frame_def)
qed

lemma handle_inv_release: "handle_inv s \<Longrightarrow> handle_inv (releaseObservation ob s)"
proof (cases "map_of (sv_observations s) ob")
  case (Some h)
  assume i: "handle_inv s"
  let ?s = "releaseObservation ob s"
  have m: "(ob, h) \<in> set (sv_observations s)" by (rule map_of_SomeD[OF Some])
  note h = handle_invD(1)[OF i m]
  have same: "sv_observations ?s = AList.delete ob (sv_observations s)" "length (sv_handles ?s) = length (sv_handles s)"
    "map sh_observation (sv_handles ?s) = map sh_observation (sv_handles s)" "sv_closed ?s = sv_closed s" "sv_sent ?s = sv_sent s"
    using Some by (simp_all add: releaseObservation_def call_release_observations)
  have r: "releases ?s j = (if j = h then Suc (releases s j) else releases s j)" for j
    using Some h by (simp add: releaseObservation_def call_release_def releases_def nth_list_update)
  have v: "j < length (sv_handles s) \<Longrightarrow> observation_at ?s j = observation_at s j" for j
    by (rule observation_at_cong[OF same(3)])
  have e: "ended ?s x = ended s x" for x by (simp add: ended_def same)
  have d: "(x, j) \<in> set (AList.delete ob (sv_observations s)) \<longleftrightarrow> (x, j) \<in> set (sv_observations s) \<and> x \<noteq> ob" for x j
    by (auto simp: AList.delete_eq)
  have o: "(x, j) \<in> set (sv_observations s) \<and> x \<noteq> ob \<Longrightarrow> j \<noteq> h" for x j using handle_invD(1)[OF i, of x j] h by auto
  have w: "j < length (sv_handles s) \<Longrightarrow> j \<noteq> h \<Longrightarrow> observation_at s j \<noteq> ob" for j using handle_at_once[OF i, of j h] h by auto
  show ?thesis unfolding handle_inv_def
  proof (intro conjI)
    show "distinct (map fst (sv_observations ?s))" using i by (simp add: same handle_inv_def distinct_removeAll)
    show "distinct (map sh_observation (sv_handles ?s))" using i by (simp add: same handle_inv_def)
    show "\<forall>(x, j) \<in> set (sv_observations ?s). j < length (sv_handles ?s) \<and> observation_at ?s j = x \<and> releases ?s j = 0"
      using handle_invD(1)[OF i] o by (fastforce simp: same d r v)
    show "\<forall>j < length (sv_handles ?s). releases ?s j = 0 \<and> (observation_at ?s j, j) \<in> set (sv_observations ?s) \<or>
        releases ?s j = 0 \<and> ended ?s (observation_at ?s j) \<or> releases ?s j = 1"
      using handle_invD(2)[OF i] h w by (auto simp: same r v d e)
    show "sv_closed ?s \<longrightarrow> sv_observations ?s = []" using handle_invD(3)[OF i] m by (auto simp: same)
  qed
qed (simp add: releaseObservation_def)


lemma endConnection_parts:
  "sv_observations (endConnection s) = (if sv_closed s then sv_observations s else [])" "sv_accepting (endConnection s) = False"
  "sv_closed (endConnection s) = True" "sv_works (endConnection s) = sv_works s" "sv_inflight (endConnection s) = sv_inflight s"
  "sv_sent (endConnection s) = sv_sent s" "sv_shutdown (endConnection s) = sv_shutdown s" "sv_disposes (endConnection s) = sv_disposes s"
  "sv_heartbeat (endConnection s) = sv_heartbeat s" "sv_serving (endConnection s) = sv_serving s"
  "map sh_observation (sv_handles (endConnection s)) = map sh_observation (sv_handles s)"
  "length (sv_handles (endConnection s)) = length (sv_handles s)"
  by (simp_all add: endConnection_def Let_def fold_release_observations)

lemma count_distinct: "distinct xs \<Longrightarrow> count_list xs x = (if x \<in> set xs then 1 else 0)"
  by (induction xs) auto

lemma handle_inv_end: "handle_inv s \<Longrightarrow> handle_inv (endConnection s)"
proof (cases "sv_closed s")
  case True
  assume "handle_inv s"
  then show ?thesis using True by (intro handle_inv_view[of "endConnection s" s]) (simp_all add: endConnection_def)
next
  case False
  assume i: "handle_inv s"
  let ?s = "endConnection s" and ?hs = "map snd (sv_observations s)"
  have sub: "set ?hs \<subseteq> {..<length (sv_handles s)}" using handle_invD(1)[OF i] by auto
  have "distinct ?hs"
  proof -
    have "inj_on snd (set (sv_observations s))"
    proof (rule inj_onI)
      fix p q assume "p \<in> set (sv_observations s)" "q \<in> set (sv_observations s)" "snd p = snd q"
      then show "p = q" using handle_invD(1)[OF i, of "fst p" "snd p"] handle_invD(1)[OF i, of "fst q" "snd q"]
        by (cases p; cases q) auto
    qed
    moreover have "distinct (sv_observations s)" using i by (simp add: handle_inv_def distinct_map)
    ultimately show ?thesis by (simp add: distinct_map)
  qed
  then have c: "count_list ?hs j = (if j \<in> set ?hs then 1 else 0)" for j by (rule count_distinct)
  have r: "releases ?s j = releases s j + count_list ?hs j" for j
    using False releases_fold_release[of ?hs "s\<lparr>sv_accepting := False, sv_closed := True, sv_subscribed := False,
      sv_cancelled := fold (\<lambda>t c. c[t := True]) (map snd (sv_acquiring s)) (sv_cancelled s), sv_observations := []\<rparr>" j] sub
    by (simp add: endConnection_def Let_def releases_def)
  have v: "j < length (sv_handles s) \<Longrightarrow> observation_at ?s j = observation_at s j" for j
    by (rule observation_at_cong[OF endConnection_parts(11)])
  have e: "ended ?s x = ended s x" for x by (simp add: ended_def endConnection_parts)
  show ?thesis unfolding handle_inv_def
  proof (intro conjI)
    show "\<forall>j < length (sv_handles ?s). releases ?s j = 0 \<and> (observation_at ?s j, j) \<in> set (sv_observations ?s) \<or>
        releases ?s j = 0 \<and> ended ?s (observation_at ?s j) \<or> releases ?s j = 1"
    proof (intro allI impI)
      fix j assume j: "j < length (sv_handles ?s)"
      then have j': "j < length (sv_handles s)" by (simp add: endConnection_parts)
      show "releases ?s j = 0 \<and> (observation_at ?s j, j) \<in> set (sv_observations ?s) \<or>
        releases ?s j = 0 \<and> ended ?s (observation_at ?s j) \<or> releases ?s j = 1"
      proof (cases "j \<in> set ?hs")
        case True
        then have "releases s j = 0" using handle_invD(1)[OF i] by auto
        then show ?thesis using True by (simp add: r c)
      next
        case False
        then have "(observation_at s j, j) \<notin> set (sv_observations s)" by force
        then show ?thesis using handle_invD(2)[OF i j'] False by (auto simp: r c v[OF j'] e)
      qed
    qed
  qed (use False i in \<open>simp_all add: endConnection_parts handle_inv_def\<close>)
qed

lemma update_fresh: "k \<notin> fst ` set al \<Longrightarrow> AList.update k v al = al @ [(k, v)]"
  by (induction al) auto

lemma key_fresh: "handle_inv s \<Longrightarrow> ob \<notin> sh_observation ` set (sv_handles s) \<Longrightarrow> ob \<notin> fst ` set (sv_observations s)"
  using handle_invD(1)[of s] by (force simp: observation_at_def)

lemma handle_inv_discard:
  assumes "handle_inv s" "ob \<notin> sh_observation ` set (sv_handles s)"
  shows "handle_inv (s\<lparr>sv_handles := sv_handles s @ [\<lparr>sh_observation = ob, sh_releases = 1\<rparr>]\<rparr>)"
  using assms unfolding handle_inv_def
  by (auto simp: observation_at_def releases_def ended_def nth_append less_Suc_eq list_ex_iff)

lemma handle_inv_install:
  assumes "handle_inv s" "ob \<notin> sh_observation ` set (sv_handles s)" "\<not> sv_closed s"
  shows "handle_inv (s\<lparr>sv_handles := sv_handles s @ [\<lparr>sh_observation = ob, sh_releases = 0\<rparr>],
           sv_observations := AList.update ob (length (sv_handles s)) (sv_observations s)\<rparr>)"
proof -
  have k: "AList.update ob h (sv_observations s) = sv_observations s @ [(ob, h)]" for h
    by (rule update_fresh) (use key_fresh[OF assms(1,2)] in simp)
  show ?thesis using assms key_fresh[OF assms(1,2)] unfolding handle_inv_def k
    by (auto simp: observation_at_def releases_def ended_def nth_append less_Suc_eq list_ex_iff)
qed


lemma set_stage_parts [simp]:
  "sv_observations (set_stage n st s) = sv_observations s" "sv_handles (set_stage n st s) = sv_handles s"
  "sv_closed (set_stage n st s) = sv_closed s" "sv_sent (set_stage n st s) = sv_sent s" "sv_inflight (set_stage n st s) = sv_inflight s"
  "sv_shutdown (set_stage n st s) = sv_shutdown s" "sv_disposes (set_stage n st s) = sv_disposes s"
  "sv_accepting (set_stage n st s) = sv_accepting s" "sv_heartbeat (set_stage n st s) = sv_heartbeat s"
  "length (sv_works (set_stage n st s)) = length (sv_works s)" "sv_serving (set_stage n st s) = sv_serving s"
  by (simp_all add: set_stage_def)

lemma stage_set_stage:
  "n < length (sv_works s) \<Longrightarrow> wk_stage (sv_works (set_stage n st s) ! m) = (if m = n then st else wk_stage (sv_works s ! m))"
  "wk_id (sv_works (set_stage n st s) ! m) = wk_id (sv_works s ! m)"
  by (auto simp: set_stage_def nth_list_update) (metis list_update_beyond not_le nth_list_update_eq nth_list_update_neq Work.select_convs(1) Work.surjective Work.update_convs(2))

lemma handle_inv_set_stage [simp]: "handle_inv (set_stage n st s) = handle_inv s"
  by (simp add: handle_inv_def observation_at_def releases_def ended_def)

lemma call_release_last:
  "call_release (length (sv_handles s)) (s\<lparr>sv_handles := sv_handles s @ [\<lparr>sh_observation = ob, sh_releases = 0\<rparr>], sv_acquiring := q\<rparr>) =
   s\<lparr>sv_handles := sv_handles s @ [\<lparr>sh_observation = ob, sh_releases = 1\<rparr>], sv_acquiring := q\<rparr>"
  by (simp add: call_release_def nth_append)

lemma handle_inv_acquired:
  assumes "handle_inv s" "acquiring_inv s" "n < length (sv_works s)"
  shows "handle_inv (acquired n target s)"
proof (cases "wk_stage (sv_works s ! n)")
  case (Acquiring ob t)
  then have f: "ob \<notin> sh_observation ` set (sv_handles s)" using assms(2,3) by (auto simp: acquiring_inv_def)
  let ?h = "\<lambda>r. s\<lparr>sv_handles := sv_handles s @ [\<lparr>sh_observation = ob, sh_releases = r\<rparr>], sv_acquiring := AList.delete ob (sv_acquiring s)\<rparr>"
  show ?thesis
  proof (cases "sv_cancelled s ! t \<or> sv_closed s")
    case True
    then have "acquired n target s = set_stage n Discarding (?h 1)"
      by (simp add: acquired_def Acquiring Let_def call_release_last)
    moreover have "handle_inv (?h 1)"
      using handle_inv_discard[OF assms(1) f] by (rule handle_inv_view[rotated -1]) simp_all
    ultimately show ?thesis by simp
  next
    case False
    let ?i = "(?h 0)\<lparr>sv_observations := AList.update ob (length (sv_handles s)) (sv_observations s)\<rparr>"
    have "acquired n target s = set_stage n WorkDone (replyOk (Some n) (wk_id (sv_works s ! n)) target ?i)"
      using False by (simp add: acquired_def Acquiring Let_def)
    moreover have "handle_inv (replyOk (Some n) (wk_id (sv_works s ! n)) target ?i)"
      using handle_inv_install[OF assms(1) f] False by (intro handle_inv_view[OF _ _ _ _ handle_inv_install[OF assms(1) f]]) (auto simp: replyOk_def)
    ultimately show ?thesis by simp
  qed
qed (use assms in \<open>simp_all add: acquired_def\<close>)


section \<open>Every request is answered once\<close>

definition replies :: "ServerLink \<Rightarrow> nat \<Rightarrow> nat" where
  "replies s n = length (filter (\<lambda>p. fst p = Some n) (sv_sent s))"

definition own_reply :: "ServerLink \<Rightarrow> nat option \<times> jsv \<Rightarrow> bool" where
  "own_reply s p \<longleftrightarrow> (case fst p of None \<Rightarrow> True
     | Some n \<Rightarrow> n < length (sv_works s) \<and> isWorkerReply (snd p) \<and> jget (snd p) ''id'' = JStr (wk_id (sv_works s ! n)))"

definition answered :: "ServerLink \<Rightarrow> nat \<Rightarrow> bool" where
  "answered s n \<longleftrightarrow>
     (wk_stage (sv_works s ! n) \<noteq> WorkDone \<longrightarrow> replies s n = 0) \<and> replies s n \<le> 1 \<and>
     (wk_stage (sv_works s ! n) = WorkDone \<and> \<not> sv_closed s \<longrightarrow> replies s n = 1) \<and>
     (wk_stage (sv_works s ! n) = Discarding \<longrightarrow> sv_closed s) \<and>
     (\<forall>ob t. wk_stage (sv_works s ! n) = Acquiring ob t \<longrightarrow> t < length (sv_cancelled s))"

definition reply_inv :: "ServerLink \<Rightarrow> bool" where
  "reply_inv s \<longleftrightarrow> (\<forall>p \<in> set (sv_sent s). own_reply s p) \<and> (\<forall>n < length (sv_works s). answered s n) \<and>
     (True \<in> set (sv_cancelled s) \<longrightarrow> sv_closed s)"

definition done_except :: "ServerLink \<Rightarrow> nat list \<Rightarrow> bool" where
  "done_except s ns \<longleftrightarrow> (\<forall>n < length (sv_works s). n \<notin> set ns \<longrightarrow> wk_stage (sv_works s ! n) = WorkDone)"

definition shutdown_inv :: "ServerLink \<Rightarrow> bool" where
  "shutdown_inv s \<longleftrightarrow> done_except s (sv_inflight s) \<and> (sv_shutdown s \<noteq> NoShutdown \<longrightarrow> \<not> sv_accepting s) \<and>
     (case sv_shutdown s of
        NoShutdown \<Rightarrow> sv_disposes s = 0
      | Draining i ns \<Rightarrow> sv_disposes s = 0 \<and> done_except s ns
      | Disposing i \<Rightarrow> sv_disposes s = 1 \<and> done_except s []
      | ShutdownDone \<Rightarrow> sv_disposes s = 1 \<and> done_except s [] \<and> sv_closed s)"

lemma cancelled_set_stage [simp]: "sv_cancelled (set_stage n st s) = sv_cancelled s"
  by (simp add: set_stage_def)

lemma reply_invI:
  assumes "\<And>p. p \<in> set (sv_sent s) \<Longrightarrow> own_reply s p" "\<And>n. n < length (sv_works s) \<Longrightarrow> answered s n"
    "True \<in> set (sv_cancelled s) \<Longrightarrow> sv_closed s"
  shows "reply_inv s"
  using assms by (simp add: reply_inv_def)

lemma reply_invD:
  assumes "reply_inv s"
  shows "p \<in> set (sv_sent s) \<Longrightarrow> own_reply s p" "n < length (sv_works s) \<Longrightarrow> answered s n"
    "True \<in> set (sv_cancelled s) \<Longrightarrow> sv_closed s"
  using assms by (simp_all add: reply_inv_def)

lemma answered_view:
  "sv_works s' ! n = sv_works s ! n \<Longrightarrow> replies s' n = replies s n \<Longrightarrow> length (sv_cancelled s) \<le> length (sv_cancelled s') \<Longrightarrow>
   (sv_closed s \<longrightarrow> sv_closed s') \<Longrightarrow> answered s n \<Longrightarrow> answered s' n"
  unfolding answered_def by (metis order_less_le_trans)

lemma own_reply_view: "sv_works s' = sv_works s \<Longrightarrow> own_reply s' p = own_reply s p"
  by (simp add: own_reply_def split: option.split)

lemma own_reply_None [simp]: "own_reply s (None, f)"
  by (simp add: own_reply_def)

lemma reply_inv_send:
  assumes "sv_sent s' = sv_sent s @ (if b then [(None, f)] else [])" "sv_works s' = sv_works s"
    "length (sv_cancelled s') = length (sv_cancelled s)" "sv_closed s \<longrightarrow> sv_closed s'"
    "True \<in> set (sv_cancelled s') \<Longrightarrow> sv_closed s'" "reply_inv s"
  shows "reply_inv s'"
proof (rule reply_invI)
  fix p assume "p \<in> set (sv_sent s')"
  then have "p \<in> set (sv_sent s) \<or> p = (None, f)" using assms(1) by (auto split: if_splits)
  then show "own_reply s' p" using reply_invD(1)[OF assms(6), of p] own_reply_view[OF assms(2), of p] by (elim disjE) simp_all
next
  fix n assume "n < length (sv_works s')"
  then have n: "answered s n" using reply_invD(2)[OF assms(6)] assms(2) by simp
  show "answered s' n" by (rule answered_view[OF _ _ _ assms(4) n]) (use assms(1,2,3) in \<open>simp_all add: replies_def\<close>)
qed (rule assms(5))

lemma reply_inv_view:
  "sv_sent s' = sv_sent s \<Longrightarrow> sv_works s' = sv_works s \<Longrightarrow> sv_cancelled s' = sv_cancelled s \<Longrightarrow> (sv_closed s \<longrightarrow> sv_closed s') \<Longrightarrow>
   reply_inv s \<Longrightarrow> reply_inv s'"
  by (rule reply_inv_send[where b = False and s = s]) (auto dest: reply_invD(3))

lemma own_reply_set_stage: "own_reply (set_stage n st s) p = own_reply s p"
  by (simp add: own_reply_def stage_set_stage split: option.split)

lemma works_set_stage: "m \<noteq> n \<Longrightarrow> sv_works (set_stage n st s) ! m = sv_works s ! m"
  by (simp add: set_stage_def)

lemma replies_set_stage [simp]: "replies (set_stage n st s) m = replies s m"
  by (simp add: replies_def)

lemma replies_send: "replies (send (Some n) f s) m = replies s m + (if m = n \<and> \<not> sv_closed s then 1 else 0)"
  by (simp add: replies_def)

lemma answered_other: "m \<noteq> n \<Longrightarrow> answered (set_stage n st s) m = answered s m"
  by (simp add: answered_def works_set_stage)

lemma reply_inv_settle:
  assumes "reply_inv s" "n < length (sv_works s)" "wk_stage (sv_works s ! n) \<noteq> WorkDone" "isWorkerReply f"
    "jget f ''id'' = JStr (wk_id (sv_works s ! n))"
  shows "reply_inv (set_stage n WorkDone (send (Some n) f s))"
proof (rule reply_invI)
  fix p assume "p \<in> set (sv_sent (set_stage n WorkDone (send (Some n) f s)))"
  then have "p \<in> set (sv_sent s) \<or> p = (Some n, f)" by (auto split: if_splits)
  then show "own_reply (set_stage n WorkDone (send (Some n) f s)) p"
    using reply_invD(1)[OF assms(1), of p] assms(2,4,5)
    by (elim disjE) (simp_all add: own_reply_set_stage own_reply_view[of "send (Some n) f s" s], simp add: own_reply_def)
next
  fix m assume m: "m < length (sv_works (set_stage n WorkDone (send (Some n) f s)))"
  show "answered (set_stage n WorkDone (send (Some n) f s)) m"
  proof (cases "m = n")
    case True
    have "replies s n = 0" using reply_invD(2)[OF assms(1,2)] assms(3) by (simp add: answered_def)
    then show ?thesis using True assms(2) by (simp add: answered_def stage_set_stage replies_send)
  next
    case False
    have "answered s m" using reply_invD(2)[OF assms(1)] m by simp
    then have "answered (send (Some n) f s) m" by (rule answered_view[rotated -1]) (simp_all add: replies_send False)
    then show ?thesis by (simp add: answered_other[OF False])
  qed
next
  assume "True \<in> set (sv_cancelled (set_stage n WorkDone (send (Some n) f s)))"
  then show "sv_closed (set_stage n WorkDone (send (Some n) f s))" using reply_invD(3)[OF assms(1)] by simp
qed

lemma reply_inv_stage:
  assumes "reply_inv s" "n < length (sv_works s)" "wk_stage (sv_works s ! n) \<noteq> WorkDone" "sv_closed s" "st = Discarding \<or> st = WorkDone"
  shows "reply_inv (set_stage n st s)"
proof (rule reply_invI)
  fix m assume m: "m < length (sv_works (set_stage n st s))"
  show "answered (set_stage n st s) m"
  proof (cases "m = n")
    case True
    have "replies s n = 0" using reply_invD(2)[OF assms(1,2)] assms(3) by (simp add: answered_def)
    then show ?thesis using True assms(2,4,5) by (auto simp: answered_def stage_set_stage)
  next
    case False
    then show ?thesis using reply_invD(2)[OF assms(1)] m by (simp add: answered_other)
  qed
qed (use reply_invD[OF assms(1)] in \<open>auto simp: own_reply_set_stage\<close>)


section \<open>Preservation\<close>

lemma acquiring_inv_view:
  "sv_works s' = sv_works s \<Longrightarrow> map sh_observation (sv_handles s') = map sh_observation (sv_handles s) \<Longrightarrow> acquiring_inv s \<Longrightarrow>
   acquiring_inv s'"
  unfolding acquiring_inv_def by (metis list.set_map)

lemma acquiring_inv_stage:
  assumes "acquiring_inv s" "n < length (sv_works s)" "\<And>ob t. st \<noteq> Acquiring ob t"
    "sv_works s' = (sv_works s)[n := (sv_works s ! n)\<lparr>wk_stage := st\<rparr>]"
    "sh_observation ` set (sv_handles s') = sh_observation ` set (sv_handles s) \<or>
     (\<exists>ob t. wk_stage (sv_works s ! n) = Acquiring ob t \<and> sh_observation ` set (sv_handles s') = insert ob (sh_observation ` set (sv_handles s)))"
  shows "acquiring_inv s'"
  unfolding acquiring_inv_def
proof (intro allI impI)
  fix m ob t assume m: "m < length (sv_works s')" "wk_stage (sv_works s' ! m) = Acquiring ob t"
  then have mn: "m \<noteq> n" and m': "m < length (sv_works s)" "wk_stage (sv_works s ! m) = Acquiring ob t"
    using assms(2,3,4) by (auto simp: nth_list_update split: if_splits)
  note q = assms(1)[unfolded acquiring_inv_def, rule_format, OF m']
  have "ob \<notin> sh_observation ` set (sv_handles s')"
  proof (rule notI)
    assume h: "ob \<in> sh_observation ` set (sv_handles s')"
    from q have "ob \<notin> sh_observation ` set (sv_handles s)" by simp
    with h assms(5) obtain u where "wk_stage (sv_works s ! n) = Acquiring ob u" by (metis insert_iff)
    with q assms(2) mn show False by blast
  qed
  moreover have "k = m" if "k < length (sv_works s')" "wk_stage (sv_works s' ! k) = Acquiring ob u" for k u
  proof -
    have "k \<noteq> n" using that assms(2,3,4) by auto
    then show ?thesis using that q assms(4) by (auto simp: nth_list_update)
  qed
  ultimately show "ob \<notin> sh_observation ` set (sv_handles s') \<and>
    (\<forall>k < length (sv_works s'). \<forall>u. wk_stage (sv_works s' ! k) = Acquiring ob u \<longrightarrow> k = m)" by blast
qed

lemma set_stage_works: "sv_works (set_stage n st s) = (sv_works s)[n := (sv_works s ! n)\<lparr>wk_stage := st\<rparr>]"
  by (simp add: set_stage_def)

lemma acquiring_inv_set_stage:
  "acquiring_inv s \<Longrightarrow> n < length (sv_works s) \<Longrightarrow> (\<And>ob t. st \<noteq> Acquiring ob t) \<Longrightarrow> sv_works s0 = sv_works s \<Longrightarrow>
   sv_handles s0 = sv_handles s \<Longrightarrow> acquiring_inv (set_stage n st s0)"
  by (rule acquiring_inv_stage) (auto simp: set_stage_works)

lemma done_except_stage:
  "done_except s ns \<Longrightarrow> wk_stage (sv_works s ! n) \<noteq> WorkDone \<Longrightarrow> sv_works s0 = sv_works s \<Longrightarrow> done_except (set_stage n st s0) ns"
  unfolding done_except_def set_stage_def by (cases "n < length (sv_works s)") (force simp: nth_list_update)+

lemma done_except_view: "sv_works s' = sv_works s \<Longrightarrow> done_except s ns \<Longrightarrow> done_except s' ns"
  by (simp add: done_except_def)

lemma shutdown_inv_view:
  assumes "sv_works s' = sv_works s" "sv_inflight s' = sv_inflight s" "sv_shutdown s' = sv_shutdown s" "sv_disposes s' = sv_disposes s"
    "sv_accepting s' \<longrightarrow> sv_accepting s" "sv_closed s \<longrightarrow> sv_closed s'" "shutdown_inv s"
  shows "shutdown_inv s'"
  using assms by (auto simp: shutdown_inv_def done_except_def split: ShutdownStage.splits)

lemma shutdown_inv_stage:
  assumes "shutdown_inv s" "wk_stage (sv_works s ! n) \<noteq> WorkDone" "n < length (sv_works s)"
    "sv_works s0 = sv_works s" "sv_inflight s0 = sv_inflight s" "sv_shutdown s0 = sv_shutdown s" "sv_disposes s0 = sv_disposes s"
    "sv_accepting s0 = sv_accepting s" "sv_closed s0 = sv_closed s"
  shows "shutdown_inv (set_stage n st s0)"
proof -
  have "\<not> done_except s []" using assms(2,3) by (auto simp: done_except_def)
  then show ?thesis using assms(1) done_except_stage[OF _ assms(2,4)]
    by (cases "sv_shutdown s") (simp_all add: shutdown_inv_def assms(4-9))
qed

definition srv_inv :: "ServerLink \<Rightarrow> bool" where
  "srv_inv s \<longleftrightarrow> handle_inv s \<and> acquiring_inv s \<and> reply_inv s \<and> shutdown_inv s"

lemma srv_inv_start: "srv_inv serve_start"
  by (simp add: srv_inv_def handle_inv_def acquiring_inv_def reply_inv_def shutdown_inv_def done_except_def serve_start_def)

text \<open>A step that only sends a push, or changes what the invariant does not read.\<close>

lemma srv_inv_push:
  assumes "srv_inv s" "sv_sent s' = sv_sent s @ (if b then [(None, f)] else [])" "sv_works s' = sv_works s"
    "sv_cancelled s' = sv_cancelled s" "sv_closed s' = sv_closed s" "sv_observations s' = sv_observations s"
    "sv_handles s' = sv_handles s" "sv_inflight s' = sv_inflight s" "sv_shutdown s' = sv_shutdown s"
    "sv_disposes s' = sv_disposes s" "sv_accepting s' \<longrightarrow> sv_accepting s"
  shows "srv_inv s'"
  unfolding srv_inv_def
proof (intro conjI)
  show "handle_inv s'" by (rule handle_inv_view[where s = s]) (use assms in \<open>auto simp: srv_inv_def\<close>)
  show "acquiring_inv s'" by (rule acquiring_inv_view[where s = s]) (use assms in \<open>simp_all add: srv_inv_def\<close>)
  show "reply_inv s'" by (rule reply_inv_send[OF assms(2)]) (use assms reply_invD(3)[of s] in \<open>simp_all add: srv_inv_def\<close>)
  show "shutdown_inv s'" by (rule shutdown_inv_view[where s = s]) (use assms in \<open>simp_all add: srv_inv_def\<close>)
qed

lemma length_cancelled_end: "length (sv_cancelled (endConnection s)) = length (sv_cancelled s)"
proof -
  have "length (fold (\<lambda>t c. c[t := True]) ts c) = length c" for ts and c :: "bool list" by (induction ts arbitrary: c) simp_all
  then show ?thesis by (simp add: endConnection_def Let_def)
qed

lemma srv_inv_end: "srv_inv s \<Longrightarrow> srv_inv (endConnection s)"
proof -
  assume i: "srv_inv s"
  show ?thesis unfolding srv_inv_def
  proof (intro conjI)
    show "handle_inv (endConnection s)" using i by (simp add: srv_inv_def handle_inv_end)
    show "acquiring_inv (endConnection s)"
      by (rule acquiring_inv_view[where s = s]) (use i in \<open>simp_all add: endConnection_parts srv_inv_def\<close>)
    show "reply_inv (endConnection s)"
      by (rule reply_inv_send[where b = False and s = s]) (use i in \<open>simp_all add: endConnection_parts length_cancelled_end srv_inv_def\<close>)
    show "shutdown_inv (endConnection s)"
      by (rule shutdown_inv_view[where s = s]) (use i in \<open>simp_all add: endConnection_parts srv_inv_def\<close>)
  qed
qed


lemma srv_inv_stage:
  assumes "srv_inv s" "n < length (sv_works s)" "wk_stage (sv_works s ! n) \<noteq> WorkDone" "isWorkerReply f"
    "jget f ''id'' = JStr (wk_id (sv_works s ! n))"
  shows "srv_inv (set_stage n WorkDone (send (Some n) f s))"
  unfolding srv_inv_def
proof (intro conjI)
  show "handle_inv (set_stage n WorkDone (send (Some n) f s))" unfolding handle_inv_set_stage
    by (rule handle_inv_view[where s = s]) (use assms(1) in \<open>auto simp: srv_inv_def\<close>)
  show "acquiring_inv (set_stage n WorkDone (send (Some n) f s))"
    by (rule acquiring_inv_set_stage[where s = s]) (use assms in \<open>simp_all add: srv_inv_def\<close>)
  show "reply_inv (set_stage n WorkDone (send (Some n) f s))"
    by (rule reply_inv_settle) (use assms in \<open>simp_all add: srv_inv_def\<close>)
  show "shutdown_inv (set_stage n WorkDone (send (Some n) f s))"
    by (rule shutdown_inv_stage[where s = s]) (use assms in \<open>simp_all add: srv_inv_def\<close>)
qed

lemma srv_inv_view:
  assumes "srv_inv s" "sv_works s' = sv_works s" "sv_sent s' = sv_sent s" "sv_cancelled s' = sv_cancelled s" "sv_closed s' = sv_closed s"
    "sv_observations s' = sv_observations s" "sv_handles s' = sv_handles s" "sv_inflight s' = sv_inflight s"
    "sv_shutdown s' = sv_shutdown s" "sv_disposes s' = sv_disposes s" "sv_accepting s' \<longrightarrow> sv_accepting s"
  shows "srv_inv s'"
  by (rule srv_inv_push[where b = False and s = s]) (use assms in simp_all)

lemma is_reply_built:
  "isWorkerReply (reply_ok i v)" "isWorkerReply (reply_error i e)" "jget (reply_ok i v) ''id'' = JStr i" "jget (reply_error i e) ''id'' = JStr i"
  by (simp_all add: frame_classes) (simp_all add: reply_ok_def reply_error_def)

lemma srv_inv_acquired:
  assumes "srv_inv s" "n < length (sv_works s)"
  shows "srv_inv (acquired n target s)"
proof (cases "wk_stage (sv_works s ! n)")
  case (Acquiring ob t)
  let ?i = "wk_id (sv_works s ! n)"
  have f: "ob \<notin> sh_observation ` set (sv_handles s)" using assms Acquiring by (auto simp: acquiring_inv_def srv_inv_def)
  have t: "t < length (sv_cancelled s)" using assms Acquiring reply_invD(2)[of s n] by (auto simp: srv_inv_def answered_def)
  let ?h = "\<lambda>r. s\<lparr>sv_handles := sv_handles s @ [\<lparr>sh_observation = ob, sh_releases = r\<rparr>], sv_acquiring := AList.delete ob (sv_acquiring s)\<rparr>"
  show ?thesis
  proof (cases "sv_cancelled s ! t \<or> sv_closed s")
    case True
    then have c: "sv_closed s" using assms(1) t by (metis nth_mem reply_invD(3) srv_inv_def)
    have a: "acquired n target s = set_stage n Discarding (?h 1)"
      using c by (simp add: acquired_def Acquiring Let_def call_release_last)
    show ?thesis unfolding srv_inv_def
    proof (intro conjI)
      show "handle_inv (acquired n target s)" using assms by (simp add: handle_inv_acquired srv_inv_def)
      show "acquiring_inv (acquired n target s)" unfolding a
        by (rule acquiring_inv_stage[where s = s and n = n and st = Discarding])
          (use assms Acquiring in \<open>auto simp: srv_inv_def set_stage_works\<close>)
      have "reply_inv (?h 1)" by (rule reply_inv_view[where s = s]) (use assms(1) in \<open>simp_all add: srv_inv_def\<close>)
      then show "reply_inv (acquired n target s)" unfolding a
        by (rule reply_inv_stage) (use assms Acquiring c in simp_all)
      show "shutdown_inv (acquired n target s)" unfolding a
        by (rule shutdown_inv_stage[where s = s]) (use assms Acquiring in \<open>simp_all add: srv_inv_def\<close>)
    qed
  next
    case False
    let ?j = "(?h 0)\<lparr>sv_observations := AList.update ob (length (sv_handles s)) (sv_observations s)\<rparr>"
    have a: "acquired n target s = set_stage n WorkDone (send (Some n) (reply_ok ?i target) ?j)"
      using False by (simp add: acquired_def Acquiring Let_def replyOk_def)
    show ?thesis unfolding srv_inv_def
    proof (intro conjI)
      show "handle_inv (acquired n target s)" using assms by (simp add: handle_inv_acquired srv_inv_def)
      show "acquiring_inv (acquired n target s)" unfolding a
        by (rule acquiring_inv_stage[where s = s and n = n and st = WorkDone])
          (use assms Acquiring in \<open>auto simp: srv_inv_def set_stage_works\<close>)
      have "reply_inv ?j" by (rule reply_inv_view[where s = s]) (use assms(1) in \<open>simp_all add: srv_inv_def\<close>)
      then show "reply_inv (acquired n target s)" unfolding a
        by (rule reply_inv_settle) (use assms Acquiring is_reply_built in simp_all)
      show "shutdown_inv (acquired n target s)" unfolding a
        by (rule shutdown_inv_stage[where s = s]) (use assms Acquiring in \<open>simp_all add: srv_inv_def\<close>)
    qed
  qed
qed (use assms in \<open>simp_all add: acquired_def\<close>)

lemma srv_inv_settles:
  assumes "srv_inv s" "n < length (sv_works s)"
  shows "srv_inv (work_settles n outcome s)"
proof -
  let ?i = "wk_id (sv_works s ! n)"
  have r: "srv_inv (set_stage n WorkDone (replyOk (Some n) ?i v s))" "srv_inv (set_stage n WorkDone (replyError (Some n) ?i e s))"
    if "wk_stage (sv_works s ! n) \<noteq> WorkDone" for v e
    using srv_inv_stage[OF assms that] is_reply_built by (simp_all add: replyOk_def replyError_def)
  show ?thesis
  proof (cases "wk_stage (sv_works s ! n)")
    case (Acquiring ob t)
    let ?s = "s\<lparr>sv_acquiring := AList.delete ob (sv_acquiring s)\<rparr>"
    have "srv_inv ?s" using assms(1) by (rule srv_inv_view) simp_all
    then have "srv_inv (set_stage n WorkDone (replyError (Some n) ?i e ?s))" for e
      unfolding replyError_def by (rule srv_inv_stage) (use assms Acquiring is_reply_built in simp_all)
    then show ?thesis using Acquiring srv_inv_acquired[OF assms] by (simp add: work_settles_def split: sum.split)
  next
    case Discarding
    then have "sv_closed s" using reply_invD(2)[of s n] assms by (simp add: srv_inv_def answered_def)
    then have "reply_inv (set_stage n WorkDone s)"
      using reply_inv_stage[of s n WorkDone] assms Discarding by (simp add: srv_inv_def)
    moreover have "acquiring_inv (set_stage n WorkDone s)"
      by (rule acquiring_inv_set_stage[where s = s]) (use assms in \<open>simp_all add: srv_inv_def\<close>)
    moreover have "shutdown_inv (set_stage n WorkDone s)"
      by (rule shutdown_inv_stage[where s = s]) (use assms Discarding in \<open>simp_all add: srv_inv_def\<close>)
    ultimately show ?thesis using assms Discarding by (simp add: work_settles_def srv_inv_def)
  next
    case (Calling b)
    then show ?thesis using r by (simp add: work_settles_def Let_def split: sum.split)
  qed (use r assms in \<open>simp_all add: work_settles_def Let_def\<close>)
qed


lemma releaseObservation_parts:
  "sv_works (releaseObservation ob s) = sv_works s" "sv_sent (releaseObservation ob s) = sv_sent s"
  "sv_cancelled (releaseObservation ob s) = sv_cancelled s" "sv_closed (releaseObservation ob s) = sv_closed s"
  "sv_inflight (releaseObservation ob s) = sv_inflight s" "sv_shutdown (releaseObservation ob s) = sv_shutdown s"
  "sv_disposes (releaseObservation ob s) = sv_disposes s" "sv_accepting (releaseObservation ob s) = sv_accepting s"
  "map sh_observation (sv_handles (releaseObservation ob s)) = map sh_observation (sv_handles s)"
  by (simp_all add: releaseObservation_def call_release_observations split: option.split)

definition plain_stage :: "Stage \<Rightarrow> bool" where
  "plain_stage st \<longleftrightarrow> (case st of Calling b \<Rightarrow> True | Passing \<Rightarrow> True | Throwing e \<Rightarrow> True | _ \<Rightarrow> False)"

lemma plain_stages [simp]: "plain_stage (Calling b)" "plain_stage Passing" "plain_stage (Throwing e)"
  "\<not> plain_stage WorkDone" "\<not> plain_stage Discarding" "\<not> plain_stage (Acquiring ob t)"
  by (simp_all add: plain_stage_def)

lemma dispatch_cases:
  obtains (acquire) "acquires r"
      "dispatch r s = (s\<lparr>sv_acquiring := AList.update (observation_of r) (length (sv_cancelled s)) (sv_acquiring s),
           sv_cancelled := sv_cancelled s @ [False]\<rparr>, Acquiring (observation_of r) (length (sv_cancelled s)))"
  | (release) st where "\<not> acquires r" "dispatch r s = (releaseObservation (observation_of r) s, st)" "plain_stage st"
  | (plain) st where "\<not> acquires r" "dispatch r s = (s, st)" "plain_stage st"
proof (cases "acquires r")
  case True
  then show ?thesis using acquire by (simp add: dispatch_def)
next
  case False
  note a = False
  show ?thesis
  proof (cases "jget r ''kind'' = JStr ''releaseObservation''")
    case True
    then show ?thesis using release[OF a] a by (simp add: dispatch_def)
  next
    case False
    have "\<exists>st. dispatch r s = (s, st) \<and> plain_stage st"
      using a False by (cases "jget r ''kind'' = JStr ''pull''"; cases "service_call r") (auto simp: dispatch_def split: prod.split)
    then show ?thesis using plain[OF a] by blast
  qed
qed

lemma dispatch_parts:
  "sv_works (fst (dispatch r s)) = sv_works s" "sv_sent (fst (dispatch r s)) = sv_sent s" "sv_closed (fst (dispatch r s)) = sv_closed s"
  "sv_inflight (fst (dispatch r s)) = sv_inflight s" "sv_shutdown (fst (dispatch r s)) = sv_shutdown s"
  "sv_disposes (fst (dispatch r s)) = sv_disposes s" "sv_accepting (fst (dispatch r s)) = sv_accepting s"
  "map sh_observation (sv_handles (fst (dispatch r s))) = map sh_observation (sv_handles s)"
proof -
  have "sv_works (fst (dispatch r s)) = sv_works s \<and> sv_sent (fst (dispatch r s)) = sv_sent s \<and>
    sv_closed (fst (dispatch r s)) = sv_closed s \<and> sv_inflight (fst (dispatch r s)) = sv_inflight s \<and>
    sv_shutdown (fst (dispatch r s)) = sv_shutdown s \<and> sv_disposes (fst (dispatch r s)) = sv_disposes s \<and>
    sv_accepting (fst (dispatch r s)) = sv_accepting s \<and>
    map sh_observation (sv_handles (fst (dispatch r s))) = map sh_observation (sv_handles s)"
  proof (cases rule: dispatch_cases[of r s])
    case acquire
    show ?thesis unfolding acquire(2) by simp
  next
    case (release st)
    show ?thesis unfolding release(2) by (simp add: releaseObservation_parts)
  next
    case (plain st)
    show ?thesis unfolding plain(2) by simp
  qed
  then show "sv_works (fst (dispatch r s)) = sv_works s" "sv_sent (fst (dispatch r s)) = sv_sent s"
    "sv_closed (fst (dispatch r s)) = sv_closed s" "sv_inflight (fst (dispatch r s)) = sv_inflight s"
    "sv_shutdown (fst (dispatch r s)) = sv_shutdown s" "sv_disposes (fst (dispatch r s)) = sv_disposes s"
    "sv_accepting (fst (dispatch r s)) = sv_accepting s"
    "map sh_observation (sv_handles (fst (dispatch r s))) = map sh_observation (sv_handles s)" by blast+
qed

lemma dispatch_stage:
  "snd (dispatch r s) \<noteq> WorkDone" "snd (dispatch r s) \<noteq> Discarding"
  "sv_cancelled (fst (dispatch r s)) = sv_cancelled s @ (if acquires r then [False] else [])"
  "snd (dispatch r s) = Acquiring ob t \<Longrightarrow> acquires r \<and> ob = observation_of r \<and> t = length (sv_cancelled s)"
proof -
  have "snd (dispatch r s) \<noteq> WorkDone \<and> snd (dispatch r s) \<noteq> Discarding \<and>
    sv_cancelled (fst (dispatch r s)) = sv_cancelled s @ (if acquires r then [False] else []) \<and>
    (snd (dispatch r s) = Acquiring ob t \<longrightarrow> acquires r \<and> ob = observation_of r \<and> t = length (sv_cancelled s))"
  proof (cases rule: dispatch_cases[of r s])
    case acquire
    show ?thesis unfolding acquire(2) using acquire(1) by auto
  next
    case (release st)
    show ?thesis unfolding release(2) using release(1,3) by (auto simp: releaseObservation_parts)
  next
    case (plain st)
    show ?thesis unfolding plain(2) using plain(1,3) by auto
  qed
  then show "snd (dispatch r s) \<noteq> WorkDone" "snd (dispatch r s) \<noteq> Discarding"
    "sv_cancelled (fst (dispatch r s)) = sv_cancelled s @ (if acquires r then [False] else [])"
    "snd (dispatch r s) = Acquiring ob t \<Longrightarrow> acquires r \<and> ob = observation_of r \<and> t = length (sv_cancelled s)" by blast+
qed

lemma handle_inv_dispatch: "handle_inv s \<Longrightarrow> handle_inv (fst (dispatch r s))"
proof (cases rule: dispatch_cases[of r s])
  case acquire
  assume i: "handle_inv s"
  show ?thesis unfolding acquire(2) by (rule handle_inv_view[where s = s]) (use i in simp_all)
qed (simp_all add: handle_inv_release)

lemma srv_inv_admit:
  assumes "srv_inv s" "acquires r \<Longrightarrow> observation_of r \<notin> used_observations s" "sv_accepting s"
  shows "srv_inv (admit r s)"
proof -
  let ?d = "dispatch r s" and ?n = "length (sv_works s)"
  let ?s = "fst ?d"
  define s' where "s' = admit r s"
  have eq: "s' = ?s\<lparr>sv_works := sv_works s @ [\<lparr>wk_id = str_of (jget r ''id''), wk_stage = snd ?d\<rparr>], sv_inflight := sv_inflight s @ [?n]\<rparr>"
    by (simp add: s'_def admit_def Let_def case_prod_beta)
  have old: "sv_works s' ! n = sv_works s ! n" if "n < ?n" for n using that by (simp add: eq nth_append)
  have new: "wk_stage (sv_works s' ! ?n) = snd ?d" by (simp add: eq nth_append)
  have len: "length (sv_works s') = Suc ?n" by (simp add: eq)
  have obs: "sh_observation ` set (sv_handles s') = sh_observation ` set (sv_handles s)"
    using arg_cong[OF dispatch_parts(8)[of r s], of set] by (simp add: eq)
  have "handle_inv s'"
    by (rule handle_inv_view[where s = "fst ?d"]) (use handle_inv_dispatch[of s r] assms(1) in \<open>simp_all add: eq srv_inv_def\<close>)
  moreover have "acquiring_inv s'" unfolding acquiring_inv_def
  proof (intro allI impI)
    fix m ob t assume m: "m < length (sv_works s')" "wk_stage (sv_works s' ! m) = Acquiring ob t"
    have a: "acquiring_inv s" using assms(1) by (simp add: srv_inv_def)
    have f: "m < ?n" if "ob \<in> used_observations s"
    proof (rule ccontr)
      assume "\<not> m < ?n"
      then have "m = ?n" using m(1) len by simp
      then have "acquires r" "ob = observation_of r" using m(2) new dispatch_stage(4)[of r s ob t] by simp_all
      then show False using assms(2) that by simp
    qed
    have u: "ob \<in> used_observations s" if "k < ?n" "wk_stage (sv_works s ! k) = Acquiring ob v" for k v
      using that nth_mem[of k "sv_works s"] by (auto simp: used_observations_def)
    have e: "k = m" if "k < length (sv_works s')" "wk_stage (sv_works s' ! k) = Acquiring ob v" for k v
    proof (cases "k < ?n")
      case True
      then have s: "wk_stage (sv_works s ! k) = Acquiring ob v" using that old by simp
      then have "m < ?n" using f u True by blast
      then show ?thesis using a m(2) s True old by (metis acquiring_inv_def)
    next
      case False
      then have k: "k = ?n" using that len by simp
      then have "acquires r" "ob = observation_of r" using that new dispatch_stage(4)[of r s ob v] by simp_all
      then have "\<not> m < ?n" using u[of m t] m(2) old assms(2) by auto
      then show ?thesis using k m(1) len by simp
    qed
    have "ob \<notin> sh_observation ` set (sv_handles s)"
    proof (cases "m < ?n")
      case True
      then show ?thesis using a m(2) old by (auto simp: acquiring_inv_def)
    next
      case False
      then show ?thesis using f by (auto simp: used_observations_def)
    qed
    then show "ob \<notin> sh_observation ` set (sv_handles s') \<and>
        (\<forall>k < length (sv_works s'). \<forall>v. wk_stage (sv_works s' ! k) = Acquiring ob v \<longrightarrow> k = m)"
      using e obs by blast
  qed
  moreover have "reply_inv s'"
  proof (rule reply_invI)
    fix p assume p: "p \<in> set (sv_sent s')"
    then have "own_reply s p" using reply_invD(1)[of s p] assms(1) by (simp add: eq dispatch_parts srv_inv_def)
    then show "own_reply s' p" by (auto simp: own_reply_def len old split: option.splits)
  next
    fix n assume n: "n < length (sv_works s')"
    have r: "replies s' n = replies s n" by (simp add: replies_def eq dispatch_parts)
    show "answered s' n"
    proof (cases "n < ?n")
      case True
      then have "answered s n" using reply_invD(2)[of s n] assms(1) by (simp add: srv_inv_def)
      moreover have "sv_closed s' = sv_closed s" "length (sv_cancelled s) \<le> length (sv_cancelled s')"
        by (simp_all add: eq dispatch_parts dispatch_stage(3))
      ultimately show ?thesis using answered_view[OF old[OF True] r] by simp
    next
      case False
      then have "n = ?n" using n len by simp
      moreover have "replies s n = 0"
      proof -
        have "fst p \<noteq> Some n" if "p \<in> set (sv_sent s)" for p
          using reply_invD(1)[of s p] assms(1) that False by (auto simp: srv_inv_def own_reply_def)
        then show ?thesis by (simp add: replies_def filter_empty_conv)
      qed
      moreover have "length (sv_cancelled s') = length (sv_cancelled s) + (if acquires r then 1 else 0)"
        by (simp add: eq dispatch_stage(3))
      moreover have "replies s' n = replies s ?n" using r \<open>n = ?n\<close> by simp
      ultimately show ?thesis using new dispatch_stage(1,2,4)[of r s] by (auto simp: answered_def)
    qed
  next
    assume "True \<in> set (sv_cancelled s')"
    then show "sv_closed s'" using reply_invD(3)[of s] assms(1) by (auto simp: eq dispatch_parts dispatch_stage(3) srv_inv_def split: if_splits)
  qed
  moreover have "shutdown_inv s'"
  proof -
    have i: "shutdown_inv s" using assms(1) by (simp add: srv_inv_def)
    then have "sv_shutdown s = NoShutdown" using assms(3) by (auto simp: shutdown_inv_def)
    moreover have "done_except s' (sv_inflight s')"
      using i old len by (auto simp: shutdown_inv_def done_except_def eq less_Suc_eq)
    ultimately show ?thesis using i by (simp add: shutdown_inv_def eq dispatch_parts)
  qed
  ultimately show ?thesis by (simp add: srv_inv_def s'_def)
qed


lemma srv_inv_message:
  assumes "srv_inv s" "\<forall>r. frame = Some r \<and> acquires r \<longrightarrow> observation_of r \<notin> used_observations s"
  shows "srv_inv (on_message frame s)"
proof (cases frame)
  case (Some r)
  let ?s = "s\<lparr>sv_accepting := False, sv_shutdown := Draining (str_of (jget r ''id'')) (sv_inflight s)\<rparr>"
  have "srv_inv ?s" if "sv_accepting s"
    unfolding srv_inv_def
  proof (intro conjI)
    have i: "shutdown_inv s" using assms(1) by (simp add: srv_inv_def)
    then have "sv_shutdown s = NoShutdown" using that by (auto simp: shutdown_inv_def)
    then show "shutdown_inv ?s" using i by (auto simp: shutdown_inv_def done_except_def)
    show "handle_inv ?s" by (rule handle_inv_view[where s = s]) (use assms(1) in \<open>simp_all add: srv_inv_def\<close>)
    show "acquiring_inv ?s" by (rule acquiring_inv_view[where s = s]) (use assms(1) in \<open>simp_all add: srv_inv_def\<close>)
    show "reply_inv ?s" by (rule reply_inv_view[where s = s]) (use assms(1) in \<open>simp_all add: srv_inv_def\<close>)
  qed
  then show ?thesis using assms Some srv_inv_admit[OF assms(1), of r] by (simp add: on_message_def)
qed (use assms in \<open>simp add: on_message_def\<close>)

lemma srv_inv_shutdown:
  assumes "srv_inv s"
  shows "srv_inv (shutdown_continues s)"
proof (cases "sv_shutdown s")
  case (Draining i ns)
  let ?s = "s\<lparr>sv_shutdown := Disposing i, sv_disposes := Suc (sv_disposes s)\<rparr>"
  have "srv_inv ?s" if d: "list_all (\<lambda>n. wk_stage (sv_works s ! n) = WorkDone) ns"
    unfolding srv_inv_def
  proof (intro conjI)
    have "shutdown_inv s" using assms by (simp add: srv_inv_def)
    then show "shutdown_inv ?s" using d Draining by (auto simp: shutdown_inv_def done_except_def list_all_iff)
    show "handle_inv ?s" by (rule handle_inv_view[where s = s]) (use assms in \<open>simp_all add: srv_inv_def\<close>)
    show "acquiring_inv ?s" by (rule acquiring_inv_view[where s = s]) (use assms in \<open>simp_all add: srv_inv_def\<close>)
    show "reply_inv ?s" by (rule reply_inv_view[where s = s]) (use assms in \<open>simp_all add: srv_inv_def\<close>)
  qed
  then show ?thesis using assms Draining by (simp add: shutdown_continues_def)
next
  case (Disposing i)
  let ?r = "replyOk None i JNull (s\<lparr>sv_shutdown := ShutdownDone\<rparr>)"
  note p = assms[unfolded srv_inv_def]
  have h: "handle_inv ?r" by (rule handle_inv_view[where s = s]) (use p in \<open>auto simp: replyOk_def\<close>)
  have r: "reply_inv ?r"
    by (rule reply_inv_send[where s = s and b = "\<not> sv_closed s" and f = "reply_ok i JNull"])
      (use p reply_invD(3)[of s] in \<open>simp_all add: replyOk_def\<close>)
  have "srv_inv (endConnection ?r)"
    unfolding srv_inv_def
  proof (intro conjI)
    show "handle_inv (endConnection ?r)" by (rule handle_inv_end[OF h])
    show "acquiring_inv (endConnection ?r)"
      by (rule acquiring_inv_view[where s = s]) (use p in \<open>simp_all add: endConnection_parts replyOk_def\<close>)
    show "reply_inv (endConnection ?r)"
      by (rule reply_inv_send[OF _ _ _ _ _ r, where b = False]) (simp_all add: endConnection_parts length_cancelled_end)
    show "shutdown_inv (endConnection ?r)"
      using p Disposing by (auto simp: shutdown_inv_def done_except_def endConnection_parts replyOk_def)
  qed
  then show ?thesis using Disposing by (simp add: shutdown_continues_def)
qed (use assms in \<open>simp_all add: shutdown_continues_def\<close>)

lemma srv_inv_leaves:
  assumes "srv_inv s"
  shows "srv_inv (work_leaves n s)"
proof -
  let ?s = "s\<lparr>sv_inflight := removeAll n (sv_inflight s)\<rparr>"
  have "srv_inv ?s" if "wk_stage (sv_works s ! n) = WorkDone"
    unfolding srv_inv_def
  proof (intro conjI)
    show "shutdown_inv ?s" using assms that by (auto simp: srv_inv_def shutdown_inv_def done_except_def split: ShutdownStage.split)
    show "handle_inv ?s" by (rule handle_inv_view[where s = s]) (use assms in \<open>simp_all add: srv_inv_def\<close>)
    show "acquiring_inv ?s" by (rule acquiring_inv_view[where s = s]) (use assms in \<open>simp_all add: srv_inv_def\<close>)
    show "reply_inv ?s" by (rule reply_inv_view[where s = s]) (use assms in \<open>simp_all add: srv_inv_def\<close>)
  qed
  then show ?thesis using assms by (simp add: work_leaves_def)
qed

lemma srv_inv_sink:
  assumes "srv_inv s"
  shows "srv_inv (sink_frame ob frame s)"
  unfolding srv_inv_def
proof (intro conjI)
  let ?s = "sink_frame ob frame s"
  show "handle_inv ?s" using assms by (simp add: handle_inv_sink srv_inv_def)
  show "acquiring_inv ?s" by (rule acquiring_inv_view[where s = s]) (use assms in \<open>simp_all add: srv_inv_def sink_frame_def\<close>)
  show "reply_inv ?s"
    by (rule reply_inv_send[where s = s and b = "\<not> sv_closed s" and f = "observation_push ob frame"])
      (use assms reply_invD(3)[of s] in \<open>simp_all add: srv_inv_def sink_frame_def split: if_splits\<close>)
  show "shutdown_inv ?s" by (rule shutdown_inv_view[where s = s]) (use assms in \<open>simp_all add: srv_inv_def sink_frame_def\<close>)
qed

lemma srv_inv_send: "srv_inv s \<Longrightarrow> srv_inv (send None f s)"
  by (rule srv_inv_push[where b = "\<not> sv_closed s" and s = s and f = f]) simp_all

text \<open>Before the handshake there is nothing to serve.\<close>

definition quiet :: "ServerLink \<Rightarrow> bool" where
  "quiet s \<longleftrightarrow> (\<not> sv_serving s \<longrightarrow> sv_works s = [] \<and> sv_handles s = [] \<and> sv_observations s = [])"

lemma quiet_step: "srv_step s s' \<Longrightarrow> quiet s \<Longrightarrow> quiet s'"
proof (induction rule: srv_step.induct)
  case (srv_message s frame)
  have "sv_serving (releaseObservation ob s) = sv_serving s" for ob by (simp add: releaseObservation_def split: option.split)
  then have "sv_serving (fst (dispatch r s))" for r using srv_message(1) by (cases rule: dispatch_cases[of r s]) simp_all
  then have "sv_serving (on_message frame s)"
    using srv_message(1) by (simp add: on_message_def admit_def Let_def case_prod_beta split: option.split)
  then show ?case by (simp add: quiet_def)
next
  case (srv_settles n s outcome)
  then have "sv_serving s" by (auto simp: quiet_def)
  then have "sv_serving (work_settles n outcome s)"
    by (simp add: work_settles_def acquired_def Let_def replyOk_def replyError_def split: Stage.split sum.split)
  then show ?case by (simp add: quiet_def)
qed (auto simp: quiet_def info_settles_def work_leaves_def shutdown_continues_def sink_frame_def on_service_event_def on_pong_def
      heartbeat_tick_def ending_settles_def endConnection_parts replyOk_def endConnection_def Let_def
      split: sum.split ShutdownStage.split)

lemma srv_inv_step: "srv_step s s' \<Longrightarrow> srv_inv s \<Longrightarrow> quiet s \<Longrightarrow> srv_inv s'"
proof (induction rule: srv_step.induct)
  case (srv_info s registration outcome now)
  have "srv_inv (s\<lparr>sv_closed := True\<rparr>)" if q: "\<not> sv_serving s"
    unfolding srv_inv_def
  proof (intro conjI)
    let ?s = "s\<lparr>sv_closed := True\<rparr>"
    show "shutdown_inv ?s" by (rule shutdown_inv_view[where s = s]) (use srv_info in \<open>simp_all add: srv_inv_def\<close>)
    show "handle_inv ?s" using srv_info(2) q by (simp add: handle_inv_def quiet_def)
    show "acquiring_inv ?s" by (rule acquiring_inv_view[where s = s]) (use srv_info in \<open>simp_all add: srv_inv_def\<close>)
    show "reply_inv ?s" by (rule reply_inv_view[where s = s]) (use srv_info in \<open>simp_all add: srv_inv_def\<close>)
  qed
  moreover have "srv_inv ((send None (hello_push registration v) s)\<lparr>sv_subscribed := True, sv_lastPong := now, sv_heartbeat := True, sv_serving := True\<rparr>)" for v
    using srv_inv_send[OF srv_info(1)] by (rule srv_inv_view) simp_all
  ultimately show ?case using srv_info by (simp add: info_settles_def split: sum.split)
next
  case (srv_event s event)
  then show ?case using srv_inv_send[OF srv_event(1)] srv_inv_end[OF srv_inv_send[OF srv_event(1)]] by (simp add: on_service_event_def)
next
  case (srv_tick s timeoutMs now)
  have "srv_inv ((endConnection s)\<lparr>sv_ending := Suc (sv_ending s)\<rparr>)" using srv_inv_end[OF srv_tick(1)] by (rule srv_inv_view) simp_all
  then show ?case using srv_tick by (simp add: heartbeat_tick_def)
next
  case (srv_pong s now)
  show ?case unfolding on_pong_def using srv_pong(1) by (rule srv_inv_view) simp_all
next
  case (srv_ending s)
  have "srv_inv (s\<lparr>sv_ending := sv_ending s - 1, sv_terminates := Suc (sv_terminates s)\<rparr>)" using srv_ending(1) by (rule srv_inv_view) simp_all
  then show ?case using srv_ending by (simp add: ending_settles_def)
qed (simp_all add: srv_inv_settles srv_inv_leaves srv_inv_shutdown srv_inv_sink srv_inv_end srv_inv_message)


lemma srv_reach_inv: "srv_reach s \<Longrightarrow> srv_inv s \<and> quiet s"
proof (induction rule: srv_reach.induct)
  case srv_new
  show ?case using srv_inv_start by (simp add: quiet_def serve_start_def)
next
  case (srv_next s s')
  then show ?case using srv_inv_step quiet_step by blast
qed

section \<open>Properties\<close>

text \<open>
  \<^bold>\<open>Property C18.\<close>  No observation outlives its connection: whatever the peer asked for and whenever the socket
  closed, also while an acquisition was waiting, every observation the service returned is held by the
  open connection, or was released exactly once, or had ended by itself; after the close none is held.
\<close>

theorem server_releases_all:
  assumes "srv_reach s"
  shows "(\<forall>h < length (sv_handles s). releases s h = 0 \<and> (observation_at s h, h) \<in> set (sv_observations s) \<or>
      releases s h = 0 \<and> ended s (observation_at s h) \<or> releases s h = 1) \<and> (sv_closed s \<longrightarrow> sv_observations s = [])"
  using srv_reach_inv[OF assms] by (auto simp: srv_inv_def handle_inv_def)

definition sample_request :: "string \<Rightarrow> string \<Rightarrow> jsv" where
  "sample_request i k = JObj [(''id'', JStr i), (''kind'', JStr k), (''observation'', JStr ''o''), (''address'', JNull)]"

definition sample_serving :: ServerLink where
  "sample_serving = info_settles JNull (Inr JNull) 0 serve_start"

lemma sample_serving_reach: "srv_reach sample_serving"
  unfolding sample_serving_def by (rule srv_next[OF srv_new srv_info])

lemma sample_serving_eq:
  "sample_serving = serve_start\<lparr>sv_subscribed := True, sv_serving := True, sv_heartbeat := True, sv_sent := [(None, hello_push JNull JNull)]\<rparr>"
  by (simp add: sample_serving_def info_settles_def serve_start_def send_def)

text \<open>An observation is asked for, the socket closes, then the service returns it.\<close>

definition sample_late :: ServerLink where
  "sample_late = work_settles 0 (Inr JNull) (endConnection (on_message (Some (sample_request ''r'' ''observeSession'')) sample_serving))"

lemma sample_asked:
  "on_message (Some (sample_request ''r'' ''observeSession'')) sample_serving =
   sample_serving\<lparr>sv_acquiring := [(''o'', 0)], sv_cancelled := [False], sv_inflight := [0],
     sv_works := [\<lparr>wk_id = ''r'', wk_stage = Acquiring ''o'' 0\<rparr>]\<rparr>"
  by (simp add: sample_serving_eq serve_start_def on_message_def admit_def dispatch_def acquires_def observation_of_def sample_request_def)

lemma sample_late_reach: "srv_reach sample_late"
proof -
  have u: "used_observations sample_serving = {}" by (simp add: used_observations_def sample_serving_eq serve_start_def)
  have 1: "srv_reach (on_message (Some (sample_request ''r'' ''observeSession'')) sample_serving)"
    by (rule srv_next[OF sample_serving_reach srv_message]) (unfold u, simp_all add: sample_serving_eq)
  have 2: "srv_reach (endConnection (on_message (Some (sample_request ''r'' ''observeSession'')) sample_serving))"
    by (rule srv_next[OF 1 srv_close]) (unfold sample_asked, simp add: sample_serving_eq)
  show ?thesis unfolding sample_late_def by (rule srv_next[OF 2 srv_settles]) (unfold endConnection_parts sample_asked, simp)
qed

theorem server_releases_all_witness:
  "sv_closed sample_late \<and> releases sample_late 0 = 1 \<and> length (sv_handles sample_late) = 1"
proof -
  have l: "length (sv_handles sample_late) = 1" and c: "sv_closed sample_late"
    and e: "sv_sent sample_late = [(None, hello_push JNull JNull)]"
    unfolding sample_late_def sample_asked
    by (simp_all add: sample_serving_eq serve_start_def endConnection_def work_settles_def acquired_def Let_def set_stage_def
        call_release_def)
  have "\<not> ended sample_late ob" for ob by (simp add: ended_def e hello_push_def observation_push_def)
  then show ?thesis using server_releases_all[OF sample_late_reach] l c by auto
qed

text \<open>
  \<^bold>\<open>Property C19.\<close>  Every admitted request is answered once: while its work waits no reply to it is sent, when the
  work has settled exactly one is, with its id, and only a closed connection leaves one out.
\<close>

theorem server_answers_once:
  assumes "srv_reach s" "n < length (sv_works s)"
  shows "(if wk_stage (sv_works s ! n) = WorkDone then replies s n \<le> 1 \<and> (\<not> sv_closed s \<longrightarrow> replies s n = 1) else replies s n = 0) \<and>
    list_all (\<lambda>p. fst p = Some n \<longrightarrow> isWorkerReply (snd p) \<and> jget (snd p) ''id'' = JStr (wk_id (sv_works s ! n))) (sv_sent s)"
proof -
  have i: "reply_inv s" using srv_reach_inv[OF assms(1)] by (simp add: srv_inv_def)
  have "answered s n" by (rule reply_invD(2)[OF i assms(2)])
  moreover have "isWorkerReply (snd p) \<and> jget (snd p) ''id'' = JStr (wk_id (sv_works s ! n))" if "p \<in> set (sv_sent s)" "fst p = Some n" for p
    using reply_invD(1)[OF i that(1)] that(2) by (simp add: own_reply_def)
  ultimately show ?thesis by (auto simp: answered_def list_all_iff)
qed

theorem server_answers_once_witness:
  "replies (work_settles 0 (Inr JNull) (on_message (Some (sample_request ''r'' ''closeSession'')) sample_serving)) 0 = 1"
proof -
  let ?a = "on_message (Some (sample_request ''r'' ''closeSession'')) sample_serving"
  have a: "?a = sample_serving\<lparr>sv_inflight := [0], sv_works := [\<lparr>wk_id = ''r'', wk_stage = Calling False\<rparr>]\<rparr>"
    by (simp add: sample_serving_eq serve_start_def on_message_def admit_def dispatch_def acquires_def service_call_def Let_def
        sample_request_def)
  have 1: "srv_reach ?a"
    by (rule srv_next[OF sample_serving_reach srv_message]) (simp_all add: sample_serving_eq sample_request_def acquires_def)
  have 2: "srv_reach (work_settles 0 (Inr JNull) ?a)" by (rule srv_next[OF 1 srv_settles]) (unfold a, simp)
  have "wk_stage (sv_works (work_settles 0 (Inr JNull) ?a) ! 0) = WorkDone" "\<not> sv_closed (work_settles 0 (Inr JNull) ?a)"
    "0 < length (sv_works (work_settles 0 (Inr JNull) ?a))"
    unfolding a by (simp_all add: work_settles_def set_stage_def replyOk_def send_def sample_serving_eq serve_start_def)
  then show ?thesis using server_answers_once[OF 2, of 0] by simp
qed


text \<open>After a close nothing is sent and nothing admitted.\<close>

lemma no_more: "srv_step s s' \<Longrightarrow> sv_closed s \<Longrightarrow>
  sv_closed s' \<and> sv_sent s' = sv_sent s \<and> map wk_id (sv_works s') = map wk_id (sv_works s)"
proof (induction rule: srv_step.induct)
  case (srv_settles n s outcome)
  have w: "map wk_id (sv_works (set_stage m st s')) = map wk_id (sv_works s')" for m st s'
    by (rule nth_equalityI) (simp_all add: stage_set_stage)
  show ?case using srv_settles(2)
    by (cases "wk_stage (sv_works s ! n)")
      (auto simp: work_settles_def acquired_def Let_def replyOk_def replyError_def w split: sum.split)
qed (auto simp: info_settles_def on_message_def work_leaves_def shutdown_continues_def sink_frame_def on_service_event_def on_pong_def
      heartbeat_tick_def ending_settles_def endConnection_parts replyOk_def split: sum.split option.split ShutdownStage.split)

lemma server_no_more_steps: "srv_step\<^sup>*\<^sup>* s s' \<Longrightarrow> sv_closed s \<Longrightarrow>
  sv_closed s' \<and> sv_sent s' = sv_sent s \<and> map wk_id (sv_works s') = map wk_id (sv_works s)"
  by (induction rule: rtranclp_induct) (auto dest: no_more)

lemma srv_reach_steps: "srv_step\<^sup>*\<^sup>* s s' \<Longrightarrow> srv_reach s \<Longrightarrow> srv_reach s'"
  by (induction rule: rtranclp_induct) (auto intro: srv_next)


definition sample_stopped :: ServerLink where
  "sample_stopped = shutdown_continues (shutdown_continues (on_message (Some (sample_request ''r'' ''shutdown'')) sample_serving))"


text \<open>
  The interval of the heartbeat is never cleared: it runs from the handshake on, also after the
  connection has ended, and with the peer silent every tick terminates the socket once more.
\<close>

lemma heartbeat_step: "srv_step s s' \<Longrightarrow> sv_serving s = sv_heartbeat s \<Longrightarrow> sv_serving s' = sv_heartbeat s' \<and> (sv_heartbeat s \<longrightarrow> sv_heartbeat s')"
proof (induction rule: srv_step.induct)
  case (srv_message s frame)
  have "sv_serving (releaseObservation ob s) = sv_serving s" "sv_heartbeat (releaseObservation ob s) = sv_heartbeat s" for ob
    by (simp_all add: releaseObservation_def split: option.split)
  then have "sv_serving (fst (dispatch r s)) = sv_serving s" "sv_heartbeat (fst (dispatch r s)) = sv_heartbeat s" for r
    by (cases rule: dispatch_cases[of r s]; simp)+
  then show ?case using srv_message(3) by (simp add: on_message_def admit_def Let_def case_prod_beta split: option.split)
next
  case (srv_settles n s outcome)
  then show ?case
    by (simp add: work_settles_def acquired_def Let_def replyOk_def replyError_def split: Stage.split sum.split)
qed (auto simp: info_settles_def work_leaves_def shutdown_continues_def sink_frame_def on_service_event_def on_pong_def
      heartbeat_tick_def ending_settles_def endConnection_parts replyOk_def split: sum.split ShutdownStage.split)

lemma heartbeat_never_cleared:
  assumes "srv_reach s" "sv_serving s"
  shows "sv_heartbeat s \<and> (now - sv_lastPong s > timeoutMs \<longrightarrow>
    sv_terminates (ending_settles (heartbeat_tick timeoutMs now s)) = Suc (sv_terminates s))"
proof -
  have "sv_serving s = sv_heartbeat s" using assms(1)
    by (induction rule: srv_reach.induct) (simp add: serve_start_def, use heartbeat_step in blast)
  moreover have "sv_terminates (endConnection s) = sv_terminates s"
  proof -
    have "sv_terminates (fold call_release hs s') = sv_terminates s'" for hs s'
      by (induction hs arbitrary: s') (simp_all add: call_release_def)
    then show ?thesis by (simp add: endConnection_def Let_def)
  qed
  ultimately show ?thesis using assms(2) by (simp add: heartbeat_tick_def ending_settles_def)
qed

end
