(* ===== verification/WorkerClient.thy ===== *)
theory WorkerClient
  imports WorkerProtocol "HOL-Library.Multiset"
begin

text \<open>
  The daemon's end of the link, \<^verbatim>\<open>packages/bridge/src/host/worker-client.ts\<close>: the closure variables of one
  \<^verbatim>\<open>adoptWorkerConnection\<close> as a record, its handlers and the methods of the worker as functions, every
  asynchronous method cut at its await.  A promise is a ticket; what settles it, what a sink receives and what
  the listeners hear are logs.  The socket is the environment.  A listener of the withdrawal may drop the link
  at once, as the daemon's does; what other callbacks do is a later step.
\<close>

section \<open>State\<close>

text \<open>
  An acquisition that waits for its reply: the ticket, the observation it allocated, the address it asked
  for (\<open>None\<close> for \<^verbatim>\<open>createSession\<close>, which knows it only from the reply), and how it settled.
\<close>

record Acquisition =
  aq_ticket :: nat
  aq_observation :: string
  aq_address :: "jsv option"
  aq_project :: jsv
  aq_result :: "(string + jsv) option"

record WorkerLink =
  cl_pending :: "(string \<times> nat) list"
  cl_calls :: nat
  cl_outcomes :: "(nat \<times> (string + jsv)) list"
  cl_observations :: "(string \<times> jsv option) list"
  cl_delivered :: "(string \<times> jsv) list"
  cl_eventListeners :: "nat list"
  cl_events :: "(nat \<times> jsv) list"
  cl_unavailableListeners :: "nat list"
  cl_withdrawals :: "(nat \<times> string) list"
  cl_hello :: "jsv option"
  cl_settled :: bool
  cl_connect :: "(string + jsv) list"
  cl_closed :: bool
  cl_lastPong :: int
  cl_heartbeat :: bool
  cl_unavailable :: bool
  cl_handshakeTimer :: bool
  cl_sent :: "jsv list"
  cl_terminates :: nat
  cl_closes :: "nat option list"
  cl_acquisitions :: "Acquisition list"

definition adopt :: "int \<Rightarrow> WorkerLink" where
  "adopt now = \<lparr>cl_pending = [], cl_calls = 0, cl_outcomes = [], cl_observations = [], cl_delivered = [], cl_eventListeners = [],
     cl_events = [], cl_unavailableListeners = [], cl_withdrawals = [], cl_hello = None, cl_settled = False, cl_connect = [],
     cl_closed = False, cl_lastPong = now, cl_heartbeat = False, cl_unavailable = False, cl_handshakeTimer = True, cl_sent = [],
     cl_terminates = 0, cl_closes = [], cl_acquisitions = []\<rparr>"

section \<open>The end of the link\<close>

definition reject_connect :: "string \<Rightarrow> WorkerLink \<Rightarrow> WorkerLink" where
  "reject_connect e s = s\<lparr>cl_settled := True, cl_connect := cl_connect s @ [Inl e]\<rparr>"

definition fail :: "string \<Rightarrow> WorkerLink \<Rightarrow> WorkerLink" where
  "fail e s =
     (if \<not> cl_settled s then reject_connect e s
      else s\<lparr>cl_outcomes := cl_outcomes s @ map (\<lambda>p. (snd p, Inl e)) (cl_pending s), cl_pending := [], cl_observations := []\<rparr>)"

text \<open>The state of the socket: 1 is open, 0 is connecting.\<close>

definition closeLink :: "nat \<Rightarrow> WorkerLink \<Rightarrow> WorkerLink" where
  "closeLink readyState s =
     (let s' = s\<lparr>cl_heartbeat := False, cl_observations := []\<rparr>
      in if readyState = 1 then s'\<lparr>cl_closes := cl_closes s @ [None]\<rparr>
         else if readyState = 0 then s'\<lparr>cl_terminates := Suc (cl_terminates s)\<rparr> else s')"

text \<open>\<open>drops\<close>: a listener closes the link at once.\<close>

definition withdraw :: "bool \<Rightarrow> string \<Rightarrow> WorkerLink \<Rightarrow> WorkerLink" where
  "withdraw drops reason s =
     (if cl_unavailable s then s
      else let s' = s\<lparr>cl_unavailable := True,
                      cl_withdrawals := cl_withdrawals s @ map (\<lambda>l. (l, reason)) (cl_unavailableListeners s)\<rparr>
           in if drops \<and> cl_unavailableListeners s \<noteq> [] then closeLink 1 s' else s')"

definition closed_frame :: "jsv \<Rightarrow> jsv" where
  "closed_frame address = JObj [(''kind'', JStr ''closed''), (''address'', address)]"

definition terminal_frames :: "(string \<times> jsv option) list \<Rightarrow> (string \<times> jsv) list" where
  "terminal_frames obs = concat (map (\<lambda>(ob, a). case a of None \<Rightarrow> [] | Some address \<Rightarrow> [(ob, closed_frame address)]) obs)"

definition terminate :: "bool \<Rightarrow> string \<Rightarrow> WorkerLink \<Rightarrow> WorkerLink" where
  "terminate drops reason s0 =
     (let s1 = withdraw drops reason s0;
          s2 = s1\<lparr>cl_delivered := cl_delivered s1 @ terminal_frames (cl_observations s1)\<rparr>;
          s3 = fail reason s2
      in s3\<lparr>cl_heartbeat := False, cl_terminates := Suc (cl_terminates s3)\<rparr>)"

section \<open>Requests\<close>

text \<open>The id is minted by \<^verbatim>\<open>randomUUID\<close>; \<open>refused\<close> is the error when the socket refuses to send.\<close>

definition request :: "jsv \<Rightarrow> string \<Rightarrow> string option \<Rightarrow> WorkerLink \<Rightarrow> WorkerLink" where
  "request body i refused s0 =
     (let n = cl_calls s0; s = s0\<lparr>cl_calls := Suc n\<rparr>
      in if cl_unavailable s then s\<lparr>cl_outcomes := cl_outcomes s @ [(n, Inl ''worker is unavailable'')]\<rparr>
         else case refused of
                Some e \<Rightarrow> s\<lparr>cl_outcomes := cl_outcomes s @ [(n, Inl e)]\<rparr>
              | None \<Rightarrow> s\<lparr>cl_pending := AList.update i n (cl_pending s), cl_sent := cl_sent s @ [jset ''id'' (JStr i) body]\<rparr>)"

section \<open>The methods of the worker\<close>

definition observeSession :: "jsv \<Rightarrow> jsv \<Rightarrow> string \<Rightarrow> string \<Rightarrow> string option \<Rightarrow> WorkerLink \<Rightarrow> WorkerLink" where
  "observeSession address cursor observation i refused s =
     (let s' = request (JObj [(''kind'', JStr ''observeSession''), (''address'', address), (''cursor'', coalesce cursor JNull),
                 (''observation'', JStr observation)]) i refused
                 (s\<lparr>cl_observations := AList.update observation (Some address) (cl_observations s)\<rparr>)
      in s'\<lparr>cl_acquisitions := cl_acquisitions s' @ [\<lparr>aq_ticket = cl_calls s, aq_observation = observation, aq_address = Some address,
              aq_project = JUndef, aq_result = None\<rparr>]\<rparr>)"

definition createSession :: "jsv \<Rightarrow> jsv \<Rightarrow> string \<Rightarrow> string \<Rightarrow> string option \<Rightarrow> WorkerLink \<Rightarrow> WorkerLink" where
  "createSession pid options observation i refused s =
     (let s' = request (JObj [(''kind'', JStr ''createSession''), (''projectId'', pid), (''observation'', JStr observation),
                 (''options'', JObj [(''text'', jget options ''text''), (''images'', jget options ''images''),
                    (''model'', jget options ''model''), (''thinkingLevel'', jget options ''thinkingLevel'')])]) i refused
                 (s\<lparr>cl_observations := AList.update observation None (cl_observations s)\<rparr>)
      in s'\<lparr>cl_acquisitions := cl_acquisitions s' @ [\<lparr>aq_ticket = cl_calls s, aq_observation = observation, aq_address = None,
              aq_project = pid, aq_result = None\<rparr>]\<rparr>)"

text \<open>The continuation of an acquisition, once its request has settled.\<close>

definition acquisition_continues :: "nat \<Rightarrow> WorkerLink \<Rightarrow> WorkerLink" where
  "acquisition_continues k s =
     (let q = cl_acquisitions s ! k
      in case map_of (cl_outcomes s) (aq_ticket q) of
           None \<Rightarrow> s
         | Some r \<Rightarrow>
             if aq_result q \<noteq> None then s
             else (case r of
                     Inl e \<Rightarrow> s\<lparr>cl_observations := AList.delete (aq_observation q) (cl_observations s)\<rparr>
                   | Inr target \<Rightarrow>
                       if aq_address q = None
                       then s\<lparr>cl_observations := AList.update (aq_observation q)
                                (Some (JObj [(''projectId'', aq_project q), (''stem'', jget target ''stem'')])) (cl_observations s)\<rparr>
                       else s)
                  \<lparr>cl_acquisitions := (cl_acquisitions s)[k := q\<lparr>aq_result := Some r\<rparr>]\<rparr>)"

text \<open>The methods of an observation.\<close>

definition pull :: "string \<Rightarrow> jsv \<Rightarrow> string \<Rightarrow> string option \<Rightarrow> WorkerLink \<Rightarrow> WorkerLink" where
  "pull observation requests i refused s =
     request (JObj [(''kind'', JStr ''pull''), (''observation'', JStr observation), (''requests'', requests)]) i refused s"

definition release :: "string \<Rightarrow> string \<Rightarrow> string option \<Rightarrow> WorkerLink \<Rightarrow> WorkerLink" where
  "release observation i refused s =
     (if map_of (cl_observations s) observation = None then s
      else request (JObj [(''kind'', JStr ''releaseObservation''), (''observation'', JStr observation)]) i refused
             (s\<lparr>cl_observations := AList.delete observation (cl_observations s)\<rparr>))"

text \<open>The methods that are one request, with the names their arguments travel under.\<close>

definition worker_methods :: "(string \<times> string list) list" where
  "worker_methods =
    [(''closeSession'', [''address'']), (''archiveSession'', [''address'']),
     (''prompt'', [''target'', ''text'', ''images'', ''model'', ''thinkingLevel'']), (''abort'', [''target'']),
     (''discardSteer'', [''target'']), (''renameSession'', [''target'', ''name'']),
     (''setLabel'', [''target'', ''entryId'', ''label'']), (''navigate'', [''target'', ''entryId'']), (''recoverTurn'', [''target'']),
     (''listSessions'', [''projectId'', ''max'', ''cursor'']), (''listActiveSessions'', []), (''info'', []),
     (''setPinnedModels'', [''models'']), (''listFiles'', [''prefix'', ''projectId'']), (''readFile'', [''path'', ''state'']),
     (''listDirectory'', [''path'', ''state'']), (''gitShow'', [''commit'', ''cwd'']), (''gitBase'', [''directory'', ''commit'']),
     (''gitDiff'', [''directory'', ''oldState'', ''newState''])]"

definition method_arguments :: "string \<Rightarrow> jsv list \<Rightarrow> jsv list" where
  "method_arguments m arguments = (if m = ''listSessions'' then arguments[2 := coalesce (arguments ! 2) JNull] else arguments)"

definition method_body :: "string \<Rightarrow> jsv list \<Rightarrow> jsv" where
  "method_body m arguments =
     JObj ((''kind'', JStr m) # zip (case map_of worker_methods m of None \<Rightarrow> [] | Some names \<Rightarrow> names) (method_arguments m arguments))"

definition call_method :: "string \<Rightarrow> jsv list \<Rightarrow> string \<Rightarrow> string option \<Rightarrow> WorkerLink \<Rightarrow> WorkerLink" where
  "call_method m arguments i refused s = request (method_body m arguments) i refused s"

text \<open>\<^verbatim>\<open>dispose\<close>: its shutdown request, and what follows when that has settled.\<close>

definition dispose :: "string \<Rightarrow> string option \<Rightarrow> WorkerLink \<Rightarrow> WorkerLink" where
  "dispose i refused s = request (JObj [(''kind'', JStr ''shutdown'')]) i refused s"

definition dispose_continues :: "nat \<Rightarrow> WorkerLink \<Rightarrow> WorkerLink" where
  "dispose_continues readyState s =
     (let s' = s\<lparr>cl_heartbeat := False, cl_observations := []\<rparr>
      in if readyState = 1 then s'\<lparr>cl_closes := cl_closes s @ [None]\<rparr> else s'\<lparr>cl_terminates := Suc (cl_terminates s)\<rparr>)"

definition onEvent :: "nat \<Rightarrow> WorkerLink \<Rightarrow> WorkerLink" where
  "onEvent l s = s\<lparr>cl_eventListeners := (if l \<in> set (cl_eventListeners s) then cl_eventListeners s else cl_eventListeners s @ [l])\<rparr>"

definition onUnavailable :: "nat \<Rightarrow> WorkerLink \<Rightarrow> WorkerLink" where
  "onUnavailable l s =
     s\<lparr>cl_unavailableListeners :=
         (if l \<in> set (cl_unavailableListeners s) then cl_unavailableListeners s else cl_unavailableListeners s @ [l])\<rparr>"

text \<open>What the two registrations return, to undo them.\<close>

definition offEvent :: "nat \<Rightarrow> WorkerLink \<Rightarrow> WorkerLink" where
  "offEvent l s = s\<lparr>cl_eventListeners := filter (\<lambda>x. x \<noteq> l) (cl_eventListeners s)\<rparr>"

definition offUnavailable :: "nat \<Rightarrow> WorkerLink \<Rightarrow> WorkerLink" where
  "offUnavailable l s = s\<lparr>cl_unavailableListeners := filter (\<lambda>x. x \<noteq> l) (cl_unavailableListeners s)\<rparr>"

section \<open>The socket\<close>

definition handlePush :: "bool \<Rightarrow> jsv \<Rightarrow> WorkerLink \<Rightarrow> WorkerLink" where
  "handlePush drops push s =
     (if jget push ''kind'' = JStr ''observation'' then
        (let ob = str_of (jget push ''observation''); frame = jget push ''frame''
         in case map_of (cl_observations s) ob of
              None \<Rightarrow> s
            | Some a \<Rightarrow>
                (if jget frame ''kind'' = JStr ''closed'' then s\<lparr>cl_observations := AList.delete ob (cl_observations s)\<rparr> else s)
                  \<lparr>cl_delivered := cl_delivered s @ [(ob, frame)]\<rparr>)
      else if jget push ''kind'' = JStr ''event''
      then s\<lparr>cl_events := cl_events s @ map (\<lambda>l. (l, jget push ''event'')) (cl_eventListeners s)\<rparr>
      else if jget push ''kind'' = JStr ''unavailable'' then terminate drops (str_of (jget push ''reason'')) s
      else s)"

text \<open>
  \<open>verdict\<close> is the error of the caller's \<^verbatim>\<open>accept\<close>, if it throws.  A hello that the caller has read before the
  adoption comes the same way.
\<close>

definition acceptHello :: "jsv \<Rightarrow> string option \<Rightarrow> int \<Rightarrow> WorkerLink \<Rightarrow> WorkerLink" where
  "acceptHello candidate verdict now s =
     (if cl_hello s \<noteq> None \<or> cl_settled s then s
      else if jget candidate ''protocol'' \<noteq> JNum (of_nat WORKER_PROTOCOL_VERSION)
      then reject_connect (''worker protocol mismatch: peer '' @ js_text (jget candidate ''protocol'') @ '', expected '' @
             nat_str WORKER_PROTOCOL_VERSION) (s\<lparr>cl_closes := cl_closes s @ [Some WORKER_REJECTED_CLOSE_CODE]\<rparr>)
      else case verdict of
             Some e \<Rightarrow> reject_connect e (s\<lparr>cl_closes := cl_closes s @ [Some WORKER_REJECTED_CLOSE_CODE]\<rparr>)
           | None \<Rightarrow> s\<lparr>cl_hello := Some candidate, cl_settled := True, cl_handshakeTimer := False, cl_lastPong := now,
                       cl_heartbeat := True, cl_connect := cl_connect s @ [Inr candidate]\<rparr>)"

definition on_frame :: "bool \<Rightarrow> string option \<Rightarrow> int \<Rightarrow> jsv option \<Rightarrow> WorkerLink \<Rightarrow> WorkerLink" where
  "on_frame drops verdict now frame s =
     (case frame of
        None \<Rightarrow> s
      | Some f \<Rightarrow>
          if jhas f ''ok'' then
            (case map_of (cl_pending s) (str_of (jget f ''id'')) of
               None \<Rightarrow> s
             | Some n \<Rightarrow>
                 s\<lparr>cl_pending := AList.delete (str_of (jget f ''id'')) (cl_pending s),
                   cl_outcomes := cl_outcomes s @
                     [(n, if truthy (jget f ''ok'') then Inr (jget f ''result'') else Inl (str_of (jget f ''error'')))]\<rparr>)
          else if jget f ''kind'' = JStr ''hello''
          then acceptHello (JObj [(''protocol'', jget f ''protocol''), (''registration'', jget f ''registration''),
                 (''info'', jget f ''info'')]) verdict now s
          else handlePush drops f s)"

definition on_pong :: "int \<Rightarrow> WorkerLink \<Rightarrow> WorkerLink" where
  "on_pong now s = s\<lparr>cl_lastPong := now\<rparr>"

definition on_close :: "bool \<Rightarrow> WorkerLink \<Rightarrow> WorkerLink" where
  "on_close drops s =
     (fail ''worker link closed'' (withdraw drops ''worker link closed'' (s\<lparr>cl_heartbeat := False\<rparr>)))
       \<lparr>cl_closed := True, cl_handshakeTimer := False\<rparr>"

definition on_error :: "string \<Rightarrow> WorkerLink \<Rightarrow> WorkerLink" where
  "on_error e s = (if \<not> cl_settled s then reject_connect e s else s)"

definition handshake_timeout :: "WorkerLink \<Rightarrow> WorkerLink" where
  "handshake_timeout s =
     (if \<not> cl_handshakeTimer s then s
      else if cl_settled s then s\<lparr>cl_handshakeTimer := False\<rparr>
      else reject_connect ''worker handshake timed out''
             (s\<lparr>cl_handshakeTimer := False, cl_terminates := Suc (cl_terminates s)\<rparr>))"

definition heartbeat_tick :: "bool \<Rightarrow> int \<Rightarrow> int \<Rightarrow> WorkerLink \<Rightarrow> WorkerLink" where
  "heartbeat_tick drops timeoutMs now s =
     (if \<not> cl_heartbeat s then s
      else if now - cl_lastPong s > timeoutMs then terminate drops ''worker link lost: heartbeat timeout'' s else s)"

section \<open>Steps\<close>

text \<open>Ids are minted fresh; a caller has the worker once the handshake has been accepted.\<close>

definition used_ids :: "WorkerLink \<Rightarrow> string set" where
  "used_ids s = fst ` set (cl_pending s)"

definition allocated :: "WorkerLink \<Rightarrow> string set" where
  "allocated s = aq_observation ` set (cl_acquisitions s)"

inductive cl_step :: "WorkerLink \<Rightarrow> WorkerLink \<Rightarrow> bool" where
  cl_observe: "cl_hello s \<noteq> None \<Longrightarrow> i \<notin> used_ids s \<Longrightarrow> ob \<notin> allocated s \<Longrightarrow> cl_step s (observeSession a c ob i refused s)"
| cl_create: "cl_hello s \<noteq> None \<Longrightarrow> i \<notin> used_ids s \<Longrightarrow> ob \<notin> allocated s \<Longrightarrow> cl_step s (createSession p ps ob i refused s)"
| cl_continues: "k < length (cl_acquisitions s) \<Longrightarrow> cl_step s (acquisition_continues k s)"
| cl_method: "cl_hello s \<noteq> None \<Longrightarrow> i \<notin> used_ids s \<Longrightarrow> cl_step s (call_method m arguments i refused s)"
| cl_shutdown: "cl_hello s \<noteq> None \<Longrightarrow> i \<notin> used_ids s \<Longrightarrow> cl_step s (dispose i refused s)"
| cl_pull: "cl_hello s \<noteq> None \<Longrightarrow> i \<notin> used_ids s \<Longrightarrow> cl_step s (pull ob rs i refused s)"
| cl_release: "cl_hello s \<noteq> None \<Longrightarrow> i \<notin> used_ids s \<Longrightarrow> cl_step s (release ob i refused s)"
| cl_dispose: "cl_hello s \<noteq> None \<Longrightarrow> cl_step s (dispose_continues readyState s)"
| cl_closeLink: "cl_hello s \<noteq> None \<Longrightarrow> cl_step s (closeLink readyState s)"
| cl_onEvent: "cl_hello s \<noteq> None \<Longrightarrow> cl_step s (onEvent l s)"
| cl_onUnavailable: "cl_hello s \<noteq> None \<Longrightarrow> cl_step s (onUnavailable l s)"
| cl_offEvent: "cl_step s (offEvent l s)"
| cl_offUnavailable: "cl_step s (offUnavailable l s)"
| cl_frame: "\<not> cl_closed s \<Longrightarrow> cl_step s (on_frame drops verdict now frame s)"
| cl_pong: "cl_step s (on_pong now s)"
| cl_socket_closes: "\<not> cl_closed s \<Longrightarrow> cl_step s (on_close drops s)"
| cl_error: "cl_step s (on_error e s)"
| cl_timeout: "cl_step s (handshake_timeout s)"
| cl_tick: "cl_step s (heartbeat_tick drops timeoutMs now s)"

inductive cl_reach :: "WorkerLink \<Rightarrow> bool" where
  cl_new: "cl_reach (adopt now)"
| cl_next: "cl_reach s \<Longrightarrow> cl_step s s' \<Longrightarrow> cl_reach s'"

section \<open>Invariants\<close>

text \<open>Every promise is waiting or has settled once.\<close>

definition promise_inv :: "WorkerLink \<Rightarrow> bool" where
  "promise_inv s \<longleftrightarrow> distinct (map fst (cl_pending s)) \<and>
     mset (map snd (cl_pending s)) + mset (map fst (cl_outcomes s)) = mset_set {..<cl_calls s}"

definition life_inv :: "WorkerLink \<Rightarrow> bool" where
  "life_inv s \<longleftrightarrow> length (cl_connect s) = (if cl_settled s then 1 else 0) \<and>
     (\<forall>h. Inr h \<in> set (cl_connect s) \<longleftrightarrow> cl_hello s = Some h) \<and>
     (cl_hello s = None \<longrightarrow> cl_pending s = [] \<and> cl_observations s = [] \<and> cl_acquisitions s = [] \<and> cl_unavailableListeners s = []) \<and>
     (cl_unavailable s \<longrightarrow> cl_settled s \<and> cl_pending s = [] \<and> \<not> cl_heartbeat s) \<and>
     (\<not> cl_unavailable s \<longrightarrow> cl_withdrawals s = [] \<and> \<not> cl_closed s) \<and>
     distinct (cl_unavailableListeners s) \<and> distinct (map fst (cl_withdrawals s))"

lemma alist_update_fresh: "i \<notin> fst ` set ps \<Longrightarrow> AList.update i n ps = ps @ [(i, n)]"
  by (induction ps) auto

lemma alist_delete_mset:
  "distinct (map fst ps) \<Longrightarrow> map_of ps i = Some n \<Longrightarrow> mset (map snd ps) = add_mset n (mset (map snd (AList.delete i ps)))"
proof (induction ps)
  case (Cons p ps)
  show ?case
  proof (cases "fst p = i")
    case True
    have "AList.delete i ps = ps"
      using Cons.prems(1) True by (auto simp: AList.delete_eq filter_id_conv image_iff)
    then show ?thesis
      using Cons.prems(2) True by (cases p) simp
  next
    case False
    then show ?thesis
      using Cons by (cases p) simp
  qed
qed simp

lemma promise_inv_view:
  "cl_pending s' = cl_pending s \<Longrightarrow> cl_calls s' = cl_calls s \<Longrightarrow> cl_outcomes s' = cl_outcomes s \<Longrightarrow> promise_inv s \<Longrightarrow> promise_inv s'"
  by (simp add: promise_inv_def)

lemma closeLink_parts [simp]:
  "cl_pending (closeLink r s) = cl_pending s" "cl_calls (closeLink r s) = cl_calls s" "cl_outcomes (closeLink r s) = cl_outcomes s"
  "cl_settled (closeLink r s) = cl_settled s" "cl_connect (closeLink r s) = cl_connect s" "cl_hello (closeLink r s) = cl_hello s"
  "cl_unavailable (closeLink r s) = cl_unavailable s" "cl_acquisitions (closeLink r s) = cl_acquisitions s"
  "cl_unavailableListeners (closeLink r s) = cl_unavailableListeners s" "cl_delivered (closeLink r s) = cl_delivered s"
  "cl_closed (closeLink r s) = cl_closed s" "cl_withdrawals (closeLink r s) = cl_withdrawals s"
  "cl_observations (closeLink r s) = []" "cl_heartbeat (closeLink r s) = False"
  by (simp_all add: closeLink_def Let_def)

lemma withdraw_parts [simp]:
  "cl_pending (withdraw d r s) = cl_pending s" "cl_calls (withdraw d r s) = cl_calls s" "cl_outcomes (withdraw d r s) = cl_outcomes s"
  "cl_settled (withdraw d r s) = cl_settled s" "cl_connect (withdraw d r s) = cl_connect s" "cl_hello (withdraw d r s) = cl_hello s"
  "cl_unavailable (withdraw d r s) = True" "cl_acquisitions (withdraw d r s) = cl_acquisitions s"
  "cl_unavailableListeners (withdraw d r s) = cl_unavailableListeners s" "cl_delivered (withdraw d r s) = cl_delivered s"
  "cl_closed (withdraw d r s) = cl_closed s"
  by (simp_all add: withdraw_def Let_def)

lemma withdraw_observations: "cl_observations (withdraw d r s) = [] \<or> cl_observations (withdraw d r s) = cl_observations s"
  by (simp add: withdraw_def Let_def)

lemma withdraw_withdrawals:
  "cl_withdrawals (withdraw d r s) =
     (if cl_unavailable s then cl_withdrawals s else cl_withdrawals s @ map (\<lambda>l. (l, r)) (cl_unavailableListeners s))"
  by (simp add: withdraw_def Let_def)

lemma fail_parts [simp]:
  "cl_calls (fail e s) = cl_calls s" "cl_settled (fail e s) = True" "cl_hello (fail e s) = cl_hello s"
  "cl_unavailable (fail e s) = cl_unavailable s" "cl_acquisitions (fail e s) = cl_acquisitions s"
  "cl_unavailableListeners (fail e s) = cl_unavailableListeners s" "cl_delivered (fail e s) = cl_delivered s"
  "cl_closed (fail e s) = cl_closed s" "cl_withdrawals (fail e s) = cl_withdrawals s"
  "cl_heartbeat (fail e s) = cl_heartbeat s"
  "cl_connect (fail e s) = (if cl_settled s then cl_connect s else cl_connect s @ [Inl e])"
  "cl_pending (fail e s) = (if cl_settled s then [] else cl_pending s)"
  "cl_observations (fail e s) = (if cl_settled s then [] else cl_observations s)"
  "cl_outcomes (fail e s) = cl_outcomes s @ (if cl_settled s then map (\<lambda>p. (snd p, Inl e)) (cl_pending s) else [])"
  by (simp_all add: fail_def reject_connect_def)

lemma promise_inv_fail: "promise_inv s \<Longrightarrow> promise_inv (fail e s)"
  by (simp add: promise_inv_def multiset.map_comp comp_def ac_simps)

lemma promise_inv_terminate: "promise_inv s \<Longrightarrow> promise_inv (terminate d r s)"
  by (simp add: terminate_def Let_def promise_inv_def multiset.map_comp comp_def ac_simps)

lemma promise_inv_request:
  "promise_inv s \<Longrightarrow> i \<notin> used_ids s \<Longrightarrow> promise_inv (request b i refused s)"
  by (auto simp: promise_inv_def request_def Let_def used_ids_def alist_update_fresh lessThan_Suc ac_simps split: option.split)

lemma promise_inv_on_frame: "promise_inv s \<Longrightarrow> promise_inv (on_frame d v now f s)"
proof (cases f)
  case (Some x)
  assume inv: "promise_inv s"
  have reply: "promise_inv (s\<lparr>cl_pending := AList.delete i (cl_pending s), cl_outcomes := cl_outcomes s @ [(n, r)]\<rparr>)"
    if "map_of (cl_pending s) i = Some n" for i n r
    using inv alist_delete_mset[of "cl_pending s" i n] that by (simp add: promise_inv_def distinct_delete distinct_removeAll)
  have push: "promise_inv (handlePush d x s)"
    using inv promise_inv_terminate[OF inv]
    by (auto simp: handlePush_def Let_def promise_inv_def split: option.split)
  have hello: "promise_inv (acceptHello c v now s)" for c
    using inv by (auto simp: acceptHello_def reject_connect_def promise_inv_def split: option.split)
  show ?thesis
    using Some inv reply push hello by (simp add: on_frame_def split: option.split)
qed (simp add: on_frame_def)

lemma promise_inv_simps [simp]:
  "promise_inv (s\<lparr>cl_observations := x\<rparr>) = promise_inv s" "promise_inv (s\<lparr>cl_acquisitions := q\<rparr>) = promise_inv s"
  "promise_inv (s\<lparr>cl_heartbeat := b\<rparr>) = promise_inv s" "promise_inv (s\<lparr>cl_closes := c\<rparr>) = promise_inv s"
  "promise_inv (s\<lparr>cl_terminates := n\<rparr>) = promise_inv s" "promise_inv (s\<lparr>cl_closed := b\<rparr>) = promise_inv s"
  "promise_inv (s\<lparr>cl_handshakeTimer := b\<rparr>) = promise_inv s" "promise_inv (s\<lparr>cl_settled := b\<rparr>) = promise_inv s"
  "promise_inv (s\<lparr>cl_connect := r\<rparr>) = promise_inv s" "promise_inv (s\<lparr>cl_lastPong := t\<rparr>) = promise_inv s"
  "promise_inv (s\<lparr>cl_eventListeners := l\<rparr>) = promise_inv s" "promise_inv (s\<lparr>cl_unavailableListeners := l\<rparr>) = promise_inv s"
  "used_ids (s\<lparr>cl_observations := x\<rparr>) = used_ids s"
  by (simp_all add: promise_inv_def used_ids_def)

lemma promise_inv_withdraw [simp]: "promise_inv (withdraw d r s) = promise_inv s" "promise_inv (closeLink rs s) = promise_inv s"
  by (simp_all add: promise_inv_def)

lemmas local_defs = acquisition_continues_def dispose_continues_def onEvent_def onUnavailable_def offEvent_def offUnavailable_def
  on_pong_def on_error_def reject_connect_def handshake_timeout_def

lemma promise_inv_step: "cl_step s s' \<Longrightarrow> promise_inv s \<Longrightarrow> promise_inv s'"
proof (induction rule: cl_step.induct)
  case (cl_continues k s)
  then show ?case
    by (simp add: acquisition_continues_def Let_def split: option.split sum.split)
qed (simp_all add: observeSession_def createSession_def pull_def call_method_def dispose_def release_def local_defs on_close_def heartbeat_tick_def Let_def
       promise_inv_request promise_inv_on_frame promise_inv_fail promise_inv_terminate)


lemma request_parts [simp]:
  "cl_connect (request b i r s) = cl_connect s" "cl_settled (request b i r s) = cl_settled s" "cl_hello (request b i r s) = cl_hello s"
  "cl_unavailable (request b i r s) = cl_unavailable s" "cl_observations (request b i r s) = cl_observations s"
  "cl_acquisitions (request b i r s) = cl_acquisitions s" "cl_delivered (request b i r s) = cl_delivered s"
  "cl_unavailableListeners (request b i r s) = cl_unavailableListeners s" "cl_withdrawals (request b i r s) = cl_withdrawals s"
  "cl_closed (request b i r s) = cl_closed s" "cl_heartbeat (request b i r s) = cl_heartbeat s"
  by (simp_all add: request_def Let_def split: option.split)

lemma request_pending: "cl_unavailable s \<Longrightarrow> cl_pending (request b i r s) = cl_pending s"
  by (simp add: request_def Let_def)

lemma life_settled: "life_inv s \<Longrightarrow> cl_hello s \<noteq> None \<Longrightarrow> cl_settled s"
proof (rule ccontr)
  assume inv: "life_inv s" and h: "cl_hello s \<noteq> None" and "\<not> cl_settled s"
  then have "cl_connect s = []"
    by (simp add: life_inv_def)
  then show False
    using inv h by (force simp: life_inv_def)
qed

lemma life_inv_live:
  assumes "life_inv s" "cl_hello s \<noteq> None" "cl_connect s' = cl_connect s" "cl_settled s' = cl_settled s" "cl_hello s' = cl_hello s"
    "cl_unavailable s' = cl_unavailable s" "cl_unavailableListeners s' = cl_unavailableListeners s"
    "cl_withdrawals s' = cl_withdrawals s" "cl_closed s' = cl_closed s" "cl_heartbeat s' \<longrightarrow> cl_heartbeat s"
    "cl_unavailable s \<longrightarrow> cl_pending s' = cl_pending s"
  shows "life_inv s'"
  using assms unfolding life_inv_def by auto

lemma life_inv_end:
  assumes inv: "life_inv s" and "cl_connect s' = (if cl_settled s then cl_connect s else cl_connect s @ [Inl e])" "cl_settled s'"
    "cl_hello s' = cl_hello s" "cl_unavailable s'" "cl_unavailableListeners s' = cl_unavailableListeners s" "\<not> cl_heartbeat s'"
    "cl_withdrawals s' = (if cl_unavailable s then cl_withdrawals s else cl_withdrawals s @ map (\<lambda>l. (l, r)) (cl_unavailableListeners s))"
    "cl_pending s' = (if cl_settled s then [] else cl_pending s)" "cl_acquisitions s' = cl_acquisitions s"
    "cl_observations s' = [] \<or> cl_observations s' = cl_observations s"
  shows "life_inv s'"
proof -
  have "cl_hello s = None" if "\<not> cl_settled s"
    using life_settled[OF inv] that by blast
  then show ?thesis
    using assms unfolding life_inv_def by (auto simp: comp_def)
qed

lemma life_inv_terminate: "life_inv s \<Longrightarrow> life_inv (terminate d r s)"
  using withdraw_observations[of d r s]
  by (rule_tac life_inv_end[of s _ r r]) (auto simp: terminate_def Let_def withdraw_withdrawals)

lemma life_inv_on_close: "life_inv s \<Longrightarrow> life_inv (on_close d s)"
  using withdraw_observations[of d "''worker link closed''" "s\<lparr>cl_heartbeat := False\<rparr>"]
  by (rule_tac life_inv_end[of s _ "''worker link closed''" "''worker link closed''"])
     (auto simp: on_close_def withdraw_def closeLink_def Let_def)

lemma life_inv_rejected:
  assumes inv: "life_inv s" and "\<not> cl_settled s" "cl_connect s' = cl_connect s @ [Inl e]" "cl_settled s'"
    "cl_hello s' = cl_hello s" "cl_unavailable s' = cl_unavailable s" "cl_unavailableListeners s' = cl_unavailableListeners s"
    "cl_heartbeat s' = cl_heartbeat s" "cl_withdrawals s' = cl_withdrawals s" "cl_pending s' = cl_pending s"
    "cl_acquisitions s' = cl_acquisitions s" "cl_observations s' = cl_observations s" "cl_closed s' = cl_closed s"
  shows "life_inv s'"
  using assms unfolding life_inv_def by auto

lemma life_inv_hello: "life_inv s \<Longrightarrow> life_inv (acceptHello c v now s)"
proof (cases "cl_hello s \<noteq> None \<or> cl_settled s")
  case False
  assume inv: "life_inv s"
  have "life_inv (s\<lparr>cl_hello := Some c, cl_settled := True, cl_handshakeTimer := False, cl_lastPong := now, cl_heartbeat := True,
      cl_connect := cl_connect s @ [Inr c]\<rparr>)"
    using inv False by (auto simp: life_inv_def)
  moreover have "life_inv (reject_connect e (s\<lparr>cl_closes := x\<rparr>))" for e x
    using inv False by (rule_tac life_inv_rejected[of s _ e]) (simp_all add: reject_connect_def)
  ultimately show ?thesis
    using False by (simp add: acceptHello_def split: option.split)
qed (simp add: acceptHello_def)

lemma life_inv_on_frame: "life_inv s \<Longrightarrow> life_inv (on_frame d v now f s)"
proof (cases f)
  case (Some x)
  assume inv: "life_inv s"
  have live: "cl_hello s \<noteq> None" if "map_of (cl_pending s) i = Some n \<or> map_of (cl_observations s) i = Some a" for i n a
    using inv that by (auto simp: life_inv_def)
  have reply: "life_inv (s\<lparr>cl_pending := AList.delete i (cl_pending s), cl_outcomes := q\<rparr>)"
    if "map_of (cl_pending s) i = Some n" for i n q
    using inv live[of i n] that by (rule_tac life_inv_live[of s]) (auto simp: life_inv_def)
  have observed: "life_inv (s\<lparr>cl_observations := o', cl_delivered := q\<rparr>)" "life_inv (s\<lparr>cl_delivered := q\<rparr>)"
    if "map_of (cl_observations s) i = Some a" for i a o' q
    using inv live[of i _ a] that by (rule_tac life_inv_live[of s]; simp)+
  have push: "life_inv (handlePush d x s)"
    using inv observed life_inv_terminate[OF inv]
    by (auto simp: handlePush_def Let_def split: option.split) (auto simp: life_inv_def)
  show ?thesis
    using Some inv reply push life_inv_hello by (simp add: on_frame_def split: option.split)
qed (simp add: on_frame_def)

lemma life_inv_step: "cl_step s s' \<Longrightarrow> life_inv s \<Longrightarrow> life_inv s'"
proof (induction rule: cl_step.induct)
  case (cl_continues k s)
  then have "cl_hello s \<noteq> None"
    by (auto simp: life_inv_def)
  then show ?case
    using cl_continues by (rule_tac life_inv_live[of s]) (simp_all add: acquisition_continues_def Let_def split: option.split sum.split)
next
  case (cl_frame s drops verdict now frame)
  then show ?case
    by (simp add: life_inv_on_frame)
next
  case (cl_socket_closes s drops)
  then show ?case
    by (simp add: life_inv_on_close)
next
  case (cl_error s e)
  then show ?case
    by (auto simp: on_error_def intro: life_inv_rejected[of s _ e] simp: reject_connect_def)
next
  case (cl_timeout s)
  have "life_inv (s\<lparr>cl_handshakeTimer := False\<rparr>)"
    using cl_timeout by (simp add: life_inv_def)
  then show ?case
    using cl_timeout life_inv_rejected[of s _ "''worker handshake timed out''"]
    by (simp add: handshake_timeout_def reject_connect_def)
next
  case (cl_tick s drops timeoutMs now)
  then show ?case
    by (simp add: heartbeat_tick_def life_inv_terminate)
next
  case (cl_onUnavailable s l)
  then show ?case
    by (simp add: onUnavailable_def life_inv_def)
next
  case (cl_offUnavailable s l)
  then show ?case
    by (simp add: offUnavailable_def life_inv_def)
next
  case (cl_offEvent s l)
  then show ?case
    by (simp add: offEvent_def life_inv_def)
next
  case (cl_pong s now)
  then show ?case
    by (simp add: on_pong_def life_inv_def)
qed (rule life_inv_live; (assumption)?;
     simp add: observeSession_def createSession_def pull_def call_method_def dispose_def release_def dispose_continues_def onEvent_def closeLink_def Let_def request_pending)+

text \<open>What the sink of an observation received, and the observations that name their address from the start.\<close>

definition frames_of :: "string \<Rightarrow> WorkerLink \<Rightarrow> jsv list" where
  "frames_of ob s = map snd (filter (\<lambda>p. fst p = ob) (cl_delivered s))"

definition terminal :: "jsv \<Rightarrow> bool" where
  "terminal f \<longleftrightarrow> jget f ''kind'' = JStr ''closed''"

definition asked :: "WorkerLink \<Rightarrow> (string \<times> jsv option) list" where
  "asked s = map (\<lambda>q. (aq_observation q, aq_address q)) (cl_acquisitions s)"

definition stream_ok :: "string \<Rightarrow> WorkerLink \<Rightarrow> bool" where
  "stream_ok ob s \<longleftrightarrow> (if ob \<in> fst ` set (cl_observations s) then filter terminal (frames_of ob s) = []
                       else filter terminal (butlast (frames_of ob s)) = [])"

definition deliver_inv :: "WorkerLink \<Rightarrow> bool" where
  "deliver_inv s \<longleftrightarrow> distinct (map fst (cl_observations s)) \<and> distinct (map fst (asked s)) \<and>
     fst ` set (cl_observations s) \<subseteq> fst ` set (asked s) \<and> fst ` set (cl_delivered s) \<subseteq> fst ` set (asked s) \<and>
     (\<forall>ob a. (ob, Some a) \<in> set (asked s) \<longrightarrow> stream_ok ob s)"

lemma allocated_asked: "allocated s = fst ` set (asked s)"
  by (force simp: allocated_def asked_def)

lemma stream_ok_end: "filter terminal (frames_of ob s) = [] \<Longrightarrow> filter terminal (butlast (frames_of ob s)) = []"
  by (metis (no_types, lifting) filter_False in_set_butlastD filter_empty_conv)

lemma deliver_inv_shrink:
  assumes "deliver_inv s" "distinct (map fst (cl_observations s'))" "fst ` set (cl_observations s') \<subseteq> fst ` set (cl_observations s)"
    "asked s' = asked s" "cl_delivered s' = cl_delivered s"
  shows "deliver_inv s'"
proof -
  have "stream_ok ob s'" if "stream_ok ob s" for ob
  proof (cases "ob \<in> fst ` set (cl_observations s')")
    case True
    then have "ob \<in> fst ` set (cl_observations s)"
      using assms(3) by (rule set_mp[rotated])
    then show ?thesis
      using that True assms(5) by (simp add: stream_ok_def frames_of_def)
  next
    case False
    then show ?thesis
      using that stream_ok_end[of ob s] assms(5) by (simp add: stream_ok_def frames_of_def split: if_splits)
  qed
  then show ?thesis
    using assms(1,2,4,5) order_trans[OF assms(3)] by (simp add: deliver_inv_def)
qed

lemma deliver_inv_same:
  "deliver_inv s \<Longrightarrow> cl_observations s' = cl_observations s \<Longrightarrow> asked s' = asked s \<Longrightarrow> cl_delivered s' = cl_delivered s \<Longrightarrow> deliver_inv s'"
  by (rule deliver_inv_shrink) (auto simp: deliver_inv_def)

lemma deliver_inv_ask:
  assumes inv: "deliver_inv s" and new: "ob \<notin> allocated s" and eqs: "cl_observations s' = AList.update ob a (cl_observations s)"
    "asked s' = asked s @ [(ob, b)]" "cl_delivered s' = cl_delivered s"
  shows "deliver_inv s'"
proof -
  have fresh: "ob \<notin> fst ` set (cl_observations s)" "ob \<notin> fst ` set (cl_delivered s)" "ob \<notin> fst ` set (asked s)"
    using inv new by (auto simp: deliver_inv_def allocated_asked)
  then have obs: "cl_observations s' = cl_observations s @ [(ob, a)]"
    using eqs by (simp add: alist_update_fresh)
  have "frames_of ob s' = []"
    using fresh eqs by (auto simp: frames_of_def filter_empty_conv image_iff)
  moreover have "stream_ok x s' = stream_ok x s" if "x \<noteq> ob" for x
    using that obs eqs by (simp add: stream_ok_def frames_of_def)
  ultimately have "stream_ok x s'" if "(x, Some y) \<in> set (asked s')" for x y
  proof (cases "x = ob")
    case True
    then show ?thesis
      using \<open>frames_of ob s' = []\<close> by (simp add: stream_ok_def)
  next
    case False
    then show ?thesis
      using that inv eqs(2) \<open>\<And>x. x \<noteq> ob \<Longrightarrow> stream_ok x s' = stream_ok x s\<close> by (auto simp: deliver_inv_def)
  qed
  moreover have "distinct (map fst (cl_observations s'))" "distinct (map fst (asked s'))"
    "fst ` set (cl_observations s') \<subseteq> fst ` set (asked s')" "fst ` set (cl_delivered s') \<subseteq> fst ` set (asked s')"
    using inv fresh obs eqs by (auto simp: deliver_inv_def)
  ultimately show ?thesis
    by (simp add: deliver_inv_def)
qed

lemma deliver_inv_delivers:
  assumes inv: "deliver_inv s" and held: "map_of (cl_observations s) ob = Some a"
    and eqs: "cl_observations s' = (if terminal f then AList.delete ob (cl_observations s) else cl_observations s)"
    "asked s' = asked s" "cl_delivered s' = cl_delivered s @ [(ob, f)]"
  shows "deliver_inv s'"
proof -
  have mem: "ob \<in> fst ` set (cl_observations s)"
    using held by (metis domI dom_map_of_conv_image_fst)
  have "stream_ok x s'" if "(x, Some y) \<in> set (asked s)" for x y
  proof (cases "x = ob")
    case True
    then have "stream_ok ob s"
      using inv that by (auto simp: deliver_inv_def)
    then have "filter terminal (frames_of ob s) = []"
      using mem by (simp add: stream_ok_def)
    moreover have "frames_of ob s' = frames_of ob s @ [f]"
      using eqs by (simp add: frames_of_def)
    ultimately show ?thesis
      using True eqs(1) by (auto simp: stream_ok_def butlast_append AList.delete_eq)
  next
    case False
    have "x \<in> fst ` set (cl_observations s') \<longleftrightarrow> x \<in> fst ` set (cl_observations s)"
      using False eqs(1) by (force simp: AList.delete_eq)
    moreover have "frames_of x s' = frames_of x s"
      using False eqs by (simp add: frames_of_def)
    moreover have "stream_ok x s"
      using inv that by (auto simp: deliver_inv_def)
    ultimately show ?thesis
      by (simp add: stream_ok_def)
  qed
  moreover have "fst ` set (cl_observations s') \<subseteq> fst ` set (cl_observations s)"
    using eqs(1) by (auto simp: AList.delete_eq)
  moreover have "distinct (map fst (cl_observations s'))"
    using eqs(1) inv by (simp add: deliver_inv_def distinct_delete distinct_removeAll)
  moreover have "ob \<in> fst ` set (asked s)"
    using inv mem by (auto simp: deliver_inv_def)
  moreover have "fst ` set (cl_observations s') \<subseteq> fst ` set (asked s)"
    by (rule order_trans[OF calculation(2)]) (use inv in \<open>simp add: deliver_inv_def\<close>)
  ultimately show ?thesis
    using inv eqs(2,3) by (simp add: deliver_inv_def)
qed


lemma terminal_closed_frame [simp]: "terminal (closed_frame a)"
  by (simp add: terminal_def closed_frame_def)

lemma terminal_frames_keys: "fst ` set (terminal_frames obs) \<subseteq> fst ` set obs"
  by (force simp: terminal_frames_def split: option.splits)

lemma terminal_frames_of:
  "distinct (map fst obs) \<Longrightarrow>
     filter (\<lambda>p. fst p = ob) (terminal_frames obs) =
       (case map_of obs ob of Some (Some a) \<Rightarrow> [(ob, closed_frame a)] | _ \<Rightarrow> [])"
proof (induction obs)
  case (Cons p obs)
  have none: "filter (\<lambda>p. fst p = ob) (terminal_frames obs) = []" if "ob \<notin> fst ` set obs"
    using that terminal_frames_keys[of obs] by (auto simp: filter_empty_conv)
  have tail: "filter (\<lambda>p. fst p = ob) (concat (map (\<lambda>(ob, a). case a of None \<Rightarrow> [] | Some address \<Rightarrow> [(ob, closed_frame address)]) obs)) =
      (case map_of obs ob of Some (Some a) \<Rightarrow> [(ob, closed_frame a)] | _ \<Rightarrow> [])"
    using Cons by (simp add: terminal_frames_def)
  show ?case
    using Cons.prems tail none
    by (cases p) (auto simp: terminal_frames_def split: option.split)
qed (simp add: terminal_frames_def)

text \<open>The end of the link: every observation it still holds ends at once.\<close>

lemma deliver_inv_terminates:
  assumes inv: "deliver_inv s" and obs: "cl_observations s' = []" and eqs: "asked s' = asked s"
    "cl_delivered s' = cl_delivered s @ terminal_frames obs" and held: "obs = [] \<or> obs = cl_observations s"
  shows "deliver_inv s'"
proof -
  have "stream_ok ob s'" if mem: "(ob, Some a) \<in> set (asked s)" for ob a
  proof -
    have old: "stream_ok ob s"
      using inv mem by (auto simp: deliver_inv_def)
    have "frames_of ob s' = frames_of ob s @ map snd (filter (\<lambda>p. fst p = ob) (terminal_frames obs))"
      using eqs by (simp add: frames_of_def)
    moreover have "filter (\<lambda>p. fst p = ob) (terminal_frames obs) =
        (case map_of obs ob of Some (Some a) \<Rightarrow> [(ob, closed_frame a)] | _ \<Rightarrow> [])"
      using held inv by (intro terminal_frames_of) (auto simp: deliver_inv_def)
    moreover have "ob \<in> fst ` set (cl_observations s)" if "map_of obs ob = Some x" for x
      using that held by (metis domI dom_map_of_conv_image_fst map_of.simps(1) option.discI)
    ultimately show ?thesis
      using old stream_ok_end[of ob s] obs by (auto simp: stream_ok_def butlast_append split: option.splits if_splits)
  qed
  moreover have "fst ` set (terminal_frames obs) \<subseteq> fst ` set (asked s)"
    using terminal_frames_keys[of obs] held inv by (auto simp: deliver_inv_def)
  ultimately show ?thesis
    using inv obs eqs by (auto simp: deliver_inv_def)
qed


lemma deliver_inv_terminate: "life_inv s \<Longrightarrow> deliver_inv s \<Longrightarrow> deliver_inv (terminate d r s)"
proof (rule deliver_inv_terminates)
  assume "life_inv s"
  then have "cl_observations s = []" if "\<not> cl_settled s"
    using life_settled[of s] that by (auto simp: life_inv_def)
  then show "cl_observations (terminate d r s) = []"
    using withdraw_observations[of d r s] by (auto simp: terminate_def Let_def)
qed (use withdraw_observations[of d r s] in \<open>auto simp: terminate_def Let_def asked_def\<close>)

lemma distinct_delete_keys: "distinct (map fst xs) \<Longrightarrow> distinct (map fst (AList.delete k xs))"
  by (rule distinct_delete)

lemma delete_keys_subset: "fst ` set (AList.delete k xs) \<subseteq> fst ` set xs"
  by (auto simp: AList.delete_eq)

lemma deliver_inv_on_frame: "life_inv s \<Longrightarrow> deliver_inv s \<Longrightarrow> deliver_inv (on_frame d v now f s)"
proof (cases f)
  case (Some x)
  assume life: "life_inv s" and inv: "deliver_inv s"
  have reply: "deliver_inv (s\<lparr>cl_pending := p, cl_outcomes := q\<rparr>)" for p q
    by (rule deliver_inv_same[OF inv]) (simp_all add: asked_def)
  have hello: "deliver_inv (acceptHello c v now s)" for c
    by (rule deliver_inv_same[OF inv]) (simp_all add: asked_def acceptHello_def reject_connect_def split: option.split)
  have observed: "deliver_inv (s\<lparr>cl_observations := AList.delete ob (cl_observations s), cl_delivered := cl_delivered s @ [(ob, g)]\<rparr>)"
    if "map_of (cl_observations s) ob = Some a" "jget g ''kind'' = JStr ''closed''" for ob g a
    by (rule deliver_inv_delivers[OF inv that(1), of _ g]) (simp_all add: that terminal_def asked_def)
  have framed: "deliver_inv (s\<lparr>cl_delivered := cl_delivered s @ [(ob, g)]\<rparr>)"
    if "map_of (cl_observations s) ob = Some a" "jget g ''kind'' \<noteq> JStr ''closed''" for ob g a
    by (rule deliver_inv_delivers[OF inv that(1), of _ g]) (simp_all add: that terminal_def asked_def)
  have events: "deliver_inv (s\<lparr>cl_events := e\<rparr>)" for e
    by (rule deliver_inv_same[OF inv]) (simp_all add: asked_def)
  have push: "deliver_inv (handlePush d x s)"
    using inv observed framed events deliver_inv_terminate[OF life inv] by (simp add: handlePush_def Let_def split: option.split)
  show ?thesis
    using Some inv reply hello push by (simp add: on_frame_def split: option.split)
qed (simp add: on_frame_def)

lemma asked_continues: "k < length (cl_acquisitions s) \<Longrightarrow> asked (acquisition_continues k s) = asked s"
  by (simp add: asked_def acquisition_continues_def Let_def map_update list_update_id split: option.split sum.split)
     (metis (no_types, lifting) list_update_id map_update nth_map)


lemma continues_observations:
  "cl_observations (acquisition_continues k s) = cl_observations s \<or>
   cl_observations (acquisition_continues k s) = AList.delete (aq_observation (cl_acquisitions s ! k)) (cl_observations s) \<or>
   aq_address (cl_acquisitions s ! k) = None \<and>
     (\<exists>v. cl_observations (acquisition_continues k s) = AList.update (aq_observation (cl_acquisitions s ! k)) v (cl_observations s))"
proof (cases "map_of (cl_outcomes s) (aq_ticket (cl_acquisitions s ! k))")
  case (Some r)
  consider "cl_observations (acquisition_continues k s) = cl_observations s" | e where "r = Inl e" "aq_result (cl_acquisitions s ! k) = None"
    | t where "r = Inr t" "aq_result (cl_acquisitions s ! k) = None" "aq_address (cl_acquisitions s ! k) = None"
    using Some by (cases r; cases "aq_result (cl_acquisitions s ! k)"; cases "aq_address (cl_acquisitions s ! k)")
      (simp_all add: acquisition_continues_def Let_def)
  then show ?thesis
  proof cases
    case 2
    then show ?thesis
      using Some by (simp add: acquisition_continues_def Let_def)
  next
    case 3
    then show ?thesis
      using Some by (intro disjI2 conjI exI[of _ "Some (JObj [(''projectId'', aq_project (cl_acquisitions s ! k)), (''stem'', jget t ''stem'')])"])
        (simp_all add: acquisition_continues_def Let_def)
  qed simp
qed (simp add: acquisition_continues_def Let_def)

lemma deliver_inv_continues:
  assumes inv: "deliver_inv s" and k: "k < length (cl_acquisitions s)"
  shows "deliver_inv (acquisition_continues k s)"
proof -
  let ?q = "cl_acquisitions s ! k" and ?s' = "acquisition_continues k s"
  have mem: "(aq_observation ?q, aq_address ?q) \<in> set (asked s)"
    using k by (auto simp: asked_def)
  have delivered: "cl_delivered ?s' = cl_delivered s"
    by (simp add: acquisition_continues_def Let_def split: option.split sum.split)
  consider "cl_observations ?s' = cl_observations s"
    | "cl_observations ?s' = AList.delete (aq_observation ?q) (cl_observations s)"
    | v where "aq_address ?q = None" "cl_observations ?s' = AList.update (aq_observation ?q) v (cl_observations s)"
    using continues_observations[of k s] by blast
  then show ?thesis
  proof cases
    case 1
    then show ?thesis
      using deliver_inv_same[OF inv] asked_continues[OF k] delivered by blast
  next
    case 2
    then show ?thesis
      using asked_continues[OF k] delivered inv
      by (intro deliver_inv_shrink[OF inv]) (simp_all only: distinct_delete_keys delete_keys_subset deliver_inv_def)
  next
    case (3 v)
    have keys: "fst ` set (cl_observations ?s') = insert (aq_observation ?q) (fst ` set (cl_observations s))"
      by (simp only: 3(2) dom_map_of_conv_image_fst[symmetric] update_conv' dom_fun_upd option.distinct if_False)
    have "stream_ok x ?s'" if asked: "(x, Some y) \<in> set (asked s)" for x y
    proof -
      have "x \<noteq> aq_observation ?q"
        using inv mem asked 3(1) eq_key_imp_eq_value[of "asked s" x "Some y" None] unfolding deliver_inv_def by auto
      then have "stream_ok x ?s' = stream_ok x s"
        using keys delivered by (simp add: stream_ok_def frames_of_def)
      then show ?thesis
        using inv asked by (auto simp: deliver_inv_def)
    qed
    moreover have "distinct (map fst (cl_observations ?s'))"
      using inv by (simp only: 3(2) distinct_update deliver_inv_def)
    moreover have "fst ` set (cl_observations ?s') \<subseteq> fst ` set (asked s)"
      unfolding keys using inv imageI[OF mem, of fst] by (simp only: deliver_inv_def insert_subset) simp
    ultimately show ?thesis
      using inv by (simp add: deliver_inv_def delivered asked_continues[OF k])
  qed
qed

lemma deliver_inv_step: "cl_step s s' \<Longrightarrow> life_inv s \<Longrightarrow> deliver_inv s \<Longrightarrow> deliver_inv s'"
proof (induction rule: cl_step.induct)
  case (cl_observe s i ob a c refused)
  then show ?case
    by (rule_tac deliver_inv_ask[of s ob _ "Some a" "Some a"]) (simp_all add: observeSession_def Let_def asked_def)
next
  case (cl_create s i ob p ps refused)
  then show ?case
    by (rule_tac deliver_inv_ask[of s ob _ None None]) (simp_all add: createSession_def Let_def asked_def)
next
  case (cl_continues k s)
  then show ?case
    by (rule_tac deliver_inv_continues)
next
  case (cl_release s i ob refused)
  then show ?case
    by (cases "map_of (cl_observations s) ob")
       (simp_all add: release_def, rule deliver_inv_shrink[of s],
        simp_all add: asked_def delete_keys_subset deliver_inv_def distinct_removeAll)
next
  case (cl_frame s drops verdict now frame)
  then show ?case
    by (simp add: deliver_inv_on_frame)
next
  case (cl_socket_closes s drops)
  have "cl_observations (on_close drops s) = [] \<or> cl_observations (on_close drops s) = cl_observations s"
    by (simp add: on_close_def withdraw_def closeLink_def Let_def)
  then show ?case
    using cl_socket_closes
    by (rule_tac deliver_inv_shrink[of s])
       (auto simp: asked_def on_close_def withdraw_def closeLink_def Let_def deliver_inv_def split: if_splits)
next
  case (cl_tick s drops timeoutMs now)
  then show ?case
    by (simp add: heartbeat_tick_def deliver_inv_terminate)
next
  case (cl_dispose s readyState)
  then show ?case
    by (rule_tac deliver_inv_shrink[of s]) (simp_all add: dispose_continues_def Let_def asked_def)
next
  case (cl_closeLink s readyState)
  then show ?case
    by (rule_tac deliver_inv_shrink[of s]) (simp_all add: closeLink_def Let_def asked_def)
qed (rule deliver_inv_same; (assumption)?; simp add: asked_def local_defs pull_def call_method_def dispose_def Let_def)+

definition cl_inv :: "WorkerLink \<Rightarrow> bool" where
  "cl_inv s \<longleftrightarrow> promise_inv s \<and> life_inv s \<and> deliver_inv s"

lemma cl_reach_inv: "cl_reach s \<Longrightarrow> cl_inv s"
proof (induction rule: cl_reach.induct)
  case (cl_new now)
  then show ?case
    by (simp add: cl_inv_def promise_inv_def life_inv_def deliver_inv_def adopt_def asked_def)
next
  case (cl_next s s')
  then show ?case
    using promise_inv_step life_inv_step deliver_inv_step by (simp add: cl_inv_def)
qed


section \<open>Properties\<close>

text \<open>A handshake, an observation, and the frame that ends it.\<close>

definition sample_link :: WorkerLink where
  "sample_link = on_frame False None 0 (Some (hello_push JNull JNull)) (adopt 0)"

definition sample_observed :: WorkerLink where
  "sample_observed = observeSession (JStr ''a'') JNull ''o'' ''i'' None sample_link"

definition sample_ended :: WorkerLink where
  "sample_ended = on_frame False None 0 (Some (observation_push ''o'' (closed_frame (JStr ''a'')))) sample_observed"

lemma sample_link_eq:
  "sample_link = (adopt 0)\<lparr>cl_hello := Some (JObj [(''protocol'', JNum (of_nat WORKER_PROTOCOL_VERSION)), (''registration'', JNull), (''info'', JNull)]),
     cl_settled := True, cl_handshakeTimer := False, cl_heartbeat := True,
     cl_connect := [Inr (JObj [(''protocol'', JNum (of_nat WORKER_PROTOCOL_VERSION)), (''registration'', JNull), (''info'', JNull)])]\<rparr>"
  by (simp add: sample_link_def on_frame_def hello_push_def acceptHello_def adopt_def)

lemma sample_observed_parts:
  "cl_observations sample_observed = [(''o'', Some (JStr ''a''))]" "cl_pending sample_observed = [(''i'', 0)]" "cl_calls sample_observed = 1"
  "cl_outcomes sample_observed = []" "cl_delivered sample_observed = []" "asked sample_observed = [(''o'', Some (JStr ''a''))]"
  "cl_settled sample_observed" "\<not> cl_closed sample_observed" "\<not> cl_unavailable sample_observed"
  by (simp_all add: sample_observed_def observeSession_def request_def sample_link_eq adopt_def Let_def asked_def)

lemma sample_ended_parts:
  "cl_delivered sample_ended = [(''o'', closed_frame (JStr ''a''))]" "asked sample_ended = [(''o'', Some (JStr ''a''))]"
  "cl_observations sample_ended = []"
  using sample_observed_parts
  by (simp_all add: sample_ended_def on_frame_def observation_push_def handlePush_def closed_frame_def asked_def)

lemma sample_link_reach: "cl_reach sample_link" "cl_reach sample_observed" "cl_reach sample_ended"
proof -
  have "\<not> cl_closed (adopt 0)"
    by (simp add: adopt_def)
  then show 1: "cl_reach sample_link"
    unfolding sample_link_def by (rule cl_next[OF cl_new cl_frame])
  show 2: "cl_reach sample_observed"
    unfolding sample_observed_def
    by (rule cl_next[OF 1 cl_observe]) (simp_all add: sample_link_eq adopt_def used_ids_def allocated_def)
  show "cl_reach sample_ended"
    unfolding sample_ended_def by (rule cl_next[OF 2 cl_frame]) (rule sample_observed_parts)
qed

text \<open>
  \<^bold>\<open>Property C21.\<close>  When the socket closes every promise of the link is settled, each exactly once over the
  whole life of the link, the caller's included: no request waits, no listener is called twice, and a request made afterwards is
  rejected at once.
\<close>

theorem link_close_settles:
  assumes "cl_reach s" "\<not> cl_closed s"
  shows "let s' = on_close drops s
    in cl_pending s' = [] \<and> mset (map fst (cl_outcomes s')) = mset_set {..<cl_calls s} \<and> length (cl_connect s') = 1 \<and>
       distinct (map fst (cl_withdrawals s')) \<and> \<not> cl_heartbeat s' \<and>
       cl_outcomes (request body i refused s') = cl_outcomes s' @ [(cl_calls s, Inl ''worker is unavailable'')]"
proof -
  have "cl_reach (on_close drops s)"
    by (rule cl_next[OF assms(1) cl_socket_closes[OF assms(2)]])
  then have inv: "promise_inv (on_close drops s)" "life_inv (on_close drops s)"
    by (simp_all add: cl_reach_inv[unfolded cl_inv_def])
  have gone: "cl_unavailable (on_close drops s)" "cl_calls (on_close drops s) = cl_calls s"
    by (simp_all add: on_close_def)
  then show ?thesis
    using inv by (simp add: Let_def life_inv_def promise_inv_def request_def)
qed

theorem link_close_settles_witness:
  "mset (map fst (cl_outcomes (on_close True sample_observed))) = {#0#}"
  using link_close_settles[OF sample_link_reach(2) sample_observed_parts(8), of True]
  by (simp add: Let_def sample_observed_parts(3) lessThan_Suc)

text \<open>
  \<^bold>\<open>Property C22.\<close>  A sink of an observation that was asked for by address gets at most one terminal frame, and
  nothing after it; while the link still routes to it, it has had none.  So a frame of the Worker, the end of the
  link and a release never end one observation twice, in whatever order they come.
\<close>

theorem link_ends_once:
  assumes "cl_reach s" "map_of (asked s) ob = Some (Some address)"
  shows "filter terminal (butlast (frames_of ob s)) = [] \<and>
    (if map_of (cl_observations s) ob = None then length (filter terminal (frames_of ob s)) \<le> 1
     else filter terminal (frames_of ob s) = [])"
proof -
  have "stream_ok ob s"
    using cl_reach_inv[OF assms(1)] map_of_SomeD[OF assms(2)] by (auto simp: cl_inv_def deliver_inv_def)
  moreover have "length (filter terminal fs) \<le> 1" if "filter terminal (butlast fs) = []" for fs
    using that by (cases fs rule: rev_cases) simp_all
  moreover have "map_of (cl_observations s) ob = None \<longleftrightarrow> ob \<notin> fst ` set (cl_observations s)"
    by (rule map_of_eq_None_iff)
  ultimately show ?thesis
    using stream_ok_end[of ob s] by (simp add: stream_ok_def split: if_splits)
qed

theorem link_ends_once_witness:
  "cl_reach sample_ended \<and> frames_of ''o'' sample_ended = [closed_frame (JStr ''a'')] \<and>
   length (filter terminal (frames_of ''o'' sample_ended)) \<le> 1"
  using link_ends_once[OF sample_link_reach(3), of "''o''" "JStr ''a''"] sample_link_reach(3) sample_ended_parts by (simp add: frames_of_def)

text \<open>
  Where the end of the link is not told.  A socket that closes ends the observations without a word, and so does a lost
  heartbeat or an \<^verbatim>\<open>unavailable\<close> when a listener of the withdrawal closes the link, as the host of an adopted Worker
  does; only with listeners that leave the link alone is every observation told.
\<close>

lemma close_is_silent:
  "cl_settled s \<Longrightarrow> cl_observations (on_close drops s) = [] \<and> cl_delivered (on_close drops s) = cl_delivered s"
  by (simp add: on_close_def)

lemma dropped_is_silent:
  "cl_settled s \<Longrightarrow> \<not> cl_unavailable s \<Longrightarrow> cl_unavailableListeners s \<noteq> [] \<Longrightarrow>
   cl_observations (terminate True r s) = [] \<and> cl_delivered (terminate True r s) = cl_delivered s"
  by (simp add: terminate_def withdraw_def Let_def terminal_frames_def)

lemma terminate_tells:
  "cl_settled s \<Longrightarrow> cl_delivered (terminate False r s) = cl_delivered s @ terminal_frames (cl_observations s)"
  by (simp add: terminate_def withdraw_def Let_def)

text \<open>
  A Session that is created and ends before the continuation of \<^verbatim>\<open>createSession\<close> has run is recorded again: the
  observation its terminal frame removed is back in the map.
\<close>

lemma created_returns:
  assumes "k < length (cl_acquisitions s)" "cl_acquisitions s ! k = q" "aq_result q = None" "aq_address q = None"
    "map_of (cl_outcomes s) (aq_ticket q) = Some (Inr target)" "map_of (cl_observations s) (aq_observation q) = None"
  shows "map_of (cl_observations (acquisition_continues k s)) (aq_observation q) =
    Some (Some (JObj [(''projectId'', aq_project q), (''stem'', jget target ''stem'')]))"
  using assms by (simp add: acquisition_continues_def Let_def update_conv')

end
