(* ===== verification/WorkerRpc.thy ===== *)
theory WorkerRpc
  imports WorkerServer WorkerClient Codec
begin

text \<open>
  The two ends of the link together: a call of a method of the remote worker, written as JSON and read by the
  server, is the call of the same method of its service.
\<close>

text \<open>A value that travels as a field: an undefined one is left out, as \<open>norm_field\<close> says.\<close>

lemma jget_travels: "distinct (map fst ps) \<Longrightarrow> jget (json_norm (JObj ps)) k = norm_field (jget (JObj ps) k)"
  using map_of_filter_map[of ps json_norm "\<lambda>v. v \<noteq> JUndef" k]
  by (simp add: map_of_own_entries distinct_map_filter_fst comp_def norm_field_def
      split: option.split del: map_of_eq_Some_iff)

text \<open>The frame of a call, as the server parses it.\<close>

definition travelling :: "string \<Rightarrow> jsv list \<Rightarrow> string \<Rightarrow> jsv" where
  "travelling m arguments i = json_norm (jset ''id'' (JStr i) (method_body m arguments))"

lemma jget_travelling:
  assumes "map_of worker_methods m = Some names" "length arguments = length names" "distinct names" "''id'' \<notin> set names" "''kind'' \<notin> set names"
  shows "jget (travelling m arguments i) ''kind'' = JStr m" "jget (travelling m arguments i) ''id'' = JStr i"
    "map (jget (travelling m arguments i)) names = map norm_field (method_arguments m arguments)"
proof -
  let ?z = "zip names (method_arguments m arguments)"
  have len: "length (method_arguments m arguments) = length names"
    using assms(2) by (simp add: method_arguments_def)
  have keys: "map fst ?z = names"
    using len by simp
  have "set (map fst ?z) = set names"
    by (simp only: keys)
  then have new: "''id'' \<notin> fst ` set ?z"
    using assms(4) by (simp only: set_map not_False_eq_True)
  have body: "jset ''id'' (JStr i) (method_body m arguments) = JObj ((''kind'', JStr m) # ?z @ [(''id'', JStr i)])"
    using assms(1) alist_update_fresh[OF new, of "JStr i"] by (simp add: method_body_def)
  have d: "distinct (map fst ((''kind'', JStr m) # ?z @ [(''id'', JStr i)]))"
    using assms(3-5) keys by (simp del: map_fst_zip)
  have g: "jget (travelling m arguments i) k = norm_field (jget (JObj ((''kind'', JStr m) # ?z @ [(''id'', JStr i)])) k)" for k
    unfolding travelling_def body by (rule jget_travels[OF d])
  show "jget (travelling m arguments i) ''kind'' = JStr m"
    by (simp add: g norm_field_def)
  have "map_of ?z ''id'' = None"
    using keys assms(4) by (metis image_set map_of_eq_None_iff)
  then show "jget (travelling m arguments i) ''id'' = JStr i"
    by (simp add: g norm_field_def map_add_def)
  show "map (jget (travelling m arguments i)) names = map norm_field (method_arguments m arguments)"
  proof (rule nth_equalityI)
    fix k assume "k < length (map (jget (travelling m arguments i)) names)"
    then have k: "k < length names"
      by simp
    then have "map_of ?z (names ! k) = Some (method_arguments m arguments ! k)"
      using len assms(3) by (simp add: map_of_zip_nth)
    moreover have "names ! k \<noteq> ''kind''" "names ! k \<noteq> ''id''"
      using nth_mem[OF k] assms(4,5) by auto
    ultimately show "map (jget (travelling m arguments i)) names ! k = map norm_field (method_arguments m arguments) ! k"
      using k len by (simp add: g map_add_def)
  qed (simp add: len)
qed


lemma worker_methods_fields:
  "map_of worker_methods m = Some names \<Longrightarrow> distinct names \<and> ''id'' \<notin> set names \<and> ''kind'' \<notin> set names"
  by (auto simp: worker_methods_def split: if_splits)

lemma service_call_fields:
  assumes "map_of worker_methods m = Some names" "jget r ''kind'' = JStr m"
  shows "map_option (\<lambda>(m', arguments, _). (m', arguments)) (service_call r) = Some (m, method_arguments m (map (jget r) names))"
  using assms by (auto simp: worker_methods_def service_call_def Let_def method_arguments_def split: if_splits)

text \<open>
  \<^bold>\<open>Property C23.\<close>  The remote worker is the service behind the link: every method, called with any arguments, reaches
  the service of the other end as a call of the same method with the arguments as JSON carries them, and
  with the id that its reply will name.
\<close>

theorem remote_call_is_call:
  assumes "map_of worker_methods m = Some names" "length arguments = length names"
  shows "let r = travelling m arguments i
    in isWorkerRequest r \<and> jget r ''id'' = JStr i \<and> \<not> acquires r \<and>
       map_option (\<lambda>(m', sent, _). (m', sent)) (service_call r) = Some (m, map norm_field (method_arguments m arguments))"
proof -
  note f = worker_methods_fields[OF assms(1)]
  note g = jget_travelling[OF assms conjunct1[OF f] conjunct1[OF conjunct2[OF f]] conjunct2[OF conjunct2[OF f]], of i]
  have o: "is_obj (travelling m arguments i)"
    by (simp add: travelling_def method_body_def)
  have "m \<noteq> ''hello'' \<and> m \<noteq> ''observeSession'' \<and> m \<noteq> ''createSession''"
    using assms(1) by (auto simp: worker_methods_def)
  moreover have "method_arguments m (map norm_field (method_arguments m arguments)) = map norm_field (method_arguments m arguments)"
    using assms by (cases "m = ''listSessions''")
      (auto simp: method_arguments_def worker_methods_def length_Suc_conv numeral_2_eq_2 norm_field_def coalesce_def nullish_def)
  ultimately show ?thesis
    using g o service_call_fields[OF assms(1) g(1)] by (simp add: Let_def isWorkerRequest_def acquires_def)
qed

theorem remote_call_is_call_witness:
  "map_option (\<lambda>(m', sent, _). (m', sent)) (service_call (travelling ''listSessions'' [JStr ''p'', JUndef, JUndef] ''r'')) =
   Some (''listSessions'', [JStr ''p'', JUndef, JNull])"
  using remote_call_is_call[of "''listSessions''" "[''projectId'', ''max'', ''cursor'']" "[JStr ''p'', JUndef, JUndef]" "''r''"]
  by (simp add: worker_methods_def Let_def method_arguments_def norm_field_def numeral_2_eq_2)

end
