(* ===== verification/Spec2Isabelle.thy ===== *)
theory Spec2Isabelle
  imports Diff Events GitStamp Reactor Replication Resume LaneLayout Listing Registry Title Accounting ViewTurns WorkerRpc
begin

text \<open>
  A verification library for the pi bridge: its core, \<^verbatim>\<open>packages/bridge/src/core\<close>, its view model and the
  state machines of its host.

  \<^bold>\<open>The program.\<close>  The bridge runs next to a coding agent and shows its sessions to remote clients.  The
  host keeps a document per session: the entries of the session log, projected to a wire form, and
  a derived status.  Stored entries are sealed and carry their position in the file; entries that
  are still streaming are live.  Every change is published as a patch, a list of JSON-pointer
  operations.  A client holds a mirror of the document, applies patches, asks for large fields only
  when it needs them, caches sealed entries, and resumes with a cursor into the log.

  \<^bold>\<open>Parts and theories\<close> (all source files are in \<^verbatim>\<open>packages/bridge/src/core\<close> unless said otherwise).

  \<^item> \<open>Prelude\<close>, \<open>JsValue\<close>, \<open>JsonText\<close>: what the source uses of the language.  Values are the datatype
    \<open>jsv\<close>; an object is an association list in insertion order and enumerates as JavaScript does,
    integer-like keys first; \<open>json_norm\<close> is \<^verbatim>\<open>JSON.parse(JSON.stringify(v))\<close> and \<open>json_text\<close> the text itself.
    Numbers are rationals.  \<open>chain\<close> is a walk along links that may not end.
  \<^item> \<open>Types\<close>: \<^verbatim>\<open>types.ts\<close>.  Interfaces are predicates on values (\<open>is_Entry\<close>, \<open>is_Status\<close>, \<open>is_Document\<close>);
    patch operations, cursors and sync frames are datatypes and records; the lazy path predicates.
    Also the session entries and messages of the agent that the bridge reads
    (\<^verbatim>\<open>packages/coding-agent/src/core/session-manager.ts\<close>, \<^verbatim>\<open>packages/ai/src/types.ts\<close>).
  \<^item> \<open>Patch\<close>: the patch engine of \<^verbatim>\<open>document.ts\<close> (\<^verbatim>\<open>applyPatch\<close> and the functions on paths), with the
    laws of reading, writing and removing at a path that the other theories use.
  \<^item> \<open>Diff\<close>: \<^verbatim>\<open>computeObjectDiff\<close>.  Applying the diff gives the new object (C35) if no key needs an
    escape; with such a key it does not (\<open>Diff.computeObjectDiff_unescaped\<close>).
  \<^item> \<open>Entries\<close>: \<^verbatim>\<open>toEntry\<close>, \<^verbatim>\<open>projectEntry\<close> and one function per kind of entry; the projection of a
    session entry is well-typed (C36).
  \<^item> \<open>Status\<close>: the derived status and the bootstrap \<^verbatim>\<open>initFromEntries\<close>: its type and termination, and
    that \<^verbatim>\<open>latestByOrd\<close> finds the latest entry (\<open>Status.initFromEntries_bootstraps\<close>, \<open>Status.latestByOrd_is_latest\<close>, \<open>Status.deriveStats_returns\<close>).
  \<^item> \<open>Lazy\<close>: \<^verbatim>\<open>stripLazyFields\<close>, \<^verbatim>\<open>snapshotForWire\<close>, \<^verbatim>\<open>filterPatchForSocket\<close>.  Nothing unsubscribed leaks
    (C6); when filtering returns (\<open>Lazy.filterPatchForSocket_returns\<close>) and a path on which it does not (\<open>Lazy.isLazyFieldPath_trailing_slash\<close>); snapshot and filter
    agree (\<open>Lazy.stripLazyFields_is_filter\<close>).
  \<^item> \<open>Events\<close>: \<^verbatim>\<open>applyEvent\<close> of \<^verbatim>\<open>document.ts\<close>, every event of an agent run as operations.  What an event
    may touch (\<open>Events.applyEvent_frame\<close>), streamed text, streamed arguments, streamed tool output (\<open>Events.text_stream_accumulates\<close>, \<open>Events.toolcall_delta_updates_arguments\<close>, \<open>Events.streamedToolContentOp_equiv\<close>).
  \<^item> \<open>GitStamp\<close>: \<^verbatim>\<open>git-stamp.ts\<close>, parsing of git stamps (\<open>GitStamp.parseGitStamp_roundtrip\<close>, \<open>GitStamp.parseGitStampData_sound\<close>).
  \<^item> \<open>Sync\<close>: \<^verbatim>\<open>sync.ts\<close>, the initial sync frame: delta and replace agree (C7), cursors (\<open>Sync.validateCursor_iff\<close>).
  \<^item> \<open>Cache\<close>: \<^verbatim>\<open>cache.ts\<close>.  The contract of a store is the locale \<open>entry_cache_store\<close>, interpreted by the
    in-memory store; cursors of a record set (\<open>Cache.computeCursor_iff\<close>), incremental writes (C37).
  \<^item> \<open>Codec\<close>: \<^verbatim>\<open>compact-codec.ts\<close>, lossless (C9) and compacting (\<open>Codec.encode_compacts_run\<close>).
  \<^item> \<open>Projection\<close>: \<^verbatim>\<open>projection.ts\<close>, the closure variables of \<^verbatim>\<open>createEntryProjection\<close> as the record
    \<open>Proj\<close>; \<open>refresh\<close>, \<open>projectEvent\<close>, \<open>settle\<close>, \<open>refreshFrom\<close> as functions on it; reachable states by the
    inductive predicate \<open>proj_reach\<close> with the invariant \<open>reach_inv\<close> (C2, C10, \<open>Projection.refresh_installs\<close>, \<open>Projection.refresh_bootstrap\<close>, \<open>Projection.settle_drops_live_forms\<close>).
  \<^item> \<open>Client\<close>: \<^verbatim>\<open>client.ts\<close>, \<^verbatim>\<open>DocumentMirror\<close> and \<^verbatim>\<open>BridgeClient\<close> as records; promises and callbacks are
    logs in the state, a message is the parsed value or \<open>None\<close> for text that does not parse (C8, C13,
    \<open>Client.attachment_isolation\<close>, \<open>Client.violation_reported_once\<close>, \<open>Client.planPull_exact\<close>).
  \<^item> \<open>Recovery\<close>: \<^verbatim>\<open>recovery.ts\<close>, the recoverable boundary (C12) and the relay of interrupted tools (C38,
    C39).
  \<^item> \<open>Reactor\<close>: \<^verbatim>\<open>reactor.ts\<close>, a mailbox with effects; the step function is a parameter and effects settle
    in any order (C11, \<open>Reactor.drain_resolves\<close>, \<open>Reactor.closed_final\<close>).
  \<^item> \<open>Replication\<close>: the composition of \<open>Projection\<close>, \<open>Codec\<close> and \<open>Client\<close>: the mirror of a client equals
    the document of the host along every run (C1).
  \<^item> \<open>HistoryTree\<close>: \<^verbatim>\<open>packages/bridge/src/viewmodel/tree.ts\<close>, first pass: the tree of user messages is exact
    (C40) and its collapse loses nothing (\<open>HistoryTree.collapse_loses_nothing\<close>).
  \<^item> \<open>LaneLayout\<close>: the second pass, rows and lanes: lineages do not overlap (\<open>LaneLayout.lineages_apart\<close>), the layout
    is complete (\<open>LaneLayout.layout_complete\<close>), follow-ups stay on their lane (\<open>LaneLayout.primary_child_stays\<close>).
  \<^item> \<open>ApplyPatch\<close>: \<^verbatim>\<open>viewmodel/apply-patch.ts\<close>, the display parser of patch envelopes: it shows what a well-formed
    envelope says (C30), and sections are final once another follows (\<open>ApplyPatch.streaming_sections_final\<close>).
  \<^item> \<open>Accounting\<close>: \<^verbatim>\<open>viewmodel/accounting.ts\<close>, the billing ledger of a session (\<open>Accounting.ledger_adds_up\<close>).
  \<^item> \<open>ViewPath\<close>: the walks along parent links of \<^verbatim>\<open>viewmodel/index.ts\<close>, the fork point of a peek (C31), the
    newest leaf of a variant (C32), path keys, and what a send inherits (\<open>ViewPath.inherits_nearest_on_path\<close>).
  \<^item> \<open>Actions\<close>: the texts of tool calls in \<^verbatim>\<open>viewmodel/index.ts\<close>: paths (\<open>Actions.displayPath_cases\<close>), summaries, headers, model cycling.
  \<^item> \<open>Shell\<close>: its display of shell commands: the scanner is lossless (C33) and the decoration keeps the
    command (C34).
  \<^item> \<open>ProviderError\<close>: the errors of providers inside a string: the scanner finds the end of an object (\<open>ProviderError.scanJsonObject_exact\<close>), and
    an error is read whatever surrounds it (C29).
  \<^item> \<open>Blocks\<close>: the blocks of an assistant turn, their segments (\<open>Blocks.segments_partition\<close>), the groups of git stamps (C28,
    \<open>Blocks.stamps_assigned_once\<close>), the pulls of an action, and the time estimates (\<open>Blocks.tool_time_bounded\<close>).
  \<^item> \<open>ViewTurns\<close>: \<^verbatim>\<open>computeViewModel\<close>, the fold of the path into turns with its closure variables as the record \<open>ViewFold\<close>: the
    view shows the path (C24), its keys are append-only (C25), its assistant turns are maximal
    (C26), and messages show the git state before them (C27).
  \<^item> \<open>Lifecycle\<close>: \<^verbatim>\<open>packages/bridge/src/host/lifecycle-scope.ts\<close>, the queue of serialized operations with a terminal
    close (\<open>Lifecycle.scope_serial\<close>).
  \<^item> \<open>SessionActor\<close>: \<^verbatim>\<open>host/session-actor.ts\<close>, admission, observations, idle collection and teardown of one session
    (C5, C14, \<open>SessionActor.delivery_only_to_held\<close>, \<open>SessionActor.idle_collection\<close>).  It holds a scope of \<open>Lifecycle\<close> for its mutations.
  \<^item> \<open>Listing\<close>: the reads of the actor, pull, previews (\<open>Listing.preview_one_line\<close>) and the listing summary (\<open>Listing.summary_exact\<close>).
  \<^item> \<open>Registry\<close>: \<^verbatim>\<open>host/activation-registry.ts\<close> around the actors, with the fresh sessions and the target check of
    \<^verbatim>\<open>host/worker-local.ts\<close>: exclusivity (C4), claims (\<open>Registry.session_claims\<close>), targets (C16) and shutdown
    (C15, C17).  Two lemmas at its end show what a shutdown lets \<^verbatim>\<open>archiveSession\<close> see and what
    a rejected collection does to its address.
  \<^item> \<open>Title\<close>: \<^verbatim>\<open>host/process-title.ts\<close> and the activity tracking of \<^verbatim>\<open>host/manager.ts\<close> (\<open>Title.title_throttled\<close>, \<open>Title.title_fits\<close>,
    \<open>Title.idle_title_honest\<close>).
  \<^item> \<open>WorkerProtocol\<close>: \<^verbatim>\<open>host/worker-protocol.ts\<close>, the frames between a daemon and a worker.
  \<^item> \<open>WorkerServer\<close>: \<^verbatim>\<open>host/worker-server.ts\<close>, the worker's end of a connection as the record \<open>ServerLink\<close>; the service is the
    environment.  Observations are released (C18), requests answered (C19), a shutdown drains
    (C20).
  \<^item> \<open>WorkerClient\<close>: \<^verbatim>\<open>host/worker-client.ts\<close>, the daemon's end as the record \<open>WorkerLink\<close>: the end of the link settles everything
    (C21) and an observation ends once (C22); three lemmas at its end show where its end is not told.
  \<^item> \<open>WorkerRpc\<close>: both ends: a remote call is the call (C23).
  \<^item> \<open>Resume\<close>: the composition of \<open>Cache\<close> and \<open>Sync\<close>: resuming from a cache equals a full replace (C3).

  \<^bold>\<open>Errors, loops and bounds.\<close>  A thrown error is the left side of a sum or \<open>None\<close>, as each theory says.  Loops
  that follow parent links or strip path segments may not end in the source and are partial
  functions with an option result; the theorems prove that they return on what the program builds
  (forests, paths without trailing slash) and, where the source does not return, that they do not.
  There is no fuel, except that the history tree is built to the depth of the number of user
  messages, which is shown to be enough.  The bound of 12000 characters in the relay is the source's.

  \<^bold>\<open>Hypotheses.\<close>  Entry ids and field names are usable in paths (\<open>plain_key\<close>: no slash and no tilde, as the
  ids the agent generates), values on the wire are JSON (\<open>clean\<close>), logs are append-only (a parent
  precedes its children).  Each property with hypotheses has a witness.

  \<^bold>\<open>Concurrency.\<close>  The host runs on one event loop: code between two \<^verbatim>\<open>await\<close>s is atomic.  The theories of the
  host cut every asynchronous method there; an inductive step relation lets the pieces, the callers and
  the environment interleave in any order, and the properties hold in every reachable state.

  \<^bold>\<open>Not modelled.\<close>  Object identity: an unchanged subtree is compared by value where the source compares
  references first.  Floating-point rounding and NaN.  Sockets, files and subprocesses: the rest of the host
  (\<^verbatim>\<open>packages/bridge/src/host\<close>), the web client with the key of its cache (\<^verbatim>\<open>viewModelCacheKey\<close>), and the other packages of the
  repository (agent, model providers, terminal, durable, chord), of which only the types named above
  are used.
\<close>

end
